(* ===== verification/Prelude.thy ===== *)
theory Prelude
  imports Main "HOL-Library.Word" "HOL-Library.Multiset"
begin

unbundle bit_operations_syntax

text \<open>
  Shared vocabulary of the development: the widths of the C integers, the error numbers the
  library returns, the lemma collections the component proofs rely on, and generic lemmas on
  words (unsigned ranges, wrap-around), on lists and on transition systems.
\<close>

section \<open>C integers and error numbers\<close>

type_synonym u8 = "8 word"
type_synonym u16 = "16 word"
type_synonym u32 = "32 word"
type_synonym u64 = "64 word"

text \<open>
  An \<open>int\<close>-valued C function that returns 0 or a negative error number is a function into
  \<open>status\<close>; one that returns a value or a negative error number is a function into \<open>res\<close>.
  \<open>EOTHER\<close> stands for an error number that the kernel or a user callback produced.
\<close>

datatype errno = EINTR | EIO | ENXIO | EAGAIN | ENOMEM | EFAULT | EBUSY | ENODEV | EINVAL | ERANGE
  | EMLINK | EOVERFLOW | EMSGSIZE | ENOTSUP | ENOBUFS | EISCONN | EOTHER nat

type_synonym 'a res = "errno + 'a"
type_synonym status = "unit res"

abbreviation OK :: status where
  "OK \<equiv> Inr ()"

primrec errno_code :: "errno \<Rightarrow> nat" where
  "errno_code EINTR = 4"
| "errno_code EIO = 5"
| "errno_code ENXIO = 6"
| "errno_code EAGAIN = 11"
| "errno_code ENOMEM = 12"
| "errno_code EFAULT = 14"
| "errno_code EBUSY = 16"
| "errno_code ENODEV = 19"
| "errno_code EINVAL = 22"
| "errno_code EMLINK = 31"
| "errno_code ERANGE = 34"
| "errno_code EOVERFLOW = 75"
| "errno_code EMSGSIZE = 90"
| "errno_code ENOTSUP = 95"
| "errno_code ENOBUFS = 105"
| "errno_code EISCONN = 106"
| "errno_code (EOTHER n) = Suc n"

lemma errno_code_pos [simp]: "0 < errno_code e"
  by (cases e) auto

section \<open>Lemma collections\<close>

named_theorems vhd_defs \<open>definitions of small operations that proofs unfold\<close>
named_theorems vhd_frame \<open>fields that an operation does not change\<close>

section \<open>Unsigned ranges on words\<close>

text \<open>
  \<open>in_range b n a\<close>: the address \<open>a\<close> lies in the \<open>n\<close> bytes from \<open>b\<close>, the test
  \<open>a >= b && a - b < n\<close> that the code uses.
\<close>

definition in_range :: "'a::len word \<Rightarrow> 'a word \<Rightarrow> 'a word \<Rightarrow> bool" where
  "in_range b n a \<longleftrightarrow> b \<le> a \<and> a - b < n"

lemma unat_sub_le: "b \<le> a \<Longrightarrow> unat (a - b) = unat a - unat b"
  for a b :: "'a::len word"
  by (rule unat_sub)

lemma in_range_unat:
  "in_range b n a \<longleftrightarrow> unat b \<le> unat a \<and> unat a < unat b + unat n"
  by (auto simp: in_range_def word_le_nat_alt word_less_nat_alt unat_sub_le)

lemma unat_add_bound:
  fixes a b :: "'a::len word"
  assumes "unat a + unat b < 2 ^ LENGTH('a)"
  shows "unat (a + b) = unat a + unat b"
  using assms by (simp add: unat_word_ariths)

lemma unat_add_64:
  "unat a + unat b < 2 ^ 64 \<Longrightarrow> unat (a + b) = unat a + unat b"
  for a b :: u64
  by (rule unat_add_bound) simp

lemma unat_less_64: "unat x < 2 ^ 64" for x :: u64
proof -
  have "unat x < 2 ^ LENGTH(64)" by (rule unsigned_less)
  then show ?thesis by simp
qed

lemma unat_less_16: "unat x < 2 ^ 16" for x :: u16
proof -
  have "unat x < 2 ^ LENGTH(16)" by (rule unsigned_less)
  then show ?thesis by simp
qed

lemma unat_of_nat_64: "k < 2 ^ 64 \<Longrightarrow> unat (word_of_nat k :: u64) = k"
  by (simp add: unat_of_nat)

lemma unat_of_nat_16: "k < 2 ^ 16 \<Longrightarrow> unat (word_of_nat k :: u16) = k"
  by (simp add: unat_of_nat)

lemma unat_add_63:
  "unat a + unat b < 2 ^ 63 \<Longrightarrow> unat (a + b) = unat a + unat b"
  for a b :: u64
  by (rule unat_add_64) simp

lemma unat_add_16:
  "unat a + unat b < 2 ^ 16 \<Longrightarrow> unat (a + b) = unat a + unat b"
  for a b :: u16
  by (rule unat_add_bound) simp

lemma unat_ucast_up: "LENGTH('a) \<le> LENGTH('b) \<Longrightarrow> unat (ucast x :: 'b::len word) = unat x"
  for x :: "'a::len word"
proof -
  assume "LENGTH('a) \<le> LENGTH('b)"
  then have "unat x < 2 ^ LENGTH('b)"
    by (intro less_le_trans [OF unsigned_less]) (simp add: power_increasing)
  then show ?thesis by (simp add: unsigned_ucast_eq take_bit_nat_eq_self_iff)
qed

lemma unat_ucast_le: "unat (ucast x :: 'b::len word) \<le> unat x" for x :: "'a::len word"
  by (simp add: unsigned_ucast_eq)

text \<open>The C idiom \<open>a + n < a\<close> detects exactly the unsigned overflow of \<open>a + n\<close>.\<close>

lemma overflow_check:
  fixes a n :: "'a::len word"
  shows "\<not> a + n < a \<longleftrightarrow> unat a + unat n < 2 ^ LENGTH('a)"
proof
  assume h: "\<not> a + n < a"
  show "unat a + unat n < 2 ^ LENGTH('a)"
  proof (rule ccontr)
    assume "\<not> unat a + unat n < 2 ^ LENGTH('a)"
    then have big: "2 ^ LENGTH('a) \<le> unat a + unat n" by simp
    have n: "unat n < 2 ^ LENGTH('a)" and a: "unat a < 2 ^ LENGTH('a)"
      by (rule unsigned_less)+
    from a n have "unat a + unat n - 2 ^ LENGTH('a) < 2 ^ LENGTH('a)" by linarith
    with big have "unat (a + n) = unat a + unat n - 2 ^ LENGTH('a)"
      by (simp add: unat_word_ariths le_mod_geq)
    with n big a have "unat (a + n) < unat a" by linarith
    with h show False by (simp add: word_less_nat_alt)
  qed
next
  assume "unat a + unat n < 2 ^ LENGTH('a)"
  then have "unat (a + n) = unat a + unat n" by (rule unat_add_bound)
  then show "\<not> a + n < a" by (simp add: word_less_nat_alt)
qed

lemma unat_Suc_16: "unat (a - b) = Suc n \<Longrightarrow> unat (a - (b + 1)) = n"
  for a b :: u16
proof -
  assume h: "unat (a - b) = Suc n"
  have "a - (b + 1) = (a - b) - 1" by simp
  moreover have "(1::u16) \<le> a - b" using h by (simp add: word_le_nat_alt)
  ultimately have "unat (a - (b + 1)) = unat (a - b) - unat (1::u16)" 
    by (metis unat_sub_le)
  with h show ?thesis by simp
qed

lemma unat_and_not_mask: "unat (x AND NOT (mask k)) = unat x div 2 ^ k * 2 ^ k"
  for x :: "'a::len word"
proof -
  have le: "unat x div 2 ^ k * 2 ^ k < 2 ^ LENGTH('a)"
    by (rule le_less_trans [OF div_times_less_eq_dividend unsigned_less])
  have "x AND NOT (mask k) = push_bit k (drop_bit k x)"
    by (rule bit_word_eqI) (auto simp: bit_simps)
  then have "unat (x AND NOT (mask k)) = unat (push_bit k (drop_bit k x))"
    by (rule arg_cong)
  also have "\<dots> = take_bit LENGTH('a) (push_bit k (drop_bit k (unat x)))"
    by (simp only: unsigned_push_bit_eq unat_drop_bit_eq)
  also have "\<dots> = unat x div 2 ^ k * 2 ^ k"
    using le by (simp only: push_bit_eq_mult drop_bit_eq_div take_bit_nat_eq_self)
  finally show ?thesis .
qed

section \<open>Invariants of transition systems\<close>

text \<open>
  The components with concurrent or asynchronous behaviour are transition systems: an initial
  predicate and a step relation. \<open>reach\<close> is the set of reachable states. The locale is
  the interface between such a component and the proof that an invariant holds throughout.
\<close>

inductive reach :: "('s \<Rightarrow> bool) \<Rightarrow> ('s \<Rightarrow> 's \<Rightarrow> bool) \<Rightarrow> 's \<Rightarrow> bool"
  for start :: "'s \<Rightarrow> bool" and step :: "'s \<Rightarrow> 's \<Rightarrow> bool" where
  reach_start: "start s \<Longrightarrow> reach start step s"
| reach_step: "reach start step s \<Longrightarrow> step s t \<Longrightarrow> reach start step t"

locale inductive_invariant =
  fixes start :: "'s \<Rightarrow> bool" and step :: "'s \<Rightarrow> 's \<Rightarrow> bool" and inv :: "'s \<Rightarrow> bool"
  assumes inv_start: "start s \<Longrightarrow> inv s"
    and inv_step: "inv s \<Longrightarrow> step s t \<Longrightarrow> inv t"
begin

lemma reach_inv: "reach start step s \<Longrightarrow> inv s"
  by (induction rule: reach.induct) (auto intro: inv_start inv_step)

end

end
