(* ===== verification/Platform.thy ===== *)
theory Platform
  imports Prelude
begin

text \<open>
  The parts of \<open>platform.h\<close> and \<open>objref.h\<close> that the components use: page sizes, rounding
  to a power of two, the first set bit of a word, allocation, and the reference counter with its
  \<open>get\<close> and \<open>put\<close> operations; and the bytes of packed structures.
\<close>

section \<open>Sizes and alignment\<close>

definition PAGE_SIZE :: u64 where
  "PAGE_SIZE = 0x1000"

definition HUGE_PAGE_SIZE :: u64 where
  "HUGE_PAGE_SIZE = 0x200000"

definition VHD_ALIGN_UP :: "u64 \<Rightarrow> u64 \<Rightarrow> u64" where
  "VHD_ALIGN_UP x a = (let m = a - 1 in (x + m) AND NOT m)"

definition vhd_find_first_bit32 :: "u32 \<Rightarrow> nat" where
  "vhd_find_first_bit32 v = length (takeWhile (\<lambda>i. \<not> bit v i) [0..<32])"

text \<open>
  An array of zeroed elements, whose size is not 0. An empty one is refused by an assertion;
  memory does not run out.
\<close>

definition vhd_calloc :: "nat \<Rightarrow> 'a \<Rightarrow> 'a list option" where
  "vhd_calloc nmemb z = (if nmemb = 0 then None else Some (replicate nmemb z))"

lemma unat_PAGE_SIZE [simp]: "unat PAGE_SIZE = 2 ^ 12"
  by (simp add: PAGE_SIZE_def)

lemma unat_HUGE_PAGE_SIZE [simp]: "unat HUGE_PAGE_SIZE = 2 ^ 21"
  by (simp add: HUGE_PAGE_SIZE_def)

text \<open>Rounding up to a power of two, on natural numbers.\<close>

definition round_up :: "nat \<Rightarrow> nat \<Rightarrow> nat" where
  "round_up n k = (n + (2 ^ k - 1)) div 2 ^ k * 2 ^ k"

lemma round_up_ge: "n \<le> round_up n k"
proof -
  have "(n + (2 ^ k - 1)) mod 2 ^ k < 2 ^ k" by simp
  moreover have "(n + (2 ^ k - 1)) div 2 ^ k * 2 ^ k + (n + (2 ^ k - 1)) mod 2 ^ k = n + (2 ^ k - 1)"
    by (rule div_mult_mod_eq)
  ultimately show ?thesis unfolding round_up_def by linarith
qed

lemma round_up_less: "round_up n k < n + 2 ^ k"
proof -
  have "(n + (2 ^ k - 1)) div 2 ^ k * 2 ^ k \<le> n + (2 ^ k - 1)"
    by (rule div_times_less_eq_dividend)
  then show ?thesis unfolding round_up_def
    by (metis (no_types, lifting) Nat.add_diff_assoc add_gr_0 diff_less le_less_trans less_one
        one_le_numeral one_le_power zero_less_numeral zero_less_power)
qed

lemma round_up_dvd [simp]: "2 ^ k dvd round_up n k"
  by (simp add: round_up_def)

lemma round_up_id: "2 ^ k dvd n \<Longrightarrow> round_up n k = n"
proof -
  assume d: "2 ^ k dvd n"
  have "round_up n k < n + 2 ^ k" by (rule round_up_less)
  moreover have "n \<le> round_up n k" by (rule round_up_ge)
  moreover have "2 ^ k dvd round_up n k - n" using d by (simp add: dvd_diff_nat)
  ultimately show ?thesis
    by (metis add_diff_inverse_nat dvd_imp_le linorder_not_less nat_add_left_cancel_less
        le_add_diff_inverse less_irrefl_nat zero_less_diff antisym_conv2)
qed

lemma dvd_gap:
  fixes u v d :: nat
  assumes "d dvd u" and "d dvd v" and "u < v"
  shows "u + d \<le> v"
proof -
  from assms have "d dvd v - u" and "0 < v - u" by (simp_all add: dvd_diff_nat)
  then have "d \<le> v - u" by (simp add: dvd_imp_le)
  with assms(3) show ?thesis by linarith
qed

lemma round_up_aligned_le:
  assumes "2 ^ j dvd n" and "j \<le> k"
  shows "round_up n k + 2 ^ j \<le> n + 2 ^ k"
proof (rule dvd_gap)
  show "2 ^ j dvd round_up n k"
    using assms(2) by (meson dvd_trans le_imp_power_dvd round_up_dvd)
  show "2 ^ j dvd n + 2 ^ k"
    using assms by (simp add: le_imp_power_dvd)
  show "round_up n k < n + 2 ^ k" by (rule round_up_less)
qed

lemma unat_VHD_ALIGN_UP:
  assumes a: "a = 2 ^ k" and k: "k < 64" and b: "unat x + (2 ^ k - 1) < 2 ^ 64"
  shows "unat (VHD_ALIGN_UP x a) = round_up (unat x) k"
proof -
  have m: "a - 1 = mask k" using a by (simp add: mask_eq_exp_minus_1)
  have um: "unat (mask k :: u64) = 2 ^ k - 1"
  proof -
    have "unat (mask k :: u64) = mask k"
      using k by (auto intro!: bit_eqI simp: bit_simps)
    then show ?thesis by (simp add: mask_eq_exp_minus_1)
  qed
  have "unat (x + mask k) = unat x + (2 ^ k - 1)"
    using b um unat_add_64 [of x "mask k"] by simp
  then show ?thesis
    by (simp add: VHD_ALIGN_UP_def m Let_def unat_and_not_mask round_up_def)
qed

lemma unat_ALIGN_HUGE:
  "unat x + (2 ^ 21 - 1) < 2 ^ 64 \<Longrightarrow> unat (VHD_ALIGN_UP x HUGE_PAGE_SIZE) = round_up (unat x) 21"
  by (rule unat_VHD_ALIGN_UP) (simp_all add: HUGE_PAGE_SIZE_def)

lemma unat_ALIGN_PAGE:
  "unat x + (2 ^ 12 - 1) < 2 ^ 64 \<Longrightarrow> unat (VHD_ALIGN_UP x PAGE_SIZE) = round_up (unat x) 12"
  by (rule unat_VHD_ALIGN_UP) (simp_all add: PAGE_SIZE_def)

lemma ALIGN_PAGE_id:
  assumes "2 ^ 12 dvd unat x" and "unat x < 2 ^ 63"
  shows "VHD_ALIGN_UP x PAGE_SIZE = x"
proof -
  have "unat (VHD_ALIGN_UP x PAGE_SIZE) = unat x"
    using assms by (subst unat_ALIGN_PAGE) (auto simp: round_up_id)
  then show ?thesis by (simp add: word_unat_eq_iff)
qed

section \<open>Reference counts\<close>

text \<open>
  \<open>refcount_dec_and_test\<close> returns the new count and whether the object is to be released:
  \<open>atomic_fetch_sub\<close> wraps, and the test is on the old value.
\<close>

definition objref_init :: u64 where
  "objref_init = 1"

definition refcount_inc :: "u64 \<Rightarrow> u64" where
  "refcount_inc r = r + 1"

definition refcount_dec_and_test :: "u64 \<Rightarrow> u64 \<times> bool" where
  "refcount_dec_and_test r = (r - 1, r = 1)"

section \<open>Packed structures\<close>

text \<open>The bytes of a little-endian field of a packed structure.\<close>

definition le_bytes :: "nat \<Rightarrow> 'a::len word \<Rightarrow> u8 list" where
  "le_bytes n w = map (\<lambda>i. ucast (drop_bit (8 * i) w)) [0..<n]"

text \<open>What the \<open>get_config\<close> functions of the devices copy into the buffer; the size they return is
  the length.\<close>

definition get_config_bytes :: "u8 list \<Rightarrow> nat \<Rightarrow> nat \<Rightarrow> u8 list" where
  "get_config_bytes config bufsize offset =
     (if offset \<ge> length config then []
      else take (min bufsize (length config - offset)) (drop offset config))"

primrec le_decode :: "u8 list \<Rightarrow> nat" where
  "le_decode [] = 0"
| "le_decode (b # bs) = unat b + 256 * le_decode bs"

lemma le_bytes_Suc: "le_bytes (Suc n) w = ucast w # le_bytes n (drop_bit 8 w)"
  by (simp add: le_bytes_def upt_conv_Cons map_Suc_upt [symmetric] add.commute del: upt_Suc)

lemma le_decode_bytes: "le_decode (le_bytes n w) = unat w mod 256 ^ n"
proof (induction n arbitrary: w)
  case (Suc n)
  have "unat (ucast w :: u8) = unat w mod 256" by (simp add: unsigned_ucast_eq take_bit_eq_mod)
  moreover have "unat (drop_bit 8 w) = unat w div 256" by (simp only: unat_drop_bit_eq) (simp add: drop_bit_eq_div)
  ultimately show ?case using Suc by (simp add: le_bytes_Suc mod_mult2_eq mult.commute)
qed (simp add: le_bytes_def)

lemma length_le_bytes [simp]: "length (le_bytes n w) = n"
  by (simp add: le_bytes_def)

lemma get_config_bytes_eq: "get_config_bytes config n off = take n (drop off config)"
  by (auto simp: get_config_bytes_def min_def)

lemma get_config_pieces:
  "get_config_bytes c n off @ get_config_bytes c k (off + n) = get_config_bytes c (n + k) off"
  by (simp add: get_config_bytes_eq take_add add.commute [of off])

section \<open>Powers of two\<close>

text \<open>The index of the first bit, and numbers that pass the usual test for powers of two.\<close>

lemma takeWhile_upt:
  defines "k P n \<equiv> length (takeWhile P [0..<n])"
  shows "i < k P n \<Longrightarrow> P i" and "k P n < n \<Longrightarrow> \<not> P (k P n)"
proof -
  show "P i" if "i < k P n"
  proof -
    have "i < n" using that length_takeWhile_le [of P "[0..<n]"] by (simp add: k_def)
    with that takeWhile_nth [of i P "[0..<n]"] have "takeWhile P [0..<n] ! i = i" by (simp add: k_def)
    with that show ?thesis using set_takeWhileD [of i P "[0..<n]"] nth_mem [of i "takeWhile P [0..<n]"]
      by (simp add: k_def)
  qed
  show "\<not> P (k P n)" if "k P n < n"
    using nth_length_takeWhile [of P "[0..<n]"] that by (simp add: k_def)
qed

lemma first_bit32:
  assumes "v \<noteq> 0"
  shows "bit v (vhd_find_first_bit32 v)" "\<forall>i < vhd_find_first_bit32 v. \<not> bit v i"
proof -
  let ?k = "vhd_find_first_bit32 v"
  obtain i where i: "bit v i" using assms by (auto simp: bit_eq_iff)
  then have "i < 32" using bit_imp_le_length [of v i] by simp
  show low: "\<forall>i < ?k. \<not> bit v i"
    using takeWhile_upt(1) [of _ "\<lambda>i. \<not> bit v i" 32] by (simp only: vhd_find_first_bit32_def) blast
  have "?k < 32"
  proof (rule ccontr)
    assume "\<not> ?k < 32"
    with low \<open>i < 32\<close> i show False by simp
  qed
  then show "bit v ?k"
    using takeWhile_upt(2) [of "\<lambda>i. \<not> bit v i" 32] by (simp only: vhd_find_first_bit32_def) blast
qed

lemma one_bit:
  fixes v :: u32
  assumes "v \<noteq> 0" and "v AND (v - 1) = 0"
  shows "unat v = 2 ^ vhd_find_first_bit32 v" "vhd_find_first_bit32 v < 32"
proof -
  let ?k = "vhd_find_first_bit32 v"
  note fb = first_bit32 [OF assms(1)]
  show "?k < 32" using bit_imp_le_length [OF fb(1)] by simp
  have low: "take_bit ?k (unat v) = 0"
    using fb(2) by (intro bit_eqI) (auto simp: bit_take_bit_iff bit_unsigned_iff)
  define z where "z = unat v div 2 ^ ?k div 2"
  have "unat v = 2 ^ ?k * (unat v div 2 ^ ?k)" 
    using low mult_div_mod_eq [of "2 ^ ?k" "unat v"] by (simp add: take_bit_eq_mod)
  moreover have "odd (unat v div 2 ^ ?k)" using fb(1) by (simp add: bit_unsigned_iff bit_iff_odd [symmetric])
  then have "unat v div 2 ^ ?k = 2 * z + 1"  by (simp add: z_def)
  ultimately have v: "unat v = 2 ^ Suc ?k * z + 2 ^ ?k" by (simp add: algebra_simps)
  have "1 \<le> v" using assms(1) by (simp add: word_le_nat_alt Suc_le_eq unat_gt_0)
  then have v1: "unat (v - 1) = 2 ^ Suc ?k * z + (2 ^ ?k - 1)"
    using v by (simp add: unat_sub_le)
  have "drop_bit (Suc ?k) (unat (v AND (v - 1))) = drop_bit (Suc ?k) (unat v) AND drop_bit (Suc ?k) (unat (v - 1))"
    by (simp add: unsigned_and_eq drop_bit_and)
  also have "drop_bit (Suc ?k) (unat (v - 1)) = z"
  proof -
    have "(2 ^ ?k - 1 :: nat) < 2 ^ Suc ?k" by (simp add: less_imp_diff_less)
    then have "(2 ^ Suc ?k * z + (2 ^ ?k - 1)) div 2 ^ Suc ?k = z"
      by (metis add.right_neutral div_less div_mult_self2 power_not_zero zero_neq_numeral add.commute)
    then show ?thesis by (simp only: v1 drop_bit_eq_div)
  qed
  also have "drop_bit (Suc ?k) (unat v) = z"
    by (simp add: drop_bit_eq_div z_def div_mult2_eq [symmetric] mult.commute)
  finally have "z = 0" using assms(2) by simp
  with v show "unat v = 2 ^ ?k" by simp
qed

lemma first_bit32_pow:
  assumes "unat (v :: u32) = 2 ^ j" and "j < 32"
  shows "vhd_find_first_bit32 v = j"
proof -
  have "v \<noteq> 0" using assms(1) by auto
  from first_bit32(1) [OF this] have "bit (2 ^ j :: nat) (vhd_find_first_bit32 v)"
    using assms(1) bit_unsigned_iff [of v "vhd_find_first_bit32 v", where ?'a = nat] by (auto dest: bit_imp_le_length)
  then show ?thesis by (simp add: bit_exp_iff)
qed

end
