(* ===== verification/Event.thy ===== *)
theory Event
  imports Platform "HOL-Library.Monad_Syntax"
begin

text \<open>
  The event loop of \<open>event.c\<close>: bottom halves (units of work that any thread may schedule onto
  a loop), the notification of the loop through an eventfd, and the handlers of file
  descriptors. Callbacks are values of a type that the user of the loop interprets; they work
  on the loop itself and on a state of their own. Following a pointer to a freed object, a failed
  assertion and a second free are \<open>None\<close>.
\<close>

section \<open>State\<close>

definition BH_PENDING :: u32 where "BH_PENDING = 1"
definition BH_SCHEDULED :: u32 where "BH_SCHEDULED = 2"
definition BH_DELETED :: u32 where "BH_DELETED = 4"
definition BH_ONESHOT :: u32 where "BH_ONESHOT = 8"

lemmas bh_flag_defs = BH_PENDING_def BH_SCHEDULED_def BH_DELETED_def BH_ONESHOT_def

record 'c vhd_bh =
  bh_cb :: 'c
  bh_flags :: u32

record 'c vhd_io_handler =
  h_fd :: int
  h_read :: "'c option"
  h_attached :: bool

text \<open>
  Bottom halves and handlers are heap objects of their loop. \<open>ev_bh_list\<close> has its head first;
  the counter of the notification eventfd is part of the loop.
\<close>

record 'c vhd_event_loop =
  ev_eventfd :: nat
  ev_notified :: bool
  ev_is_terminated :: bool
  ev_max_events :: nat
  ev_num_events_attached :: u32
  ev_bh_list :: "nat list"
  ev_has_home_thread :: bool
  ev_deleted_handlers :: "nat list"
  ev_bhs :: "nat \<Rightarrow> 'c vhd_bh option"
  ev_handlers :: "nat \<Rightarrow> 'c vhd_io_handler option"
  ev_next :: nat

section \<open>Bottom halves\<close>

definition evloop_notify :: "'c vhd_event_loop \<Rightarrow> 'c vhd_event_loop" where
  "evloop_notify ev =
     (if \<not> ev_notified ev then ev\<lparr>ev_notified := True, ev_eventfd := Suc (ev_eventfd ev)\<rparr> else ev)"

definition notify_accept :: "'c vhd_event_loop \<Rightarrow> 'c vhd_event_loop" where
  "notify_accept ev = (if ev_notified ev then ev\<lparr>ev_eventfd := 0, ev_notified := False\<rparr> else ev)"

definition bh_enqueue :: "nat \<Rightarrow> u32 \<Rightarrow> 'c vhd_event_loop \<Rightarrow> 'c vhd_event_loop option" where
  "bh_enqueue b new_flags ev =
     (case ev_bhs ev b of
        None \<Rightarrow> None
      | Some bh \<Rightarrow>
          (let old_flags = bh_flags bh;
               ev1 = ev\<lparr>ev_bhs := (ev_bhs ev)(b \<mapsto> bh\<lparr>bh_flags := old_flags OR (BH_PENDING OR new_flags)\<rparr>)\<rparr>;
               ev2 = (if old_flags AND BH_PENDING = 0 then ev1\<lparr>ev_bh_list := b # ev_bh_list ev1\<rparr> else ev1)
           in Some (evloop_notify ev2)))"

definition vhd_bh_new :: "'c \<Rightarrow> 'c vhd_event_loop \<Rightarrow> nat \<times> 'c vhd_event_loop" where
  "vhd_bh_new cb ev =
     (ev_next ev, ev\<lparr>ev_next := Suc (ev_next ev), ev_bhs := (ev_bhs ev)(ev_next ev \<mapsto> \<lparr>bh_cb = cb, bh_flags = 0\<rparr>)\<rparr>)"

definition vhd_bh_schedule_oneshot :: "'c \<Rightarrow> 'c vhd_event_loop \<Rightarrow> 'c vhd_event_loop option" where
  "vhd_bh_schedule_oneshot cb ev =
     (let (b, ev1) = vhd_bh_new cb ev in bh_enqueue b (BH_SCHEDULED OR BH_ONESHOT) ev1)"

definition vhd_bh_schedule :: "nat \<Rightarrow> 'c vhd_event_loop \<Rightarrow> 'c vhd_event_loop option" where
  "vhd_bh_schedule b ev = bh_enqueue b BH_SCHEDULED ev"

definition vhd_bh_cancel :: "nat \<Rightarrow> 'c vhd_event_loop \<Rightarrow> 'c vhd_event_loop option" where
  "vhd_bh_cancel b ev = map_option (\<lambda>bh. ev\<lparr>ev_bhs := (ev_bhs ev)
     (b \<mapsto> bh\<lparr>bh_flags := bh_flags bh AND NOT BH_SCHEDULED\<rparr>)\<rparr>) (ev_bhs ev b)"

definition vhd_bh_delete :: "nat \<Rightarrow> 'c vhd_event_loop \<Rightarrow> 'c vhd_event_loop option" where
  "vhd_bh_delete b ev = bh_enqueue b BH_DELETED ev"

text \<open>
  \<open>bh_dequeue\<close> on the list whose head is \<open>b\<close>: clear the flags and return the old ones. The
  list itself is consumed by the recursion of the callers.
\<close>

definition bh_dequeue :: "nat \<Rightarrow> 'c vhd_event_loop \<Rightarrow> ('c \<times> u32 \<times> 'c vhd_event_loop) option" where
  "bh_dequeue b ev = map_option (\<lambda>bh. (bh_cb bh, bh_flags bh, ev\<lparr>ev_bhs := (ev_bhs ev)
     (b \<mapsto> bh\<lparr>bh_flags := bh_flags bh AND NOT (BH_PENDING OR BH_SCHEDULED)\<rparr>)\<rparr>)) (ev_bhs ev b)"

definition bh_free :: "nat \<Rightarrow> 'c vhd_event_loop \<Rightarrow> 'c vhd_event_loop" where
  "bh_free b ev = ev\<lparr>ev_bhs := (ev_bhs ev)(b := None)\<rparr>"

type_synonym ('c, 's) callback = "'c \<Rightarrow> 'c vhd_event_loop \<times> 's \<Rightarrow> ('c vhd_event_loop \<times> 's) option"

fun bh_poll_loop ::
  "('c, 's) callback \<Rightarrow> nat list \<Rightarrow> 'c vhd_event_loop \<times> 's \<Rightarrow> (bool \<times> 'c vhd_event_loop \<times> 's) option" where
  "bh_poll_loop call [] st = Some (False, st)"
| "bh_poll_loop call (b # bs) st = do {
     (cb, flags, ev1) \<leftarrow> bh_dequeue b (fst st);
     (let run = (flags AND (BH_SCHEDULED OR BH_DELETED) = BH_SCHEDULED) in do {
        (ev2, s2) \<leftarrow> (if run then call cb (ev1, snd st) else Some (ev1, snd st));
        (let ev3 = (if flags AND (BH_DELETED OR BH_ONESHOT) \<noteq> 0 then bh_free b ev2 else ev2) in do {
           (ret, st') \<leftarrow> bh_poll_loop call bs (ev3, s2);
           Some (run \<or> ret, st')
         })
      })
   }"

definition bh_poll ::
  "('c, 's) callback \<Rightarrow> 'c vhd_event_loop \<times> 's \<Rightarrow> (bool \<times> 'c vhd_event_loop \<times> 's) option" where
  "bh_poll call st = bh_poll_loop call (ev_bh_list (fst st)) ((fst st)\<lparr>ev_bh_list := []\<rparr>, snd st)"

fun bh_cleanup_loop :: "nat list \<Rightarrow> 'c vhd_event_loop \<Rightarrow> 'c vhd_event_loop option" where
  "bh_cleanup_loop [] ev = Some ev"
| "bh_cleanup_loop (b # bs) ev = do {
     (cb, flags, ev1) \<leftarrow> bh_dequeue b ev;
     (if flags AND BH_DELETED = 0 then None else bh_cleanup_loop bs (bh_free b ev1))
   }"

definition bh_cleanup :: "'c vhd_event_loop \<Rightarrow> 'c vhd_event_loop option" where
  "bh_cleanup ev = bh_cleanup_loop (ev_bh_list ev) (ev\<lparr>ev_bh_list := []\<rparr>)"

section \<open>File descriptor handlers\<close>

text \<open>
  An event of \<open>epoll_wait\<close> names its handler, or none for the loop's own eventfd, and says
  whether one of \<open>EPOLLIN\<close>, \<open>EPOLLERR\<close>, \<open>EPOLLRDHUP\<close> is set. A read callback also returns
  whether it failed.
\<close>

type_synonym event = "nat option \<times> bool"
type_synonym ('c, 's) read_callback =
  "'c \<Rightarrow> 'c vhd_event_loop \<times> 's \<Rightarrow> (bool \<times> 'c vhd_event_loop \<times> 's) option"

definition handle_one_event ::
  "('c, 's) read_callback \<Rightarrow> 'c vhd_io_handler \<Rightarrow> bool \<Rightarrow> 'c vhd_event_loop \<times> 's
    \<Rightarrow> (bool \<times> 'c vhd_event_loop \<times> 's) option" where
  "handle_one_event call handler readable st =
     (case h_read handler of
        Some cb \<Rightarrow> if readable then call cb st else Some (False, st)
      | None \<Rightarrow> Some (False, st))"

fun handle_events_loop ::
  "('c, 's) read_callback \<Rightarrow> event list \<Rightarrow> 'c vhd_event_loop \<times> 's \<Rightarrow> (nat \<times> 'c vhd_event_loop \<times> 's) option" where
  "handle_events_loop call [] st = Some (0, st)"
| "handle_events_loop call ((None, e) # evs) st = handle_events_loop call evs st"
| "handle_events_loop call ((Some h, e) # evs) st = do {
     handler \<leftarrow> ev_handlers (fst st) h;
     (if \<not> h_attached handler then handle_events_loop call evs st
      else do {
        (err, st1) \<leftarrow> handle_one_event call handler e st;
        (nerr, st2) \<leftarrow> handle_events_loop call evs st1;
        Some ((if err then 1 else 0) + nerr, st2)
      })
   }"

fun free_handlers :: "nat list \<Rightarrow> 'c vhd_event_loop \<Rightarrow> 'c vhd_event_loop option" where
  "free_handlers [] ev = Some ev"
| "free_handlers (h # hs) ev =
     (if ev_handlers ev h = None then None
      else free_handlers hs (ev\<lparr>ev_handlers := (ev_handlers ev)(h := None)\<rparr>))"

definition handle_events ::
  "('c, 's) read_callback \<Rightarrow> event list \<Rightarrow> 'c vhd_event_loop \<times> 's \<Rightarrow> (nat \<times> 'c vhd_event_loop \<times> 's) option" where
  "handle_events call evs st = do {
     (nerr, ev1, s1) \<leftarrow> handle_events_loop call evs st;
     ev2 \<leftarrow> free_handlers (ev_deleted_handlers ev1) (ev1\<lparr>ev_deleted_handlers := []\<rparr>);
     Some (nerr, ev2, s1)
   }"

text \<open>
  \<open>epoll_ctl\<close> results are arguments. The operations run in the loop's home thread: \<open>home\<close>
  says whether the calling thread is that one, and the assertion fails otherwise.
\<close>

definition vhd_attach_io_handler ::
  "bool \<Rightarrow> status \<Rightarrow> nat \<Rightarrow> 'c vhd_event_loop \<Rightarrow> (status \<times> 'c vhd_event_loop) option" where
  "vhd_attach_io_handler home ctl h ev = do {
     handler \<leftarrow> ev_handlers ev h;
     (if \<not> home \<or> h_attached handler then None
      else case ctl of
             Inl e \<Rightarrow> Some (Inl e, ev)
           | Inr _ \<Rightarrow> Some (OK, ev\<lparr>ev_handlers := (ev_handlers ev)(h \<mapsto> handler\<lparr>h_attached := True\<rparr>)\<rparr>))
   }"

definition vhd_add_io_handler ::
  "bool \<Rightarrow> status \<Rightarrow> int \<Rightarrow> 'c option \<Rightarrow> 'c vhd_event_loop \<Rightarrow> (nat option \<times> 'c vhd_event_loop) option" where
  "vhd_add_io_handler home ctl fd read ev =
     (let h = ev_next ev;
          ev1 = ev\<lparr>ev_next := Suc h, ev_handlers := (ev_handlers ev)
                 (h \<mapsto> \<lparr>h_fd = fd, h_read = read, h_attached = False\<rparr>)\<rparr>
      in do {
        (ret, ev2) \<leftarrow> vhd_attach_io_handler home ctl h ev1;
        (case ret of
           Inl e \<Rightarrow> Some (None, ev2\<lparr>ev_handlers := (ev_handlers ev2)(h := None)\<rparr>)
         | Inr _ \<Rightarrow> Some (Some h, ev2\<lparr>ev_num_events_attached := ev_num_events_attached ev2 + 1\<rparr>))
      })"

definition vhd_detach_io_handler ::
  "bool \<Rightarrow> status \<Rightarrow> nat \<Rightarrow> 'c vhd_event_loop \<Rightarrow> (status \<times> 'c vhd_event_loop) option" where
  "vhd_detach_io_handler home ctl h ev = do {
     handler \<leftarrow> ev_handlers ev h;
     (if \<not> home then None
      else if \<not> h_attached handler then Some (OK, ev)
      else case ctl of
             Inl e \<Rightarrow> Some (Inl e, ev)
           | Inr _ \<Rightarrow> Some (OK, ev\<lparr>ev_handlers := (ev_handlers ev)(h \<mapsto> handler\<lparr>h_attached := False\<rparr>)\<rparr>))
   }"

definition vhd_del_io_handler ::
  "bool \<Rightarrow> status \<Rightarrow> nat \<Rightarrow> 'c vhd_event_loop \<Rightarrow> (status \<times> 'c vhd_event_loop) option" where
  "vhd_del_io_handler home ctl h ev = do {
     (ret, ev1) \<leftarrow> vhd_detach_io_handler home ctl h ev;
     (case ret of
        Inl e \<Rightarrow> Some (Inl e, ev1)
      | Inr _ \<Rightarrow>
          if ev_num_events_attached ev1 = 0 then None
          else Some (OK, ev1\<lparr>ev_deleted_handlers := h # ev_deleted_handlers ev1,
                             ev_num_events_attached := ev_num_events_attached ev1 - 1\<rparr>))
   }"

section \<open>The loop\<close>

text \<open>
  \<open>vhd_create_event_loop\<close>: the system calls' results are arguments; the descriptors it closes on
  failure are the second component.
\<close>

definition vhd_create_event_loop ::
  "int res \<Rightarrow> int res \<Rightarrow> status \<Rightarrow> nat \<Rightarrow> 'c vhd_event_loop option \<times> int list" where
  "vhd_create_event_loop epoll_create eventfd epoll_ctl max_events =
     (case epoll_create of
        Inl _ \<Rightarrow> (None, [])
      | Inr epollfd \<Rightarrow>
          (case eventfd of
             Inl _ \<Rightarrow> (None, [epollfd])
           | Inr notifyfd \<Rightarrow>
               (case epoll_ctl of
                  Inl _ \<Rightarrow> (None, [notifyfd, epollfd])
                | Inr _ \<Rightarrow>
                    (Some \<lparr>ev_eventfd = 0, ev_notified = False, ev_is_terminated = False,
                       ev_max_events = Suc max_events, ev_num_events_attached = 0, ev_bh_list = [],
                       ev_has_home_thread = False, ev_deleted_handlers = [], ev_bhs = (\<lambda>_. None),
                       ev_handlers = (\<lambda>_. None), ev_next = 0\<rparr>, []))))"

text \<open>The thread-local \<open>home_evloop\<close>: NULL, the loop at hand, or another one.\<close>

datatype home_evloop = NoHome | ThisLoop | OtherLoop

text \<open>
  One iteration. \<open>epoll\<close> is the result of \<open>epoll_wait\<close>: an error, or the ready events, none of
  them after a timeout.
\<close>

definition vhd_run_event_loop ::
  "('c, 's) callback \<Rightarrow> ('c, 's) read_callback \<Rightarrow> event list res \<Rightarrow> home_evloop \<Rightarrow> 'c vhd_event_loop \<times> 's
    \<Rightarrow> (status \<times> home_evloop \<times> 'c vhd_event_loop \<times> 's) option" where
  "vhd_run_event_loop call read_cb epoll home st =
     (case st of (ev, s) \<Rightarrow>
        if home = NoHome \<and> ev_has_home_thread ev then None
        else if home = OtherLoop then None
        else
          (let ev1 = (if home = NoHome then ev\<lparr>ev_has_home_thread := True\<rparr> else ev)
           in if ev_is_terminated ev1 then Some (OK, ThisLoop, ev1, s)
              else case epoll of
                     Inl e \<Rightarrow> Some (Inl (if e = EINTR then EAGAIN else e), ThisLoop, ev1, s)
                   | Inr evs \<Rightarrow>
                       if evs = [] then Some (Inl EAGAIN, ThisLoop, ev1, s)
                       else do {
                         (progress, st2) \<leftarrow> bh_poll call (notify_accept ev1, s);
                         (nerr, st3) \<leftarrow> handle_events read_cb evs st2;
                         Some (Inl (if nerr \<noteq> 0 then EIO else EAGAIN), ThisLoop, st3)
                       }))"

definition evloop_stop_bh :: "'c vhd_event_loop \<Rightarrow> 'c vhd_event_loop" where
  "evloop_stop_bh ev = ev\<lparr>ev_is_terminated := True\<rparr>"

text \<open>\<open>stop_cb\<close> is the callback whose meaning is \<open>evloop_stop_bh\<close>.\<close>

definition vhd_terminate_event_loop :: "'c \<Rightarrow> 'c vhd_event_loop \<Rightarrow> 'c vhd_event_loop option" where
  "vhd_terminate_event_loop stop_cb ev = vhd_bh_schedule_oneshot stop_cb ev"

text \<open>The result of freeing the loop: whether all its assertions held.\<close>

definition vhd_free_event_loop :: "'c vhd_event_loop \<Rightarrow> unit option" where
  "vhd_free_event_loop ev =
     (if \<not> ev_is_terminated ev \<or> ev_num_events_attached ev \<noteq> 0 then None
      else map_option (\<lambda>_. ()) (bh_cleanup ev))"

section \<open>The list of pending bottom halves\<close>

lemma flag_bits:
  "f AND BH_PENDING = 0 \<longleftrightarrow> \<not> bit f 0" "f AND BH_SCHEDULED = 0 \<longleftrightarrow> \<not> bit f 1"
  "f AND BH_DELETED = 0 \<longleftrightarrow> \<not> bit f 2" "f AND BH_ONESHOT = 0 \<longleftrightarrow> \<not> bit f 3"
  using and_exp_eq_0_iff_not_bit [of f 0] and_exp_eq_0_iff_not_bit [of f 1]
    and_exp_eq_0_iff_not_bit [of f 2] and_exp_eq_0_iff_not_bit [of f 3]
  by (simp_all add: bh_flag_defs)

lemma flag_sum_bits:
  "bit BH_PENDING n = (n = 0)" "bit BH_SCHEDULED n = (n = 1)" "bit BH_DELETED n = (n = 2)" "bit BH_ONESHOT n = (n = 3)"
proof -
  have "bit (2 ^ k :: u32) n = (n = k)" if "k < 4" for k
    using that by (auto simp: bit_exp_iff)
  from this [of 0] this [of 1] this [of 2] this [of 3] show
    "bit BH_PENDING n = (n = 0)" "bit BH_SCHEDULED n = (n = 1)" "bit BH_DELETED n = (n = 2)" "bit BH_ONESHOT n = (n = 3)"
    by (simp_all add: bh_flag_defs)
qed

lemma flag_pairs:
  "f AND (BH_SCHEDULED OR BH_DELETED) = BH_SCHEDULED \<longleftrightarrow> bit f 1 \<and> \<not> bit f 2"
  "f AND (BH_DELETED OR BH_ONESHOT) \<noteq> 0 \<longleftrightarrow> bit f 2 \<or> bit f 3"
proof -
  show "f AND (BH_SCHEDULED OR BH_DELETED) = BH_SCHEDULED \<longleftrightarrow> bit f 1 \<and> \<not> bit f 2"
  proof
    assume "f AND (BH_SCHEDULED OR BH_DELETED) = BH_SCHEDULED"
    then have "bit (f AND (BH_SCHEDULED OR BH_DELETED)) k = bit BH_SCHEDULED k" for k by simp
    from this [of 1] this [of 2] show "bit f 1 \<and> \<not> bit f 2"
      by (simp_all add: bit_simps flag_sum_bits)
  qed (rule bit_word_eqI, auto simp: bit_simps flag_sum_bits)
  have "f AND (BH_DELETED OR BH_ONESHOT) = (f AND BH_DELETED) OR (f AND BH_ONESHOT)"
    by (rule bit_word_eqI) (auto simp: bit_simps)
  moreover have "x OR y = 0 \<longleftrightarrow> x = 0 \<and> y = 0" for x y :: u32 by (rule or_eq_0_iff)
  ultimately show "f AND (BH_DELETED OR BH_ONESHOT) \<noteq> 0 \<longleftrightarrow> bit f 2 \<or> bit f 3"
    using flag_bits(3,4) [of f] by auto
qed

text \<open>
  A bottom half is on a list exactly while its pending flag is set: on the loop's list, or among
  \<open>rest\<close>, those that the running \<open>bh_poll\<close> has still to look at. So none is on a list twice,
  and none that is on a list has been freed.
\<close>

definition bh_pending :: "'c vhd_event_loop \<Rightarrow> nat \<Rightarrow> bool" where
  "bh_pending ev b = (case ev_bhs ev b of None \<Rightarrow> False | Some bh \<Rightarrow> bit (bh_flags bh) 0)"

definition bh_inv :: "'c vhd_event_loop \<Rightarrow> nat list \<Rightarrow> bool" where
  "bh_inv ev rest \<longleftrightarrow> distinct (ev_bh_list ev @ rest) \<and>
     (\<forall>b. bh_pending ev b \<longleftrightarrow> b \<in> set (ev_bh_list ev @ rest)) \<and> (\<forall>b \<ge> ev_next ev. ev_bhs ev b = None)"

lemma notify_frame_ev [simp]:
  "ev_bh_list (evloop_notify ev) = ev_bh_list ev" "ev_bhs (evloop_notify ev) = ev_bhs ev"
  "ev_next (evloop_notify ev) = ev_next ev"
  by (simp_all add: evloop_notify_def)

lemma bh_inv_pending: "bh_inv ev rest \<Longrightarrow> bh_pending ev b \<longleftrightarrow> b \<in> set (ev_bh_list ev) \<or> b \<in> set rest"
  by (simp add: bh_inv_def)

lemma bh_inv_alive: "bh_inv ev rest \<Longrightarrow> ev_bhs ev b = Some bh \<Longrightarrow> b < ev_next ev"
  by (metis bh_inv_def not_less option.distinct(1))

lemma bh_inv_next: "bh_inv ev rest \<Longrightarrow> ev_next ev \<le> b \<Longrightarrow> ev_bhs ev b = None"
  by (simp add: bh_inv_def)

text \<open>An operation that keeps the list and the pending flags keeps the invariant.\<close>

lemma bh_inv_cong:
  assumes "bh_inv ev rest" and "ev_bh_list ev' = ev_bh_list ev" and "\<And>b. bh_pending ev' b = bh_pending ev b"
    and "\<And>b. b \<ge> ev_next ev' \<Longrightarrow> ev_bhs ev' b = None"
  shows "bh_inv ev' rest"
  using assms by (simp add: bh_inv_def)

lemma bh_enqueue_inv:
  assumes inv: "bh_inv ev rest" and e: "bh_enqueue b f ev = Some ev'"
  shows "bh_inv ev' rest"
proof -
  from e obtain bh where bh: "ev_bhs ev b = Some bh" by (auto simp: bh_enqueue_def split: option.splits)
  let ?bhs = "(ev_bhs ev)(b \<mapsto> bh\<lparr>bh_flags := bh_flags bh OR (BH_PENDING OR f)\<rparr>)"
  have ev': "ev_bhs ev' = ?bhs" "ev_next ev' = ev_next ev"
    "ev_bh_list ev' = (if bit (bh_flags bh) 0 then ev_bh_list ev else b # ev_bh_list ev)"
    using e bh by (auto simp: bh_enqueue_def Let_def flag_bits)
  have p: "bh_pending ev' x \<longleftrightarrow> x = b \<or> bh_pending ev x" for x
    by (simp add: bh_pending_def ev' bit_simps flag_sum_bits)
  have "bit (bh_flags bh) 0 \<longleftrightarrow> bh_pending ev b" using bh by (simp add: bh_pending_def)
  moreover have "b < ev_next ev" using bh_inv_alive [OF inv bh] .
  ultimately show ?thesis using inv p bh_inv_pending [OF inv] by (auto simp: bh_inv_def ev')
qed

lemma bh_new_inv:
  assumes inv: "bh_inv ev rest" and n: "vhd_bh_new cb ev = (b, ev')"
  shows "bh_inv ev' rest" and "ev_bhs ev' b \<noteq> None"
proof -
  have ev': "b = ev_next ev" "ev' = ev\<lparr>ev_next := Suc b, ev_bhs := (ev_bhs ev)(b \<mapsto> \<lparr>bh_cb = cb, bh_flags = 0\<rparr>)\<rparr>"
    using n by (auto simp: vhd_bh_new_def)
  have fresh: "ev_bhs ev b = None" using bh_inv_next [OF inv] ev'(1) by simp
  have "bh_pending ev' x = bh_pending ev x" for x using fresh by (simp add: bh_pending_def ev'(2))
  then show "bh_inv ev' rest"
    by (intro bh_inv_cong [OF inv]) (use bh_inv_next [OF inv] ev' in auto)
  show "ev_bhs ev' b \<noteq> None" by (simp add: ev'(2))
qed

lemma bh_oneshot_inv:
  assumes "bh_inv ev rest"
  shows "\<exists>ev'. vhd_bh_schedule_oneshot cb ev = Some ev' \<and> bh_inv ev' rest"
proof -
  obtain b ev1 where n: "vhd_bh_new cb ev = (b, ev1)" by fastforce
  note n1 = bh_new_inv [OF assms n]
  then obtain ev' where "bh_enqueue b (BH_SCHEDULED OR BH_ONESHOT) ev1 = Some ev'"
    by (auto simp: bh_enqueue_def Let_def)
  with n bh_enqueue_inv [OF n1(1) this] show ?thesis by (simp add: vhd_bh_schedule_oneshot_def)
qed

lemma bh_cancel_inv:
  assumes inv: "bh_inv ev rest" and c: "vhd_bh_cancel b ev = Some ev'"
  shows "bh_inv ev' rest"
proof -
  from c obtain bh where bh: "ev_bhs ev b = Some bh"
    and ev': "ev' = ev\<lparr>ev_bhs := (ev_bhs ev)(b \<mapsto> bh\<lparr>bh_flags := bh_flags bh AND NOT BH_SCHEDULED\<rparr>)\<rparr>"
    by (auto simp: vhd_bh_cancel_def)
  have "bh_pending ev' x = bh_pending ev x" for x
    using bh by (simp add: ev' bh_pending_def bit_simps flag_sum_bits)
  then show ?thesis
    by (intro bh_inv_cong [OF inv]) (use bh_inv_next [OF inv] bh_inv_alive [OF inv bh] ev' in auto)
qed

lemma bh_dequeue_inv:
  assumes inv: "bh_inv ev (b # rest)"
  obtains bh ev' where "ev_bhs ev b = Some bh" "bh_dequeue b ev = Some (bh_cb bh, bh_flags bh, ev')" "bh_inv ev' rest"
    "ev_bhs ev' = (ev_bhs ev)(b \<mapsto> bh\<lparr>bh_flags := bh_flags bh AND NOT (BH_PENDING OR BH_SCHEDULED)\<rparr>)"
    "ev_bh_list ev' = ev_bh_list ev"
proof -
  have "bh_pending ev b" using bh_inv_pending [OF inv] by simp
  then obtain bh where bh: "ev_bhs ev b = Some bh" by (auto simp: bh_pending_def split: option.splits)
  let ?ev = "ev\<lparr>ev_bhs := (ev_bhs ev)(b \<mapsto> bh\<lparr>bh_flags := bh_flags bh AND NOT (BH_PENDING OR BH_SCHEDULED)\<rparr>)\<rparr>"
  have p: "bh_pending ?ev x \<longleftrightarrow> x \<noteq> b \<and> bh_pending ev x" for x
    by (simp add: bh_pending_def bit_simps flag_sum_bits)
  have "bh_inv ?ev rest"
    using inv p bh_inv_pending [OF inv] bh_inv_alive [OF inv bh] by (auto simp: bh_inv_def)
  then show thesis by (rule that [OF bh, rotated]) (simp_all add: bh_dequeue_def bh)
qed

section \<open>Running bottom halves\<close>

text \<open>
  The contract of the callbacks of a loop: they return, keep the invariant, and leave alone the
  bottom halves that are deleted or one-shot and not pending (nobody may schedule these).
\<close>

locale bh_client =
  fixes call :: "('c, 's) callback"
  assumes call_ok: "bh_inv ev rest \<Longrightarrow> \<exists>ev' s'. call cb (ev, s) = Some (ev', s') \<and> bh_inv ev' rest \<and>
    (\<forall>b bh. ev_bhs ev b = Some bh \<and> (bit (bh_flags bh) 2 \<or> bit (bh_flags bh) 3) \<and> \<not> bit (bh_flags bh) 0 \<longrightarrow>
       ev_bhs ev' b = Some bh)"
begin

lemma poll_loop_ok:
  "bh_inv ev bs \<Longrightarrow> \<exists>ret ev' s'. bh_poll_loop call bs (ev, s) = Some (ret, ev', s') \<and> bh_inv ev' []"
proof (induction bs arbitrary: ev s)
  case (Cons b bs)
  obtain bh ev1 where d: "ev_bhs ev b = Some bh" "bh_dequeue b ev = Some (bh_cb bh, bh_flags bh, ev1)" "bh_inv ev1 bs"
    "ev_bhs ev1 = (ev_bhs ev)(b \<mapsto> bh\<lparr>bh_flags := bh_flags bh AND NOT (BH_PENDING OR BH_SCHEDULED)\<rparr>)"
    using bh_dequeue_inv [OF Cons.prems] by metis
  let ?bh = "bh\<lparr>bh_flags := bh_flags bh AND NOT (BH_PENDING OR BH_SCHEDULED)\<rparr>"
  let ?run = "bh_flags bh AND (BH_SCHEDULED OR BH_DELETED) = BH_SCHEDULED"
  let ?free = "bh_flags bh AND (BH_DELETED OR BH_ONESHOT) \<noteq> 0"
  have flags: "?free \<longleftrightarrow> bit (bh_flags ?bh) 2 \<or> bit (bh_flags ?bh) 3" "\<not> bit (bh_flags ?bh) 0"
    by (simp_all add: flag_pairs bit_simps flag_sum_bits)
  obtain ev2 s2 where c: "(if ?run then call (bh_cb bh) (ev1, s) else Some (ev1, s)) = Some (ev2, s2)"
    "bh_inv ev2 bs" "?free \<Longrightarrow> ev_bhs ev2 b = Some ?bh"
    using call_ok [OF d(3), of "bh_cb bh" s] d(3,4) flags by (cases ?run) auto
  define ev3 where "ev3 = (if ?free then bh_free b ev2 else ev2)"
  have "bh_inv ev3 bs"
  proof (cases ?free)
    case True
    have "bh_pending ev3 x = bh_pending ev2 x" for x
      using c(3) [OF True] flags(2) True by (simp add: ev3_def bh_free_def bh_pending_def)
    then show ?thesis
      by (intro bh_inv_cong [OF c(2)]) (use bh_inv_next [OF c(2)] in \<open>auto simp: ev3_def bh_free_def\<close>)
  qed (use c(2) in \<open>simp add: ev3_def\<close>)
  from Cons.IH [OF this, of s2] obtain ret ev' s' where
    "bh_poll_loop call bs (ev3, s2) = Some (ret, ev', s')" "bh_inv ev' []" by blast
  with d(2) c(1) show ?case by (cases ?run; cases ?free) (auto simp: ev3_def)
qed auto

lemma poll_ok: "bh_inv ev [] \<Longrightarrow> \<exists>ret ev' s'. bh_poll call (ev, s) = Some (ret, ev', s') \<and> bh_inv ev' []"
proof -
  assume "bh_inv ev []"
  then have "bh_inv (ev\<lparr>ev_bh_list := []\<rparr>) (ev_bh_list ev)"
    by (simp add: bh_inv_def bh_pending_def)
  from poll_loop_ok [OF this] show ?thesis by (simp add: bh_poll_def)
qed

end

text \<open>The loop's own callback keeps the contract.\<close>

interpretation stop: bh_client "\<lambda>cb st. Some (evloop_stop_bh (fst st), snd st)"
  by unfold_locales (auto simp: evloop_stop_bh_def bh_inv_def bh_pending_def)

section \<open>Order and coalescing\<close>

text \<open>Schedule several bottom halves one after the other, and poll with a callback that only records.\<close>

primrec schedule_all :: "nat list \<Rightarrow> 'c vhd_event_loop \<Rightarrow> 'c vhd_event_loop option" where
  "schedule_all [] ev = Some ev"
| "schedule_all (b # bs) ev = do { ev1 \<leftarrow> vhd_bh_schedule b ev; schedule_all bs ev1 }"

definition record_cb :: "('c, 'c list) callback" where
  "record_cb cb st = Some (fst st, snd st @ [cb])"

lemma record_cb_apply: "record_cb cb (ev, tr) = Some (ev, tr @ [cb])"
  by (simp add: record_cb_def)

text \<open>The bottom half is idle or scheduled, neither deleted nor one-shot.\<close>

definition bh_plain :: "'c vhd_event_loop \<Rightarrow> nat \<Rightarrow> bool \<Rightarrow> bool" where
  "bh_plain ev b sched \<longleftrightarrow> (\<exists>bh. ev_bhs ev b = Some bh \<and> bit (bh_flags bh) 0 = sched \<and>
     bit (bh_flags bh) 1 = sched \<and> \<not> bit (bh_flags bh) 2 \<and> \<not> bit (bh_flags bh) 3)"

definition bh_callback :: "'c vhd_event_loop \<Rightarrow> nat \<Rightarrow> 'c option" where
  "bh_callback ev b = map_option bh_cb (ev_bhs ev b)"

lemma schedule_one:
  assumes "bh_plain ev b sched" and "sched \<longleftrightarrow> b \<in> set (ev_bh_list ev)"
  obtains ev' where "vhd_bh_schedule b ev = Some ev'" "ev_bh_list ev' = (if sched then ev_bh_list ev else b # ev_bh_list ev)"
    "bh_plain ev' b True" "\<And>x. x \<noteq> b \<Longrightarrow> ev_bhs ev' x = ev_bhs ev x" "bh_callback ev' = bh_callback ev"
proof -
  from assms(1) obtain bh where bh: "ev_bhs ev b = Some bh" "bit (bh_flags bh) 0 = sched"
    "\<not> bit (bh_flags bh) 2" "\<not> bit (bh_flags bh) 3" by (auto simp: bh_plain_def)
  show thesis
    by (rule that [of "the (vhd_bh_schedule b ev)"])
      (use bh in \<open>auto simp: vhd_bh_schedule_def bh_enqueue_def Let_def flag_bits bh_plain_def bit_simps
        flag_sum_bits bh_callback_def fun_eq_iff\<close>)
qed

lemma schedule_all_list:
  assumes "\<forall>x \<in> set (bs @ ev_bh_list ev). bh_plain ev x (x \<in> set (ev_bh_list ev))"
    and "distinct (ev_bh_list ev)"
  shows "\<exists>ev'. schedule_all bs ev = Some ev' \<and> ev_bh_list ev' = remdups (rev bs @ ev_bh_list ev) \<and>
    (\<forall>x \<in> set (bs @ ev_bh_list ev). bh_plain ev' x True) \<and> bh_callback ev' = bh_callback ev"
  using assms
proof (induction bs arbitrary: ev)
  case Nil
  then show ?case by (simp add: distinct_remdups_id)
next
  case (Cons b bs)
  have b: "bh_plain ev b (b \<in> set (ev_bh_list ev))" using Cons.prems(1) by simp
  obtain ev1 where s: "vhd_bh_schedule b ev = Some ev1"
    "ev_bh_list ev1 = (if b \<in> set (ev_bh_list ev) then ev_bh_list ev else b # ev_bh_list ev)"
    "bh_plain ev1 b True" "\<And>x. x \<noteq> b \<Longrightarrow> ev_bhs ev1 x = ev_bhs ev x" "bh_callback ev1 = bh_callback ev"
    using schedule_one [OF b] by metis
  have "bh_plain ev1 x (x \<in> set (ev_bh_list ev1))" if "x \<in> set (bs @ ev_bh_list ev1)" for x
    using that s(2-4) Cons.prems(1) by (cases "x = b") (auto simp: bh_plain_def split: if_splits)
  moreover have "distinct (ev_bh_list ev1)" using s(2) Cons.prems(2) by simp
  ultimately obtain ev' where r: "schedule_all bs ev1 = Some ev'" "ev_bh_list ev' = remdups (rev bs @ ev_bh_list ev1)"
    "\<forall>x \<in> set (bs @ ev_bh_list ev1). bh_plain ev' x True" "bh_callback ev' = bh_callback ev1"
    using Cons.IH [of ev1] by blast
  have "set (bs @ ev_bh_list ev1) = set ((b # bs) @ ev_bh_list ev)" using s(2) by auto
  moreover have "remdups (rev bs @ ev_bh_list ev1) = remdups (rev (b # bs) @ ev_bh_list ev)"
  proof -
    have "remdups (b # ev_bh_list ev) = ev_bh_list ev1"
      using s(2) Cons.prems(2) by (simp add: distinct_remdups_id)
    then show ?thesis by (metis append.assoc append_Cons append_Nil remdups_append2 rev.simps(2))
  qed
  ultimately show ?case using s(1,5) r by simp
qed

lemma poll_records:
  assumes "distinct bs" and "\<forall>b \<in> set bs. bh_plain ev b True"
  shows "\<exists>ret ev'. bh_poll_loop record_cb bs (ev, tr) = Some (ret, ev', tr @ map (\<lambda>b. the (bh_callback ev b)) bs) \<and>
    (ret \<longleftrightarrow> bs \<noteq> [])"
  using assms
proof (induction bs arbitrary: ev tr)
  case (Cons b bs)
  from Cons.prems(2) obtain bh where bh: "ev_bhs ev b = Some bh" "bit (bh_flags bh) 1" "\<not> bit (bh_flags bh) 2"
    "\<not> bit (bh_flags bh) 3" by (auto simp: bh_plain_def)
  let ?ev = "ev\<lparr>ev_bhs := (ev_bhs ev)(b \<mapsto> bh\<lparr>bh_flags := bh_flags bh AND NOT (BH_PENDING OR BH_SCHEDULED)\<rparr>)\<rparr>"
  have "\<forall>x \<in> set bs. bh_plain ?ev x True" using Cons.prems by (auto simp: bh_plain_def)
  moreover have "bh_callback ?ev = bh_callback ev" using bh(1) by (auto simp: bh_callback_def fun_eq_iff)
  ultimately obtain ret ev' where
    "bh_poll_loop record_cb bs (?ev, tr @ [bh_cb bh]) =
      Some (ret, ev', (tr @ [bh_cb bh]) @ map (\<lambda>b. the (bh_callback ev b)) bs)"
    using Cons.IH [of ?ev "tr @ [bh_cb bh]"] Cons.prems(1) by auto
  then show ?case
    using bh by (auto simp: bh_dequeue_def flag_pairs record_cb_apply bh_callback_def)
qed auto

section \<open>Waking the loop up\<close>

text \<open>
  Threads that schedule work run concurrently with the loop. The steps here are the atomic
  operations of \<open>bh_enqueue\<close> (insert into the list), \<open>evloop_notify\<close> (exchange of \<open>notified\<close>,
  write of the eventfd) and, on the loop's side, of \<open>vhd_run_event_loop\<close>: \<open>epoll_wait\<close> returns,
  \<open>notify_accept\<close> (read of \<open>notified\<close>, clear of the eventfd, exchange of \<open>notified\<close>), \<open>bh_poll\<close>.
  Scheduling a bottom half that is pending already skips the insertion. Only the number of list
  elements and of threads at each place matters.
\<close>

datatype loop_pc = Waiting | Checking | Clearing | Resetting | Polling

record wake_state =
  wk_notified :: bool
  wk_eventfd :: nat
  wk_listed :: nat
  wk_inserted :: nat \<comment> \<open>threads about to exchange \<open>notified\<close>\<close>
  wk_writing :: nat \<comment> \<open>threads about to write the eventfd\<close>
  wk_pc :: loop_pc

text \<open>A thread: the list insertion of \<open>bh_enqueue\<close>, which is skipped if the bottom half is pending.\<close>

definition enqueue_insert :: "bool \<Rightarrow> wake_state \<Rightarrow> wake_state" where
  "enqueue_insert was_pending s =
     s\<lparr>wk_listed := (if was_pending then wk_listed s else Suc (wk_listed s)), wk_inserted := Suc (wk_inserted s)\<rparr>"

text \<open>The exchange of \<open>evloop_notify\<close>, and its write of the eventfd.\<close>

definition notify_xchg :: "wake_state \<Rightarrow> wake_state" where
  "notify_xchg s =
     (if \<not> wk_notified s then s\<lparr>wk_inserted := wk_inserted s - 1, wk_notified := True, wk_writing := Suc (wk_writing s)\<rparr>
      else s\<lparr>wk_inserted := wk_inserted s - 1\<rparr>)"

definition notify_set_eventfd :: "wake_state \<Rightarrow> wake_state" where
  "notify_set_eventfd s = s\<lparr>wk_writing := wk_writing s - 1, wk_eventfd := Suc (wk_eventfd s)\<rparr>"

text \<open>The loop: the three operations of \<open>notify_accept\<close>, and the move of the list in \<open>bh_poll\<close>.\<close>

definition accept_read :: "wake_state \<Rightarrow> wake_state" where
  "accept_read s = s\<lparr>wk_pc := (if wk_notified s then Clearing else Polling)\<rparr>"

definition accept_clear_eventfd :: "wake_state \<Rightarrow> wake_state" where
  "accept_clear_eventfd s = s\<lparr>wk_eventfd := 0, wk_pc := Resetting\<rparr>"

definition accept_xchg :: "wake_state \<Rightarrow> wake_state" where
  "accept_xchg s = s\<lparr>wk_notified := False, wk_pc := Polling\<rparr>"

definition poll_move :: "wake_state \<Rightarrow> wake_state" where
  "poll_move s = s\<lparr>wk_listed := 0, wk_pc := Waiting\<rparr>"

lemmas wake_ops = enqueue_insert_def notify_xchg_def notify_set_eventfd_def accept_read_def accept_clear_eventfd_def
  accept_xchg_def poll_move_def

inductive wake_step :: "wake_state \<Rightarrow> wake_state \<Rightarrow> bool" where
  w_insert: "wake_step s (enqueue_insert was_pending s)"
| w_exchange: "0 < wk_inserted s \<Longrightarrow> wake_step s (notify_xchg s)"
| w_write: "0 < wk_writing s \<Longrightarrow> wake_step s (notify_set_eventfd s)"
| w_wake: "wk_pc s = Waiting \<Longrightarrow> 0 < wk_eventfd s \<or> other_event \<Longrightarrow> wake_step s (s\<lparr>wk_pc := Checking\<rparr>)"
| w_check: "wk_pc s = Checking \<Longrightarrow> wake_step s (accept_read s)"
| w_clear: "wk_pc s = Clearing \<Longrightarrow> wake_step s (accept_clear_eventfd s)"
| w_reset: "wk_pc s = Resetting \<Longrightarrow> wake_step s (accept_xchg s)"
| w_poll: "wk_pc s = Polling \<Longrightarrow> wake_step s (poll_move s)"

definition wake_start :: "wake_state \<Rightarrow> bool" where
  "wake_start s \<longleftrightarrow> s = \<lparr>wk_notified = False, wk_eventfd = 0, wk_listed = 0, wk_inserted = 0, wk_writing = 0,
     wk_pc = Waiting\<rparr>"

definition wake_inv :: "wake_state \<Rightarrow> bool" where
  "wake_inv s \<longleftrightarrow>
     (wk_notified s \<and> wk_pc s \<noteq> Resetting \<longrightarrow> 0 < wk_eventfd s \<or> 0 < wk_writing s) \<and>
     (0 < wk_listed s \<and> wk_pc s \<in> {Waiting, Checking} \<longrightarrow>
        0 < wk_inserted s \<or> 0 < wk_writing s \<or> 0 < wk_eventfd s)"

interpretation wake: inductive_invariant wake_start wake_step wake_inv
proof unfold_locales
  show "wake_start s \<Longrightarrow> wake_inv s" for s by (simp add: wake_start_def wake_inv_def)
  show "wake_inv t" if "wake_inv s" and "wake_step s t" for s t
    using that(2,1) by cases (auto simp: wake_inv_def wake_ops split: if_splits)
qed

text \<open>Without interleaving, the steps of a thread are \<open>evloop_notify\<close>, those of the loop \<open>notify_accept\<close>.\<close>

definition wake_view :: "'c vhd_event_loop \<Rightarrow> loop_pc \<Rightarrow> nat \<Rightarrow> nat \<Rightarrow> wake_state" where
  "wake_view ev pc ins wr = \<lparr>wk_notified = ev_notified ev, wk_eventfd = ev_eventfd ev,
     wk_listed = length (ev_bh_list ev), wk_inserted = ins, wk_writing = wr, wk_pc = pc\<rparr>"

lemma evloop_notify_steps:
  "wake_step\<^sup>*\<^sup>* (wake_view ev pc 1 0) (wake_view (evloop_notify ev) pc 0 0)"
proof (cases "ev_notified ev")
  case True
  have "wake_step (wake_view ev pc 1 0) (wake_view (evloop_notify ev) pc 0 0)"
    using w_exchange [of "wake_view ev pc 1 0"] True by (simp add: wake_ops wake_view_def evloop_notify_def)
  then show ?thesis by (rule r_into_rtranclp)
next
  case False
  let ?s = "(wake_view ev pc 0 1)\<lparr>wk_notified := True\<rparr>"
  have "wake_step (wake_view ev pc 1 0) ?s"
    using w_exchange [of "wake_view ev pc 1 0"] False by (simp add: wake_ops wake_view_def)
  moreover have "wake_step ?s (wake_view (evloop_notify ev) pc 0 0)"
    using w_write [of ?s] False by (simp add: wake_ops wake_view_def evloop_notify_def)
  ultimately show ?thesis by (rule converse_rtranclp_into_rtranclp [OF _ r_into_rtranclp])
qed

lemma notify_accept_steps:
  "wake_step\<^sup>*\<^sup>* (wake_view ev Checking ins wr) (wake_view (notify_accept ev) Polling ins wr)"
proof (cases "ev_notified ev")
  case False
  then show ?thesis
    using w_check [of "wake_view ev Checking ins wr"] by (simp add: wake_ops wake_view_def notify_accept_def r_into_rtranclp)
next
  case True
  let ?s = "wake_view ev Clearing ins wr" and ?t = "(wake_view ev Resetting ins wr)\<lparr>wk_eventfd := 0\<rparr>"
  have "wake_step (wake_view ev Checking ins wr) ?s"
    using w_check [of "wake_view ev Checking ins wr"] True by (simp add: wake_ops wake_view_def)
  moreover have "wake_step ?s ?t" using w_clear [of ?s] by (simp add: wake_ops wake_view_def)
  moreover have "wake_step ?t (wake_view (notify_accept ev) Polling ins wr)"
    using w_reset [of ?t] True by (simp add: wake_ops wake_view_def notify_accept_def)
  ultimately show ?thesis by (meson converse_rtranclp_into_rtranclp r_into_rtranclp)
qed

section \<open>Properties\<close>

text \<open>
  C8: scheduled work is never forgotten, however threads and loop interleave. In every
  reachable state in which the loop waits in \<open>epoll_wait\<close>, some bottom half is on the list and
  every thread is through with scheduling, the eventfd is readable, so the wait returns.
\<close>

theorem no_lost_wakeup:
  assumes "reach wake_start wake_step s" and "wk_pc s = Waiting" and "0 < wk_listed s"
    and "wk_inserted s = 0" and "wk_writing s = 0"
  shows "0 < wk_eventfd s"
  using wake.reach_inv [OF assms(1)] assms(2-) by (simp add: wake_inv_def)

lemma wake_run:
  "reach wake_start wake_step \<lparr>wk_notified = True, wk_eventfd = 1, wk_listed = 1, wk_inserted = 0, wk_writing = 0,
     wk_pc = Waiting\<rparr>"
proof -
  let ?s0 = "\<lparr>wk_notified = False, wk_eventfd = 0, wk_listed = 0, wk_inserted = 0, wk_writing = 0, wk_pc = Waiting\<rparr>"
  have "reach wake_start wake_step ?s0" by (rule reach_start) (simp add: wake_start_def)
  from reach_step [OF this w_insert [of _ False]] have "reach wake_start wake_step (?s0\<lparr>wk_listed := 1, wk_inserted := 1\<rparr>)"
    by (simp add: wake_ops)
  from reach_step [OF this w_exchange]
  have "reach wake_start wake_step (?s0\<lparr>wk_listed := 1, wk_notified := True, wk_writing := 1\<rparr>)" by (simp add: wake_ops)
  from reach_step [OF this w_write] show ?thesis by (simp add: wake_ops)
qed

theorem no_lost_wakeup_witness:
  "reach wake_start wake_step \<lparr>wk_notified = True, wk_eventfd = 1, wk_listed = 1, wk_inserted = 0, wk_writing = 0,
     wk_pc = Waiting\<rparr> \<and>
   0 < wk_eventfd \<lparr>wk_notified = True, wk_eventfd = 1, wk_listed = 1, wk_inserted = 0, wk_writing = 0, wk_pc = Waiting\<rparr>"
  using no_lost_wakeup [OF wake_run] wake_run by simp

text \<open>
  C29: bottom halves are run exactly once per poll however often they were scheduled, and in
  reverse order. Scheduling plain, idle bottom halves \<open>bs\<close> (with repetitions) on a loop with an
  empty list and polling once runs the callback of each of them once, the one scheduled last,
  counting first requests only, before those scheduled earlier.
\<close>

theorem bh_poll_coalesces_lifo:
  assumes "\<forall>b \<in> set bs. bh_plain ev b False" and "ev_bh_list ev = []"
  shows "\<exists>ev' ev'' ret. schedule_all bs ev = Some ev' \<and>
    bh_poll record_cb (ev', []) = Some (ret, ev'', map (\<lambda>b. the (bh_callback ev b)) (remdups (rev bs))) \<and>
    (ret \<longleftrightarrow> bs \<noteq> [])"
proof -
  obtain ev' where s: "schedule_all bs ev = Some ev'" "ev_bh_list ev' = remdups (rev bs)"
    "\<forall>x \<in> set bs. bh_plain ev' x True" "bh_callback ev' = bh_callback ev"
    using schedule_all_list [of bs ev] assms by auto
  let ?ev = "ev'\<lparr>ev_bh_list := []\<rparr>"
  have "\<forall>b \<in> set (remdups (rev bs)). bh_plain ?ev b True" using s(3) by (simp add: bh_plain_def)
  moreover have "bh_callback ?ev = bh_callback ev" using s(4) by (simp add: bh_callback_def fun_eq_iff)
  ultimately show ?thesis using poll_records [OF distinct_remdups, of "rev bs" ?ev "[]"] s
    by (auto simp: bh_poll_def)
qed

definition demo_loop :: "nat vhd_event_loop" where
  "demo_loop = \<lparr>ev_eventfd = 0, ev_notified = False, ev_is_terminated = False, ev_max_events = 33,
     ev_num_events_attached = 0, ev_bh_list = [], ev_has_home_thread = False, ev_deleted_handlers = [],
     ev_bhs = [0 \<mapsto> \<lparr>bh_cb = 10, bh_flags = 0\<rparr>, 1 \<mapsto> \<lparr>bh_cb = 11, bh_flags = 0\<rparr>], ev_handlers = (\<lambda>_. None), ev_next = 2\<rparr>"

theorem bh_poll_coalesces_lifo_witness:
  "\<exists>ev' ev'' ret. schedule_all [0, 1, 0] demo_loop = Some ev' \<and> bh_poll record_cb (ev', []) = Some (ret, ev'', [11, 10])"
proof -
  have "\<forall>b \<in> set [0, 1, 0]. bh_plain demo_loop b False"
    by (simp add: bh_plain_def demo_loop_def)
  from bh_poll_coalesces_lifo [OF this] show ?thesis by (auto simp: demo_loop_def bh_callback_def)
qed



text \<open>
  The loop can spin. There is a reachable state in which nothing is scheduled and no thread
  is active, but the eventfd stays readable with \<open>notified\<close> clear (a thread was between the
  exchange and the write while the loop accepted an earlier notification); one round of the
  loop leads back to the same state, so the loop is woken up again and again for nothing.
\<close>

theorem wakeup_spin:
  "\<exists>s. reach wake_start wake_step s \<and> wk_pc s = Waiting \<and> wk_listed s = 0 \<and> wk_inserted s = 0 \<and> wk_writing s = 0 \<and>
     \<not> wk_notified s \<and> 0 < wk_eventfd s \<and>
     (\<exists>s1 s2. wake_step s s1 \<and> wake_step s1 s2 \<and> wake_step s2 s)"
proof -
  let ?s = "\<lparr>wk_notified = False, wk_eventfd = 1, wk_listed = 0, wk_inserted = 0, wk_writing = 0, wk_pc = Waiting\<rparr>"
  let ?r = "reach wake_start wake_step"
  have "?r (?s\<lparr>wk_eventfd := 0\<rparr>)" by (rule reach_start) (simp add: wake_start_def)
  from reach_step [OF this w_insert [of _ False]] have "?r (?s\<lparr>wk_eventfd := 0, wk_listed := 1, wk_inserted := 1\<rparr>)" by (simp add: wake_ops)
  from reach_step [OF this w_exchange]
  have "?r (?s\<lparr>wk_eventfd := 0, wk_listed := 1, wk_notified := True, wk_writing := 1\<rparr>)" by (simp add: wake_ops)
  from reach_step [OF this w_wake [of _ True]]
  have "?r (?s\<lparr>wk_eventfd := 0, wk_listed := 1, wk_notified := True, wk_writing := 1, wk_pc := Checking\<rparr>)" by (simp add: wake_ops)
  from reach_step [OF this w_check]
  have "?r (?s\<lparr>wk_eventfd := 0, wk_listed := 1, wk_notified := True, wk_writing := 1, wk_pc := Clearing\<rparr>)" by (simp add: wake_ops)
  from reach_step [OF this w_clear]
  have "?r (?s\<lparr>wk_eventfd := 0, wk_listed := 1, wk_notified := True, wk_writing := 1, wk_pc := Resetting\<rparr>)" by (simp add: wake_ops)
  from reach_step [OF this w_reset]
  have "?r (?s\<lparr>wk_eventfd := 0, wk_listed := 1, wk_writing := 1, wk_pc := Polling\<rparr>)" by (simp add: wake_ops)
  from reach_step [OF this w_poll] have "?r (?s\<lparr>wk_eventfd := 0, wk_writing := 1\<rparr>)" by (simp add: wake_ops)
  from reach_step [OF this w_write] have r: "?r ?s" by (simp add: wake_ops)
  have "wake_step ?s (?s\<lparr>wk_pc := Checking\<rparr>)" using w_wake [of ?s False] by (simp add: wake_ops)
  moreover have "wake_step (?s\<lparr>wk_pc := Checking\<rparr>) (?s\<lparr>wk_pc := Polling\<rparr>)"
    using w_check [of "?s\<lparr>wk_pc := Checking\<rparr>"] by (simp add: wake_ops)
  moreover have "wake_step (?s\<lparr>wk_pc := Polling\<rparr>) ?s" using w_poll [of "?s\<lparr>wk_pc := Polling\<rparr>"] by (simp add: wake_ops)
  ultimately show ?thesis using r by (intro exI [of _ ?s]) auto
qed

end
