(* ===== verification/Memmap.thy ===== *)
theory Memmap
  imports Platform
begin

text \<open>
  The guest memory map of \<open>memmap.c\<close>: the host address space that \<open>map_memory\<close> and
  \<open>unmap_memory\<close> change, the regions, the three address translations, the slot operations,
  and the store of reference-counted maps.
\<close>

section \<open>The host address space\<close>

text \<open>
  What is mapped at each host address: a reserved page (\<open>PROT_NONE\<close>), an anonymous page, or
  a byte of a file at an offset. The kernel's choices (where an anonymous mapping goes, whether
  a call fails) are a parameter; the effect of a successful call on the address space is
  defined here. Lengths are rounded up to pages, as the calls do.
\<close>

datatype backing = Reserved | Anonymous | FileMap int u64

type_synonym aspace = "u64 \<Rightarrow> backing option"

record kernel =
  k_mmap_any :: "aspace \<Rightarrow> u64 \<Rightarrow> u64 res"
  k_mmap_fixed :: "aspace \<Rightarrow> u64 \<Rightarrow> u64 \<Rightarrow> status"
  k_munmap :: "aspace \<Rightarrow> u64 \<Rightarrow> u64 \<Rightarrow> status"

definition as_map :: "aspace \<Rightarrow> u64 \<Rightarrow> u64 \<Rightarrow> (u64 \<Rightarrow> backing) \<Rightarrow> aspace" where
  "as_map A base n f =
     (\<lambda>a. if in_range base (VHD_ALIGN_UP n PAGE_SIZE) a then Some (f (a - base)) else A a)"

definition as_unmap :: "aspace \<Rightarrow> u64 \<Rightarrow> u64 \<Rightarrow> aspace" where
  "as_unmap A base n =
     (\<lambda>a. if in_range base (VHD_ALIGN_UP n PAGE_SIZE) a then None else A a)"

definition munmap :: "kernel \<Rightarrow> aspace \<Rightarrow> u64 \<Rightarrow> u64 \<Rightarrow> status \<times> aspace" where
  "munmap K A base n =
     (case k_munmap K A base n of
        Inl e \<Rightarrow> (Inl e, A)
      | Inr _ \<Rightarrow> (OK, as_unmap A base n))"

text \<open>
  \<open>map_memory\<close> (its \<open>addr\<close> argument is NULL at the only call): reserve a range with room
  for alignment, map the file at the aligned address, fill the tail up to a huge page with
  anonymous memory, and give back what is left around one guard page on each side.
\<close>

definition map_memory :: "kernel \<Rightarrow> aspace \<Rightarrow> u64 \<Rightarrow> int \<Rightarrow> u64 \<Rightarrow> u64 res \<times> aspace" where
  "map_memory K A len fd offset =
     (let aligned_len = VHD_ALIGN_UP len HUGE_PAGE_SIZE;
          map_len = aligned_len + HUGE_PAGE_SIZE + PAGE_SIZE
      in case k_mmap_any K A map_len of
           Inl e \<Rightarrow> (Inl e, A)
         | Inr m \<Rightarrow>
             (let A1 = as_map A m map_len (\<lambda>_. Reserved);
                  aligned_addr = VHD_ALIGN_UP (m + PAGE_SIZE) HUGE_PAGE_SIZE
              in case k_mmap_fixed K A1 aligned_addr len of
                   Inl e \<Rightarrow> (Inl e, snd (munmap K A1 m map_len))
                 | Inr _ \<Rightarrow>
                     (let A2 = as_map A1 aligned_addr len (\<lambda>d. FileMap fd (offset + d));
                          tail_len = aligned_len - len;
                          tail = aligned_addr + len;
                          tail_ret = (if tail_len \<noteq> 0 then k_mmap_fixed K A2 tail tail_len else OK)
                      in case tail_ret of
                           Inl e \<Rightarrow> (Inl e, snd (munmap K A2 m map_len))
                         | Inr _ \<Rightarrow>
                             (let A3 = (if tail_len \<noteq> 0
                                        then as_map A2 tail tail_len (\<lambda>_. Anonymous) else A2);
                                  start = aligned_addr - PAGE_SIZE;
                                  stop = aligned_addr + aligned_len + PAGE_SIZE;
                                  A4 = snd (munmap K A3 m (start - m));
                                  A5 = snd (munmap K A4 stop (m + map_len - stop))
                              in (Inr aligned_addr, A5)))))"

definition unmap_memory :: "kernel \<Rightarrow> aspace \<Rightarrow> u64 \<Rightarrow> u64 \<Rightarrow> status \<times> aspace" where
  "unmap_memory K A addr len =
     munmap K A (addr - PAGE_SIZE) (VHD_ALIGN_UP len HUGE_PAGE_SIZE + PAGE_SIZE * 2)"

section \<open>Regions\<close>

record vhd_memory_region =
  mr_gpa :: u64
  mr_uva :: u64
  mr_ptr :: u64
  mr_size :: u64

text \<open>A user callback on a mapped range; a negative return value is an error.\<close>

type_synonym mem_cb = "u64 \<Rightarrow> u64 \<Rightarrow> status"

definition map_region ::
  "kernel \<Rightarrow> aspace \<Rightarrow> u64 \<Rightarrow> u64 \<Rightarrow> u64 \<Rightarrow> int \<Rightarrow> u64 \<Rightarrow> mem_cb option
    \<Rightarrow> vhd_memory_region res \<times> aspace" where
  "map_region K A gpa uva sz fd offset map_cb =
     (case map_memory K A sz fd offset of
        (Inl e, A1) \<Rightarrow> (Inl e, A1)
      | (Inr p, A1) \<Rightarrow>
          (let cb_ret = (case map_cb of
                           None \<Rightarrow> OK
                         | Some cb \<Rightarrow> cb p (VHD_ALIGN_UP sz HUGE_PAGE_SIZE))
           in case cb_ret of
                Inl e \<Rightarrow> (Inl e, snd (munmap K A1 p sz))
              | Inr _ \<Rightarrow>
                  (Inr \<lparr>mr_gpa = gpa, mr_uva = uva, mr_ptr = p, mr_size = sz\<rparr>, A1)))"

definition unmap_region ::
  "kernel \<Rightarrow> aspace \<Rightarrow> vhd_memory_region \<Rightarrow> mem_cb option \<Rightarrow> status \<times> aspace" where
  "unmap_region K A reg unmap_cb =
     (let cb_ret = (case unmap_cb of
                      None \<Rightarrow> OK
                    | Some cb \<Rightarrow> cb (mr_ptr reg) (VHD_ALIGN_UP (mr_size reg) HUGE_PAGE_SIZE))
      in case cb_ret of
           Inl e \<Rightarrow> (Inl e, A)
         | Inr _ \<Rightarrow> unmap_memory K A (mr_ptr reg) (mr_size reg))"

section \<open>Memory maps and address translation\<close>

text \<open>
  \<open>mm_regions\<close> holds the slots in use, so its length is the \<open>num\<close> field of the code. The
  opaque argument of the callbacks is part of their closures. A NULL result of a translation
  is \<open>None\<close>.
\<close>

record vhd_memory_map =
  mm_ref :: u64
  mm_map_cb :: "mem_cb option"
  mm_unmap_cb :: "mem_cb option"
  mm_regions :: "vhd_memory_region list"

definition VHD_RAM_SLOTS_MAX :: nat where
  "VHD_RAM_SLOTS_MAX = 32"

fun uva_to_ptr_regions :: "vhd_memory_region list \<Rightarrow> u64 \<Rightarrow> u64 option" where
  "uva_to_ptr_regions [] uva = None"
| "uva_to_ptr_regions (reg # regs) uva =
     (if mr_uva reg \<le> uva \<and> uva - mr_uva reg < mr_size reg
      then Some (mr_ptr reg + (uva - mr_uva reg))
      else uva_to_ptr_regions regs uva)"

definition uva_to_ptr :: "vhd_memory_map \<Rightarrow> u64 \<Rightarrow> u64 option" where
  "uva_to_ptr mm uva = uva_to_ptr_regions (mm_regions mm) uva"

definition TRANSLATION_FAILED :: u64 where
  "TRANSLATION_FAILED = - 1"

fun ptr_to_gpa_regions :: "vhd_memory_region list \<Rightarrow> u64 \<Rightarrow> u64" where
  "ptr_to_gpa_regions [] p = TRANSLATION_FAILED"
| "ptr_to_gpa_regions (reg # regs) p =
     (if mr_ptr reg \<le> p \<and> p < mr_ptr reg + mr_size reg
      then (p - mr_ptr reg) + mr_gpa reg
      else ptr_to_gpa_regions regs p)"

definition ptr_to_gpa :: "vhd_memory_map \<Rightarrow> u64 \<Rightarrow> u64" where
  "ptr_to_gpa mm p = ptr_to_gpa_regions (mm_regions mm) p"

fun gpa_range_to_ptr_regions :: "vhd_memory_region list \<Rightarrow> u64 \<Rightarrow> u64 \<Rightarrow> u64 option" where
  "gpa_range_to_ptr_regions [] gpa len = None"
| "gpa_range_to_ptr_regions (reg # regs) gpa len =
     (if mr_gpa reg \<le> gpa \<and> gpa - mr_gpa reg < mr_size reg
      then (if len > mr_size reg \<or> gpa - mr_gpa reg + len > mr_size reg
            then None
            else Some (mr_ptr reg + (gpa - mr_gpa reg)))
      else gpa_range_to_ptr_regions regs gpa len)"

definition gpa_range_to_ptr :: "vhd_memory_map \<Rightarrow> u64 \<Rightarrow> u64 \<Rightarrow> u64 option" where
  "gpa_range_to_ptr mm gpa len = gpa_range_to_ptr_regions (mm_regions mm) gpa len"

section \<open>Slots\<close>

text \<open>The test of the intersection loop on one existing slot.\<close>

definition slot_apart :: "vhd_memory_region \<Rightarrow> u64 \<Rightarrow> u64 \<Rightarrow> u64 \<Rightarrow> bool" where
  "slot_apart reg gpa uva sz \<longleftrightarrow>
     mr_gpa reg + mr_size reg \<le> gpa \<or> gpa + sz \<le> mr_gpa reg \<or>
     mr_uva reg + mr_size reg \<le> uva \<or> uva + sz \<le> mr_uva reg"

text \<open>The loop that walks down from \<open>i\<close> to the position that keeps ascending order.\<close>

fun insert_pos :: "vhd_memory_region list \<Rightarrow> u64 \<Rightarrow> nat \<Rightarrow> nat" where
  "insert_pos regs gpa 0 = 0"
| "insert_pos regs gpa (Suc i) =
     (if mr_gpa (regs ! i) < gpa then Suc i else insert_pos regs gpa i)"

definition vhd_memmap_add_slot ::
  "kernel \<Rightarrow> aspace \<Rightarrow> vhd_memory_map \<Rightarrow> u64 \<Rightarrow> u64 \<Rightarrow> u64 \<Rightarrow> int \<Rightarrow> u64
    \<Rightarrow> status \<times> aspace \<times> vhd_memory_map" where
  "vhd_memmap_add_slot K A mm gpa uva sz fd offset =
     (if gpa + sz < gpa \<or> uva + sz < uva then (Inl EINVAL, A, mm)
      else if length (mm_regions mm) = VHD_RAM_SLOTS_MAX then (Inl ENOBUFS, A, mm)
      else if \<not> (\<forall>reg \<in> set (mm_regions mm). slot_apart reg gpa uva sz)
      then (Inl EINVAL, A, mm)
      else
        (let i = insert_pos (mm_regions mm) gpa (length (mm_regions mm))
         in case map_region K A gpa uva sz fd offset (mm_map_cb mm) of
              (Inl e, A1) \<Rightarrow> (Inl e, A1, mm)
            | (Inr region, A1) \<Rightarrow>
                (OK, A1, mm\<lparr>mm_regions :=
                   take i (mm_regions mm) @ [region] @ drop i (mm_regions mm)\<rparr>)))"

fun slot_index :: "vhd_memory_region list \<Rightarrow> u64 \<Rightarrow> u64 \<Rightarrow> u64 \<Rightarrow> nat" where
  "slot_index [] gpa uva sz = 0"
| "slot_index (reg # regs) gpa uva sz =
     (if mr_gpa reg = gpa \<and> mr_uva reg = uva \<and> mr_size reg = sz then 0
      else Suc (slot_index regs gpa uva sz))"

definition vhd_memmap_del_slot ::
  "kernel \<Rightarrow> aspace \<Rightarrow> vhd_memory_map \<Rightarrow> u64 \<Rightarrow> u64 \<Rightarrow> u64
    \<Rightarrow> status \<times> aspace \<times> vhd_memory_map" where
  "vhd_memmap_del_slot K A mm gpa uva sz =
     (let regs = mm_regions mm; i = slot_index regs gpa uva sz
      in if i = length regs then (Inl ENXIO, A, mm)
         else case unmap_region K A (regs ! i) (mm_unmap_cb mm) of
                (Inl e, A1) \<Rightarrow> (Inl e, A1, mm)
              | (Inr _, A1) \<Rightarrow>
                  (OK, A1, mm\<lparr>mm_regions := take i regs @ drop (Suc i) regs\<rparr>))"

section \<open>The store of memory maps\<close>

text \<open>
  Maps are heap objects that the device, its queues and the requests in flight share, so they
  live in a store from addresses (here numbers) to maps. Freeing a map removes it.
\<close>

record mm_store =
  ms_next :: nat
  ms_maps :: "nat \<Rightarrow> vhd_memory_map option"
  ms_as :: aspace

definition vhd_memmap_new ::
  "mem_cb option \<Rightarrow> mem_cb option \<Rightarrow> mm_store \<Rightarrow> nat \<times> mm_store" where
  "vhd_memmap_new map_cb unmap_cb S =
     (let mid = ms_next S
      in (mid, S\<lparr>ms_next := Suc mid,
                ms_maps := (ms_maps S)(mid := Some \<lparr>mm_ref = objref_init, mm_map_cb = map_cb,
                             mm_unmap_cb = unmap_cb, mm_regions = []\<rparr>)\<rparr>))"

fun unmap_regions ::
  "kernel \<Rightarrow> aspace \<Rightarrow> mem_cb option \<Rightarrow> vhd_memory_region list \<Rightarrow> aspace" where
  "unmap_regions K A unmap_cb [] = A"
| "unmap_regions K A unmap_cb (reg # regs) =
     unmap_regions K (snd (unmap_region K A reg unmap_cb)) unmap_cb regs"

definition memmap_release :: "kernel \<Rightarrow> nat \<Rightarrow> vhd_memory_map \<Rightarrow> mm_store \<Rightarrow> mm_store" where
  "memmap_release K mid mm S =
     S\<lparr>ms_as := unmap_regions K (ms_as S) (mm_unmap_cb mm) (mm_regions mm),
       ms_maps := (ms_maps S)(mid := None)\<rparr>"

definition vhd_memmap_ref :: "nat \<Rightarrow> mm_store \<Rightarrow> mm_store" where
  "vhd_memmap_ref mid S =
     (case ms_maps S mid of
        None \<Rightarrow> S
      | Some mm \<Rightarrow> S\<lparr>ms_maps := (ms_maps S)(mid := Some (mm\<lparr>mm_ref := refcount_inc (mm_ref mm)\<rparr>))\<rparr>)"

definition vhd_memmap_unref :: "kernel \<Rightarrow> nat \<Rightarrow> mm_store \<Rightarrow> mm_store" where
  "vhd_memmap_unref K mid S =
     (case ms_maps S mid of
        None \<Rightarrow> S
      | Some mm \<Rightarrow>
          (let (r, zero) = refcount_dec_and_test (mm_ref mm);
               mm1 = mm\<lparr>mm_ref := r\<rparr>;
               S1 = S\<lparr>ms_maps := (ms_maps S)(mid := Some mm1)\<rparr>
           in if zero then memmap_release K mid mm1 S1 else S1))"

section \<open>Mapping and unmapping\<close>

text \<open>
  Documented behaviour of the system calls: \<open>mmap\<close> without a fixed address returns a
  page-aligned user-space range that was free; a fixed mapping succeeds only for a non-zero
  length, at a page-aligned address and inside user space; \<open>munmap\<close> of a page-aligned non-empty range succeeds.
\<close>

definition kernel_ok :: "kernel \<Rightarrow> bool" where
  "kernel_ok K \<longleftrightarrow>
     (\<forall>A n m. k_mmap_any K A n = Inr m \<longrightarrow>
        2 ^ 12 dvd unat m \<and> unat m + round_up (unat n) 12 < 2 ^ 63 \<and>
        (\<forall>a. in_range m (VHD_ALIGN_UP n PAGE_SIZE) a \<longrightarrow> A a = None)) \<and>
     (\<forall>A b n. k_mmap_fixed K A b n = OK \<longrightarrow>
        n \<noteq> 0 \<and> 2 ^ 12 dvd unat b \<and> unat b + round_up (unat n) 12 < 2 ^ 63) \<and>
     (\<forall>A b n. 2 ^ 12 dvd unat b \<longrightarrow> n \<noteq> 0 \<longrightarrow> k_munmap K A b n = OK)"

lemma kernel_okD:
  assumes "kernel_ok K"
  shows kernel_any_aligned: "k_mmap_any K A n = Inr m \<Longrightarrow> 2 ^ 12 dvd unat m"
    and kernel_any_user: "k_mmap_any K A n = Inr m \<Longrightarrow> unat m + round_up (unat n) 12 < 2 ^ 63"
    and kernel_any_free: "k_mmap_any K A n = Inr m \<Longrightarrow> in_range m (VHD_ALIGN_UP n PAGE_SIZE) a
      \<Longrightarrow> A a = None"
    and kernel_fixed_aligned: "k_mmap_fixed K A b n = OK \<Longrightarrow> 2 ^ 12 dvd unat b"
    and kernel_fixed_user: "k_mmap_fixed K A b n = OK \<Longrightarrow> unat b + round_up (unat n) 12 < 2 ^ 63"
    and kernel_fixed_nonempty: "k_mmap_fixed K A b n = OK \<Longrightarrow> n \<noteq> 0"
    and kernel_munmap: "2 ^ 12 dvd unat b \<Longrightarrow> n \<noteq> 0 \<Longrightarrow> k_munmap K A b n = OK"
  using assms unfolding kernel_ok_def by blast+

text \<open>
  An \<open>munmap\<close> of a page-aligned range clears exactly the range; an empty range is left alone
  whether or not the call reports an error.
\<close>

lemma in_range_empty [simp]: "\<not> in_range b 0 a"
  by (simp add: in_range_def)

lemma snd_munmap:
  assumes "kernel_ok K" and "2 ^ 12 dvd unat b" and "2 ^ 12 dvd unat n" and "unat n < 2 ^ 63"
  shows "snd (munmap K A b n) = (\<lambda>a. if in_range b n a then None else A a)"
proof (cases "n = 0")
  case True
  have "VHD_ALIGN_UP 0 PAGE_SIZE = 0" by (simp add: VHD_ALIGN_UP_def PAGE_SIZE_def)
  with True show ?thesis
    by (auto simp: munmap_def as_unmap_def split: sum.splits)
next
  case False
  with assms show ?thesis
    by (simp add: munmap_def as_unmap_def kernel_munmap ALIGN_PAGE_id)
qed

text \<open>Where the pieces of a mapping lie, as natural numbers.\<close>

lemma map_layout:
  fixes len m :: u64
  defines "aligned_len \<equiv> VHD_ALIGN_UP len HUGE_PAGE_SIZE"
  defines "map_len \<equiv> aligned_len + HUGE_PAGE_SIZE + PAGE_SIZE"
  defines "p \<equiv> VHD_ALIGN_UP (m + PAGE_SIZE) HUGE_PAGE_SIZE"
  assumes m: "2 ^ 12 dvd unat m" "unat m + round_up (unat map_len) 12 < 2 ^ 63"
    and len: "unat len < 2 ^ 63"
  shows "unat aligned_len = round_up (unat len) 21"
    and "unat map_len = round_up (unat len) 21 + 2 ^ 21 + 2 ^ 12"
    and "VHD_ALIGN_UP map_len PAGE_SIZE = map_len"
    and "unat p = round_up (unat m + 2 ^ 12) 21"
    and "unat m + 2 ^ 12 \<le> unat p" and "unat p \<le> unat m + 2 ^ 21"
    and "unat m + unat map_len < 2 ^ 63"
proof -
  show al: "unat aligned_len = round_up (unat len) 21"
    unfolding aligned_len_def using len by (subst unat_ALIGN_HUGE) simp_all
  have al_le: "unat aligned_len < 2 ^ 63 + 2 ^ 21"
    using len round_up_less [of "unat len" 21] by (simp add: al)
  have 1: "unat (aligned_len + HUGE_PAGE_SIZE) = unat aligned_len + 2 ^ 21"
    using al_le by (subst unat_add_64) simp_all
  show ml: "unat map_len = round_up (unat len) 21 + 2 ^ 21 + 2 ^ 12"
    unfolding map_len_def using al_le al by (subst unat_add_64) (simp_all add: 1)
  have d: "2 ^ 12 dvd unat map_len"
  proof -
    have "(2::nat) ^ 12 dvd round_up (unat len) 21"
      by (rule dvd_trans [OF _ round_up_dvd]) (simp add: le_imp_power_dvd)
    then show ?thesis unfolding ml by (simp add: dvd_add)
  qed
  have "unat map_len \<le> round_up (unat map_len) 12" by (rule round_up_ge)
  with m(2) show mm: "unat m + unat map_len < 2 ^ 63" by linarith
  then show "VHD_ALIGN_UP map_len PAGE_SIZE = map_len"
    by (intro ALIGN_PAGE_id d) simp
  have mp: "unat (m + PAGE_SIZE) = unat m + 2 ^ 12"
    using mm ml by (subst unat_add_64) simp_all
  show pu: "unat p = round_up (unat m + 2 ^ 12) 21"
    unfolding p_def using mm ml by (subst unat_ALIGN_HUGE) (simp_all add: mp)
  show "unat m + 2 ^ 12 \<le> unat p"
    unfolding pu by (rule round_up_ge)
  have "round_up (unat m + 2 ^ 12) 21 + 2 ^ 12 \<le> unat m + 2 ^ 12 + 2 ^ 21"
    using m(1) by (intro round_up_aligned_le) (simp_all add: dvd_add)
  then show "unat p \<le> unat m + 2 ^ 21"
    unfolding pu by simp
qed

text \<open>
  The address space after a successful \<open>map_memory\<close>: the file from \<open>p\<close> on, anonymous memory
  up to the next huge page, one reserved guard page on each side, nothing else changed.
\<close>

definition mapped_image :: "aspace \<Rightarrow> u64 \<Rightarrow> u64 \<Rightarrow> int \<Rightarrow> u64 \<Rightarrow> aspace" where
  "mapped_image A p len fd offset a =
     (let x = unat a; P = unat p; L = unat len; AL = round_up L 21 in
      if P \<le> x \<and> x < P + L then Some (FileMap fd (offset + (a - p)))
      else if P + L \<le> x \<and> x < P + AL then Some Anonymous
      else if P \<le> x + 2 ^ 12 \<and> x < P + AL + 2 ^ 12 then Some Reserved
      else A a)"

lemma map_memory_SuccessE:
  assumes "map_memory K A len fd offset = (Inr p, A')"
  obtains m where
    "k_mmap_any K A (VHD_ALIGN_UP len HUGE_PAGE_SIZE + HUGE_PAGE_SIZE + PAGE_SIZE) = Inr m"
    "p = VHD_ALIGN_UP (m + PAGE_SIZE) HUGE_PAGE_SIZE"
    "\<exists>A1. k_mmap_fixed K A1 p len = OK"
    "VHD_ALIGN_UP len HUGE_PAGE_SIZE - len \<noteq> 0 \<Longrightarrow> \<exists>A2. k_mmap_fixed K A2 (p + len) (VHD_ALIGN_UP len HUGE_PAGE_SIZE - len) = OK"
    "A' = snd (munmap K (snd (munmap K
        (let A2 = as_map (as_map A m (VHD_ALIGN_UP len HUGE_PAGE_SIZE + HUGE_PAGE_SIZE + PAGE_SIZE)
                     (\<lambda>_. Reserved)) p len (\<lambda>d. FileMap fd (offset + d))
         in if VHD_ALIGN_UP len HUGE_PAGE_SIZE - len \<noteq> 0
            then as_map A2 (p + len) (VHD_ALIGN_UP len HUGE_PAGE_SIZE - len) (\<lambda>_. Anonymous) else A2)
        m (p - PAGE_SIZE - m))) (p + VHD_ALIGN_UP len HUGE_PAGE_SIZE + PAGE_SIZE)
        (m + (VHD_ALIGN_UP len HUGE_PAGE_SIZE + HUGE_PAGE_SIZE + PAGE_SIZE)
          - (p + VHD_ALIGN_UP len HUGE_PAGE_SIZE + PAGE_SIZE)))"
  using assms
  by (auto simp: map_memory_def Let_def split: sum.splits if_splits intro!: that)

lemma map_memory_numbers:
  assumes K: "kernel_ok K" and ok: "map_memory K A len fd offset = (Inr p, A')"
  shows map_memory_aligned: "2 ^ 21 dvd unat p"
    and map_memory_len_aligned: "2 ^ 12 dvd unat len"
    and map_memory_guard: "2 ^ 12 \<le> unat p"
    and map_memory_user: "unat p + round_up (unat len) 21 + 2 ^ 12 < 2 ^ 63"
proof -
  let ?al = "VHD_ALIGN_UP len HUGE_PAGE_SIZE"
  obtain m where m: "k_mmap_any K A (?al + HUGE_PAGE_SIZE + PAGE_SIZE) = Inr m"
    and p: "p = VHD_ALIGN_UP (m + PAGE_SIZE) HUGE_PAGE_SIZE"
    and fixd: "\<exists>A1. k_mmap_fixed K A1 p len = OK"
    and tail: "?al - len \<noteq> 0 \<Longrightarrow> \<exists>A2. k_mmap_fixed K A2 (p + len) (?al - len) = OK"
    by (rule map_memory_SuccessE [OF ok]) blast
  note al = kernel_any_aligned [OF K m] and us = kernel_any_user [OF K m]
  from fixd have user: "unat p + round_up (unat len) 12 < 2 ^ 63"
    using kernel_fixed_user [OF K] by blast
  with round_up_ge [of "unat len" 12] have len: "unat len < 2 ^ 63" by linarith
  note L = map_layout [OF al us len, folded p]
  show d: "2 ^ 21 dvd unat p" unfolding L(4) by (rule round_up_dvd)
  show "2 ^ 12 \<le> unat p" using L(5) by linarith
  show "unat p + round_up (unat len) 21 + 2 ^ 12 < 2 ^ 63" using L(2,6,7) by linarith
  show "2 ^ 12 dvd unat len"
  proof (cases "?al - len = 0")
    case True
    then have "unat len = round_up (unat len) 21" using L(1) by simp
    then have "2 ^ 21 dvd unat len" by (metis round_up_dvd)
    then show ?thesis by (rule dvd_trans [rotated]) (simp add: le_imp_power_dvd)
  next
    case False
    with tail have "2 ^ 12 dvd unat (p + len)" using kernel_fixed_aligned [OF K] by blast
    moreover have "unat (p + len) = unat p + unat len"
      using user round_up_ge [of "unat len" 12] by (intro unat_add_63) linarith
    moreover have "2 ^ 12 dvd unat p" by (rule dvd_trans [OF _ d]) (simp add: le_imp_power_dvd)
    ultimately show ?thesis by (simp add: dvd_add_right_iff)
  qed
qed

text \<open>The lengths of the tail and of the two ranges that are given back.\<close>

lemma map_trim:
  fixes len m :: u64
  defines "al \<equiv> VHD_ALIGN_UP len HUGE_PAGE_SIZE"
  defines "ml \<equiv> al + HUGE_PAGE_SIZE + PAGE_SIZE"
  defines "p \<equiv> VHD_ALIGN_UP (m + PAGE_SIZE) HUGE_PAGE_SIZE"
  defines "AL \<equiv> round_up (unat len) 21"
  assumes m: "2 ^ 12 dvd unat m" "unat m + round_up (unat ml) 12 < 2 ^ 63"
    and len: "unat len < 2 ^ 63" "2 ^ 12 dvd unat len"
  shows "unat (al - len) = AL - unat len" and "unat (p + len) = unat p + unat len"
    and "unat (p - PAGE_SIZE - m) = unat p - 2 ^ 12 - unat m"
    and "unat (p + al + PAGE_SIZE) = unat p + AL + 2 ^ 12"
    and "unat (m + ml - (p + al + PAGE_SIZE)) = unat m + 2 ^ 21 - unat p"
    and "2 ^ 12 dvd unat (al - len)" and "2 ^ 12 dvd unat (p - PAGE_SIZE - m)"
    and "2 ^ 12 dvd unat (p + al + PAGE_SIZE)"
    and "2 ^ 12 dvd unat (m + ml - (p + al + PAGE_SIZE))"
proof -
  note L = map_layout [OF m [unfolded ml_def al_def] len(1), folded p_def al_def, folded ml_def AL_def]
  have Ln: "unat len \<le> AL" by (simp add: AL_def round_up_ge)
  have dAL: "2 ^ 12 dvd AL"
    unfolding AL_def by (rule dvd_trans [OF _ round_up_dvd]) (simp add: le_imp_power_dvd)
  have dp: "2 ^ 12 dvd unat p"
    unfolding L(4) by (rule dvd_trans [OF _ round_up_dvd]) (simp add: le_imp_power_dvd)
  show 1: "unat (al - len) = AL - unat len"
    using L(1) Ln by (simp add: unat_sub_le word_le_nat_alt)
  show "unat (p + len) = unat p + unat len"
    using L(2,6,7) Ln by (intro unat_add_63) linarith
  show 3: "unat (p - PAGE_SIZE - m) = unat p - 2 ^ 12 - unat m"
    using L(5) by (simp add: unat_sub_le word_le_nat_alt)
  have "unat (p + al) = unat p + unat al"
    using L(1,2,6,7) by (intro unat_add_63) linarith
  then have pa: "unat (p + al) = unat p + AL" using L(1) by simp
  show 4: "unat (p + al + PAGE_SIZE) = unat p + AL + 2 ^ 12"
    using L(2,6,7) pa by (subst unat_add_64) (simp_all add: pa)
  have "unat (m + ml) = unat m + unat ml" using L(7) by (intro unat_add_63) linarith
  then show 5: "unat (m + ml - (p + al + PAGE_SIZE)) = unat m + 2 ^ 21 - unat p"
    using L(2,6) 4 by (subst unat_sub_le) (simp_all add: word_le_nat_alt)
  show "2 ^ 12 dvd unat (al - len)" unfolding 1 using dAL len(2) by (rule dvd_diff_nat)
  show "2 ^ 12 dvd unat (p - PAGE_SIZE - m)" unfolding 3 using dp m(1) by (simp add: dvd_diff_nat)
  show "2 ^ 12 dvd unat (p + al + PAGE_SIZE)" unfolding 4 using dp dAL by (simp add: dvd_add)
  show "2 ^ 12 dvd unat (m + ml - (p + al + PAGE_SIZE))"
    unfolding 5 using dp m(1) by (simp add: dvd_diff_nat dvd_add)
qed

lemma map_memory_image:
  assumes K: "kernel_ok K" and ok: "map_memory K A len fd offset = (Inr p, A')"
  shows "A' = mapped_image A p len fd offset"
proof
  fix a
  let ?al = "VHD_ALIGN_UP len HUGE_PAGE_SIZE"
  let ?ml = "?al + HUGE_PAGE_SIZE + PAGE_SIZE"
  obtain m where m: "k_mmap_any K A ?ml = Inr m"
    and p: "p = VHD_ALIGN_UP (m + PAGE_SIZE) HUGE_PAGE_SIZE"
    and A': "A' = snd (munmap K (snd (munmap K
        (let A2 = as_map (as_map A m ?ml (\<lambda>_. Reserved)) p len (\<lambda>d. FileMap fd (offset + d))
         in if ?al - len \<noteq> 0 then as_map A2 (p + len) (?al - len) (\<lambda>_. Anonymous) else A2)
        m (p - PAGE_SIZE - m))) (p + ?al + PAGE_SIZE) (m + ?ml - (p + ?al + PAGE_SIZE)))"
    by (rule map_memory_SuccessE [OF ok]) blast
  note al = kernel_any_aligned [OF K m] and us = kernel_any_user [OF K m]
    and free = kernel_any_free [OF K m] and N = map_memory_numbers [OF K ok]
  have len: "unat len < 2 ^ 63" using N(4) round_up_ge [of "unat len" 21] by linarith
  note L = map_layout [OF al us len, folded p] and T = map_trim [OF al us len N(2), folded p]
  have Ln: "unat len \<le> round_up (unat len) 21" by (rule round_up_ge)
  have page: "VHD_ALIGN_UP len PAGE_SIZE = len" "VHD_ALIGN_UP (?al - len) PAGE_SIZE = ?al - len"
    using N(2) len T(1,6) L(2,7) by (auto intro!: ALIGN_PAGE_id)
  have free': "unat m \<le> unat a \<Longrightarrow> unat a < unat m + (round_up (unat len) 21 + 2 ^ 21 + 2 ^ 12) \<Longrightarrow> A a = None"
    using free [of a] by (simp add: in_range_unat L(2,3))
  have small: "unat (p - PAGE_SIZE - m) < 2 ^ 63" "unat (m + ?ml - (p + ?al + PAGE_SIZE)) < 2 ^ 63"
    using T(3,5) L(2,6,7) by linarith+
  have "A' a = (if in_range (p + ?al + PAGE_SIZE) (m + ?ml - (p + ?al + PAGE_SIZE)) a then None
    else if in_range m (p - PAGE_SIZE - m) a then None
    else if in_range (p + len) (?al - len) a then Some Anonymous
    else if in_range p len a then Some (FileMap fd (offset + (a - p)))
    else if in_range m ?ml a then Some Reserved else A a)"
    unfolding A' snd_munmap [OF K T(8,9) small(2)] snd_munmap [OF K al T(7) small(1)] as_map_def page L(3)
    by (auto simp: Let_def)
  then show "A' a = mapped_image A p len fd offset a"
    unfolding in_range_unat T(1-5) L(2) mapped_image_def Let_def
    using L(5,6) Ln free' by (auto split: if_splits)
qed

lemma map_memory_fresh:
  assumes K: "kernel_ok K" and ok: "map_memory K A len fd offset = (Inr p, A')"
    and "unat p \<le> unat a + 2 ^ 12" and "unat a < unat p + round_up (unat len) 21 + 2 ^ 12"
  shows "A a = None"
proof -
  let ?ml = "VHD_ALIGN_UP len HUGE_PAGE_SIZE + HUGE_PAGE_SIZE + PAGE_SIZE"
  obtain m where m: "k_mmap_any K A ?ml = Inr m"
    and p: "p = VHD_ALIGN_UP (m + PAGE_SIZE) HUGE_PAGE_SIZE"
    by (rule map_memory_SuccessE [OF ok]) blast
  have len: "unat len < 2 ^ 63"
    using map_memory_user [OF K ok] round_up_ge [of "unat len" 21] by linarith
  note L = map_layout [OF kernel_any_aligned [OF K m] kernel_any_user [OF K m] len, folded p]
  show ?thesis
    using kernel_any_free [OF K m, of a] assms(3,4) L(2,3,5,6) by (simp add: in_range_unat)
qed

text \<open>The addresses that belong to a mapping of \<open>len\<close> bytes at \<open>p\<close>, guard pages included.\<close>

definition in_extent :: "u64 \<Rightarrow> u64 \<Rightarrow> u64 \<Rightarrow> bool" where
  "in_extent p len a \<longleftrightarrow>
     unat p \<le> unat a + 2 ^ 12 \<and> unat a < unat p + round_up (unat len) 21 + 2 ^ 12"

lemma unmap_memory_extent:
  assumes K: "kernel_ok K" and p: "2 ^ 21 dvd unat p" "2 ^ 12 \<le> unat p"
    and user: "unat p + round_up (unat len) 21 + 2 ^ 12 < 2 ^ 63"
  shows "unmap_memory K A p len = (OK, \<lambda>a. if in_extent p len a then None else A a)"
proof -
  let ?n = "VHD_ALIGN_UP len HUGE_PAGE_SIZE + PAGE_SIZE * 2"
  have al: "unat (VHD_ALIGN_UP len HUGE_PAGE_SIZE) = round_up (unat len) 21"
    using user round_up_ge [of "unat len" 21] by (intro unat_ALIGN_HUGE) simp
  have n: "unat ?n = round_up (unat len) 21 + 2 ^ 13"
    using p user al by (subst unat_add_63) (simp_all add: PAGE_SIZE_def)
  have b: "unat (p - PAGE_SIZE) = unat p - 2 ^ 12"
    using p by (simp add: unat_sub_le word_le_nat_alt)
  have "(2::nat) ^ 12 dvd 2 ^ 21" by (rule le_imp_power_dvd) simp
  then have d: "2 ^ 12 dvd unat p" "2 ^ 12 dvd round_up (unat len) 21"
    using p by (blast intro: dvd_trans round_up_dvd)+
  have db: "2 ^ 12 dvd unat (p - PAGE_SIZE)" unfolding b using d(1) by (simp add: dvd_diff_nat)
  have dn: "2 ^ 12 dvd unat ?n" unfolding n using d(2) by (simp add: dvd_add le_imp_power_dvd)
  have small: "unat ?n < 2 ^ 63" using p user n by simp
  have ne: "?n \<noteq> 0" using n by (metis add_is_0 power_not_zero unat_0 zero_neq_numeral)
  have "snd (munmap K A (p - PAGE_SIZE) ?n) = (\<lambda>a. if in_extent p len a then None else A a)"
    unfolding snd_munmap [OF K db dn small]
    using p by (auto simp: fun_eq_iff in_range_unat b n in_extent_def)
  moreover have "fst (munmap K A (p - PAGE_SIZE) ?n) = OK"
    using kernel_munmap [OF K db ne] by (simp add: munmap_def)
  ultimately show ?thesis unfolding unmap_memory_def by (simp add: prod_eq_iff)
qed

lemma mapped_image_outside: "\<not> in_extent p len a \<Longrightarrow> mapped_image A p len fd offset a = A a"
  using round_up_ge [of "unat len" 21] by (auto simp: in_extent_def mapped_image_def Let_def)

lemma mapped_image_inside:
  "in_extent p len a \<Longrightarrow> mapped_image A p len fd offset a \<noteq> None"
  by (auto simp: in_extent_def mapped_image_def Let_def)

lemma map_memory_unmap:
  assumes K: "kernel_ok K" and ok: "map_memory K A len fd offset = (Inr p, A')"
  shows "unmap_memory K A' p len = (OK, A)"
  unfolding unmap_memory_extent [OF K map_memory_aligned [OF K ok] map_memory_guard [OF K ok]
      map_memory_user [OF K ok]] map_memory_image [OF K ok]
  by (auto simp: fun_eq_iff mapped_image_outside in_extent_def map_memory_fresh [OF K ok])

text \<open>
  On every failure of \<open>map_memory\<close> the address space is what it was.
\<close>

lemma as_unmap_fresh:
  assumes "\<And>a. in_range b (VHD_ALIGN_UP n PAGE_SIZE) a \<Longrightarrow> A a = None"
    and "\<And>a. \<not> in_range b (VHD_ALIGN_UP n PAGE_SIZE) a \<Longrightarrow> A' a = A a"
  shows "as_unmap A' b n = A"
  using assms by (auto simp: as_unmap_def fun_eq_iff)

lemma unmap_reserved:
  assumes K: "kernel_ok K" and m: "k_mmap_any K A n = Inr m"
  shows "snd (munmap K (as_map A m n f) m n) = A"
proof -
  have "as_unmap (as_map A m n f) m n = A"
    using kernel_any_free [OF K m] by (auto intro!: as_unmap_fresh simp: as_map_def)
  moreover have "as_map A m 0 f = A"
    by (simp add: as_map_def VHD_ALIGN_UP_def PAGE_SIZE_def)
  ultimately show ?thesis
    using kernel_munmap [OF K kernel_any_aligned [OF K m], of n]
    by (cases "n = 0") (auto simp: munmap_def split: sum.splits)
qed

lemma map_memory_failure:
  assumes K: "kernel_ok K" and bad: "map_memory K A len fd offset = (Inl e, A')"
  shows "A' = A"
proof -
  let ?al = "VHD_ALIGN_UP len HUGE_PAGE_SIZE"
  let ?ml = "?al + HUGE_PAGE_SIZE + PAGE_SIZE"
  consider (any) e' where "k_mmap_any K A ?ml = Inl e'"
    | (fixd) m where "k_mmap_any K A ?ml = Inr m"
        "A' = snd (munmap K (as_map A m ?ml (\<lambda>_. Reserved)) m ?ml)"
    | (tail) m where "k_mmap_any K A ?ml = Inr m"
        "k_mmap_fixed K (as_map A m ?ml (\<lambda>_. Reserved)) (VHD_ALIGN_UP (m + PAGE_SIZE) HUGE_PAGE_SIZE) len = OK"
        "A' = snd (munmap K (as_map (as_map A m ?ml (\<lambda>_. Reserved))
           (VHD_ALIGN_UP (m + PAGE_SIZE) HUGE_PAGE_SIZE) len (\<lambda>d. FileMap fd (offset + d))) m ?ml)"
    using bad by (auto simp: map_memory_def Let_def split: sum.splits if_splits)
  then show ?thesis
  proof cases
    case any
    with bad show ?thesis by (simp add: map_memory_def Let_def)
  next
    case (fixd m)
    then show ?thesis by (simp add: unmap_reserved [OF K])
  next
    case (tail m)
    let ?p = "VHD_ALIGN_UP (m + PAGE_SIZE) HUGE_PAGE_SIZE"
    have up: "unat ?p + round_up (unat len) 12 < 2 ^ 63"
      by (rule kernel_fixed_user [OF K tail(2)])
    with round_up_ge [of "unat len" 12] have len: "unat len < 2 ^ 63" by linarith
    note al = kernel_any_aligned [OF K tail(1)] and us = kernel_any_user [OF K tail(1)]
    note L = map_layout [OF al us len]
    have "unat ?ml \<noteq> 0" using L(2) by simp
    then have ne: "?ml \<noteq> 0" by (metis unat_0)
    have "unat (VHD_ALIGN_UP len PAGE_SIZE) = round_up (unat len) 12"
      using len by (intro unat_ALIGN_PAGE) simp
    moreover have "round_up (unat len) 12 \<le> round_up (unat len) 21 + 2 ^ 12"
      using round_up_less [of "unat len" 12] round_up_ge [of "unat len" 21] by linarith
    ultimately have "in_range ?p (VHD_ALIGN_UP len PAGE_SIZE) a \<Longrightarrow> in_range m ?ml a" for a
      using L(2,5,6) by (simp add: in_range_unat)
    then show ?thesis
      unfolding tail(3) munmap_def kernel_munmap [OF K al ne]
      using kernel_any_free [OF K tail(1)] by (auto intro!: as_unmap_fresh simp: as_map_def L(3))
  qed
qed

section \<open>Well-formed maps\<close>

text \<open>
  What the slot operations maintain: a region is not empty, does not wrap around in any of its
  three address spaces, and its host mapping lies in user space; there are at most
  \<open>VHD_RAM_SLOTS_MAX\<close> slots, in ascending guest-physical order; any two are apart in
  guest-physical or in master-virtual addresses; their host mappings are disjoint and mapped.
\<close>

definition region_ok :: "vhd_memory_region \<Rightarrow> bool" where
  "region_ok r \<longleftrightarrow>
     mr_size r \<noteq> 0 \<and>
     unat (mr_gpa r) + unat (mr_size r) < 2 ^ 64 \<and>
     unat (mr_uva r) + unat (mr_size r) < 2 ^ 64 \<and>
     2 ^ 21 dvd unat (mr_ptr r) \<and> 2 ^ 12 \<le> unat (mr_ptr r) \<and>
     unat (mr_ptr r) + round_up (unat (mr_size r)) 21 + 2 ^ 12 < 2 ^ 63"

definition regions_apart :: "vhd_memory_region \<Rightarrow> vhd_memory_region \<Rightarrow> bool" where
  "regions_apart r s \<longleftrightarrow> slot_apart r (mr_gpa s) (mr_uva s) (mr_size s)"

definition host_apart :: "vhd_memory_region \<Rightarrow> vhd_memory_region \<Rightarrow> bool" where
  "host_apart r s \<longleftrightarrow> (\<forall>a. \<not> (in_extent (mr_ptr r) (mr_size r) a \<and> in_extent (mr_ptr s) (mr_size s) a))"

definition backed :: "aspace \<Rightarrow> vhd_memory_region \<Rightarrow> bool" where
  "backed A r \<longleftrightarrow> (\<forall>a. in_extent (mr_ptr r) (mr_size r) a \<longrightarrow> A a \<noteq> None)"

definition memmap_inv :: "aspace \<Rightarrow> vhd_memory_map \<Rightarrow> bool" where
  "memmap_inv A mm \<longleftrightarrow>
     length (mm_regions mm) \<le> VHD_RAM_SLOTS_MAX \<and>
     (\<forall>r \<in> set (mm_regions mm). region_ok r \<and> backed A r) \<and>
     sorted (map mr_gpa (mm_regions mm)) \<and>
     sorted_wrt regions_apart (mm_regions mm) \<and>
     sorted_wrt host_apart (mm_regions mm)"

lemma regions_apart_sym: "regions_apart r s \<longleftrightarrow> regions_apart s r"
  by (auto simp: regions_apart_def slot_apart_def)

lemma host_apart_sym: "host_apart r s \<longleftrightarrow> host_apart s r"
  by (auto simp: host_apart_def)

lemma sorted_wrt_split:
  "sorted_wrt P xs \<Longrightarrow> x \<in> set (take i xs) \<Longrightarrow> y \<in> set (drop i xs) \<Longrightarrow> P x y"
  by (metis append_take_drop_id sorted_wrt_append)

lemma sorted_wrt_insert_sym:
  assumes "sorted_wrt P xs" and "\<And>x y. P x y \<longleftrightarrow> P y x" and "\<And>x. x \<in> set xs \<Longrightarrow> P x z"
  shows "sorted_wrt P (take i xs @ z # drop i xs)"
  using assms
  by (auto simp: sorted_wrt_append dest: in_set_takeD in_set_dropD sorted_wrt_split)

text \<open>The insertion position splits the slots at the new guest-physical address.\<close>

lemma insert_pos_le: "insert_pos regs g i \<le> i"
  by (induction i) auto

lemma insert_pos_before:
  assumes "i \<le> length regs" and "sorted (map mr_gpa regs)" and "j < insert_pos regs g i"
  shows "mr_gpa (regs ! j) < g"
  using assms
proof (induction i)
  case (Suc i)
  show ?case
  proof (cases "mr_gpa (regs ! i) < g")
    case True
    with Suc.prems have "j \<le> i" by simp
    with Suc.prems have "mr_gpa (regs ! j) \<le> mr_gpa (regs ! i)"
      using sorted_nth_mono [of "map mr_gpa regs" j i] by simp
    with True show ?thesis by simp
  qed (use Suc in simp)
qed simp

lemma insert_pos_after:
  "i \<le> length regs \<Longrightarrow> insert_pos regs g i \<le> j \<Longrightarrow> j < i \<Longrightarrow> g \<le> mr_gpa (regs ! j)"
  by (induction i) (auto split: if_splits simp: less_Suc_eq)

lemma insert_sorted:
  fixes regs r
  defines "i \<equiv> insert_pos regs (mr_gpa r) (length regs)"
  assumes s: "sorted (map mr_gpa regs)"
  shows "sorted (map mr_gpa (take i regs @ r # drop i regs))"
proof -
  have "x \<le> mr_gpa r" if "x \<in> set (map mr_gpa (take i regs))" for x
    using that insert_pos_before [OF _ s, of "length regs" _ "mr_gpa r"] insert_pos_le
    by (auto simp: in_set_conv_nth i_def less_imp_le)
  moreover have "mr_gpa r \<le> x" if "x \<in> set (map mr_gpa (drop i regs))" for x
    using that insert_pos_after [of "length regs" regs "mr_gpa r"]
    by (auto simp: in_set_conv_nth i_def)
  ultimately show ?thesis
    using sorted_wrt_split [OF s, of _ i] s
    by (auto simp: sorted_append sorted_wrt_take sorted_wrt_drop simp flip: take_map drop_map)
qed

lemma map_region_keeps:
  assumes K: "kernel_ok K" and r: "map_region K A g u sz fd offset cb = (ret, A')"
    and a: "A a \<noteq> None"
  shows "A' a = A a"
proof (cases "map_memory K A sz fd offset")
  case (Pair mret A1)
  show ?thesis
  proof (cases mret)
    case (Inl e)
    then show ?thesis using r Pair map_memory_failure [OF K, of A sz fd offset e A1]
      by (auto simp: map_region_def)
  next
    case (Inr p)
    with Pair have ok: "map_memory K A sz fd offset = (Inr p, A1)" by simp
    have out: "\<not> in_extent p sz a"
      using a map_memory_fresh [OF K ok, of a] by (auto simp: in_extent_def)
    have A1: "A1 a = A a"
      using out by (simp add: map_memory_image [OF K ok] mapped_image_outside)
    have "2 ^ 12 dvd unat p"
      by (rule dvd_trans [OF _ map_memory_aligned [OF K ok]]) (simp add: le_imp_power_dvd)
    moreover have "unat sz < 2 ^ 63"
      using map_memory_user [OF K ok] round_up_ge [of "unat sz" 21] by linarith
    ultimately have "snd (munmap K A1 p sz) a = A1 a"
      using snd_munmap [OF K _ map_memory_len_aligned [OF K ok]] out round_up_ge [of "unat sz" 21]
      by (auto simp: in_range_unat in_extent_def)
    with A1 show ?thesis using r ok by (auto simp: map_region_def Let_def split: sum.splits)
  qed
qed

lemma map_region_Success:
  assumes K: "kernel_ok K" and r: "map_region K A g u sz fd offset cb = (Inr reg, A')"
    and g: "\<not> g + sz < g" and u: "\<not> u + sz < u"
  shows "mr_gpa reg = g" and "mr_uva reg = u" and "mr_size reg = sz" and "region_ok reg"
    and "backed A' reg" and "\<And>a. in_extent (mr_ptr reg) sz a \<Longrightarrow> A a = None"
proof -
  from r obtain p where ok: "map_memory K A sz fd offset = (Inr p, A')"
    and reg: "reg = \<lparr>mr_gpa = g, mr_uva = u, mr_ptr = p, mr_size = sz\<rparr>"
    by (auto simp: map_region_def Let_def split: prod.splits sum.splits)
  show "mr_gpa reg = g" "mr_uva reg = u" "mr_size reg = sz" by (simp_all add: reg)
  have "sz \<noteq> 0"
    by (rule map_memory_SuccessE [OF ok]) (auto dest: kernel_fixed_nonempty [OF K])
  then show "region_ok reg"
    using g u map_memory_numbers [OF K ok] by (simp add: region_ok_def reg overflow_check)
  show "backed A' reg"
    by (simp add: backed_def reg map_memory_image [OF K ok] mapped_image_inside)
  show "A a = None" if "in_extent (mr_ptr reg) sz a" for a
    using that by (auto simp: reg in_extent_def intro: map_memory_fresh [OF K ok])
qed

lemma add_slot_cases:
  assumes "vhd_memmap_add_slot K A mm g u sz fd offset = (ret, A', mm')"
  obtains (refused) e where "ret = Inl e" "A' = A" "mm' = mm"
    | (unmapped) e where "ret = Inl e" "mm' = mm"
        "map_region K A g u sz fd offset (mm_map_cb mm) = (Inl e, A')"
    | (added) reg i where "ret = OK"
        "map_region K A g u sz fd offset (mm_map_cb mm) = (Inr reg, A')"
        "i = insert_pos (mm_regions mm) g (length (mm_regions mm))"
        "mm' = mm\<lparr>mm_regions := take i (mm_regions mm) @ [reg] @ drop i (mm_regions mm)\<rparr>"
        "\<not> g + sz < g" "\<not> u + sz < u" "length (mm_regions mm) \<noteq> VHD_RAM_SLOTS_MAX"
        "\<forall>r \<in> set (mm_regions mm). slot_apart r g u sz"
proof (cases "g + sz < g \<or> u + sz < u \<or> length (mm_regions mm) = VHD_RAM_SLOTS_MAX \<or>
    \<not> (\<forall>r \<in> set (mm_regions mm). slot_apart r g u sz)")
  case True
  with assms have "\<exists>e. ret = Inl e \<and> A' = A \<and> mm' = mm"
    unfolding vhd_memmap_add_slot_def by (metis (no_types, lifting) prod.inject)
  with refused show thesis by blast
next
  case False
  then have eq: "vhd_memmap_add_slot K A mm g u sz fd offset =
     (let i = insert_pos (mm_regions mm) g (length (mm_regions mm))
      in case map_region K A g u sz fd offset (mm_map_cb mm) of
           (Inl e, A1) \<Rightarrow> (Inl e, A1, mm)
         | (Inr region, A1) \<Rightarrow> (OK, A1, mm\<lparr>mm_regions :=
                take i (mm_regions mm) @ [region] @ drop i (mm_regions mm)\<rparr>))"
    unfolding vhd_memmap_add_slot_def by simp
  obtain x A1 where mr: "map_region K A g u sz fd offset (mm_map_cb mm) = (x, A1)" by fastforce
  show thesis
  proof (cases x)
    case (Inl e)
    with assms eq mr show thesis by (intro unmapped [of e]) auto
  next
    case (Inr reg)
    with assms eq mr False show thesis by (intro added [of reg]) (auto simp: Let_def)
  qed
qed

lemma add_slot_inv:
  assumes K: "kernel_ok K" and inv: "memmap_inv A mm"
    and add: "vhd_memmap_add_slot K A mm g u sz fd offset = (ret, A', mm')"
  shows "memmap_inv A' mm'"
proof -
  have keep: "memmap_inv A' mm" if "map_region K A g u sz fd offset (mm_map_cb mm) = (x, A')" for x
    using inv map_region_keeps [OF K that] by (auto simp: memmap_inv_def backed_def)
  from add show ?thesis
  proof (cases rule: add_slot_cases)
    case (added reg i)
    note R = map_region_Success [OF K added(2,5,6)]
    have inv': "memmap_inv A' mm" using added(2) by (rule keep)
    have old: "\<And>r. r \<in> set (mm_regions mm) \<Longrightarrow> backed A r" using inv by (simp add: memmap_inv_def)
    have ha: "host_apart r reg" if "r \<in> set (mm_regions mm)" for r
      using old [OF that] R(3,6) by (fastforce simp: host_apart_def backed_def)
    have ra: "regions_apart r reg" if "r \<in> set (mm_regions mm)" for r
      using added(8) that R by (simp add: regions_apart_def)
    have len: "length (mm_regions mm') = Suc (length (mm_regions mm))"
      using insert_pos_le [of "mm_regions mm" g "length (mm_regions mm)"] by (simp add: added(3,4))
    have set: "set (mm_regions mm') = insert reg (set (mm_regions mm))"
      by (simp add: added(4)) (metis Un_commute append_take_drop_id set_append)
    have "sorted (map mr_gpa (mm_regions mm'))"
      using insert_sorted [of "mm_regions mm" reg] inv R(1) by (simp add: added(3,4) memmap_inv_def)
    moreover have "sorted_wrt regions_apart (mm_regions mm')"
      using sorted_wrt_insert_sym [where P = regions_apart, OF _ regions_apart_sym ra] inv by (simp add: added(4) memmap_inv_def)
    moreover have "sorted_wrt host_apart (mm_regions mm')"
      using sorted_wrt_insert_sym [where P = host_apart, OF _ host_apart_sym ha] inv by (simp add: added(4) memmap_inv_def)
    ultimately show ?thesis
      using inv' R(4,5) len set added(7) by (auto simp: memmap_inv_def)
  qed (use inv keep in auto)
qed

lemma slot_index_le: "slot_index regs g u sz \<le> length regs"
  by (induction regs) auto

lemma slot_index_hit:
  "slot_index regs g u sz < length regs \<Longrightarrow>
     mr_gpa (regs ! slot_index regs g u sz) = g \<and> mr_uva (regs ! slot_index regs g u sz) = u \<and>
     mr_size (regs ! slot_index regs g u sz) = sz"
  by (induction regs) (auto split: if_splits)

lemma slot_index_miss:
  "slot_index regs g u sz = length regs \<longleftrightarrow>
     \<not> (\<exists>r \<in> set regs. mr_gpa r = g \<and> mr_uva r = u \<and> mr_size r = sz)"
  by (induction regs) auto

lemma unmap_region_ok:
  assumes K: "kernel_ok K" and r: "region_ok r" and u: "unmap_region K A r cb = (ret, A')"
  shows "(\<exists>e. ret = Inl e \<and> A' = A) \<or>
    (ret = OK \<and> A' = (\<lambda>a. if in_extent (mr_ptr r) (mr_size r) a then None else A a))"
  using u r unmap_memory_extent [OF K, of "mr_ptr r" "mr_size r" A]
  by (auto simp: unmap_region_def Let_def region_ok_def split: sum.splits option.splits)

lemma sorted_wrt_delete:
  "sorted_wrt P xs \<Longrightarrow> sorted_wrt P (take i xs @ drop (Suc i) xs)"
proof (induction xs arbitrary: i)
  case (Cons x xs)
  then show ?case
    by (cases i) (auto dest: in_set_takeD in_set_dropD)
qed simp

lemma del_slot_inv:
  assumes K: "kernel_ok K" and inv: "memmap_inv A mm"
    and del: "vhd_memmap_del_slot K A mm g u sz = (ret, A', mm')"
  shows "memmap_inv A' mm'"
proof -
  let ?regs = "mm_regions mm"
  define i where "i = slot_index ?regs g u sz"
  show ?thesis
  proof (cases "i = length ?regs")
    case True
    with del inv show ?thesis by (simp add: vhd_memmap_del_slot_def i_def Let_def)
  next
    case False
    then have i: "i < length ?regs" using slot_index_le [of ?regs g u sz] by (simp add: i_def)
    obtain x A1 where u: "unmap_region K A (?regs ! i) (mm_unmap_cb mm) = (x, A1)" by fastforce
    have r: "region_ok (?regs ! i)" using inv i by (simp add: memmap_inv_def)
    from unmap_region_ok [OF K r u] show ?thesis
    proof (elim disjE exE conjE)
      fix e assume "x = Inl e" "A1 = A"
      with del inv u False show ?thesis by (simp add: vhd_memmap_del_slot_def i_def Let_def)
    next
      assume x: "x = OK"
        and A1: "A1 = (\<lambda>a. if in_extent (mr_ptr (?regs ! i)) (mr_size (?regs ! i)) a then None else A a)"
      have res: "A' = A1" "mm_regions mm' = take i ?regs @ drop (Suc i) ?regs"
        using del u False x by (auto simp: vhd_memmap_del_slot_def i_def Let_def)
      have split: "?regs = take i ?regs @ ?regs ! i # drop (Suc i) ?regs"
        using i by (rule id_take_nth_drop)
      have "sorted_wrt host_apart ?regs" using inv by (simp add: memmap_inv_def)
      then have "sorted_wrt host_apart (take i ?regs @ ?regs ! i # drop (Suc i) ?regs)"
        using split by metis
      then have "host_apart (?regs ! i) s" if "s \<in> set (take i ?regs @ drop (Suc i) ?regs)" for s
        using that host_apart_sym by (auto simp: sorted_wrt_append)
      then have "backed A1 s" if "s \<in> set (take i ?regs @ drop (Suc i) ?regs)" for s
        using that inv in_set_takeD in_set_dropD unfolding A1 backed_def host_apart_def memmap_inv_def
        by (smt (verit) Un_iff set_append)
      moreover have "sorted (map mr_gpa (take i ?regs @ drop (Suc i) ?regs))"
        using inv sorted_wrt_delete [of "(\<le>)" "map mr_gpa ?regs" i]
        by (simp add: memmap_inv_def take_map drop_map)
      ultimately show ?thesis
        using inv res sorted_wrt_delete
        by (auto simp: memmap_inv_def dest: in_set_takeD in_set_dropD)
    qed
  qed
qed

section \<open>Translations\<close>

text \<open>The host address range of a region, and the host addresses of a whole map.\<close>

definition host_range_in :: "vhd_memory_region \<Rightarrow> u64 \<Rightarrow> u64 \<Rightarrow> bool" where
  "host_range_in r p len \<longleftrightarrow>
     unat (mr_ptr r) \<le> unat p \<and> unat p + unat len \<le> unat (mr_ptr r) + unat (mr_size r)"

lemma region_ok_ptr:
  assumes "region_ok r"
  shows "unat (mr_ptr r) + unat (mr_size r) < 2 ^ 63"
  using assms round_up_ge [of "unat (mr_size r)" 21] by (simp add: region_ok_def)

lemma region_offset:
  assumes r: "region_ok r" and x: "in_range b (mr_size r) x"
  shows "unat (mr_ptr r + (x - b)) = unat (mr_ptr r) + (unat x - unat b)"
proof -
  have "unat (x - b) = unat x - unat b" using x by (simp add: in_range_def unat_sub_le)
  moreover have "unat x - unat b < unat (mr_size r)" using x by (auto simp: in_range_unat)
  ultimately show ?thesis
    using region_ok_ptr [OF r] by (subst unat_add_63) simp_all
qed

lemma gpa_range_regions_sound:
  assumes "\<forall>r \<in> set regs. region_ok r" and "gpa_range_to_ptr_regions regs g len = Some p"
  shows "\<exists>r \<in> set regs. in_range (mr_gpa r) (mr_size r) g \<and> p = mr_ptr r + (g - mr_gpa r) \<and>
    unat g + unat len \<le> unat (mr_gpa r) + unat (mr_size r) \<and> host_range_in r p len"
  using assms
proof (induction regs)
  case (Cons r regs)
  show ?case
  proof (cases "in_range (mr_gpa r) (mr_size r) g")
    case True
    have ok: "region_ok r" using Cons.prems by simp
    from True Cons.prems have len: "len \<le> mr_size r" "g - mr_gpa r + len \<le> mr_size r"
      and p: "p = mr_ptr r + (g - mr_gpa r)"
      by (auto simp: in_range_def split: if_splits)
    have "unat (g - mr_gpa r + len) = unat (g - mr_gpa r) + unat len"
      using True len(1) region_ok_ptr [OF ok]
      by (subst unat_add_64) (auto simp: in_range_def word_less_nat_alt word_le_nat_alt)
    with len(2) True have fits: "unat g - unat (mr_gpa r) + unat len \<le> unat (mr_size r)"
      by (simp add: in_range_def word_le_nat_alt unat_sub_le)
    moreover have "unat (mr_gpa r) \<le> unat g" using True by (simp add: in_range_unat)
    ultimately have "unat g + unat len \<le> unat (mr_gpa r) + unat (mr_size r)" by linarith
    moreover have "host_range_in r p len"
      using fits region_offset [OF ok True] by (simp add: host_range_in_def p)
    ultimately show ?thesis using True p by auto
  next
    case False
    with Cons show ?thesis by (auto simp: in_range_def)
  qed
qed simp

lemma uva_regions_sound:
  assumes "uva_to_ptr_regions regs u = Some p"
  shows "\<exists>r \<in> set regs. in_range (mr_uva r) (mr_size r) u \<and> p = mr_ptr r + (u - mr_uva r)"
  using assms by (induction regs) (auto simp: in_range_def split: if_splits)

lemma host_range_extent:
  assumes "host_range_in r p len" and "0 < unat len"
  shows "in_extent (mr_ptr r) (mr_size r) p"
  using assms round_up_ge [of "unat (mr_size r)" 21] by (simp add: host_range_in_def in_extent_def)

text \<open>Host mappings do not overlap, so the region that holds a host address is unique.\<close>

lemma ptr_to_gpa_region:
  assumes "\<forall>r \<in> set regs. region_ok r" and "sorted_wrt host_apart regs"
    and "r \<in> set regs" and "host_range_in r p len" and "0 < unat len"
  shows "ptr_to_gpa_regions regs p = (p - mr_ptr r) + mr_gpa r"
  using assms
proof (induction regs)
  case (Cons s regs)
  have ok: "region_ok s" using Cons.prems by simp
  have sum: "unat (mr_ptr s + mr_size s) = unat (mr_ptr s) + unat (mr_size s)"
    using region_ok_ptr [OF ok] by (rule unat_add_63)
  have hit: "mr_ptr s \<le> p \<and> p < mr_ptr s + mr_size s \<longleftrightarrow> host_range_in s p 1"
    by (auto simp: host_range_in_def word_le_nat_alt word_less_nat_alt sum)
  show ?case
  proof (cases "r = s")
    case True
    with Cons.prems hit show ?thesis by (auto simp: host_range_in_def)
  next
    case False
    then have r: "r \<in> set regs" using Cons.prems by simp
    have "\<not> host_range_in s p 1"
      using Cons.prems r host_range_extent [OF Cons.prems(4,5)] host_range_extent [of s p 1]
      by (auto simp: host_apart_def)
    with hit Cons r show ?thesis by auto
  qed
qed simp

lemma gpa_ptr_gpa:
  assumes "memmap_inv A mm" and "gpa_range_to_ptr mm g len = Some p" and "0 < unat len"
  shows "ptr_to_gpa mm p = g"
proof -
  let ?regs = "mm_regions mm"
  have ok: "\<forall>r \<in> set ?regs. region_ok r" and ha: "sorted_wrt host_apart ?regs"
    using assms(1) by (simp_all add: memmap_inv_def)
  obtain r where r: "r \<in> set ?regs" "p = mr_ptr r + (g - mr_gpa r)" "host_range_in r p len"
    using gpa_range_regions_sound [OF ok, of g len p] assms(2) unfolding gpa_range_to_ptr_def
    by blast
  show ?thesis
    unfolding ptr_to_gpa_def ptr_to_gpa_region [OF ok ha r(1,3) assms(3)] by (simp add: r(2))
qed

text \<open>Each byte of a translated range, and that it is mapped.\<close>

lemma gpa_range_byte:
  assumes inv: "memmap_inv A mm" and tr: "gpa_range_to_ptr mm g len = Some p" and k: "k < unat len"
  obtains r where "r \<in> set (mm_regions mm)" "p = mr_ptr r + (g - mr_gpa r)"
    "unat (p + word_of_nat k) = unat p + k" "host_range_in r (p + word_of_nat k) 1"
proof -
  let ?regs = "mm_regions mm" and ?q = "p + word_of_nat k :: u64"
  have ok: "\<forall>r \<in> set ?regs. region_ok r" using inv by (simp add: memmap_inv_def)
  obtain r where r: "r \<in> set ?regs" "p = mr_ptr r + (g - mr_gpa r)" "host_range_in r p len"
    using gpa_range_regions_sound [OF ok, of g len p] tr unfolding gpa_range_to_ptr_def by blast
  have user: "unat (mr_ptr r) + unat (mr_size r) < 2 ^ 63" using ok r(1) region_ok_ptr by blast
  have uk: "unat (word_of_nat k :: u64) = k"
    using k unat_less_64 [of len] by (intro unat_of_nat_64) linarith
  have q: "unat ?q = unat p + k"
    using r(3) k user uk by (subst unat_add_63) (simp_all add: host_range_in_def)
  have hq: "host_range_in r ?q 1" using r(3) k q by (simp add: host_range_in_def)
  from that [OF r(1,2) q hq] show thesis .
qed

lemma gpa_range_bound:
  assumes inv: "memmap_inv A mm" and tr: "gpa_range_to_ptr mm g len = Some p"
  shows "unat g + unat len < 2 ^ 64"
proof -
  have ok: "\<forall>r \<in> set (mm_regions mm). region_ok r" using inv by (simp add: memmap_inv_def)
  then obtain r where "r \<in> set (mm_regions mm)" "unat g + unat len \<le> unat (mr_gpa r) + unat (mr_size r)"
    using gpa_range_regions_sound [OF ok, of g len p] tr unfolding gpa_range_to_ptr_def by blast
  with ok show ?thesis by (auto simp: region_ok_def)
qed

lemma gpa_range_backed:
  assumes inv: "memmap_inv A mm" and tr: "gpa_range_to_ptr mm g len = Some p" and k: "k < unat len"
  shows "A (p + word_of_nat k) \<noteq> None"
proof -
  obtain r where r: "r \<in> set (mm_regions mm)" "host_range_in r (p + word_of_nat k) 1"
    by (rule gpa_range_byte [OF inv tr k])
  then show ?thesis
    using inv host_range_extent [OF r(2)] by (auto simp: memmap_inv_def backed_def)
qed

section \<open>References to maps\<close>

lemma memmap_unref_ref:
  assumes "ms_maps S mid = Some mm" and "unat (mm_ref mm) < 2 ^ 64 - 1" and "0 < unat (mm_ref mm)"
  shows "vhd_memmap_unref K mid (vhd_memmap_ref mid S) = S"
proof -
  have "mm_ref mm + 1 \<noteq> 1" using assms(3) by auto
  then show ?thesis
    using assms(1) by (cases S) (auto simp: vhd_memmap_unref_def vhd_memmap_ref_def
        refcount_inc_def refcount_dec_and_test_def fun_eq_iff)
qed

lemma unmap_regions_ok:
  assumes K: "kernel_ok K" and "\<forall>r \<in> set regs. region_ok r"
  shows "unmap_regions K A None regs a =
    (if \<exists>r \<in> set regs. in_extent (mr_ptr r) (mr_size r) a then None else A a)"
  using assms(2)
proof (induction regs arbitrary: A)
  case (Cons r regs)
  then have "snd (unmap_region K A r None) =
      (\<lambda>a. if in_extent (mr_ptr r) (mr_size r) a then None else A a)"
    using unmap_memory_extent [OF K] by (simp add: unmap_region_def region_ok_def)
  with Cons show ?case by auto
qed simp

section \<open>Properties\<close>

text \<open>
  A kernel for the concrete instances: it serves two address ranges, refuses long requests, and
  follows the rules of the system calls.
\<close>

definition two_slot_kernel :: kernel where
  "two_slot_kernel =
     \<lparr>k_mmap_any = (\<lambda>A n.
        if n > 0x40000000 then Inl ENOMEM
        else if \<forall>a. in_range 0x7f0000000000 (VHD_ALIGN_UP n PAGE_SIZE) a \<longrightarrow> A a = None
        then Inr 0x7f0000000000
        else if \<forall>a. in_range 0x7f8000000000 (VHD_ALIGN_UP n PAGE_SIZE) a \<longrightarrow> A a = None
        then Inr 0x7f8000000000
        else Inl ENOMEM),
      k_mmap_fixed = (\<lambda>A b n.
        if n \<noteq> 0 \<and> 2 ^ 12 dvd unat b \<and> unat b + round_up (unat n) 12 < 2 ^ 63
        then OK else Inl EINVAL),
      k_munmap = (\<lambda>A b n. OK)\<rparr>"

lemma two_slot_kernel_ok: "kernel_ok two_slot_kernel"
proof -
  have "round_up (unat n) 12 < 2 ^ 30 + 1 + 2 ^ 12" if "\<not> n > 0x40000000" for n :: u64
    using that round_up_less [of "unat n" 12] by (simp add: word_less_nat_alt)
  then have "unat (0x7f0000000000 :: u64) + round_up (unat n) 12 < 2 ^ 63"
    and "unat (0x7f8000000000 :: u64) + round_up (unat n) 12 < 2 ^ 63"
    if "\<not> n > 0x40000000" for n :: u64
    using that by (force)+
  then show ?thesis
    unfolding kernel_ok_def two_slot_kernel_def
    by (auto split: if_splits)
qed


abbreviation empty_map :: vhd_memory_map where
  "empty_map \<equiv> \<lparr>mm_ref = 1, mm_map_cb = None, mm_unmap_cb = None, mm_regions = []\<rparr>"

lemma empty_map_inv: "memmap_inv A empty_map"
  by (simp add: memmap_inv_def)


text \<open>
  C19: a successful \<open>gpa_range_to_ptr\<close> yields memory that is all there. In a well-formed map
  every byte of the translated range is mapped in this process, no address computation wraps,
  and \<open>ptr_to_gpa\<close> takes each byte back to the guest address it came from.
\<close>

theorem gpa_range_to_ptr_safe:
  assumes inv: "memmap_inv A mm" and tr: "gpa_range_to_ptr mm g len = Some p"
    and k: "k < unat len"
  shows "unat (p + word_of_nat k) = unat p + k \<and> A (p + word_of_nat k) \<noteq> None \<and>
    ptr_to_gpa mm (p + word_of_nat k) = g + word_of_nat k"
proof -
  have ok: "\<forall>r \<in> set (mm_regions mm). region_ok r" and ha: "sorted_wrt host_apart (mm_regions mm)"
    using inv by (simp_all add: memmap_inv_def)
  obtain r where r: "r \<in> set (mm_regions mm)" "p = mr_ptr r + (g - mr_gpa r)"
    "unat (p + word_of_nat k) = unat p + k" "host_range_in r (p + word_of_nat k) 1"
    by (rule gpa_range_byte [OF inv tr k])
  have "ptr_to_gpa mm (p + word_of_nat k) = g + word_of_nat k"
    unfolding ptr_to_gpa_def ptr_to_gpa_region [OF ok ha r(1,4), simplified] by (simp add: r(2))
  with r(3) gpa_range_backed [OF inv tr k] show ?thesis by blast
qed

abbreviation one_slot_map :: vhd_memory_map where
  "one_slot_map \<equiv> \<lparr>mm_ref = 1, mm_map_cb = None, mm_unmap_cb = None, mm_regions =
     [\<lparr>mr_gpa = 0x100000, mr_uva = 0x10000, mr_ptr = 0x7f0000200000, mr_size = 0x200000\<rparr>]\<rparr>"

lemma one_slot_map_inv: "memmap_inv (\<lambda>_. Some Anonymous) one_slot_map"
  by (simp add: memmap_inv_def region_ok_def backed_def VHD_RAM_SLOTS_MAX_def round_up_def)

theorem gpa_range_to_ptr_safe_witness:
  "gpa_range_to_ptr one_slot_map 0x100010 8 = Some 0x7f0000200010 \<and>
   ptr_to_gpa one_slot_map (0x7f0000200010 + word_of_nat 7) = 0x100010 + word_of_nat 7"
proof -
  have "gpa_range_to_ptr one_slot_map 0x100010 8 = Some 0x7f0000200010"
    by (simp add: gpa_range_to_ptr_def)
  then show ?thesis
    using gpa_range_to_ptr_safe [OF one_slot_map_inv, of "0x100010" 8 "0x7f0000200010" 7] by simp
qed

text \<open>
  C31: \<open>map_memory\<close> and \<open>unmap_memory\<close> are inverse and clean up. When the mapping fails the
  address space is unchanged; when it succeeds at \<open>p\<close>, the file is visible from \<open>p\<close> on,
  byte for byte, the page before it is a reserved guard page, and \<open>unmap_memory\<close> restores
  exactly the address space from before.
\<close>

theorem map_memory_unmap_memory:
  assumes K: "kernel_ok K"
  shows "case map_memory K A len fd offset of
      (Inl e, A') \<Rightarrow> A' = A
    | (Inr p, A') \<Rightarrow>
        unmap_memory K A' p len = (OK, A) \<and>
        A' (p - 1) = Some Reserved \<and>
        (\<forall>d < len. A' (p + d) = Some (FileMap fd (offset + d)))"
proof -
  obtain x A' where m: "map_memory K A len fd offset = (x, A')" by fastforce
  show ?thesis
  proof (cases x)
    case (Inl e)
    with m map_memory_failure [OF K] show ?thesis by auto
  next
    case (Inr p)
    with m have ok: "map_memory K A len fd offset = (Inr p, A')" by simp
    note N = map_memory_numbers [OF K ok]
    have g: "unat (p - 1) = unat p - 1" using N(3) by (subst unat_sub_le) (simp_all add: word_le_nat_alt)
    have "A' (p - 1) = Some Reserved"
      unfolding map_memory_image [OF K ok] mapped_image_def Let_def g using N(3) by auto
    moreover have "A' (p + d) = Some (FileMap fd (offset + d))" if "d < len" for d
    proof -
      have d: "unat d < unat len" using that by (simp add: word_less_nat_alt)
      have "unat (p + d) = unat p + unat d"
        using d N(4) round_up_ge [of "unat len" 21] by (intro unat_add_63) linarith
      with d show ?thesis unfolding map_memory_image [OF K ok] mapped_image_def Let_def by simp
    qed
    ultimately show ?thesis using ok Inr map_memory_unmap [OF K ok] by simp
  qed
qed

theorem map_memory_unmap_memory_witness:
  "case map_memory two_slot_kernel (\<lambda>_. None) 0x3000 7 0 of
      (Inl e, A') \<Rightarrow> A' = (\<lambda>_. None)
    | (Inr p, A') \<Rightarrow>
        unmap_memory two_slot_kernel A' p 0x3000 = (OK, \<lambda>_. None) \<and>
        A' (p - 1) = Some Reserved \<and>
        (\<forall>d < 0x3000. A' (p + d) = Some (FileMap 7 (0 + d)))"
  using map_memory_unmap_memory [OF two_slot_kernel_ok, of "\<lambda>_. None" "0x3000" 7 0] by simp



text \<open>
  The intersection test compares guest-physical \<^emph>\<open>or\<close> master-virtual ranges: a new slot that
  is apart from the existing ones in master-virtual space is accepted even where its
  guest-physical range lies on top of an existing slot.
\<close>

theorem add_slot_accepts_gpa_overlap:
  assumes "\<forall>r \<in> set (mm_regions mm). mr_uva r + mr_size r \<le> u \<or> u + sz \<le> mr_uva r"
    and "\<not> g + sz < g" and "\<not> u + sz < u" and "length (mm_regions mm) < VHD_RAM_SLOTS_MAX"
    and "map_region K A g u sz fd offset (mm_map_cb mm) = (Inr reg, A')"
  shows "\<exists>mm'. vhd_memmap_add_slot K A mm g u sz fd offset = (OK, A', mm') \<and>
    set (mm_regions mm') = insert reg (set (mm_regions mm))"
proof -
  let ?i = "insert_pos (mm_regions mm) g (length (mm_regions mm))"
  have "\<forall>r \<in> set (mm_regions mm). slot_apart r g u sz"
    using assms(1) by (auto simp: slot_apart_def)
  moreover have "set (take ?i (mm_regions mm)) \<union> set (drop ?i (mm_regions mm)) = set (mm_regions mm)"
    by (metis append_take_drop_id set_append)
  ultimately show ?thesis
    using assms by (auto simp: vhd_memmap_add_slot_def Let_def)
qed

theorem add_slot_accepts_gpa_overlap_witness:
  "\<exists>A' mm'. vhd_memmap_add_slot two_slot_kernel (\<lambda>_. None) one_slot_map
      0x100000 0x80000000 0x200000 3 0 = (OK, A', mm') \<and>
    set (mm_regions mm') =
      {\<lparr>mr_gpa = 0x100000, mr_uva = 0x10000, mr_ptr = 0x7f0000200000, mr_size = 0x200000\<rparr>,
       \<lparr>mr_gpa = 0x100000, mr_uva = 0x80000000, mr_ptr = 0x7f0000200000, mr_size = 0x200000\<rparr>}"
proof -
  let ?new = "\<lparr>mr_gpa = 0x100000, mr_uva = 0x80000000, mr_ptr = 0x7f0000200000, mr_size = 0x200000\<rparr>"
  have "\<exists>A'. map_region two_slot_kernel (\<lambda>_. None) 0x100000 0x80000000 0x200000 3 0 None = (Inr ?new, A')"
    by (simp add: map_region_def map_memory_def two_slot_kernel_def VHD_ALIGN_UP_def PAGE_SIZE_def
        HUGE_PAGE_SIZE_def Let_def round_up_def)
  then obtain A' where A': "map_region two_slot_kernel (\<lambda>_. None) 0x100000 0x80000000 0x200000 3 0
      (mm_map_cb one_slot_map) = (Inr ?new, A')"
    by auto
  have "\<exists>mm'. vhd_memmap_add_slot two_slot_kernel (\<lambda>_. None) one_slot_map
      0x100000 0x80000000 0x200000 3 0 = (OK, A', mm') \<and>
    set (mm_regions mm') = insert ?new (set (mm_regions one_slot_map))"
    by (rule add_slot_accepts_gpa_overlap [OF _ _ _ _ A']) (simp_all add: VHD_RAM_SLOTS_MAX_def)
  then show ?thesis by (simp add: insert_commute) blast
qed

text \<open>
  When the user's map callback fails, \<open>map_region\<close> calls \<open>munmap (ptr, size)\<close> instead of
  \<open>unmap_memory\<close>: the guard page before the region, free before the call, stays reserved.
\<close>

theorem map_region_cb_failure_leaks_guard:
  assumes K: "kernel_ok K" and ok: "map_memory K A sz fd offset = (Inr p, A1)"
    and cb: "cb p (VHD_ALIGN_UP sz HUGE_PAGE_SIZE) = Inl e"
  shows "\<exists>A'. map_region K A g u sz fd offset (Some cb) = (Inl e, A') \<and>
    A (p - 1) = None \<and> A' (p - 1) = Some Reserved"
proof -
  note N = map_memory_numbers [OF K ok]
  have g: "unat (p - 1) = unat p - 1" using N(3) by (subst unat_sub_le) (simp_all add: word_le_nat_alt)
  have "A (p - 1) = None" by (rule map_memory_fresh [OF K ok]) (use N(3) g in auto)
  moreover have "A1 (p - 1) = Some Reserved"
    unfolding map_memory_image [OF K ok] mapped_image_def Let_def g using N(3) by auto
  moreover have "\<not> in_range p n (p - 1)" for n using N(3) g by (simp add: in_range_unat)
  ultimately show ?thesis
    using ok cb by (auto simp: map_region_def munmap_def as_unmap_def split: sum.splits)
qed

theorem map_region_cb_failure_leaks_guard_witness:
  "\<exists>A'. map_region two_slot_kernel (\<lambda>_. None) 0 0 0x200000 3 0 (Some (\<lambda>_ _. Inl ENOMEM)) =
     (Inl ENOMEM, A') \<and> A' (0x7f0000200000 - 1) = Some Reserved"
proof -
  have "\<exists>A1. map_memory two_slot_kernel (\<lambda>_. None) 0x200000 3 0 = (Inr 0x7f0000200000, A1)"
    by (simp add: map_memory_def two_slot_kernel_def VHD_ALIGN_UP_def PAGE_SIZE_def
        HUGE_PAGE_SIZE_def Let_def round_up_def)
  then show ?thesis
    using map_region_cb_failure_leaks_guard [OF two_slot_kernel_ok, of "\<lambda>_. None" "0x200000" 3 0
        "0x7f0000200000" _ "\<lambda>_ _. Inl ENOMEM" ENOMEM 0 0]
    by blast
qed

end
