(* ===== verification/Memlog.thy ===== *)
theory Memlog
  imports Memmap
begin

text \<open>
  The dirty-page log of \<open>memlog.c\<close>: a shared bitmap with one bit per 4 KiB page of guest
  memory, written in 64-bit chunks. The bitmap is a function from chunk numbers to words; the
  atomic \<open>or\<close> on a chunk is an update of that function.
\<close>

section \<open>Definitions\<close>

record vhd_memory_log =
  ml_base :: "nat \<Rightarrow> u64"
  ml_size :: u64

definition VHOST_LOG_PAGE :: u64 where
  "VHOST_LOG_PAGE = 0x1000"

text \<open>
  \<open>mmap\<close> of the log file is the parameter \<open>contents\<close>: its chunks, or a failure. A mapping is
  never at address zero, so the NULL test on the base address at the start of
  \<open>vhd_mark_gpa_range_dirty\<close> does not occur here.
\<close>

definition vhd_memlog_new :: "u64 \<Rightarrow> (nat \<Rightarrow> u64) res \<Rightarrow> vhd_memory_log option" where
  "vhd_memlog_new sz contents =
     (case contents of Inl _ \<Rightarrow> None | Inr c \<Rightarrow> Some \<lparr>ml_base = c, ml_size = sz\<rparr>)"

text \<open>The inner loop: collect the bits of one chunk; returns the mask and the next page.\<close>

function chunk_mask :: "u64 \<Rightarrow> u64 \<Rightarrow> u64 \<Rightarrow> u64 \<Rightarrow> u64 \<times> u64" where
  "chunk_mask page last_page chunk m =
     (if page \<le> last_page \<and> page div 64 = chunk
      then chunk_mask (page + 1) last_page chunk (m OR push_bit (unat (page mod 64)) 1)
      else (m, page))"
  by pat_completeness auto
termination
proof (relation "measure (\<lambda>(page, last_page, chunk, m).
    if page div 64 = chunk then 64 - unat page mod 64 else 0)", goal_cases)
  case (2 page last_page chunk m)
  have "unat (page + 1) mod 64 = Suc (unat page mod 64)" if "(page + 1) div 64 = page div 64"
  proof -
    from that have "unat ((page + 1) div 64) = unat (page div 64)" by simp
    then have "unat (page + 1) div 64 = unat page div 64" by (simp add: unat_div)
    moreover have "unat (page + 1) = Suc (unat page) \<or> unat (page + 1) = 0 \<and> unat page = 2 ^ 64 - 1"
    proof (cases "Suc (unat page) < 2 ^ 64")
      case True
      then show ?thesis by (simp add: unat_word_ariths)
    next
      case False
      then have "unat page = 2 ^ 64 - 1" using unat_less_64 [of page] by simp
      then show ?thesis by (simp add: unat_word_ariths)
    qed
    ultimately show ?thesis by (auto simp: mod_Suc div_Suc split: if_splits)
  qed
  with 2 show ?case by auto
qed simp

declare chunk_mask.simps [simp del]

text \<open>
  The outer \<open>do ... while\<close> loop. As a loop on its own it need not end (with \<open>last_page\<close> the
  largest word the counter wraps), so not ending is \<open>None\<close>.
\<close>

partial_function (option) mark_chunks :: "(nat \<Rightarrow> u64) \<Rightarrow> u64 \<Rightarrow> u64 \<Rightarrow> (nat \<Rightarrow> u64) option" where
  "mark_chunks log_addr page last_page =
     (let chunk = page div 64;
          (m, page') = chunk_mask page last_page chunk 0;
          log' = log_addr(unat chunk := log_addr (unat chunk) OR m)
      in if page' \<le> last_page then mark_chunks log' page' last_page else Some log')"

definition vhd_mark_gpa_range_dirty ::
  "vhd_memory_log \<Rightarrow> u64 \<Rightarrow> u64 \<Rightarrow> vhd_memory_log option" where
  "vhd_mark_gpa_range_dirty log gpa len =
     (let log_size = ml_size log;
          page = gpa div VHOST_LOG_PAGE;
          last_page = (gpa + len - 1) div VHOST_LOG_PAGE
      in if last_page \<ge> log_size * 8 \<and> page \<ge> log_size * 8 then Some log
         else
           (let last_page = (if last_page \<ge> log_size * 8 then log_size * 8 - 1 else last_page)
            in map_option (\<lambda>b. log\<lparr>ml_base := b\<rparr>) (mark_chunks (ml_base log) page last_page)))"

definition vhd_mark_range_dirty ::
  "vhd_memory_log \<Rightarrow> vhd_memory_map \<Rightarrow> u64 \<Rightarrow> u64 \<Rightarrow> vhd_memory_log option" where
  "vhd_mark_range_dirty log mm p len =
     (let gpa = ptr_to_gpa mm p
      in if gpa \<noteq> TRANSLATION_FAILED then vhd_mark_gpa_range_dirty log gpa len else Some log)"

section \<open>The bitmap\<close>

definition page_dirty :: "(nat \<Rightarrow> u64) \<Rightarrow> nat \<Rightarrow> bool" where
  "page_dirty b n \<longleftrightarrow> bit (b (n div 64)) (n mod 64)"

lemma chunk_mask_spec:
  assumes "unat last_page < 2 ^ 64 - 1"
    and "64 * unat chunk \<le> unat page"
    and "unat page \<le> min (Suc (unat last_page)) (64 * Suc (unat chunk))"
    and "chunk_mask page last_page chunk m = (m', page')"
  shows "unat page' = min (Suc (unat last_page)) (64 * Suc (unat chunk)) \<and>
    (\<forall>b < 64. bit m' b \<longleftrightarrow> bit m b \<or>
       unat page \<le> 64 * unat chunk + b \<and> 64 * unat chunk + b \<le> unat last_page)"
  using assms
proof (induction page last_page chunk m rule: chunk_mask.induct)
  case (1 page last_page chunk m)
  have d: "page div 64 = chunk \<longleftrightarrow> unat page div 64 = unat chunk"
    by (simp add: word_unat_eq_iff unat_div)
  show ?case
  proof (cases "page \<le> last_page \<and> page div 64 = chunk")
    case True
    have pg: "unat page \<le> unat last_page" and c: "unat page div 64 = unat chunk"
      using True d by (simp_all add: word_le_nat_alt)
    have u: "unat (page + 1) = Suc (unat page)"
      using pg 1(2) unat_add_64 [of page 1] by simp
    have md: "unat page mod 64 = unat page - 64 * unat chunk"
      using c by (metis minus_mult_div_eq_mod)
    have bits: "bit (m OR push_bit (unat (page mod 64)) 1) b \<longleftrightarrow>
        bit m b \<or> unat page = 64 * unat chunk + b" if "b < 64" for b
      using that 1(3) md by (auto simp: bit_simps unat_mod)
    have rec: "chunk_mask (page + 1) last_page chunk (m OR push_bit (unat (page mod 64)) 1) = (m', page')"
      using 1(5) True by (subst (asm) chunk_mask.simps) simp
    have "unat page' = min (Suc (unat last_page)) (64 * Suc (unat chunk)) \<and>
      (\<forall>b < 64. bit m' b \<longleftrightarrow> bit (m OR push_bit (unat (page mod 64)) 1) b \<or>
         unat (page + 1) \<le> 64 * unat chunk + b \<and> 64 * unat chunk + b \<le> unat last_page)"
    proof (rule 1(1) [OF True 1(2) _ _ rec])
      show "64 * unat chunk \<le> unat (page + 1)" using 1(3) u by simp
      show "unat (page + 1) \<le> min (Suc (unat last_page)) (64 * Suc (unat chunk))"
        using u pg c by simp
    qed
    moreover have "(unat page = y \<or> Suc (unat page) \<le> y \<and> y \<le> unat last_page) =
        (unat page \<le> y \<and> y \<le> unat last_page)" for y
      using pg by linarith
    ultimately show ?thesis unfolding u using bits by (simp add: disj_assoc)
  next
    case False
    then have res: "m' = m" "page' = page"
      using 1(5) by (subst (asm) chunk_mask.simps, simp only: if_False prod.inject)+
    from False d have "unat last_page < unat page \<or> unat page div 64 \<noteq> unat chunk"
      by (auto simp: word_le_nat_alt)
    then have "unat page = min (Suc (unat last_page)) (64 * Suc (unat chunk))"
      using 1(3,4) by (auto simp: min_def split: if_splits)
    moreover from this have "\<not> (unat page \<le> 64 * unat chunk + b \<and> 64 * unat chunk + b \<le> unat last_page)"
      if "b < 64" for b
      using that by (simp add: min_def split: if_splits)
    ultimately show ?thesis using res by blast
  qed
qed

lemma mark_chunks_spec:
  assumes last: "unat last_page < 2 ^ 64 - 1"
  shows "\<exists>b'. mark_chunks b page last_page = Some b' \<and>
    (\<forall>n. page_dirty b' n \<longleftrightarrow> page_dirty b n \<or> unat page \<le> n \<and> n \<le> unat last_page)"
proof (induction "Suc (unat last_page) - unat page" arbitrary: page b rule: less_induct)
  case less
  define chunk where "chunk = page div 64"
  have c: "unat chunk = unat page div 64" by (simp add: chunk_def unat_div)
  obtain m' page' where cm: "chunk_mask page last_page chunk 0 = (m', page')" by fastforce
  define b1 where "b1 = b(unat chunk := b (unat chunk) OR m')"
  have un: "mark_chunks b page last_page =
      (if page' \<le> last_page then mark_chunks b1 page' last_page else Some b1)"
    by (subst mark_chunks.simps) (simp add: Let_def cm b1_def flip: chunk_def)
  show ?case
  proof (cases "page \<le> last_page")
    case False
    then have "m' = 0" "page' = page" using cm by (simp_all add: chunk_mask.simps [of page])
    with False show ?thesis unfolding un b1_def
      by (auto simp: word_le_nat_alt page_dirty_def)
  next
    case True
    then have pg: "unat page \<le> unat last_page" by (simp add: word_le_nat_alt)
    have S: "unat page' = min (Suc (unat last_page)) (64 * Suc (unat chunk))"
      "\<forall>k < 64. bit m' k \<longleftrightarrow> unat page \<le> 64 * unat chunk + k \<and> 64 * unat chunk + k \<le> unat last_page"
      using chunk_mask_spec [OF last _ _ cm] pg c by auto
    have one: "page_dirty b1 n \<longleftrightarrow> page_dirty b n \<or> unat page \<le> n \<and> n < unat page'" for n
    proof (cases "n div 64 = unat chunk")
      case True
      then have n: "n = 64 * unat chunk + n mod 64" by (metis mult_div_mod_eq)
      have "page_dirty b1 n \<longleftrightarrow> page_dirty b n \<or> bit m' (n mod 64)"
        using True by (simp add: page_dirty_def b1_def bit_or_iff)
      also have "bit m' (n mod 64) \<longleftrightarrow> unat page \<le> n \<and> n \<le> unat last_page"
        using S(2) n by (metis mod_less_divisor zero_less_numeral)
      finally show ?thesis using S(1) True by (auto simp: min_def split: if_splits)
    next
      case False
      then have "\<not> (unat page \<le> n \<and> n < unat page')" using S(1) c by (auto simp: min_def split: if_splits)
      with False show ?thesis by (auto simp: page_dirty_def b1_def)
    qed
    show ?thesis
    proof (cases "page' \<le> last_page")
      case True
      then have p': "unat page' \<le> unat last_page" by (simp add: word_le_nat_alt)
      with S(1) c have gt: "unat page < unat page'" by (auto simp: min_def split: if_splits)
      with p' have "Suc (unat last_page) - unat page' < Suc (unat last_page) - unat page" by linarith
      from less [OF this, of b1] obtain b' where "mark_chunks b1 page' last_page = Some b'"
        "\<forall>n. page_dirty b' n \<longleftrightarrow> page_dirty b1 n \<or> unat page' \<le> n \<and> n \<le> unat last_page" by blast
      moreover have "(unat page \<le> n \<and> n < unat page' \<or> unat page' \<le> n \<and> n \<le> unat last_page) =
          (unat page \<le> n \<and> n \<le> unat last_page)" for n
        using gt p' by linarith
      ultimately show ?thesis unfolding un using True by (simp add: one disj_assoc)
    next
      case False
      with S(1) have "unat page' = Suc (unat last_page)" by (auto simp: word_le_nat_alt min_def split: if_splits)
      then have "(unat page \<le> n \<and> n < unat page') = (unat page \<le> n \<and> n \<le> unat last_page)" for n
        by linarith
      with False show ?thesis unfolding un by (simp add: one)
    qed
  qed
qed

lemma page_number:
  "unat (x div VHOST_LOG_PAGE) = unat x div 4096"
  by (simp add: VHOST_LOG_PAGE_def unat_div)

lemma page_number_small: "unat (x div VHOST_LOG_PAGE) < 2 ^ 64 - 1"
  using unat_less_64 [of x] by (simp add: page_number)

lemma page_dirty_zero: "\<not> page_dirty (\<lambda>_. 0) n"
  by (simp add: page_dirty_def)

lemma mark_gpa_exact:
  assumes len: "0 < unat len" and range: "unat gpa + unat len \<le> 2 ^ 64"
    and sz: "8 * unat (ml_size log) < 2 ^ 64"
  shows "\<exists>log'. vhd_mark_gpa_range_dirty log gpa len = Some log' \<and> ml_size log' = ml_size log \<and>
    (\<forall>n. page_dirty (ml_base log') n \<longleftrightarrow> page_dirty (ml_base log) n \<or>
       n < 8 * unat (ml_size log) \<and>
       unat gpa div 4096 \<le> n \<and> n \<le> (unat gpa + unat len - 1) div 4096)"
proof -
  let ?page = "gpa div VHOST_LOG_PAGE" and ?last = "(gpa + len - 1) div VHOST_LOG_PAGE"
  let ?lim = "ml_size log * 8"
  have lim: "unat ?lim = 8 * unat (ml_size log)"
    using sz by (simp add: unat_word_ariths)
  have "gpa + len - 1 = gpa + (len - 1)" by simp
  moreover have "unat (len - 1) = unat len - 1"
    using len by (subst unat_sub_le) (simp_all add: word_le_nat_alt)
  moreover have "unat gpa + (unat len - 1) < 2 ^ 64" using len range by linarith
  ultimately have "unat (gpa + len - 1) = unat gpa + (unat len - 1)"
    using unat_add_64 [of gpa "len - 1"] by metis
  then have end1: "unat (gpa + len - 1) = unat gpa + unat len - 1" using len by linarith
  have last: "unat ?last = (unat gpa + unat len - 1) div 4096" by (simp add: page_number end1)
  have page: "unat ?page = unat gpa div 4096" by (rule page_number)
  have le: "unat ?page \<le> unat ?last" unfolding page last using len by (intro div_le_mono) simp
  show ?thesis
  proof (cases "?lim \<le> ?page")
    case True
    with le have "?lim \<le> ?last" by (simp add: word_le_nat_alt)
    with True have "vhd_mark_gpa_range_dirty log gpa len = Some log"
      by (simp add: vhd_mark_gpa_range_dirty_def Let_def)
    moreover have "8 * unat (ml_size log) \<le> unat gpa div 4096"
      using True lim page by (simp add: word_le_nat_alt)
    ultimately show ?thesis by auto
  next
    case False
    define l where "l = (if ?lim \<le> ?last then ?lim - 1 else ?last)"
    have l: "unat l = min (8 * unat (ml_size log) - 1) (unat ?last)"
      using False lim by (auto simp: l_def word_le_nat_alt unat_sub_le min_def)
    have "unat l < 2 ^ 64 - 1" using l page_number_small [of "gpa + len - 1"] by linarith
    from mark_chunks_spec [OF this, of "ml_base log" ?page] obtain b' where
      b: "mark_chunks (ml_base log) ?page l = Some b'"
      "\<forall>n. page_dirty b' n \<longleftrightarrow> page_dirty (ml_base log) n \<or> unat ?page \<le> n \<and> n \<le> unat l" by blast
    have "vhd_mark_gpa_range_dirty log gpa len = Some (log\<lparr>ml_base := b'\<rparr>)"
      using False b(1) by (simp add: vhd_mark_gpa_range_dirty_def Let_def l_def)
    moreover have "unat ?page \<le> n \<and> n \<le> unat l \<longleftrightarrow> n < 8 * unat (ml_size log) \<and>
        unat gpa div 4096 \<le> n \<and> n \<le> (unat gpa + unat len - 1) div 4096" for n
    proof -
      have "unat gpa div 4096 < 8 * unat (ml_size log)"
        using False lim page by (simp add: word_le_nat_alt)
      then show ?thesis unfolding l last page min_def by (intro iffI conjI; simp split: if_splits; linarith)
    qed
    ultimately show ?thesis using b(2) by auto
  qed
qed

lemma mark_gpa_marks:
  assumes "vhd_mark_gpa_range_dirty log gpa len = Some log'"
    and "0 < unat len" and "unat gpa + unat len \<le> 2 ^ 64" and "8 * unat (ml_size log) < 2 ^ 64"
    and "n < 8 * unat (ml_size log)" and "unat gpa div 4096 \<le> n" and "n \<le> (unat gpa + unat len - 1) div 4096"
  shows "page_dirty (ml_base log') n"
  using mark_gpa_exact [OF assms(2-4)] assms(1,5-7) by auto

text \<open>For every range the call returns; it clears no bit.\<close>

lemma mark_gpa_total:
  "\<exists>log'. vhd_mark_gpa_range_dirty log gpa len = Some log' \<and> ml_size log' = ml_size log \<and>
    (\<forall>n. page_dirty (ml_base log) n \<longrightarrow> page_dirty (ml_base log') n)"
proof -
  let ?page = "gpa div VHOST_LOG_PAGE" and ?last = "(gpa + len - 1) div VHOST_LOG_PAGE"
  let ?lim = "ml_size log * 8"
  show ?thesis
  proof (cases "?lim \<le> ?last \<and> ?lim \<le> ?page")
    case True
    then show ?thesis by (simp add: vhd_mark_gpa_range_dirty_def Let_def)
  next
    case False
    define l where "l = (if ?lim \<le> ?last then ?lim - 1 else ?last)"
    have "unat l < 2 ^ 64 - 1"
    proof (cases "?lim \<le> ?last")
      case True
      then have "unat ?lim \<le> unat ?last" "1 \<le> ?lim" using False by (auto simp: word_le_nat_alt)
      then have "unat l < unat ?last" using True by (simp add: l_def unat_sub_le word_le_nat_alt)
      then show ?thesis using page_number_small [of "gpa + len - 1"] by linarith
    next
      case False
      then show ?thesis using page_number_small [of "gpa + len - 1"] by (simp add: l_def)
    qed
    from mark_chunks_spec [OF this, of "ml_base log" ?page] obtain b' where
      b: "mark_chunks (ml_base log) ?page l = Some b'" "\<forall>n. page_dirty (ml_base log) n \<longrightarrow> page_dirty b' n"
      by blast
    have "vhd_mark_gpa_range_dirty log gpa len = Some (log\<lparr>ml_base := b'\<rparr>)"
      using False b(1) unfolding vhd_mark_gpa_range_dirty_def Let_def l_def by auto
    with b(2) show ?thesis by simp
  qed
qed

lemma mark_range_total:
  "\<exists>log'. vhd_mark_range_dirty log mm p len = Some log' \<and> ml_size log' = ml_size log \<and>
    (\<forall>n. page_dirty (ml_base log) n \<longrightarrow> page_dirty (ml_base log') n)"
  using mark_gpa_total by (simp add: vhd_mark_range_dirty_def Let_def)

section \<open>Properties\<close>

text \<open>
  C20: \<open>vhd_mark_gpa_range_dirty\<close> ends and sets exactly the right bits. For a non-empty range
  that does not wrap around, the pages dirty afterwards are those that were, and the pages that
  the range touches, as far as the log reaches; its size is unchanged.
\<close>

theorem mark_gpa_range_dirty_exact:
  assumes len: "0 < unat len" and range: "unat gpa + unat len \<le> 2 ^ 64"
    and sz: "8 * unat (ml_size log) < 2 ^ 64"
  shows "\<exists>log'. vhd_mark_gpa_range_dirty log gpa len = Some log' \<and> ml_size log' = ml_size log \<and>
    (\<forall>n. page_dirty (ml_base log') n \<longleftrightarrow> page_dirty (ml_base log) n \<or>
       n < 8 * unat (ml_size log) \<and>
       unat gpa div 4096 \<le> n \<and> n \<le> (unat gpa + unat len - 1) div 4096)"
  by (rule mark_gpa_exact [OF assms])

theorem mark_gpa_range_dirty_exact_witness:
  "\<exists>log'. vhd_mark_gpa_range_dirty \<lparr>ml_base = (\<lambda>_. 0), ml_size = 16\<rparr> 0x3f800 0x1000 = Some log' \<and>
    page_dirty (ml_base log') 63 \<and> page_dirty (ml_base log') 64 \<and> \<not> page_dirty (ml_base log') 65"
  using mark_gpa_range_dirty_exact [of "0x1000" "0x3f800" "\<lparr>ml_base = (\<lambda>_. 0), ml_size = 16\<rparr>"]
  by (auto simp: page_dirty_zero)

text \<open>
  The end of the range is computed as \<open>gpa + len - 1\<close>, which wraps for an empty range at guest
  address 0: the call then marks every page of the log.
\<close>

lemma mark_empty_range_at_zero:
  assumes "0 < unat (ml_size log)" and "8 * unat (ml_size log) < 2 ^ 52"
  shows "\<exists>log'. vhd_mark_gpa_range_dirty log 0 0 = Some log' \<and>
    (\<forall>n < 8 * unat (ml_size log). page_dirty (ml_base log') n)"
proof -
  let ?l = "ml_size log * 8 - 1"
  have lim: "unat (ml_size log * 8) = 8 * unat (ml_size log)"
    using assms by (simp add: unat_word_ariths)
  have l: "unat ?l = 8 * unat (ml_size log) - 1"
    using lim assms by (subst unat_sub_le) (simp_all add: word_le_nat_alt)
  have "unat ?l < 2 ^ 64 - 1" using l assms by simp
  from mark_chunks_spec [OF this, of "ml_base log" 0] obtain b' where
    b: "mark_chunks (ml_base log) 0 ?l = Some b'" "\<forall>n. n \<le> unat ?l \<longrightarrow> page_dirty b' n" by auto
  have "ml_size log * 8 \<le> (- 1 :: u64) div VHOST_LOG_PAGE"
    using assms lim by (simp add: word_le_nat_alt page_number unsigned_minus_1_eq_mask mask_eq_exp_minus_1)
  moreover have "\<not> ml_size log * 8 \<le> 0" using lim assms by (simp add: word_le_nat_alt)
  ultimately show ?thesis using b l assms by (auto simp: vhd_mark_gpa_range_dirty_def Let_def)
qed

end
