(* ===== verification/Virtqueue.thy ===== *)
theory Virtqueue
  imports Memlog "HOL-Library.Monad_Syntax"
begin

text \<open>
  The split virtqueue of \<open>virtio/virt_queue.c\<close>: the rings and the inflight region in shared
  memory, the queue object, the walk over descriptor chains, dequeueing and completion. Its
  lemmas are in the theories \<open>Virtq_Walk\<close>, \<open>Virtq_Dequeue\<close> and \<open>Virtq_Inflight\<close>.
\<close>

section \<open>Structures in shared memory\<close>

record virtq_desc =
  d_addr :: u64
  d_len :: u32
  d_flags :: u16
  d_next :: u16

definition VIRTQ_DESC_F_NEXT :: u16 where "VIRTQ_DESC_F_NEXT = 1"
definition VIRTQ_DESC_F_WRITE :: u16 where "VIRTQ_DESC_F_WRITE = 2"
definition VIRTQ_DESC_F_INDIRECT :: u16 where "VIRTQ_DESC_F_INDIRECT = 4"
definition VIRTQ_AVAIL_F_NO_INTERRUPT :: u16 where "VIRTQ_AVAIL_F_NO_INTERRUPT = 1"
definition VHOST_VRING_F_LOG :: u32 where "VHOST_VRING_F_LOG = 1"

text \<open>
  The flexible arrays at the end of the C structures are functions of the index.
  \<open>used_event\<close> is the element past the end of the available ring; \<open>avail_event\<close>, which the
  code writes through a cast past the end of the used ring, is a field of its own.
\<close>

record virtq_avail =
  av_flags :: u16
  av_idx :: u16
  av_ring :: "nat \<Rightarrow> u16"

record virtq_used_elem =
  ue_id :: u32
  ue_len :: u32

record virtq_used =
  us_flags :: u16
  us_idx :: u16
  us_ring :: "nat \<Rightarrow> virtq_used_elem"
  us_avail_event :: u16

record inflight_split_desc =
  isd_inflight :: u8
  isd_next :: u16
  isd_counter :: u64

record inflight_split_region =
  isr_features :: u64
  isr_version :: u16
  isr_desc_num :: u16
  isr_last_batch_head :: u16
  isr_used_idx :: u16
  isr_desc :: "nat \<Rightarrow> inflight_split_desc"

text \<open>The headers of block and file system requests, which lie in buffers of the guest.\<close>

record virtio_blk_req_hdr =
  hdr_type :: u32
  hdr_reserved :: u32
  hdr_sector :: u64

record virtio_fs_in_header =
  fin_len :: u32
  fin_opcode :: u32
  fin_unique :: u64
  fin_nodeid :: u64
  fin_uid :: u32
  fin_gid :: u32
  fin_pid :: u32
  fin_padding :: u32

record virtio_fs_out_header =
  fout_len :: u32
  fout_error :: u32
  fout_unique :: u64

text \<open>
  Descriptor tables, the available ring and request headers belong to the guest, which may write them at any
  time: what a read returns depends on the host address and on the time of the read, and every
  read advances the time. Theorems for an arbitrary \<open>guest\<close> therefore hold against one that
  changes the tables under the device.
\<close>

record guest =
  g_now :: nat
  g_desc :: "nat \<Rightarrow> u64 \<Rightarrow> virtq_desc"
  g_avail :: "nat \<Rightarrow> u64 \<Rightarrow> virtq_avail"
  g_blk_hdr :: "nat \<Rightarrow> u64 \<Rightarrow> virtio_blk_req_hdr"
  g_fs_in :: "nat \<Rightarrow> u64 \<Rightarrow> virtio_fs_in_header"

text \<open>The same guest at another time.\<close>

definition same_tables :: "guest \<Rightarrow> guest \<Rightarrow> bool" where
  "same_tables g g' \<longleftrightarrow> g_desc g' = g_desc g \<and> g_avail g' = g_avail g \<and>
     g_blk_hdr g' = g_blk_hdr g \<and> g_fs_in g' = g_fs_in g"

definition read_desc :: "guest \<Rightarrow> u64 \<Rightarrow> virtq_desc \<times> guest" where
  "read_desc g a = (g_desc g (g_now g) a, g\<lparr>g_now := Suc (g_now g)\<rparr>)"

definition read_avail :: "guest \<Rightarrow> u64 \<Rightarrow> virtq_avail \<times> guest" where
  "read_avail g a = (g_avail g (g_now g) a, g\<lparr>g_now := Suc (g_now g)\<rparr>)"

text \<open>
  The machine a queue works on: the guest, the used rings and inflight regions (which only the
  device writes) by host address, what the device writes into buffers of the guest (status
  bytes, device ids, response headers), the heap objects, and how often each eventfd was
  signalled.
\<close>

record machine =
  m_guest :: guest
  m_used :: "u64 \<Rightarrow> virtq_used"
  m_inflight :: "u64 \<Rightarrow> inflight_split_region"
  m_status :: "u64 \<Rightarrow> u8"
  m_ids :: "u64 \<Rightarrow> string"
  m_fs_out :: "u64 \<Rightarrow> virtio_fs_out_header"
  m_mms :: mm_store
  m_logs :: "nat \<Rightarrow> vhd_memory_log option"
  m_eventfd :: "int \<Rightarrow> nat"

section \<open>The queue object\<close>

record vhd_buffer =
  buf_base :: u64
  buf_len :: u64
  buf_write_only :: bool

record virtq_iov_private =
  iov_used_head :: u16
  iov_mm :: nat
  iov_buffers :: "vhd_buffer list"

record vhd_vq_metrics =
  vm_request_total :: u64
  vm_dispatch_total :: u64
  vm_dispatch_empty :: u64
  vm_queue_len_last :: u16
  vm_queue_len_max_60s :: u16

record virtio_virtq =
  vq_flags :: u32
  vq_desc :: u64
  vq_avail :: u64
  vq_used :: u64
  vq_used_gpa_base :: u64
  vq_qsz :: u16
  vq_max_chain_len :: u16
  vq_last_avail :: u16
  vq_next_buffer :: u16
  vq_buffers :: "vhd_buffer list"
  vq_broken :: bool
  vq_has_event_idx :: bool
  vq_notify_fd :: int
  vq_req_cnt :: u64
  vq_inflight_region :: u64
  vq_inflight_check :: bool
  vq_mm :: nat
  vq_log :: "nat option"
  vq_metrics :: vhd_vq_metrics
  vq_period_start_ts :: int

text \<open>
  The NULL inflight region is address 0; the NULL buffer array is the empty list (an allocated
  one has at least 515 elements). Where the code fails an assertion, divides by zero, follows a
  dangling pointer or does not return, the result of the definition is \<open>None\<close>.
\<close>

definition zero_metrics :: vhd_vq_metrics where
  "zero_metrics = \<lparr>vm_request_total = 0, vm_dispatch_total = 0, vm_dispatch_empty = 0,
     vm_queue_len_last = 0, vm_queue_len_max_60s = 0\<rparr>"

definition zero_virtq :: virtio_virtq where
  "zero_virtq = \<lparr>vq_flags = 0, vq_desc = 0, vq_avail = 0, vq_used = 0, vq_used_gpa_base = 0,
     vq_qsz = 0, vq_max_chain_len = 0, vq_last_avail = 0, vq_next_buffer = 0, vq_buffers = [],
     vq_broken = False, vq_has_event_idx = False, vq_notify_fd = 0, vq_req_cnt = 0,
     vq_inflight_region = 0, vq_inflight_check = False, vq_mm = 0, vq_log = None,
     vq_metrics = zero_metrics, vq_period_start_ts = 0\<rparr>"

definition virtio_free_iov :: "kernel \<Rightarrow> virtq_iov_private \<Rightarrow> machine \<Rightarrow> machine" where
  "virtio_free_iov K iov m = m\<lparr>m_mms := vhd_memmap_unref K (iov_mm iov) (m_mms m)\<rparr>"

definition virtio_iov_get_head :: "virtq_iov_private \<Rightarrow> u16" where
  "virtio_iov_get_head iov = iov_used_head iov"

section \<open>Walking a descriptor chain\<close>

definition add_buffer :: "virtio_virtq \<Rightarrow> u64 \<Rightarrow> u64 \<Rightarrow> bool \<Rightarrow> status \<times> virtio_virtq" where
  "add_buffer vq addr len write_only =
     (if vq_next_buffer vq = vq_max_chain_len vq then (Inl ENOBUFS, vq)
      else (OK, vq\<lparr>vq_buffers := (vq_buffers vq)[unat (vq_next_buffer vq) :=
                      \<lparr>buf_base = addr, buf_len = len, buf_write_only = write_only\<rparr>],
                   vq_next_buffer := vq_next_buffer vq + 1\<rparr>))"

definition map_buffer ::
  "vhd_memory_map \<Rightarrow> virtio_virtq \<Rightarrow> u64 \<Rightarrow> u64 \<Rightarrow> bool \<Rightarrow> status \<times> virtio_virtq" where
  "map_buffer mm vq gpa len write_only =
     (case gpa_range_to_ptr mm gpa len of
        None \<Rightarrow> (Inl EFAULT, vq)
      | Some addr \<Rightarrow> add_buffer vq addr len write_only)"

text \<open>\<open>map_buffer\<close> as both walks call it, on the fields of a descriptor.\<close>

abbreviation map_desc :: "vhd_memory_map \<Rightarrow> virtio_virtq \<Rightarrow> virtq_desc \<Rightarrow> status \<times> virtio_virtq" where
  "map_desc mm vq desc \<equiv> map_buffer mm vq (d_addr desc) (ucast (d_len desc))
     (d_flags desc AND VIRTQ_DESC_F_WRITE \<noteq> 0)"

text \<open>The address of element \<open>idx\<close> of a descriptor table, whose elements are 16 bytes long.\<close>

definition desc_addr :: "u64 \<Rightarrow> u16 \<Rightarrow> u64" where
  "desc_addr table idx = table + 16 * ucast idx"

lemma chain_room_shrinks:
  "map_buffer mm vq gpa len wo = (Inr u, vq') \<Longrightarrow>
    unat (vq_max_chain_len vq' - vq_next_buffer vq') < unat (vq_max_chain_len vq - vq_next_buffer vq)"
proof -
  assume "map_buffer mm vq gpa len wo = (Inr u, vq')"
  then have ne: "vq_next_buffer vq \<noteq> vq_max_chain_len vq"
    and nb: "vq_next_buffer vq' = vq_next_buffer vq + 1" "vq_max_chain_len vq' = vq_max_chain_len vq"
    by (auto simp: map_buffer_def add_buffer_def split: option.splits if_splits)
  from ne have "unat (vq_max_chain_len vq - vq_next_buffer vq) \<noteq> 0"
    by (simp add: unat_eq_0)
  then obtain n where "unat (vq_max_chain_len vq - vq_next_buffer vq) = Suc n"
    using not0_implies_Suc by blast
  with unat_Suc_16 [OF this] nb show ?thesis by simp
qed

function (sequential) walk_indirect_loop ::
  "vhd_memory_map \<Rightarrow> u64 \<Rightarrow> u16 \<Rightarrow> virtio_virtq \<Rightarrow> guest \<Rightarrow> u16 \<Rightarrow> status \<times> virtio_virtq \<times> guest" where
  "walk_indirect_loop mm desc_table table_len vq g idx =
     (case read_desc g (desc_addr desc_table idx) of (desc, g1) \<Rightarrow>
      if d_flags desc AND VIRTQ_DESC_F_INDIRECT \<noteq> 0 then (Inl EMLINK, vq, g1)
      else case map_desc mm vq desc of
             (Inl e, vq1) \<Rightarrow> (Inl e, vq1, g1)
           | (Inr _, vq1) \<Rightarrow>
               if d_flags desc AND VIRTQ_DESC_F_NEXT = 0 then (OK, vq1, g1)
               else if d_next desc \<ge> table_len then (Inl ERANGE, vq1, g1)
               else walk_indirect_loop mm desc_table table_len vq1 g1 (d_next desc))"
  by pat_completeness auto
termination
proof (relation "measure (\<lambda>(mm, t, n, vq, g, i). unat (vq_max_chain_len vq - vq_next_buffer vq))",
    goal_cases)
  case (2 mm desc_table table_len vq g idx desc g1 r vq1 u)
  then have "map_desc mm vq desc = (Inr u, vq1)" by simp
  from chain_room_shrinks [OF this] show ?case by simp
qed simp

definition walk_indirect_table ::
  "vhd_memory_map \<Rightarrow> virtio_virtq \<Rightarrow> guest \<Rightarrow> virtq_desc \<Rightarrow> status \<times> virtio_virtq \<times> guest" where
  "walk_indirect_table mm vq g table_desc =
     (let table_len = ucast (d_len table_desc div 16)
      in if d_len table_desc = 0 \<or> d_len table_desc mod 16 \<noteq> 0 then (Inl EINVAL, vq, g)
         else case gpa_range_to_ptr mm (d_addr table_desc) (ucast (d_len table_desc)) of
                None \<Rightarrow> (Inl EFAULT, vq, g)
              | Some desc_table \<Rightarrow> walk_indirect_loop mm desc_table table_len vq g 0)"

function (sequential) walk_chain_loop ::
  "vhd_memory_map \<Rightarrow> virtio_virtq \<Rightarrow> guest \<Rightarrow> u16 \<Rightarrow> u16 \<Rightarrow> u16 res \<times> virtio_virtq \<times> guest" where
  "walk_chain_loop mm vq g idx chain_len =
     (case read_desc g (desc_addr (vq_desc vq) idx) of (desc, g1) \<Rightarrow>
      if d_flags desc AND VIRTQ_DESC_F_INDIRECT \<noteq> 0 then
        if d_flags desc AND VIRTQ_DESC_F_NEXT \<noteq> 0 then (Inl EINVAL, vq, g1)
        else case walk_indirect_table mm vq g1 desc of
               (Inl e, vq1, g2) \<Rightarrow> (Inl e, vq1, g2)
             | (Inr _, vq1, g2) \<Rightarrow> (Inr chain_len, vq1, g2)
      else case map_desc mm vq desc of
             (Inl e, vq1) \<Rightarrow> (Inl e, vq1, g1)
           | (Inr _, vq1) \<Rightarrow>
               if d_flags desc AND VIRTQ_DESC_F_NEXT = 0 then (Inr chain_len, vq1, g1)
               else if d_next desc \<ge> vq_qsz vq1 then (Inl ERANGE, vq1, g1)
               else walk_chain_loop mm vq1 g1 (d_next desc) (chain_len + 1))"
  by pat_completeness auto
termination
proof (relation "measure (\<lambda>(mm, vq, g, i, c). unat (vq_max_chain_len vq - vq_next_buffer vq))",
    goal_cases)
  case (2 mm vq g idx chain_len desc g1 r vq1 u)
  then have "map_desc mm vq desc = (Inr u, vq1)" by simp
  from chain_room_shrinks [OF this] show ?case by simp
qed simp

definition walk_chain ::
  "vhd_memory_map \<Rightarrow> virtio_virtq \<Rightarrow> guest \<Rightarrow> u16 \<Rightarrow> u16 res \<times> virtio_virtq \<times> guest" where
  "walk_chain mm vq g head = walk_chain_loop mm (vq\<lparr>vq_next_buffer := 0\<rparr>) g head 1"

declare walk_indirect_loop.simps [simp del] walk_chain_loop.simps [simp del]

section \<open>The inflight region\<close>

text \<open>
  The operations on a region are written as functions on the region; \<open>with_inflight\<close> applies one
  to the region of a queue, or does nothing if the queue has none (the early return they share).
\<close>

definition with_inflight ::
  "virtio_virtq \<Rightarrow> (inflight_split_region \<Rightarrow> inflight_split_region) \<Rightarrow> machine \<Rightarrow> machine" where
  "with_inflight vq f m =
     (if vq_inflight_region vq = 0 then m
      else m\<lparr>m_inflight := (m_inflight m)(vq_inflight_region vq := f (m_inflight m (vq_inflight_region vq)))\<rparr>)"

definition upd_desc ::
  "u16 \<Rightarrow> (inflight_split_desc \<Rightarrow> inflight_split_desc) \<Rightarrow> inflight_split_region \<Rightarrow> inflight_split_region" where
  "upd_desc head f r = r\<lparr>isr_desc := (isr_desc r)(unat head := f (isr_desc r (unat head)))\<rparr>"

definition virtq_inflight_avail_update :: "virtio_virtq \<Rightarrow> u16 \<Rightarrow> machine \<Rightarrow> virtio_virtq \<times> machine" where
  "virtq_inflight_avail_update vq head m =
     (if vq_inflight_region vq = 0 then (vq, m)
      else (vq\<lparr>vq_req_cnt := vq_req_cnt vq + 1\<rparr>,
            with_inflight vq (upd_desc head (isd_inflight_update (\<lambda>_. 1)) \<circ>
              upd_desc head (isd_counter_update (\<lambda>_. vq_req_cnt vq))) m))"

definition virtq_inflight_used_update :: "virtio_virtq \<Rightarrow> u16 \<Rightarrow> machine \<Rightarrow> machine" where
  "virtq_inflight_used_update vq head =
     with_inflight vq (\<lambda>r. (upd_desc head (isd_next_update (\<lambda>_. isr_last_batch_head r)) r)
       \<lparr>isr_last_batch_head := head\<rparr>)"

definition virtq_inflight_used_commit :: "virtio_virtq \<Rightarrow> u16 \<Rightarrow> machine \<Rightarrow> machine" where
  "virtq_inflight_used_commit vq head m =
     with_inflight vq (\<lambda>r. (upd_desc head (isd_inflight_update (\<lambda>_. 0)) r)
       \<lparr>isr_used_idx := us_idx (m_used m (vq_used vq))\<rparr>) m"

text \<open>The first loop of the recovery: the largest counter of the region.\<close>

definition max_counter :: "inflight_split_region \<Rightarrow> u64" where
  "max_counter r = fold (\<lambda>idx cnt. if isd_counter (isr_desc r idx) > cnt
     then isd_counter (isr_desc r idx) else cnt) [0..<unat (isr_desc_num r)] 0"

primrec clear_batch :: "nat \<Rightarrow> u16 \<Rightarrow> inflight_split_region \<Rightarrow> inflight_split_region" where
  "clear_batch 0 idx r = r"
| "clear_batch (Suc batch_size) idx r =
     (let r1 = upd_desc idx (isd_inflight_update (\<lambda>_. 0)) r
      in clear_batch batch_size (isd_next (isr_desc r1 (unat idx))) r1)"

definition virtq_inflight_reconnect_update ::
  "virtio_virtq \<Rightarrow> machine \<Rightarrow> (virtio_virtq \<times> machine) option" where
  "virtq_inflight_reconnect_update vq m =
     (if vq_inflight_region vq = 0 then Some (vq\<lparr>vq_req_cnt := 0\<rparr>, m)
      else
        (let r = m_inflight m (vq_inflight_region vq);
             used_idx = us_idx (m_used m (vq_used vq));
             req_cnt = max_counter r;
             batch_size = used_idx - isr_used_idx r;
             out = (\<lambda>r1. Some (vq\<lparr>vq_req_cnt := req_cnt + 1\<rparr>,
                      with_inflight vq (\<lambda>_. r1\<lparr>isr_used_idx := used_idx\<rparr>) m))
         in if req_cnt = 0 then out r
            else if batch_size = 0 then out r
            else if batch_size \<noteq> 1 then None
            else out (clear_batch (unat batch_size) (isr_last_batch_head r) r)))"

definition WINDOWS_CHAIN_LEN_MAX :: u16 where
  "WINDOWS_CHAIN_LEN_MAX = 512 + 3"

definition virtio_virtq_init :: "virtio_virtq \<Rightarrow> machine \<Rightarrow> (virtio_virtq \<times> machine) option" where
  "virtio_virtq_init vq m =
     (if vq_buffers vq \<noteq> [] then None
      else
        (let max_chain_len = max (vq_qsz vq) WINDOWS_CHAIN_LEN_MAX in do {
           (vq1, m1) \<leftarrow> virtq_inflight_reconnect_update
             (vq\<lparr>vq_max_chain_len := max_chain_len,
                 vq_buffers := replicate (unat max_chain_len) \<lparr>buf_base = 0, buf_len = 0, buf_write_only = False\<rparr>,
                 vq_inflight_check := True\<rparr>) m;
           Some (vq1\<lparr>vq_metrics := zero_metrics, vq_period_start_ts := 0\<rparr>, m1)
         }))"

definition virtio_virtq_release :: "virtio_virtq \<Rightarrow> virtio_virtq option" where
  "virtio_virtq_release vq = (if vq_buffers vq = [] then None else Some zero_virtq)"

section \<open>Dequeueing\<close>

text \<open>
  The callback that handles a request gets the request and may complete it at once, so it works
  on the queue, the machine and a state of its own.
\<close>

type_synonym 's vqst = "virtio_virtq \<times> machine \<times> 's"
type_synonym 's handle_buffers_cb = "virtq_iov_private \<Rightarrow> 's vqst \<Rightarrow> 's vqst option"

definition virtq_is_broken :: "virtio_virtq \<Rightarrow> bool" where
  "virtq_is_broken vq = vq_broken vq"

definition mark_broken :: "virtio_virtq \<Rightarrow> virtio_virtq" where
  "mark_broken vq = vq\<lparr>vq_broken := True\<rparr>"

definition virtq_dequeue_one ::
  "'s handle_buffers_cb \<Rightarrow> u16 \<Rightarrow> bool \<Rightarrow> 's vqst \<Rightarrow> (status \<times> 's vqst) option" where
  "virtq_dequeue_one handle_buffers head resubmit st =
     (case st of (vq, m, s) \<Rightarrow> do {
        mm \<leftarrow> ms_maps (m_mms m) (vq_mm vq);
        (case walk_chain mm vq (m_guest m) head of
           (Inl e, vq1, g1) \<Rightarrow> Some (Inl e, vq1, m\<lparr>m_guest := g1\<rparr>, s)
         | (Inr _, vq1, g1) \<Rightarrow>
             (let iov = \<lparr>iov_used_head = head, iov_mm = vq_mm vq1,
                         iov_buffers = take (unat (vq_next_buffer vq1)) (vq_buffers vq1)\<rparr>;
                  m1 = m\<lparr>m_guest := g1, m_mms := vhd_memmap_ref (vq_mm vq1) (m_mms m)\<rparr>;
                  (vq2, m2) = (if resubmit then (vq1, m1) else virtq_inflight_avail_update vq1 head m1)
              in do {
                (vq3, m3, s3) \<leftarrow> handle_buffers iov (vq2, m2, s);
                Some (OK, vq3\<lparr>vq_last_avail := vq_last_avail vq3 + 1\<rparr>, m3, s3)
              }))
      })"

text \<open>
  Resubmission: the heads marked in flight, sorted by their counters. \<open>qsort\<close> is given a
  comparison that never returns 0, so the result is specified only for distinct counters,
  where every sort agrees.
\<close>

definition inflight_heads :: "inflight_split_region \<Rightarrow> u16 list" where
  "inflight_heads r =
     (let resubmit_array = map (\<lambda>i. (isd_counter (isr_desc r i), word_of_nat i))
            (filter (\<lambda>i. isd_inflight (isr_desc r i) \<noteq> 0) [0..<unat (isr_desc_num r)])
      in map snd (sort_key fst resubmit_array))"

fun resubmit_loop :: "'s handle_buffers_cb \<Rightarrow> u16 list \<Rightarrow> 's vqst \<Rightarrow> (status \<times> 's vqst) option" where
  "resubmit_loop handle_buffers [] st = Some (OK, st)"
| "resubmit_loop handle_buffers (head # heads) st =
     (if head \<ge> vq_qsz (fst st) then Some (Inl ERANGE, st)
      else do {
        (res, st1) \<leftarrow> virtq_dequeue_one handle_buffers head True st;
        (case res of
           Inl e \<Rightarrow> Some (Inl e, st1)
         | Inr _ \<Rightarrow> resubmit_loop handle_buffers heads st1)
      })"

definition virtq_inflight_resubmit ::
  "'s handle_buffers_cb \<Rightarrow> 's vqst \<Rightarrow> (status \<times> 's vqst) option" where
  "virtq_inflight_resubmit handle_buffers st =
     (if vq_inflight_region (fst st) = 0 then Some (OK, st)
      else resubmit_loop handle_buffers
        (inflight_heads (m_inflight (fst (snd st)) (vq_inflight_region (fst st)))) st)"

definition virtq_set_avail_event :: "virtio_virtq \<Rightarrow> u16 \<Rightarrow> machine \<Rightarrow> machine" where
  "virtq_set_avail_event vq avail_idx m =
     m\<lparr>m_used := (m_used m)(vq_used vq := (m_used m (vq_used vq))\<lparr>us_avail_event := avail_idx\<rparr>)\<rparr>"

definition read_avail_m :: "virtio_virtq \<Rightarrow> machine \<Rightarrow> virtq_avail \<times> machine" where
  "read_avail_m vq m =
     (let (a, g) = read_avail (m_guest m) (vq_avail vq) in (a, m\<lparr>m_guest := g\<rparr>))"

text \<open>
  The loop that publishes the available index until it stops moving. A guest that keeps adding
  requests keeps it running, so not ending is \<open>None\<close>.
\<close>

partial_function (option) avail_event_loop ::
  "virtio_virtq \<Rightarrow> machine \<Rightarrow> u16 \<Rightarrow> (u16 \<times> machine) option" where
  "avail_event_loop vq m avail =
     (let (a, m1) = read_avail_m vq (virtq_set_avail_event vq avail m)
      in if av_idx a = avail then Some (avail, m1) else avail_event_loop vq m1 (av_idx a))"

definition read_avail_idx :: "virtio_virtq \<Rightarrow> machine \<Rightarrow> (u16 \<times> machine) option" where
  "read_avail_idx vq m =
     (let (a, m1) = read_avail_m vq m
      in if vq_has_event_idx vq then avail_event_loop vq m1 (av_idx a) else Some (av_idx a, m1))"

primrec dequeue_loop ::
  "'s handle_buffers_cb \<Rightarrow> nat \<Rightarrow> 's vqst \<Rightarrow> (status \<times> 's vqst) option" where
  "dequeue_loop handle_buffers 0 st = Some (OK, st)"
| "dequeue_loop handle_buffers (Suc n) st =
     (case st of (vq, m, s) \<Rightarrow>
        (let (a, m1) = read_avail_m vq m;
             head = av_ring a (unat (vq_last_avail vq mod vq_qsz vq))
         in if head \<ge> vq_qsz vq then Some (Inl ERANGE, vq, m1, s)
            else do {
              (res, vq2, m2, s2) \<leftarrow> virtq_dequeue_one handle_buffers head False (vq, m1, s);
              (case res of
                 Inl e \<Rightarrow> Some (Inl e, mark_broken vq2, m2, s2)
               | Inr _ \<Rightarrow> dequeue_loop handle_buffers n
                   (vq2\<lparr>vq_metrics := (vq_metrics vq2)
                      \<lparr>vm_request_total := vm_request_total (vq_metrics vq2) + 1\<rparr>\<rparr>, m2, s2))
            }))"

text \<open>The part of \<open>virtq_dequeue_many\<close> after the inflight check; \<open>now\<close> is \<open>time(NULL)\<close>.\<close>

definition dequeue_avail ::
  "'s handle_buffers_cb \<Rightarrow> int \<Rightarrow> 's vqst \<Rightarrow> (status \<times> 's vqst) option" where
  "dequeue_avail handle_buffers now st =
     (case st of (vq, m, s) \<Rightarrow>
        (let vq1 = (if now - vq_period_start_ts vq > 60
                    then vq\<lparr>vq_period_start_ts := now, vq_metrics := (vq_metrics vq)\<lparr>vm_queue_len_max_60s := 0\<rparr>\<rparr>
                    else vq);
             vq2 = vq1\<lparr>vq_metrics := (vq_metrics vq1)
                      \<lparr>vm_dispatch_total := vm_dispatch_total (vq_metrics vq1) + 1\<rparr>\<rparr>
         in do {
           (avail, m1) \<leftarrow> read_avail_idx vq2 m;
           (let num_avail = avail - vq_last_avail vq2
            in if num_avail > vq_qsz vq2 then Some (Inl EOVERFLOW, vq2, m1, s)
               else if num_avail = 0
               then Some (OK, vq2\<lparr>vq_metrics := (vq_metrics vq2)
                      \<lparr>vm_dispatch_empty := vm_dispatch_empty (vq_metrics vq2) + 1\<rparr>\<rparr>, m1, s)
               else dequeue_loop handle_buffers (unat num_avail)
                 (vq2\<lparr>vq_metrics := (vq_metrics vq2)
                    \<lparr>vm_queue_len_last := num_avail,
                     vm_queue_len_max_60s := max num_avail (vm_queue_len_max_60s (vq_metrics vq2))\<rparr>\<rparr>,
                  m1, s))
         }))"

definition virtq_dequeue_many ::
  "'s handle_buffers_cb \<Rightarrow> int \<Rightarrow> 's vqst \<Rightarrow> (status \<times> 's vqst) option" where
  "virtq_dequeue_many handle_buffers now st =
     (if virtq_is_broken (fst st) then Some (Inl ENODEV, st)
      else if vq_inflight_check (fst st) then do {
        (res, vq1, m1, s1) \<leftarrow> virtq_inflight_resubmit handle_buffers st;
        (case res of
           Inl e \<Rightarrow> Some (Inl e, mark_broken vq1, m1, s1)
         | Inr _ \<Rightarrow> dequeue_avail handle_buffers now (vq1\<lparr>vq_inflight_check := False\<rparr>, m1, s1))
      }
      else dequeue_avail handle_buffers now st)"

section \<open>Completing a request\<close>

primrec vhd_log_buffers ::
  "vhd_memory_map \<Rightarrow> vhd_buffer list \<Rightarrow> vhd_memory_log \<Rightarrow> vhd_memory_log option" where
  "vhd_log_buffers mm [] log = Some log"
| "vhd_log_buffers mm (b # bs) log =
     (if buf_write_only b
      then do {
        log1 \<leftarrow> vhd_mark_range_dirty log mm (buf_base b) (buf_len b);
        vhd_log_buffers mm bs log1
      }
      else vhd_log_buffers mm bs log)"

definition vhd_log_modified ::
  "virtio_virtq \<Rightarrow> vhd_memory_map \<Rightarrow> virtq_iov_private \<Rightarrow> u16 \<Rightarrow> vhd_memory_log \<Rightarrow> vhd_memory_log option" where
  "vhd_log_modified vq mm iov used_idx log = do {
     log1 \<leftarrow> vhd_log_buffers mm (iov_buffers iov) log;
     (if vq_flags vq AND VHOST_VRING_F_LOG \<noteq> 0
      then do {
        log2 \<leftarrow> vhd_mark_gpa_range_dirty log1 (vq_used_gpa_base vq + 2) 2;
        vhd_mark_gpa_range_dirty log2 (vq_used_gpa_base vq + (4 + 8 * ucast used_idx)) 8
      }
      else Some log1)
   }"

definition virtq_do_notify :: "virtio_virtq \<Rightarrow> machine \<Rightarrow> machine" where
  "virtq_do_notify vq m =
     (if vq_notify_fd vq \<noteq> - 1
      then m\<lparr>m_eventfd := (m_eventfd m)(vq_notify_fd vq := Suc (m_eventfd m (vq_notify_fd vq)))\<rparr>
      else m)"

definition virtq_get_used_event :: "virtio_virtq \<Rightarrow> virtq_avail \<Rightarrow> u16" where
  "virtq_get_used_event vq a = av_ring a (unat (vq_qsz vq))"

definition virtq_need_notify :: "virtio_virtq \<Rightarrow> machine \<Rightarrow> bool \<times> machine" where
  "virtq_need_notify vq m =
     (let (a, m1) = read_avail_m vq m
      in (if \<not> vq_has_event_idx vq then av_flags a AND VIRTQ_AVAIL_F_NO_INTERRUPT = 0
          else virtq_get_used_event vq a = us_idx (m_used m (vq_used vq)) - 1, m1))"

definition virtq_notify :: "virtio_virtq \<Rightarrow> machine \<Rightarrow> machine" where
  "virtq_notify vq m =
     (let (need, m1) = virtq_need_notify vq m in if need then virtq_do_notify vq m1 else m1)"

definition upd_used :: "virtio_virtq \<Rightarrow> (virtq_used \<Rightarrow> virtq_used) \<Rightarrow> machine \<Rightarrow> machine" where
  "upd_used vq f m = m\<lparr>m_used := (m_used m)(vq_used vq := f (m_used m (vq_used vq)))\<rparr>"

text \<open>
  \<open>used->id\<close> is 32 bits wide and read back as the 16-bit head for the inflight region.
\<close>

definition virtq_push :: "virtio_virtq \<Rightarrow> virtq_iov_private \<Rightarrow> u32 \<Rightarrow> machine \<Rightarrow> machine option" where
  "virtq_push vq iov len m =
     (if vq_qsz vq = 0 then None
      else
        (let used_idx = us_idx (m_used m (vq_used vq)) mod vq_qsz vq;
             elem = \<lparr>ue_id = ucast (iov_used_head iov), ue_len = len\<rparr>;
             m1 = upd_used vq (\<lambda>u. u\<lparr>us_ring := (us_ring u)(unat used_idx := elem)\<rparr>) m;
             m2 = virtq_inflight_used_update vq (ucast (ue_id elem)) m1;
             m3 = upd_used vq (\<lambda>u. u\<lparr>us_idx := us_idx u + 1\<rparr>) m2;
             m4 = virtq_inflight_used_commit vq (ucast (ue_id elem)) m3
         in do {
           m5 \<leftarrow> (case vq_log vq of
                    None \<Rightarrow> Some m4
                  | Some l \<Rightarrow> do {
                      log \<leftarrow> m_logs m4 l;
                      mm \<leftarrow> ms_maps (m_mms m4) (iov_mm iov);
                      log' \<leftarrow> vhd_log_modified vq mm iov used_idx log;
                      Some (m4\<lparr>m_logs := (m_logs m4)(l := Some log')\<rparr>)
                    });
           Some (virtq_notify vq m5)
         }))"

definition virtq_set_notify_fd :: "virtio_virtq \<Rightarrow> int \<Rightarrow> machine \<Rightarrow> virtio_virtq \<times> machine" where
  "virtq_set_notify_fd vq fd m =
     (let vq1 = vq\<lparr>vq_notify_fd := fd\<rparr> in (vq1, virtq_do_notify vq1 m))"

definition virtio_virtq_get_stat :: "virtio_virtq \<Rightarrow> vhd_vq_metrics" where
  "virtio_virtq_get_stat vq = vq_metrics vq"

end
