(* ===== verification/Virtq_Walk.thy ===== *)
theory Virtq_Walk
  imports Virtqueue
begin

text \<open>
  The walk over a descriptor chain: against any guest it keeps the queue object well-formed,
  maps only memory of the guest and reads descriptors only inside the tables; when the guest
  leaves the tables alone it finds exactly the buffers of the chain.
\<close>

section \<open>What a walk changes\<close>

text \<open>The buffers collected so far; that they fit; that nothing else of the queue changes.\<close>

definition collected :: "virtio_virtq \<Rightarrow> vhd_buffer list" where
  "collected vq = take (unat (vq_next_buffer vq)) (vq_buffers vq)"

definition vq_room :: "virtio_virtq \<Rightarrow> bool" where
  "vq_room vq \<longleftrightarrow> length (vq_buffers vq) = unat (vq_max_chain_len vq) \<and>
     vq_next_buffer vq \<le> vq_max_chain_len vq"

definition only_buffers :: "virtio_virtq \<Rightarrow> virtio_virtq \<Rightarrow> bool" where
  "only_buffers vq vq' \<longleftrightarrow>
     vq' = vq\<lparr>vq_buffers := vq_buffers vq', vq_next_buffer := vq_next_buffer vq'\<rparr>"

text \<open>A buffer is mapped if its address is the translation of a guest range of its length.\<close>

definition buf_mapped :: "vhd_memory_map \<Rightarrow> vhd_buffer \<Rightarrow> bool" where
  "buf_mapped mm b \<longleftrightarrow> (\<exists>gpa. gpa_range_to_ptr mm gpa (buf_len b) = Some (buf_base b))"

definition extends :: "vhd_memory_map \<Rightarrow> virtio_virtq \<Rightarrow> virtio_virtq \<Rightarrow> bool" where
  "extends mm vq vq' \<longleftrightarrow> vq_room vq' \<and> only_buffers vq vq' \<and>
     (\<exists>bs. collected vq' = collected vq @ bs \<and> (\<forall>b \<in> set bs. buf_mapped mm b))"

lemma extends_refl: "vq_room vq \<Longrightarrow> extends mm vq vq"
  by (simp add: extends_def only_buffers_def)

lemma only_buffers_trans: "only_buffers a b \<Longrightarrow> only_buffers b c \<Longrightarrow> only_buffers a c"
  by (cases a, cases b, cases c) (simp add: only_buffers_def)

lemma extends_trans:
  assumes "extends mm a b" and "extends mm b c"
  shows "extends mm a c"
proof -
  from assms obtain bs cs where "collected b = collected a @ bs" "\<forall>x \<in> set bs. buf_mapped mm x"
    "collected c = collected b @ cs" "\<forall>x \<in> set cs. buf_mapped mm x"
    unfolding extends_def by blast
  then have "collected c = collected a @ (bs @ cs) \<and> (\<forall>x \<in> set (bs @ cs). buf_mapped mm x)" by auto
  with assms show ?thesis unfolding extends_def using only_buffers_trans by blast
qed

lemma extends_room: "extends mm vq vq' \<Longrightarrow> vq_room vq'"
  by (simp add: extends_def)

lemma only_buffers_fields:
  assumes "only_buffers vq vq'"
  shows "vq_max_chain_len vq' = vq_max_chain_len vq" "vq_desc vq' = vq_desc vq" "vq_qsz vq' = vq_qsz vq"
  using assms by (cases vq, cases vq', simp add: only_buffers_def)+

lemma collected_length: "vq_room vq \<Longrightarrow> length (collected vq) = unat (vq_next_buffer vq)"
  by (simp add: vq_room_def collected_def word_le_nat_alt)

lemma add_buffer_fits:
  assumes "vq_room vq" and "vq_next_buffer vq \<noteq> vq_max_chain_len vq"
  shows "unat (vq_next_buffer vq) < unat (vq_max_chain_len vq)"
    and "unat (vq_next_buffer vq + 1) = Suc (unat (vq_next_buffer vq))"
proof -
  show lt: "unat (vq_next_buffer vq) < unat (vq_max_chain_len vq)"
    using assms by (simp add: vq_room_def word_le_nat_alt word_unat_eq_iff)
  then show "unat (vq_next_buffer vq + 1) = Suc (unat (vq_next_buffer vq))"
    using unat_less_16 [of "vq_max_chain_len vq"] unat_add_16 [of "vq_next_buffer vq" 1] by simp
qed

lemma add_buffer_ok:
  assumes room: "vq_room vq" and "add_buffer vq p len wo = (Inr u, vq')"
  shows "vq_room vq' \<and> only_buffers vq vq' \<and>
    collected vq' = collected vq @ [\<lparr>buf_base = p, buf_len = len, buf_write_only = wo\<rparr>] \<and>
    vq_next_buffer vq \<noteq> vq_max_chain_len vq"
proof -
  from assms(2) have ne: "vq_next_buffer vq \<noteq> vq_max_chain_len vq"
    and vq': "vq' = vq\<lparr>vq_buffers := (vq_buffers vq)[unat (vq_next_buffer vq) :=
                      \<lparr>buf_base = p, buf_len = len, buf_write_only = wo\<rparr>],
                   vq_next_buffer := vq_next_buffer vq + 1\<rparr>"
    by (auto simp: add_buffer_def split: if_splits)
  note fits = add_buffer_fits [OF room ne]
  have "vq_room vq'" using room fits by (simp add: vq' vq_room_def word_le_nat_alt)
  moreover have "collected vq' = collected vq @ [\<lparr>buf_base = p, buf_len = len, buf_write_only = wo\<rparr>]"
    using room fits by (simp add: vq' collected_def vq_room_def take_Suc_conv_app_nth)
  ultimately show ?thesis using ne by (simp add: vq' only_buffers_def)
qed

text \<open>The buffer of a descriptor.\<close>

definition desc_buffer :: "vhd_memory_map \<Rightarrow> virtq_desc \<Rightarrow> vhd_buffer option" where
  "desc_buffer mm d = map_option (\<lambda>p. \<lparr>buf_base = p, buf_len = ucast (d_len d),
     buf_write_only = d_flags d AND VIRTQ_DESC_F_WRITE \<noteq> 0\<rparr>)
     (gpa_range_to_ptr mm (d_addr d) (ucast (d_len d)))"

lemma desc_buffer_mapped: "desc_buffer mm d = Some b \<Longrightarrow> buf_mapped mm b"
  by (auto simp: desc_buffer_def buf_mapped_def)

lemma map_desc_ok:
  assumes "vq_room vq" and "map_desc mm vq d = (Inr u, vq')"
  shows "vq_room vq'" and "only_buffers vq vq'"
    and "\<exists>b. desc_buffer mm d = Some b \<and> collected vq' = collected vq @ [b]"
  using add_buffer_ok [OF assms(1)] assms(2)
  by (auto simp: map_buffer_def desc_buffer_def split: option.splits)

lemma map_desc_some:
  assumes "vq_room vq" and "desc_buffer mm d = Some b" and "length (collected vq) < unat (vq_max_chain_len vq)"
  shows "\<exists>vq'. map_desc mm vq d = (OK, vq') \<and> collected vq' = collected vq @ [b]"
proof -
  from assms(2) obtain p where p: "gpa_range_to_ptr mm (d_addr d) (ucast (d_len d)) = Some p"
    by (auto simp: desc_buffer_def)
  have "vq_next_buffer vq \<noteq> vq_max_chain_len vq"
    using assms(1,3) by (auto simp: collected_length)
  then obtain vq' where m: "map_desc mm vq d = (OK, vq')"
    by (simp add: map_buffer_def p add_buffer_def)
  with map_desc_ok(3) [OF assms(1) m] assms(2) show ?thesis by auto
qed

lemma map_desc_extends:
  assumes "vq_room vq" and "map_desc mm vq d = (r, vq')"
  shows "extends mm vq vq'"
proof (cases r)
  case (Inl e)
  with assms have "vq' = vq"
    by (auto simp: map_buffer_def add_buffer_def split: option.splits if_splits)
  with assms(1) show ?thesis by (simp add: extends_refl)
next
  case (Inr u)
  with assms(2) have m: "map_desc mm vq d = (Inr u, vq')" by simp
  note ok = map_desc_ok [OF assms(1) m]
  from ok(3) obtain b where "desc_buffer mm d = Some b" "collected vq' = collected vq @ [b]" by blast
  with ok(1,2) show ?thesis
    unfolding extends_def by (intro conjI exI [of _ "[b]"]) (auto dest: desc_buffer_mapped)
qed

lemma walk_indirect_loop_extends:
  "vq_room vq \<Longrightarrow> walk_indirect_loop mm t n vq g i = (r, vq', g') \<Longrightarrow> extends mm vq vq'"
proof (induction mm t n vq g i arbitrary: r vq' g' rule: walk_indirect_loop.induct)
  case (1 mm t n vq g i)
  obtain d g1 where rd: "read_desc g (desc_addr t i) = (d, g1)" by fastforce
  obtain s vq1 where m: "map_desc mm vq d = (s, vq1)" by fastforce
  have e: "extends mm vq vq1" using map_desc_extends [OF 1(2) m] .
  note un = walk_indirect_loop.simps [of mm t n vq g i, unfolded rd prod.case m]
  show ?case
  proof (cases "d_flags d AND VIRTQ_DESC_F_INDIRECT = 0 \<and> d_flags d AND VIRTQ_DESC_F_NEXT \<noteq> 0 \<and>
      \<not> n \<le> d_next d \<and> (\<exists>u. s = Inr u)")
    case True
    then obtain u where u: "s = Inr u" by blast
    have rec: "walk_indirect_loop mm t n vq1 g1 (d_next d) = (r, vq', g')"
      using 1(3) True u by (simp add: un)
    have "extends mm vq1 vq'"
      by (rule 1(1) [OF rd [symmetric] _ m [symmetric] u _ _ extends_room [OF e] rec])
        (use True in simp_all)
    with e show ?thesis by (rule extends_trans)
  next
    case False
    then have "vq' = vq \<or> vq' = vq1"
      using 1(3) by (auto simp: un split: sum.splits if_splits)
    with e 1(2) show ?thesis by (auto simp: extends_refl)
  qed
qed

lemma walk_indirect_table_extends:
  assumes "vq_room vq" and "walk_indirect_table mm vq g d = (r, vq', g')"
  shows "extends mm vq vq'"
  using assms walk_indirect_loop_extends extends_refl
  by (auto simp: walk_indirect_table_def Let_def split: if_splits option.splits)

text \<open>
  One round of the loop over the ring's own descriptors: it goes on with the next descriptor,
  or it stops with a queue that extends the one it had.
\<close>

lemma walk_chain_loop_round:
  assumes "vq_room vq" and "walk_chain_loop mm vq g i c = (r, vq', g')"
  obtains (continue) d g1 u vq1 where "read_desc g (desc_addr (vq_desc vq) i) = (d, g1)"
      "d_flags d AND VIRTQ_DESC_F_INDIRECT = 0" "map_desc mm vq d = (Inr u, vq1)"
      "d_flags d AND VIRTQ_DESC_F_NEXT \<noteq> 0" "\<not> vq_qsz vq1 \<le> d_next d"
      "walk_chain_loop mm vq1 g1 (d_next d) (c + 1) = (r, vq', g')" "extends mm vq vq1"
  | (stop) "extends mm vq vq'"
proof -
  obtain d g1 where rd: "read_desc g (desc_addr (vq_desc vq) i) = (d, g1)" by fastforce
  obtain s vq1 where m: "map_desc mm vq d = (s, vq1)" by fastforce
  have e: "extends mm vq vq1" using map_desc_extends [OF assms(1) m] .
  note un = walk_chain_loop.simps [of mm vq g i c, unfolded rd prod.case m]
  show thesis
  proof (cases "d_flags d AND VIRTQ_DESC_F_INDIRECT = 0")
    case True
    show thesis
    proof (cases "d_flags d AND VIRTQ_DESC_F_NEXT \<noteq> 0 \<and> \<not> vq_qsz vq1 \<le> d_next d \<and> (\<exists>u. s = Inr u)")
      case again: True
      then obtain u where "s = Inr u" by blast
      then show thesis using again True assms(2) rd m e by (intro continue) (auto simp: un)
    next
      case False
      then have "vq' = vq1" using assms(2) True by (auto simp: un split: sum.splits if_splits)
      with e show thesis by (intro stop) simp
    qed
  next
    case False
    then have "vq' = vq \<or> (\<exists>r g2. walk_indirect_table mm vq g1 d = (r, vq', g2))"
      using assms(2) by (auto simp: un split: if_splits prod.splits sum.splits)
    then show thesis
      using walk_indirect_table_extends [OF assms(1)] extends_refl [OF assms(1)] by (auto intro: stop)
  qed
qed

lemma walk_chain_loop_extends:
  "vq_room vq \<Longrightarrow> walk_chain_loop mm vq g i c = (r, vq', g') \<Longrightarrow> extends mm vq vq'"
proof (induction mm vq g i c arbitrary: r vq' g' rule: walk_chain_loop.induct)
  case (1 mm vq g i c)
  from 1(2,3) show ?case
  proof (cases rule: walk_chain_loop_round)
    case (continue d g1 u vq1)
    have "extends mm vq1 vq'"
      by (rule 1(1) [OF continue(1) [symmetric] _ continue(3) [symmetric] refl _ continue(5)
            extends_room [OF continue(7)] continue(6)]) (use continue in simp_all)
    with continue(7) show ?thesis by (rule extends_trans)
  qed
qed

lemma walk_chain_extends:
  assumes "length (vq_buffers vq) = unat (vq_max_chain_len vq)"
    and "walk_chain mm vq g head = (r, vq', g')"
  shows "extends mm (vq\<lparr>vq_next_buffer := 0\<rparr>) vq'"
  using walk_chain_loop_extends [OF _ assms(2) [unfolded walk_chain_def]] assms(1)
  by (simp add: vq_room_def)

text \<open>A walk advances the guest's clock and changes nothing else of it.\<close>

lemma read_desc_guest: "read_desc g a = (d, g') \<Longrightarrow> same_tables g g'"
  by (auto simp: read_desc_def same_tables_def)

lemma walk_indirect_loop_guest:
  "walk_indirect_loop mm t n vq g i = (r, vq', g') \<Longrightarrow> same_tables g g'"
proof (induction mm t n vq g i arbitrary: r vq' g' rule: walk_indirect_loop.induct)
  case (1 mm t n vq g i)
  obtain d g1 where rd: "read_desc g (desc_addr t i) = (d, g1)" by fastforce
  obtain s vq1 where m: "map_desc mm vq d = (s, vq1)" by fastforce
  note un = walk_indirect_loop.simps [of mm t n vq g i, unfolded rd prod.case m]
  show ?case
  proof (cases "g' = g1")
    case False
    then have c: "d_flags d AND VIRTQ_DESC_F_INDIRECT = 0" "\<exists>u. s = Inr u"
      "d_flags d AND VIRTQ_DESC_F_NEXT \<noteq> 0" "\<not> n \<le> d_next d"
      "walk_indirect_loop mm t n vq1 g1 (d_next d) = (r, vq', g')"
      using 1(2) by (auto simp: un split: sum.splits if_splits)
    then obtain u where "s = Inr u" by blast
    from 1(1) [OF rd [symmetric] _ m [symmetric] this c(3-5)] c(1) read_desc_guest [OF rd]
    show ?thesis by (simp add: same_tables_def)
  qed (use read_desc_guest [OF rd] in simp)
qed

lemma walk_indirect_table_guest:
  "walk_indirect_table mm vq g d = (r, vq', g') \<Longrightarrow> same_tables g g'"
  using walk_indirect_loop_guest
  by (auto simp: walk_indirect_table_def Let_def same_tables_def split: if_splits option.splits)

lemma walk_chain_loop_guest:
  "walk_chain_loop mm vq g i c = (r, vq', g') \<Longrightarrow> same_tables g g'"
proof (induction mm vq g i c arbitrary: r vq' g' rule: walk_chain_loop.induct)
  case (1 mm vq g i c)
  obtain d g1 where rd: "read_desc g (desc_addr (vq_desc vq) i) = (d, g1)" by fastforce
  obtain s vq1 where m: "map_desc mm vq d = (s, vq1)" by fastforce
  obtain q vq2 g2 where w: "walk_indirect_table mm vq g1 d = (q, vq2, g2)" by (rule prod_cases3)
  note un = walk_chain_loop.simps [of mm vq g i c, unfolded rd prod.case m w]
  show ?case
  proof (cases "g' = g1 \<or> g' = g2")
    case True
    then show ?thesis using read_desc_guest [OF rd] walk_indirect_table_guest [OF w] by (auto simp: same_tables_def)
  next
    case False
    then have c: "d_flags d AND VIRTQ_DESC_F_INDIRECT = 0" "\<exists>u. s = Inr u"
      "d_flags d AND VIRTQ_DESC_F_NEXT \<noteq> 0" "\<not> vq_qsz vq1 \<le> d_next d"
      "walk_chain_loop mm vq1 g1 (d_next d) (c + 1) = (r, vq', g')"
      using 1(2) by (auto simp: un split: sum.splits if_splits)
    then obtain u where "s = Inr u" by blast
    from 1(1) [OF rd [symmetric] _ m [symmetric] this c(3-5)] c(1) read_desc_guest [OF rd]
    show ?thesis by (simp add: same_tables_def)
  qed
qed

lemma walk_chain_guest:
  "walk_chain mm vq g head = (r, vq', g') \<Longrightarrow> same_tables g g'"
  unfolding walk_chain_def by (rule walk_chain_loop_guest)

text \<open>A walk that succeeds collects at least one buffer.\<close>

lemma map_desc_collects:
  assumes "vq_room vq" and "map_desc mm vq d = (Inr u, vq1)" and "vq' = vq1 \<or> extends mm vq1 vq'"
  shows "collected vq' \<noteq> []"
  using map_desc_ok [OF assms(1,2)] assms(3) by (auto simp: extends_def)

lemma walk_indirect_loop_collects:
  assumes "vq_room vq" and "walk_indirect_loop mm t n vq g i = (Inr u, vq', g')"
  shows "collected vq' \<noteq> []"
proof -
  obtain d g1 where rd: "read_desc g (desc_addr t i) = (d, g1)" by fastforce
  obtain s vq1 where m: "map_desc mm vq d = (s, vq1)" by fastforce
  note un = walk_indirect_loop.simps [of mm t n vq g i, unfolded rd prod.case m]
  have room: "vq_room vq1" using extends_room [OF map_desc_extends [OF assms(1) m]] .
  from assms(2) obtain v where v: "s = Inr v"
    "vq' = vq1 \<or> walk_indirect_loop mm t n vq1 g1 (d_next d) = (Inr u, vq', g')"
    by (auto simp: un split: if_splits sum.splits)
  with walk_indirect_loop_extends [OF room] map_desc_collects [OF assms(1), of mm d v vq1] m
  show ?thesis by blast
qed

lemma walk_chain_collects:
  assumes "length (vq_buffers vq) = unat (vq_max_chain_len vq)"
    and "walk_chain mm vq g head = (Inr k, vq', g')"
  shows "collected vq' \<noteq> []"
proof -
  let ?vq = "vq\<lparr>vq_next_buffer := 0\<rparr>"
  have room: "vq_room ?vq" using assms(1) by (simp add: vq_room_def)
  obtain d g1 where rd: "read_desc g (desc_addr (vq_desc ?vq) head) = (d, g1)" by fastforce
  obtain s vq1 where m: "map_desc mm ?vq d = (s, vq1)" by fastforce
  obtain q vq2 g2 where w: "walk_indirect_table mm ?vq g1 d = (q, vq2, g2)" by (rule prod_cases3)
  note un = assms(2) [unfolded walk_chain_def walk_chain_loop.simps [of mm ?vq g head 1] rd prod.case m w]
  consider u where "q = Inr u" "vq' = vq2" | v where "s = Inr v"
    "vq' = vq1 \<or> walk_chain_loop mm vq1 g1 (d_next d) (1 + 1) = (Inr k, vq', g')"
    using un by (auto split: if_splits sum.splits)
  then show ?thesis
  proof cases
    case 1
    with w walk_indirect_loop_collects [OF room] show ?thesis
      by (auto simp: walk_indirect_table_def Let_def split: if_splits option.splits)
  next
    case 2
    with walk_chain_loop_extends [OF extends_room [OF map_desc_extends [OF room m]]]
      map_desc_collects [OF room, of mm d v vq1] m show ?thesis by blast
  qed
qed

section \<open>The chain as a relation\<close>

text \<open>
  What a chain is when the tables do not change: the buffers of the descriptors linked by
  \<open>next\<close>, in a table of \<open>n\<close> descriptors at \<open>t\<close>; in the ring's table a descriptor may
  instead name an indirect table, which ends the chain.
\<close>

inductive indirect_chain ::
  "vhd_memory_map \<Rightarrow> (u64 \<Rightarrow> virtq_desc) \<Rightarrow> u64 \<Rightarrow> u16 \<Rightarrow> u16 \<Rightarrow> vhd_buffer list \<Rightarrow> bool"
  for mm D t n where
  ic_last: "d = D (desc_addr t i) \<Longrightarrow> d_flags d AND VIRTQ_DESC_F_INDIRECT = 0 \<Longrightarrow>
    d_flags d AND VIRTQ_DESC_F_NEXT = 0 \<Longrightarrow> desc_buffer mm d = Some b \<Longrightarrow> indirect_chain mm D t n i [b]"
| ic_next: "d = D (desc_addr t i) \<Longrightarrow> d_flags d AND VIRTQ_DESC_F_INDIRECT = 0 \<Longrightarrow>
    d_flags d AND VIRTQ_DESC_F_NEXT \<noteq> 0 \<Longrightarrow> desc_buffer mm d = Some b \<Longrightarrow> d_next d < n \<Longrightarrow>
    indirect_chain mm D t n (d_next d) bs \<Longrightarrow> indirect_chain mm D t n i (b # bs)"

inductive ring_chain ::
  "vhd_memory_map \<Rightarrow> (u64 \<Rightarrow> virtq_desc) \<Rightarrow> u64 \<Rightarrow> u16 \<Rightarrow> u16 \<Rightarrow> vhd_buffer list \<Rightarrow> bool"
  for mm D t n where
  rc_last: "d = D (desc_addr t i) \<Longrightarrow> d_flags d AND VIRTQ_DESC_F_INDIRECT = 0 \<Longrightarrow>
    d_flags d AND VIRTQ_DESC_F_NEXT = 0 \<Longrightarrow> desc_buffer mm d = Some b \<Longrightarrow> ring_chain mm D t n i [b]"
| rc_next: "d = D (desc_addr t i) \<Longrightarrow> d_flags d AND VIRTQ_DESC_F_INDIRECT = 0 \<Longrightarrow>
    d_flags d AND VIRTQ_DESC_F_NEXT \<noteq> 0 \<Longrightarrow> desc_buffer mm d = Some b \<Longrightarrow> d_next d < n \<Longrightarrow>
    ring_chain mm D t n (d_next d) bs \<Longrightarrow> ring_chain mm D t n i (b # bs)"
| rc_indirect: "d = D (desc_addr t i) \<Longrightarrow> d_flags d AND VIRTQ_DESC_F_INDIRECT \<noteq> 0 \<Longrightarrow>
    d_flags d AND VIRTQ_DESC_F_NEXT = 0 \<Longrightarrow> d_len d \<noteq> 0 \<Longrightarrow> d_len d mod 16 = 0 \<Longrightarrow>
    gpa_range_to_ptr mm (d_addr d) (ucast (d_len d)) = Some t' \<Longrightarrow>
    indirect_chain mm D t' (ucast (d_len d div 16)) 0 bs \<Longrightarrow> ring_chain mm D t n i bs"

text \<open>The guest leaves its descriptor tables as they are in \<open>D\<close>.\<close>

definition quiet :: "(u64 \<Rightarrow> virtq_desc) \<Rightarrow> guest \<Rightarrow> bool" where
  "quiet D g \<longleftrightarrow> (\<forall>t. g_desc g t = D)"

lemma quiet_read: "quiet D g \<Longrightarrow> read_desc g a = (D a, g\<lparr>g_now := Suc (g_now g)\<rparr>)"
  by (simp add: quiet_def read_desc_def)

lemma quiet_tick: "quiet D (g\<lparr>g_now := n\<rparr>) = quiet D g"
  by (simp add: quiet_def)

lemma map_desc_step:
  assumes "vq_room vq" and "map_desc mm vq d = (Inr u, vq')"
  obtains b where "desc_buffer mm d = Some b" "collected vq' = collected vq @ [b]"
    "vq_room vq'" "vq_desc vq' = vq_desc vq" "vq_qsz vq' = vq_qsz vq"
    "vq_max_chain_len vq' = vq_max_chain_len vq"
  using map_desc_ok [OF assms] only_buffers_fields by blast

lemma walk_indirect_loop_sound:
  "vq_room vq \<Longrightarrow> quiet D g \<Longrightarrow> walk_indirect_loop mm t n vq g i = (Inr u, vq', g') \<Longrightarrow>
    \<exists>bs. indirect_chain mm D t n i bs \<and> collected vq' = collected vq @ bs"
proof (induction mm t n vq g i arbitrary: rule: walk_indirect_loop.induct)
  case (1 mm t n vq g i)
  let ?d = "D (desc_addr t i)" and ?g = "g\<lparr>g_now := Suc (g_now g)\<rparr>"
  note un = walk_indirect_loop.simps [of mm t n vq g i, unfolded quiet_read [OF 1(3)] prod.case]
  have ni: "d_flags ?d AND VIRTQ_DESC_F_INDIRECT = 0" using 1(4) by (auto simp: un split: if_splits)
  obtain w vq1 where m: "map_desc mm vq ?d = (Inr w, vq1)"
    using 1(4) ni by (cases "map_desc mm vq ?d") (auto simp: un split: sum.splits)
  obtain b where b: "desc_buffer mm ?d = Some b" "collected vq1 = collected vq @ [b]" "vq_room vq1"
    using map_desc_step [OF 1(2) m] by blast
  show ?case
  proof (cases "d_flags ?d AND VIRTQ_DESC_F_NEXT = 0")
    case True
    then have "vq' = vq1" using 1(4) ni m by (simp add: un)
    moreover have "indirect_chain mm D t n i [b]" by (rule ic_last [of ?d]) (use True ni b in simp_all)
    ultimately show ?thesis using b(2) by blast
  next
    case False
    then have nx: "\<not> n \<le> d_next ?d" and rec: "walk_indirect_loop mm t n vq1 ?g (d_next ?d) = (Inr u, vq', g')"
      using 1(4) ni m by (auto simp: un split: if_splits)
    have "\<exists>bs. indirect_chain mm D t n (d_next ?d) bs \<and> collected vq' = collected vq1 @ bs"
      by (rule 1(1) [OF quiet_read [OF 1(3), symmetric] _ m [symmetric] refl False nx b(3) _ rec])
        (use ni 1(3) quiet_tick in simp_all)
    then obtain bs where "indirect_chain mm D t n (d_next ?d) bs" "collected vq' = collected vq1 @ bs" by blast
    then have "indirect_chain mm D t n i (b # bs)" "collected vq' = collected vq @ b # bs"
      using ic_next [of ?d] ni False b nx by simp_all
    then show ?thesis by blast
  qed
qed


lemma walk_indirect_loop_complete:
  "indirect_chain mm D t n i bs \<Longrightarrow> vq_room vq \<Longrightarrow> quiet D g \<Longrightarrow>
    length (collected vq) + length bs \<le> unat (vq_max_chain_len vq) \<Longrightarrow>
    \<exists>vq' g'. walk_indirect_loop mm t n vq g i = (OK, vq', g') \<and> collected vq' = collected vq @ bs"
proof (induction i bs arbitrary: vq g rule: indirect_chain.induct)
  case (ic_last d i b)
  then obtain vq' where "map_desc mm vq d = (OK, vq')" "collected vq' = collected vq @ [b]"
    using map_desc_some [of vq mm d b] by auto
  with ic_last show ?case by (subst walk_indirect_loop.simps) (simp add: quiet_read)
next
  case (ic_next d i b bs)
  then obtain vq1 where m: "map_desc mm vq d = (OK, vq1)" "collected vq1 = collected vq @ [b]"
    using map_desc_some [of vq mm d b] by auto
  let ?g = "g\<lparr>g_now := Suc (g_now g)\<rparr>"
  have f: "vq_room vq1" "vq_max_chain_len vq1 = vq_max_chain_len vq"
    using map_desc_step [OF ic_next.prems(1) m(1)] by blast+
  have "\<exists>vq' g'. walk_indirect_loop mm t n vq1 ?g (d_next d) = (OK, vq', g') \<and> collected vq' = collected vq1 @ bs"
    using ic_next f m(2) by (intro ic_next.IH) (auto simp: quiet_tick)
  moreover have "walk_indirect_loop mm t n vq g i = walk_indirect_loop mm t n vq1 ?g (d_next d)"
    using ic_next(1-4) ic_next.prems(2) m(1) iffD2 [OF not_le ic_next(5)]
    by (subst walk_indirect_loop.simps) (auto simp: quiet_read)
  ultimately show ?case using m(2) by simp
qed

lemma walk_chain_loop_sound:
  "vq_room vq \<Longrightarrow> quiet D g \<Longrightarrow> walk_chain_loop mm vq g i c = (Inr k, vq', g') \<Longrightarrow>
    \<exists>bs. ring_chain mm D (vq_desc vq) (vq_qsz vq) i bs \<and> collected vq' = collected vq @ bs"
proof (induction mm vq g i c arbitrary: rule: walk_chain_loop.induct)
  case (1 mm vq g i c)
  let ?d = "D (desc_addr (vq_desc vq) i)" and ?g = "g\<lparr>g_now := Suc (g_now g)\<rparr>"
  note un = walk_chain_loop.simps [of mm vq g i c, unfolded quiet_read [OF 1(3)] prod.case]
  show ?case
  proof (cases "d_flags ?d AND VIRTQ_DESC_F_INDIRECT = 0")
    case False
    then have "d_flags ?d AND VIRTQ_DESC_F_NEXT = 0" "\<exists>u. walk_indirect_table mm vq ?g ?d = (Inr u, vq', g')"
      using 1(4) by (auto simp: un split: if_splits prod.splits sum.splits)
    then obtain u t' where t: "d_len ?d \<noteq> 0" "d_len ?d mod 16 = 0"
      "gpa_range_to_ptr mm (d_addr ?d) (ucast (d_len ?d)) = Some t'"
      "walk_indirect_loop mm t' (ucast (d_len ?d div 16)) vq ?g 0 = (Inr u, vq', g')"
      by (auto simp: walk_indirect_table_def Let_def split: if_splits option.splits)
    obtain bs where "indirect_chain mm D t' (ucast (d_len ?d div 16)) 0 bs" "collected vq' = collected vq @ bs"
      using walk_indirect_loop_sound [OF 1(2) _ t(4)] 1(3) quiet_tick by blast
    then show ?thesis using rc_indirect [of ?d D "vq_desc vq" i mm t' bs "vq_qsz vq"] False t(1-3)
      \<open>d_flags ?d AND VIRTQ_DESC_F_NEXT = 0\<close> by blast
  next
    case ni: True
    obtain w vq1 where m: "map_desc mm vq ?d = (Inr w, vq1)"
      using 1(4) ni by (cases "map_desc mm vq ?d") (auto simp: un split: sum.splits)
    obtain b where b: "desc_buffer mm ?d = Some b" "collected vq1 = collected vq @ [b]" "vq_room vq1"
      "vq_desc vq1 = vq_desc vq" "vq_qsz vq1 = vq_qsz vq"
      using map_desc_step [OF 1(2) m] by blast
    show ?thesis
    proof (cases "d_flags ?d AND VIRTQ_DESC_F_NEXT = 0")
      case True
      then have "vq' = vq1" using 1(4) ni m by (simp add: un)
      moreover have "ring_chain mm D (vq_desc vq) (vq_qsz vq) i [b]"
        by (rule rc_last [of ?d]) (use True ni b in simp_all)
      ultimately show ?thesis using b(2) by blast
    next
      case False
      then have nx: "\<not> vq_qsz vq1 \<le> d_next ?d"
        and rec: "walk_chain_loop mm vq1 ?g (d_next ?d) (c + 1) = (Inr k, vq', g')"
        using 1(4) ni m by (auto simp: un split: if_splits)
      have "\<exists>bs. ring_chain mm D (vq_desc vq1) (vq_qsz vq1) (d_next ?d) bs \<and> collected vq' = collected vq1 @ bs"
        by (rule 1(1) [OF quiet_read [OF 1(3), symmetric] _ m [symmetric] refl False nx b(3) _ rec])
          (use ni 1(3) quiet_tick in simp_all)
      then obtain bs where "ring_chain mm D (vq_desc vq) (vq_qsz vq) (d_next ?d) bs"
        "collected vq' = collected vq1 @ bs" using b(4,5) by auto
      then have "ring_chain mm D (vq_desc vq) (vq_qsz vq) i (b # bs)" "collected vq' = collected vq @ b # bs"
        using rc_next [of ?d] ni False b nx by simp_all
      then show ?thesis by blast
    qed
  qed
qed

lemma walk_chain_loop_complete:
  "ring_chain mm D t n i bs \<Longrightarrow> vq_desc vq = t \<Longrightarrow> vq_qsz vq = n \<Longrightarrow> vq_room vq \<Longrightarrow> quiet D g \<Longrightarrow>
    length (collected vq) + length bs \<le> unat (vq_max_chain_len vq) \<Longrightarrow>
    \<exists>k vq' g'. walk_chain_loop mm vq g i c = (Inr k, vq', g') \<and> collected vq' = collected vq @ bs"
proof (induction i bs arbitrary: vq g c rule: ring_chain.induct)
  case (rc_last d i b)
  then obtain vq' where "map_desc mm vq d = (OK, vq')" "collected vq' = collected vq @ [b]"
    using map_desc_some [of vq mm d b] by auto
  with rc_last show ?case by (subst walk_chain_loop.simps) (simp add: quiet_read)
next
  case (rc_next d i b bs)
  then obtain vq1 where m: "map_desc mm vq d = (OK, vq1)" "collected vq1 = collected vq @ [b]"
    using map_desc_some [of vq mm d b] by auto
  let ?g = "g\<lparr>g_now := Suc (g_now g)\<rparr>"
  have f: "vq_room vq1" "vq_desc vq1 = vq_desc vq" "vq_qsz vq1 = vq_qsz vq"
    "vq_max_chain_len vq1 = vq_max_chain_len vq"
    using map_desc_step [OF rc_next.prems(3) m(1)] by blast+
  have "\<exists>k vq' g'. walk_chain_loop mm vq1 ?g (d_next d) (c + 1) = (Inr k, vq', g') \<and>
      collected vq' = collected vq1 @ bs"
    using rc_next f m(2) by (intro rc_next.IH) (auto simp: quiet_tick)
  moreover have "walk_chain_loop mm vq g i c = walk_chain_loop mm vq1 ?g (d_next d) (c + 1)"
    using rc_next(1-4) rc_next.prems(1,2,4) m(1) f iffD2 [OF not_le rc_next(5)]
    by (subst walk_chain_loop.simps) (auto simp: quiet_read)
  ultimately show ?case using m(2) by simp
next
  case (rc_indirect d i t' bs)
  let ?g = "g\<lparr>g_now := Suc (g_now g)\<rparr>"
  obtain vq' g' where "walk_indirect_loop mm t' (ucast (d_len d div 16)) vq ?g 0 = (OK, vq', g')"
    "collected vq' = collected vq @ bs"
    using walk_indirect_loop_complete [OF rc_indirect(7) rc_indirect.prems(3), of ?g] rc_indirect.prems
    by (auto simp: quiet_tick)
  with rc_indirect show ?case
    by (subst walk_chain_loop.simps) (simp add: quiet_read walk_indirect_table_def)
qed


section \<open>Where descriptors are read\<close>

text \<open>
  A descriptor slot is an element of the ring's table or 16 bytes inside a region of the guest.
  Two guests that agree on those slots cannot be told apart by the walk.
\<close>

definition desc_slot :: "vhd_memory_map \<Rightarrow> virtio_virtq \<Rightarrow> u64 \<Rightarrow> bool" where
  "desc_slot mm vq a \<longleftrightarrow> (\<exists>i < vq_qsz vq. a = desc_addr (vq_desc vq) i) \<or>
     (\<exists>r \<in> set (mm_regions mm). host_range_in r a 16)"

definition slots_agree :: "(u64 \<Rightarrow> bool) \<Rightarrow> guest \<Rightarrow> guest \<Rightarrow> bool" where
  "slots_agree P g h \<longleftrightarrow> g_now g = g_now h \<and> (\<forall>t a. P a \<longrightarrow> g_desc g t a = g_desc h t a)"

lemma slots_agree_read:
  assumes "slots_agree P g h" and "P a" and "read_desc g a = (d, g1)"
  obtains h1 where "read_desc h a = (d, h1)" "slots_agree P g1 h1"
  using assms by (auto simp: slots_agree_def read_desc_def)

lemma indirect_slot:
  fixes len :: u32
  assumes ok: "\<forall>r \<in> set (mm_regions mm). region_ok r"
    and t: "gpa_range_to_ptr mm gpa (ucast len) = Some t" and len: "len \<noteq> 0" "len mod 16 = 0"
    and i: "i = 0 \<or> i < ucast (len div 16)"
  shows "\<exists>r \<in> set (mm_regions mm). host_range_in r (desc_addr t i) 16"
proof -
  obtain r where r: "r \<in> set (mm_regions mm)" "host_range_in r t (ucast len)"
    using gpa_range_regions_sound [OF ok] t unfolding gpa_range_to_ptr_def by blast
  have l: "unat (ucast len :: u64) = unat len" by (rule unat_ucast_up) simp
  have "unat (len mod 16) = unat len mod 16" by (simp add: unat_mod)
  then have "unat len mod 16 = 0" using len(2) by simp
  then have d: "16 * unat (len div 16) = unat len" by (auto simp: unat_div)
  moreover have "0 < unat len" using len(1) by (simp add: unat_gt_0)
  ultimately have "1 \<le> unat (len div 16)" by simp
  have "unat (ucast (len div 16) :: u16) \<le> unat (len div 16)"
    by (rule unat_ucast_le)
  with i \<open>1 \<le> unat (len div 16)\<close> have "unat i + 1 \<le> unat (len div 16)"
    by (auto simp: word_less_nat_alt)
  then have idx: "16 * unat i + 16 \<le> unat len" using d by linarith
  have i64: "unat (16 * ucast i :: u64) = 16 * unat i"
    using unat_less_16 [of i] by (simp add: unat_word_ariths unat_ucast_up)
  have "unat (desc_addr t i) = unat t + 16 * unat i"
    using r(2) l idx region_ok_ptr [of r] ok r(1) i64
    unfolding desc_addr_def by (subst unat_add_63) (auto simp: host_range_in_def)
  then have "host_range_in r (desc_addr t i) 16"
    using r(2) l idx by (simp add: host_range_in_def)
  with r(1) show ?thesis by blast
qed


lemma walk_indirect_loop_reads:
  assumes "\<forall>j. j = i \<or> j < n \<longrightarrow> P (desc_addr t j)" and "slots_agree P g h"
    and "walk_indirect_loop mm t n vq g i = (r, vq', g')"
  shows "\<exists>h'. walk_indirect_loop mm t n vq h i = (r, vq', h') \<and> slots_agree P g' h'"
  using assms
proof (induction mm t n vq g i arbitrary: h r vq' g' rule: walk_indirect_loop.induct)
  case (1 mm t n vq g i)
  obtain d g1 where rd: "read_desc g (desc_addr t i) = (d, g1)" by fastforce
  from 1(2) have "P (desc_addr t i)" by blast
  from slots_agree_read [OF 1(3) this rd] obtain h1 where
    rh: "read_desc h (desc_addr t i) = (d, h1)" and agree: "slots_agree P g1 h1" .
  obtain s vq1 where m: "map_desc mm vq d = (s, vq1)" by fastforce
  note ug = walk_indirect_loop.simps [of mm t n vq g i, unfolded rd prod.case m]
  note uh = walk_indirect_loop.simps [of mm t n vq h i, unfolded rh prod.case m]
  show ?case
  proof (cases "d_flags d AND VIRTQ_DESC_F_INDIRECT = 0 \<and> d_flags d AND VIRTQ_DESC_F_NEXT \<noteq> 0 \<and>
      \<not> n \<le> d_next d \<and> (\<exists>u. s = Inr u)")
    case True
    then obtain u where u: "s = Inr u" by blast
    have rec: "walk_indirect_loop mm t n vq1 g1 (d_next d) = (r, vq', g')"
      using 1(4) True u by (simp add: ug)
    have "\<exists>h'. walk_indirect_loop mm t n vq1 h1 (d_next d) = (r, vq', h') \<and> slots_agree P g' h'"
      by (rule 1(1) [OF rd [symmetric] _ m [symmetric] u _ _ _ agree rec]) (use True 1(2) in \<open>auto simp: not_le\<close>)
    then show ?thesis using True u by (simp add: uh)
  next
    case False
    with 1(4) agree show ?thesis by (auto simp: ug uh split: sum.splits if_splits)
  qed
qed

lemma walk_indirect_table_reads:
  assumes ok: "\<forall>r \<in> set (mm_regions mm). region_ok r"
    and P: "\<forall>r \<in> set (mm_regions mm). \<forall>a. host_range_in r a 16 \<longrightarrow> P a"
    and agree: "slots_agree P g h" and w: "walk_indirect_table mm vq g d = (r, vq', g')"
  shows "\<exists>h'. walk_indirect_table mm vq h d = (r, vq', h') \<and> slots_agree P g' h'"
proof (cases "d_len d = 0 \<or> d_len d mod 16 \<noteq> 0 \<or> gpa_range_to_ptr mm (d_addr d) (ucast (d_len d)) = None")
  case True
  with w agree show ?thesis
    by (cases "d_len d = 0 \<or> d_len d mod 16 \<noteq> 0") (auto simp: walk_indirect_table_def)
next
  case False
  then obtain t where t: "gpa_range_to_ptr mm (d_addr d) (ucast (d_len d)) = Some t" by blast
  have l: "walk_indirect_loop mm t (ucast (d_len d div 16)) vq g 0 = (r, vq', g')"
    using w False t by (simp add: walk_indirect_table_def)
  have "\<forall>j. j = 0 \<or> j < ucast (d_len d div 16) \<longrightarrow> P (desc_addr t j)"
  proof (intro allI impI)
    fix j :: u16 assume "j = 0 \<or> j < ucast (d_len d div 16)"
    from indirect_slot [OF ok t _ _ this] False P show "P (desc_addr t j)" by auto
  qed
  from walk_indirect_loop_reads [OF this agree l] show ?thesis
    using False t by (simp add: walk_indirect_table_def)
qed

lemma walk_chain_loop_reads:
  assumes "\<forall>r \<in> set (mm_regions mm). region_ok r"
    and "\<forall>r \<in> set (mm_regions mm). \<forall>a. host_range_in r a 16 \<longrightarrow> P a"
    and "vq_room vq" and "\<forall>j < vq_qsz vq. P (desc_addr (vq_desc vq) j)" and "i < vq_qsz vq"
    and "slots_agree P g h" and "walk_chain_loop mm vq g i c = (r, vq', g')"
  shows "\<exists>h'. walk_chain_loop mm vq h i c = (r, vq', h') \<and> slots_agree P g' h'"
  using assms
proof (induction mm vq g i c arbitrary: h r vq' g' rule: walk_chain_loop.induct)
  case (1 mm vq g i c)
  obtain d g1 where rd: "read_desc g (desc_addr (vq_desc vq) i) = (d, g1)" by fastforce
  from 1(5,6) have "P (desc_addr (vq_desc vq) i)" by blast
  from slots_agree_read [OF 1(7) this rd] obtain h1 where
    rh: "read_desc h (desc_addr (vq_desc vq) i) = (d, h1)" and agree: "slots_agree P g1 h1" .
  obtain s vq1 where m: "map_desc mm vq d = (s, vq1)" by fastforce
  note ug = walk_chain_loop.simps [of mm vq g i c, unfolded rd prod.case m]
  note uh = walk_chain_loop.simps [of mm vq h i c, unfolded rh prod.case m]
  show ?case
  proof (cases "d_flags d AND VIRTQ_DESC_F_INDIRECT = 0")
    case True
    show ?thesis
    proof (cases "d_flags d AND VIRTQ_DESC_F_NEXT \<noteq> 0 \<and> \<not> vq_qsz vq1 \<le> d_next d \<and> (\<exists>u. s = Inr u)")
      case again: True
      then obtain u where u: "s = Inr u" by blast
      have rec: "walk_chain_loop mm vq1 g1 (d_next d) (c + 1) = (r, vq', g')"
        using 1(8) again True u by (simp add: ug)
      have e: "extends mm vq vq1" using map_desc_extends [OF 1(4) m] .
      then have f: "vq_desc vq1 = vq_desc vq" "vq_qsz vq1 = vq_qsz vq"
        using only_buffers_fields by (auto simp: extends_def)
      have "\<exists>h'. walk_chain_loop mm vq1 h1 (d_next d) (c + 1) = (r, vq', h') \<and> slots_agree P g' h'"
        by (rule 1(1) [OF rd [symmetric] _ m [symmetric] u _ _ 1(2,3) extends_room [OF e] _ _ agree rec])
          (use True again 1(5) in \<open>auto simp: not_le f\<close>)
      then show ?thesis using True again u by (simp add: uh)
    next
      case False
      with 1(8) True agree show ?thesis by (auto simp: ug uh split: sum.splits if_splits)
    qed
  next
    case False
    obtain q vq2 g2 where w: "walk_indirect_table mm vq g1 d = (q, vq2, g2)" by (rule prod_cases3)
    obtain h2 where "walk_indirect_table mm vq h1 d = (q, vq2, h2)" "slots_agree P g2 h2"
      using walk_indirect_table_reads [OF 1(2,3) agree w] by blast
    with False 1(8) w agree show ?thesis by (auto simp: ug uh split: sum.splits if_splits)
  qed
qed

section \<open>Properties\<close>


text \<open>A queue with a chain of two descriptors in a ring of four, and a guest that leaves it alone.\<close>

definition demo_table :: "u64 \<Rightarrow> virtq_desc" where
  "demo_table a =
     (if a = 0x1000 then \<lparr>d_addr = 0x100000, d_len = 16, d_flags = 1, d_next = 1\<rparr>
      else \<lparr>d_addr = 0x100100, d_len = 512, d_flags = 2, d_next = 0\<rparr>)"

definition demo_guest :: guest where
  "demo_guest = \<lparr>g_now = 0, g_desc = (\<lambda>_. demo_table),
     g_avail = (\<lambda>_ _. \<lparr>av_flags = 0, av_idx = 1, av_ring = (\<lambda>_. 0)\<rparr>),
     g_blk_hdr = (\<lambda>_ _. \<lparr>hdr_type = 0, hdr_reserved = 0, hdr_sector = 0\<rparr>),
     g_fs_in = (\<lambda>_ _. \<lparr>fin_len = 0, fin_opcode = 0, fin_unique = 0, fin_nodeid = 0,
       fin_uid = 0, fin_gid = 0, fin_pid = 0, fin_padding = 0\<rparr>)\<rparr>"

definition demo_vq :: virtio_virtq where
  "demo_vq = zero_virtq\<lparr>vq_desc := 0x1000, vq_qsz := 4, vq_max_chain_len := 4,
     vq_buffers := replicate 4 \<lparr>buf_base = 0, buf_len = 0, buf_write_only = False\<rparr>\<rparr>"

abbreviation demo_buffers :: "vhd_buffer list" where
  "demo_buffers \<equiv> [\<lparr>buf_base = 0x7f0000200000, buf_len = 16, buf_write_only = False\<rparr>,
     \<lparr>buf_base = 0x7f0000200100, buf_len = 512, buf_write_only = True\<rparr>]"

lemma demo_quiet: "quiet demo_table demo_guest"
  by (simp add: quiet_def demo_guest_def)

lemma demo_vq_fields:
  "length (vq_buffers demo_vq) = unat (vq_max_chain_len demo_vq)" "vq_desc demo_vq = 0x1000"
  "vq_qsz demo_vq = 4" "vq_max_chain_len demo_vq = 4"
  by (simp_all add: demo_vq_def)

lemma demo_desc_buffers:
  "desc_buffer one_slot_map (demo_table 0x1000) = Some (demo_buffers ! 0)"
  "desc_buffer one_slot_map (demo_table 0x1010) = Some (demo_buffers ! 1)"
  by (simp_all add: desc_buffer_def demo_table_def gpa_range_to_ptr_def VIRTQ_DESC_F_WRITE_def)

lemma demo_ring_chain: "ring_chain one_slot_map demo_table 0x1000 4 0 demo_buffers"
proof -
  have "ring_chain one_slot_map demo_table 0x1000 4 1 [demo_buffers ! 1]"
    by (rule rc_last [OF refl])
      (use demo_desc_buffers(2) in \<open>simp_all add: demo_table_def desc_addr_def VIRTQ_DESC_F_NEXT_def
        VIRTQ_DESC_F_INDIRECT_def\<close>)
  with demo_desc_buffers(1)
  have "ring_chain one_slot_map demo_table 0x1000 4 0 (demo_buffers ! 0 # [demo_buffers ! 1])"
    using rc_next [of "demo_table (desc_addr 0x1000 0)" demo_table "0x1000" 0 one_slot_map "demo_buffers ! 0" 4]
    by (simp add: demo_table_def desc_addr_def VIRTQ_DESC_F_NEXT_def VIRTQ_DESC_F_INDIRECT_def)
  then show ?thesis by simp
qed


text \<open>
  C16: the walk refines the relation that says what a descriptor chain is. When the guest leaves
  its tables alone, the walk succeeds with buffers \<open>bs\<close> exactly if the chain from \<open>head\<close>
  (with an indirect table where the last descriptor names one) is well-formed with buffers
  \<open>bs\<close> in this order and no longer than the limit.
\<close>

theorem walk_chain_refines:
  assumes quiet: "quiet D g" and buffers: "length (vq_buffers vq) = unat (vq_max_chain_len vq)"
  shows "(\<exists>k vq' g'. walk_chain mm vq g head = (Inr k, vq', g') \<and>
      take (unat (vq_next_buffer vq')) (vq_buffers vq') = bs) \<longleftrightarrow>
    ring_chain mm D (vq_desc vq) (vq_qsz vq) head bs \<and> length bs \<le> unat (vq_max_chain_len vq)"
proof -
  let ?vq = "vq\<lparr>vq_next_buffer := 0\<rparr>"
  have room: "vq_room ?vq" using buffers by (simp add: vq_room_def)
  have none: "collected ?vq = []" by (simp add: collected_def)
  have bound: "length (collected vq') \<le> unat (vq_max_chain_len vq)"
    if "walk_chain mm vq g head = (r, vq', g')" for r vq' g'
    using walk_chain_extends [OF buffers that] only_buffers_fields(1) [of ?vq vq']
    by (simp add: extends_def vq_room_def collected_def)
  show ?thesis
    using walk_chain_loop_sound [OF room quiet, of mm head 1] bound
      walk_chain_loop_complete [OF _ _ _ room quiet, of mm "vq_desc vq" "vq_qsz vq" head bs 1] none
    unfolding walk_chain_def collected_def [symmetric] by fastforce
qed

theorem walk_chain_refines_witness:
  "\<exists>k vq' g'. walk_chain one_slot_map demo_vq demo_guest 0 = (Inr k, vq', g') \<and>
     take (unat (vq_next_buffer vq')) (vq_buffers vq') = demo_buffers"
  using walk_chain_refines [OF demo_quiet demo_vq_fields(1), of one_slot_map 0 demo_buffers]
    demo_ring_chain by (simp add: demo_vq_fields)

text \<open>
  C24: the walk reads descriptors only where it may. Every descriptor it looks at is an element
  of the ring's table or lies, all 16 bytes of it, in a region of the guest: for two guests that
  agree on those slots at all times, the result and the resulting queue are the same.
\<close>

theorem walk_chain_reads_slots:
  assumes inv: "memmap_inv A mm" and buffers: "length (vq_buffers vq) = unat (vq_max_chain_len vq)"
    and head: "head < vq_qsz vq" and agree: "slots_agree (desc_slot mm vq) g h"
    and w: "walk_chain mm vq g head = (r, vq', g')"
  shows "\<exists>h'. walk_chain mm vq h head = (r, vq', h')"
proof -
  have ok: "\<forall>r \<in> set (mm_regions mm). region_ok r" using inv by (simp add: memmap_inv_def)
  have P: "\<forall>r \<in> set (mm_regions mm). \<forall>a. host_range_in r a 16 \<longrightarrow> desc_slot mm vq a"
    "\<forall>j < vq_qsz vq. desc_slot mm vq (desc_addr (vq_desc vq) j)" by (auto simp: desc_slot_def)
  show ?thesis
    using walk_chain_loop_reads [OF ok P(1) _ _ _ agree w [unfolded walk_chain_def]] P(2) head buffers
    by (auto simp: walk_chain_def vq_room_def)
qed

text \<open>The other guest differs where no descriptor slot is, just past the ring's table.\<close>

theorem walk_chain_reads_slots_witness:
  "\<exists>vq' h'. walk_chain one_slot_map demo_vq
     (demo_guest\<lparr>g_desc := \<lambda>_. demo_table(0x1040 := \<lparr>d_addr = 0, d_len = 0, d_flags = 4, d_next = 9\<rparr>)\<rparr>) 0 =
     (fst (walk_chain one_slot_map demo_vq demo_guest 0), vq', h')"
proof -
  let ?h = "demo_guest\<lparr>g_desc := \<lambda>_. demo_table(0x1040 := \<lparr>d_addr = 0, d_len = 0, d_flags = 4, d_next = 9\<rparr>)\<rparr>"
  obtain r vq' g' where w: "walk_chain one_slot_map demo_vq demo_guest 0 = (r, vq', g')"
    by (rule prod_cases3)
  have "\<not> desc_slot one_slot_map demo_vq 0x1040"
  proof -
    have "0x1040 \<noteq> desc_addr 0x1000 i" if "i < 4" for i :: u16
    proof -
      from that have "unat i < 4" by (simp add: word_less_nat_alt)
      then have "unat (16 * ucast i :: u64) = 16 * unat i"
        by (simp add: unat_word_ariths unat_ucast_up)
      then have "unat (desc_addr 0x1000 i) = 0x1000 + 16 * unat i"
        using \<open>unat i < 4\<close> by (simp add: desc_addr_def unat_word_ariths)
      with \<open>unat i < 4\<close> have "unat (desc_addr 0x1000 i) \<noteq> 0x1040" by simp
      then show ?thesis by auto
    qed
    then show ?thesis by (auto simp: desc_slot_def host_range_in_def demo_vq_fields)
  qed
  then have "slots_agree (desc_slot one_slot_map demo_vq) demo_guest ?h"
    by (auto simp: slots_agree_def demo_guest_def)
  from walk_chain_reads_slots [OF one_slot_map_inv demo_vq_fields(1) _ this w]
  show ?thesis unfolding w by (auto simp: demo_vq_fields)
qed

end
