(* ===== verification/Virtq_Dequeue.thy ===== *)
theory Virtq_Dequeue
  imports Virtq_Walk
begin

text \<open>
  Dequeueing: the contract between the queue and the callback that handles requests, and what
  \<open>virtq_dequeue_many\<close> guarantees under it: requests are handed over in ring order, each once,
  and \<open>last_avail\<close> counts exactly the requests handed over, on every return path.
\<close>

section \<open>Publishing the available index\<close>

definition quiet_ring :: "virtq_avail \<Rightarrow> u64 \<Rightarrow> guest \<Rightarrow> bool" where
  "quiet_ring a p g \<longleftrightarrow> (\<forall>t. g_avail g t p = a)"

text \<open>The parts of the machine that reading the available ring leaves alone.\<close>

definition only_clock :: "machine \<Rightarrow> machine \<Rightarrow> bool" where
  "only_clock m m' \<longleftrightarrow> same_tables (m_guest m) (m_guest m') \<and>
     m_inflight m' = m_inflight m \<and> m_mms m' = m_mms m \<and> m_logs m' = m_logs m \<and> m_eventfd m' = m_eventfd m"

lemma only_clock_trans: "only_clock a b \<Longrightarrow> only_clock b c \<Longrightarrow> only_clock a c"
  by (simp add: only_clock_def same_tables_def)

lemma read_avail_m_eq:
  "read_avail_m vq m = (g_avail (m_guest m) (g_now (m_guest m)) (vq_avail vq),
     m\<lparr>m_guest := (m_guest m)\<lparr>g_now := Suc (g_now (m_guest m))\<rparr>\<rparr>)"
  by (simp add: read_avail_m_def read_avail_def)

lemma read_avail_only_clock: "read_avail_m vq m = (a, m') \<Longrightarrow> only_clock m m'"
  by (auto simp: read_avail_m_eq only_clock_def same_tables_def)

lemma set_avail_event_only_clock: "only_clock m (virtq_set_avail_event vq i m)"
  by (simp add: virtq_set_avail_event_def only_clock_def same_tables_def)

text \<open>
  What the loop guarantees when it returns: the index it returns is published as
  \<open>avail_event\<close>, and was read again after that.
\<close>

lemma avail_event_loop_post:
  assumes "avail_event_loop vq m avail = Some (i, m')"
  shows "only_clock m m' \<and> us_avail_event (m_used m' (vq_used vq)) = i \<and>
    (\<exists>t. g_now (m_guest m') = Suc t \<and> av_idx (g_avail (m_guest m) t (vq_avail vq)) = i)"
proof -
  have "case r of (i, m') \<Rightarrow> only_clock m m' \<and> us_avail_event (m_used m' (vq_used vq)) = i \<and>
      (\<exists>t. g_now (m_guest m') = Suc t \<and> av_idx (g_avail (m_guest m) t (vq_avail vq)) = i)"
    if "avail_event_loop vq m avail = Some r" for r
    using that
  proof (induction rule: avail_event_loop.raw_induct [rotated, consumes 1, case_names step])
    case (step f vq m avail r)
    let ?m = "virtq_set_avail_event vq avail m"
    let ?a = "g_avail (m_guest m) (g_now (m_guest m)) (vq_avail vq)"
    let ?m1 = "?m\<lparr>m_guest := (m_guest m)\<lparr>g_now := Suc (g_now (m_guest m))\<rparr>\<rparr>"
    have rd: "read_avail_m vq ?m = (?a, ?m1)" by (simp add: read_avail_m_eq virtq_set_avail_event_def)
    have oc: "only_clock m ?m1" by (simp add: only_clock_def same_tables_def virtq_set_avail_event_def)
    show ?case
    proof (cases "av_idx ?a = avail")
      case True
      with step(2) rd have r: "r = (avail, ?m1)" by simp
      with True oc show ?thesis by (auto simp: virtq_set_avail_event_def)
    next
      case False
      with step(2) rd have "f vq ?m1 (av_idx ?a) = Some r" by simp
      from step(1) [OF this] oc show ?thesis by (auto simp: only_clock_def same_tables_def split: prod.splits)
    qed
  qed
  from this [OF assms] show ?thesis by simp
qed

text \<open>The loop ends once the guest leaves the index alone.\<close>

lemma avail_event_loop_ends:
  assumes "\<forall>t \<ge> g_now (m_guest m) + n. av_idx (g_avail (m_guest m) t (vq_avail vq)) = i"
  shows "\<exists>r. avail_event_loop vq m avail = Some r"
  using assms
proof (induction n arbitrary: m avail)
  case 0
  let ?loop = "avail_event_loop vq"
  let ?m1 = "\<lambda>m avail. (virtq_set_avail_event vq avail m)\<lparr>m_guest := (m_guest m)\<lparr>g_now := Suc (g_now (m_guest m))\<rparr>\<rparr>"
  have stop: "?loop m i = Some (i, ?m1 m i)"
    if "\<forall>t \<ge> g_now (m_guest m). av_idx (g_avail (m_guest m) t (vq_avail vq)) = i" for m
    using that by (subst avail_event_loop.simps) (simp add: read_avail_m_eq virtq_set_avail_event_def)
  show ?case
  proof (cases "avail = i")
    case False
    with 0 have "?loop m avail = ?loop (?m1 m avail) i"
      by (subst avail_event_loop.simps) (simp add: read_avail_m_eq virtq_set_avail_event_def)
    then show ?thesis using stop [of "?m1 m avail"] 0 by auto
  qed (use stop [of m] 0 in simp)
next
  case (Suc n)
  let ?m1 = "(virtq_set_avail_event vq avail m)\<lparr>m_guest := (m_guest m)\<lparr>g_now := Suc (g_now (m_guest m))\<rparr>\<rparr>"
  let ?a = "g_avail (m_guest m) (g_now (m_guest m)) (vq_avail vq)"
  have un: "avail_event_loop vq m avail =
      (if av_idx ?a = avail then Some (avail, ?m1) else avail_event_loop vq ?m1 (av_idx ?a))"
    by (subst avail_event_loop.simps) (simp add: read_avail_m_eq virtq_set_avail_event_def)
  show ?case
  proof (cases "av_idx ?a = avail")
    case True
    then show ?thesis by (simp add: un)
  next
    case False
    from Suc.IH [of ?m1 "av_idx ?a"] Suc.prems False show ?thesis by (auto simp: un)
  qed
qed

lemma read_avail_idx_quiet:
  assumes "quiet_ring a (vq_avail vq) (m_guest m)"
  shows "\<exists>m'. read_avail_idx vq m = Some (av_idx a, m') \<and> only_clock m m'"
proof -
  let ?m1 = "m\<lparr>m_guest := (m_guest m)\<lparr>g_now := Suc (g_now (m_guest m))\<rparr>\<rparr>"
  have rd: "read_avail_m vq m = (a, ?m1)" and oc: "only_clock m ?m1"
    using assms by (simp_all add: read_avail_m_eq quiet_ring_def only_clock_def same_tables_def)
  show ?thesis
  proof (cases "vq_has_event_idx vq")
    case True
    have "avail_event_loop vq ?m1 (av_idx a) =
        Some (av_idx a, snd (read_avail_m vq (virtq_set_avail_event vq (av_idx a) ?m1)))"
      using assms
      by (subst avail_event_loop.simps) (simp add: read_avail_m_eq quiet_ring_def virtq_set_avail_event_def)
    with True rd show ?thesis
      by (simp add: read_avail_idx_def only_clock_def same_tables_def read_avail_m_eq virtq_set_avail_event_def)
  next
    case False
    with rd oc show ?thesis by (simp add: read_avail_idx_def)
  qed
qed

section \<open>The contract of a handler\<close>

text \<open>
  What the queue relies on when it calls back. The handler returns, and does not touch the
  queue object or the guest's rings; of the references to the memory map it may drop the one
  that came with the request, so the map and the log stay alive. Completing a request at once,
  as the device handlers may, respects this. In return the request has at least one buffer, and
  the guest may be required to be \<open>fair\<close>, whatever that means for the device. The number bounds
  how many references may still be taken before the counter would wrap.
\<close>

definition guest_mem_same :: "machine \<Rightarrow> machine \<Rightarrow> bool" where
  "guest_mem_same m m' \<longleftrightarrow>
     same_tables (m_guest m) (m_guest m')"

definition queue_live :: "virtio_virtq \<Rightarrow> machine \<Rightarrow> nat \<Rightarrow> nat \<Rightarrow> bool" where
  "queue_live vq m k n \<longleftrightarrow>
     (\<exists>mm. ms_maps (m_mms m) (vq_mm vq) = Some mm \<and> k < unat (mm_ref mm) \<and> unat (mm_ref mm) + n < 2 ^ 64) \<and>
     (\<forall>l. vq_log vq = Some l \<longrightarrow> m_logs m l \<noteq> None)"

text \<open>The heads at \<open>k\<close> consecutive positions of an available ring, from index \<open>i\<close> on.\<close>

primrec ring_heads :: "virtq_avail \<Rightarrow> u16 \<Rightarrow> u16 \<Rightarrow> nat \<Rightarrow> u16 list" where
  "ring_heads a qsz i 0 = []"
| "ring_heads a qsz i (Suc k) = av_ring a (unat (i mod qsz)) # ring_heads a qsz (i + 1) k"

locale virtq_handler =
  fixes h :: "'s handle_buffers_cb" and fair :: "guest \<Rightarrow> bool"
  assumes fair_same: "fair g \<Longrightarrow> same_tables g g' \<Longrightarrow> fair g'"
    and handler_progress: "vq_qsz vq \<noteq> 0 \<Longrightarrow> iov_buffers iov \<noteq> [] \<Longrightarrow> iov_mm iov = vq_mm vq \<Longrightarrow>
      fair (m_guest m) \<Longrightarrow> queue_live vq m 1 n \<Longrightarrow>
      \<exists>m' s'. h iov (vq, m, s) = Some (vq, m', s') \<and> guest_mem_same m m' \<and> queue_live vq m' 0 n"

text \<open>A handler together with the list of the heads it was given.\<close>

definition recording :: "'s handle_buffers_cb \<Rightarrow> ('s \<times> u16 list) handle_buffers_cb" where
  "recording h iov st =
     (case st of (vq, m, s, tr) \<Rightarrow>
        map_option (\<lambda>(vq', m', s'). (vq', m', s', tr @ [iov_used_head iov])) (h iov (vq, m, s)))"

text \<open>The configuration of a queue, which dequeueing does not change.\<close>

definition same_setup :: "virtio_virtq \<Rightarrow> virtio_virtq \<Rightarrow> bool" where
  "same_setup vq vq' \<longleftrightarrow> vq_qsz vq' = vq_qsz vq \<and> vq_desc vq' = vq_desc vq \<and> vq_avail vq' = vq_avail vq \<and>
     vq_used vq' = vq_used vq \<and> vq_mm vq' = vq_mm vq \<and> vq_inflight_region vq' = vq_inflight_region vq \<and>
     vq_log vq' = vq_log vq \<and> vq_inflight_check vq' = vq_inflight_check vq \<and>
     vq_max_chain_len vq' = vq_max_chain_len vq \<and> length (vq_buffers vq') = length (vq_buffers vq)"

definition vq_wf :: "virtio_virtq \<Rightarrow> bool" where
  "vq_wf vq \<longleftrightarrow> length (vq_buffers vq) = unat (vq_max_chain_len vq) \<and> vq_qsz vq \<noteq> 0"

lemma same_setup_trans: "same_setup a b \<Longrightarrow> same_setup b c \<Longrightarrow> same_setup a c"
  by (simp add: same_setup_def)

lemma same_setup_wf: "same_setup a b \<Longrightarrow> vq_wf a \<Longrightarrow> vq_wf b"
  by (simp add: same_setup_def vq_wf_def)

lemma guest_mem_same_trans: "guest_mem_same a b \<Longrightarrow> guest_mem_same b c \<Longrightarrow> guest_mem_same a c"
  by (simp add: guest_mem_same_def same_tables_def)

lemma quiet_ring_same: "guest_mem_same m m' \<Longrightarrow> quiet_ring a p (m_guest m') = quiet_ring a p (m_guest m)"
  by (simp add: guest_mem_same_def same_tables_def quiet_ring_def)

lemma walk_chain_setup:
  assumes "vq_wf vq" and "walk_chain mm vq g head = (r, vq', g')"
  shows "same_setup vq vq'" and "vq_last_avail vq' = vq_last_avail vq"
    and "vq_broken vq' = vq_broken vq"
proof -
  have "vq_room vq'" "only_buffers (vq\<lparr>vq_next_buffer := 0\<rparr>) vq'"
    using walk_chain_extends [OF _ assms(2)] assms(1) by (auto simp: vq_wf_def extends_def)
  then show "same_setup vq vq'" "vq_last_avail vq' = vq_last_avail vq" "vq_broken vq' = vq_broken vq"
    using assms(1) by (cases vq, cases vq', simp add: only_buffers_def same_setup_def vq_room_def vq_wf_def)+
qed

lemma queue_live_ref:
  assumes "queue_live vq m 0 (Suc n)" and "vq_mm vq' = vq_mm vq" and "vq_log vq' = vq_log vq"
    and "m_mms m' = vhd_memmap_ref (vq_mm vq) (m_mms m)" and "m_logs m' = m_logs m"
  shows "queue_live vq' m' 1 n"
proof -
  from assms(1) obtain mm where mm: "ms_maps (m_mms m) (vq_mm vq) = Some mm" "0 < unat (mm_ref mm)"
    "unat (mm_ref mm) + Suc n < 2 ^ 64" by (auto simp: queue_live_def)
  then have "unat (refcount_inc (mm_ref mm)) = Suc (unat (mm_ref mm))"
    unfolding refcount_inc_def by (subst unat_add_64) simp_all
  with assms mm show ?thesis by (auto simp: queue_live_def vhd_memmap_ref_def)
qed

lemma queue_live_weaken: "queue_live vq m k n \<Longrightarrow> k' \<le> k \<Longrightarrow> n' \<le> n \<Longrightarrow> queue_live vq m k' n'"
  by (auto simp: queue_live_def)

lemma queue_live_cong:
  "vq_mm vq' = vq_mm vq \<Longrightarrow> vq_log vq' = vq_log vq \<Longrightarrow> m_mms m' = m_mms m \<Longrightarrow> m_logs m' = m_logs m \<Longrightarrow>
    queue_live vq' m' k n = queue_live vq m k n"
  by (simp add: queue_live_def)

lemma inflight_avail_update_frame:
  "virtq_inflight_avail_update vq head m = (vq', m') \<Longrightarrow>
    vq' = vq\<lparr>vq_req_cnt := vq_req_cnt vq'\<rparr> \<and> m' = m\<lparr>m_inflight := m_inflight m'\<rparr>"
  by (auto simp: virtq_inflight_avail_update_def with_inflight_def split: if_splits)

context virtq_handler
begin

text \<open>One request: it is handed over and counted, or the walk failed and it is not.\<close>

lemma dequeue_one:
  assumes wf: "vq_wf vq" and live: "queue_live vq m 0 (Suc n)" and fair: "fair (m_guest m)"
  shows "\<exists>res vq' m' s' tr'.
    virtq_dequeue_one (recording h) head rs (vq, m, s, tr) = Some (res, vq', m', s', tr') \<and>
    same_setup vq vq' \<and> guest_mem_same m m' \<and> queue_live vq' m' 0 n \<and> vq_broken vq' = vq_broken vq \<and>
    (if res = OK then tr' = tr @ [head] \<and> vq_last_avail vq' = vq_last_avail vq + 1
     else tr' = tr \<and> vq_last_avail vq' = vq_last_avail vq)"
proof -
  from live obtain mm where mm: "ms_maps (m_mms m) (vq_mm vq) = Some mm" by (auto simp: queue_live_def)
  obtain r vq1 g1 where w: "walk_chain mm vq (m_guest m) head = (r, vq1, g1)" by (rule prod_cases3)
  note cfg = walk_chain_setup [OF wf w] and guest = walk_chain_guest [OF w]
  from cfg(1) have mm1: "vq_mm vq1 = vq_mm vq" "vq_log vq1 = vq_log vq" "vq_qsz vq1 = vq_qsz vq"
    by (simp_all add: same_setup_def)
  show ?thesis
  proof (cases r)
    case (Inl e)
    have "queue_live vq1 (m\<lparr>m_guest := g1\<rparr>) 0 n"
      using queue_live_weaken [OF live, of 0 n] mm1 by (simp add: queue_live_def)
    with Inl mm w cfg guest show ?thesis
      by (simp add: virtq_dequeue_one_def guest_mem_same_def same_tables_def)
  next
    case (Inr k)
    let ?m1 = "m\<lparr>m_guest := g1, m_mms := vhd_memmap_ref (vq_mm vq1) (m_mms m)\<rparr>"
    let ?iov = "\<lparr>iov_used_head = head, iov_mm = vq_mm vq1,
                 iov_buffers = take (unat (vq_next_buffer vq1)) (vq_buffers vq1)\<rparr>"
    obtain vq2 m2 where u: "(if rs then (vq1, ?m1) else virtq_inflight_avail_update vq1 head ?m1) = (vq2, m2)"
      by fastforce
    then have f: "vq2 = vq1\<lparr>vq_req_cnt := vq_req_cnt vq2\<rparr>" "m2 = ?m1\<lparr>m_inflight := m_inflight m2\<rparr>"
      using inflight_avail_update_frame [of vq1 head ?m1 vq2 m2] by (auto split: if_splits)
    have vq2: "vq_mm vq2 = vq_mm vq1" "vq_log vq2 = vq_log vq1" "vq_qsz vq2 = vq_qsz vq1"
      "same_setup vq1 vq2" "vq_last_avail vq2 = vq_last_avail vq1" "vq_broken vq2 = vq_broken vq1"
      by (subst f(1), simp add: same_setup_def)+
    have m2: "m_mms m2 = m_mms ?m1" "m_logs m2 = m_logs m" "m_guest m2 = g1" by (subst f(2), simp)+
    have bufs: "iov_buffers ?iov \<noteq> []"
      using walk_chain_collects [of vq mm "m_guest m" head k vq1 g1] w Inr wf by (simp add: collected_def vq_wf_def)
    have "queue_live vq2 m2 1 n"
      by (rule queue_live_ref [OF live]) (simp_all add: vq2 mm1 m2)
    then obtain m3 s3 where h: "h ?iov (vq2, m2, s) = Some (vq2, m3, s3)" "guest_mem_same m2 m3"
      "queue_live vq2 m3 0 n"
      using handler_progress [of vq2 ?iov m2 n s] wf mm1 vq2 bufs fair_same [OF fair guest] m2(3)
      by (auto simp: vq_wf_def)
    have "virtq_dequeue_one (recording h) head rs (vq, m, s, tr) =
        Some (OK, vq2\<lparr>vq_last_avail := vq_last_avail vq2 + 1\<rparr>, m3, s3, tr @ [head])"
      using Inr mm w u h(1) by (simp add: virtq_dequeue_one_def recording_def)
    moreover have "same_setup vq (vq2\<lparr>vq_last_avail := vq_last_avail vq2 + 1\<rparr>)"
      using cfg(1) vq2(4) by (simp add: same_setup_def)
    moreover have "guest_mem_same m m3" using h(2) guest m2(3) by (simp add: guest_mem_same_def same_tables_def)
    moreover have "queue_live (vq2\<lparr>vq_last_avail := vq_last_avail vq2 + 1\<rparr>) m3 0 n"
      using h(3) by (simp add: queue_live_def)
    ultimately show ?thesis using cfg vq2 by simp
  qed
qed

text \<open>The loop hands over the requests of the ring in order, until one fails.\<close>

lemma dequeue_loop_order:
  assumes "vq_wf vq" and "queue_live vq m 0 n" and "quiet_ring a (vq_avail vq) (m_guest m)"
    and "fair (m_guest m)"
  shows "\<exists>res vq' m' s' tr' k. dequeue_loop (recording h) n (vq, m, s, tr) = Some (res, vq', m', s', tr') \<and>
    k \<le> n \<and> tr' = tr @ ring_heads a (vq_qsz vq) (vq_last_avail vq) k \<and>
    vq_last_avail vq' = vq_last_avail vq + word_of_nat k \<and> (res = OK \<longleftrightarrow> k = n) \<and>
    (\<forall>x \<in> set (ring_heads a (vq_qsz vq) (vq_last_avail vq) k). x < vq_qsz vq) \<and>
    (res = OK \<longrightarrow> vq_broken vq' = vq_broken vq) \<and> same_setup vq vq'"
  using assms
proof (induction n arbitrary: vq m s tr)
  case 0
  then show ?case by (intro exI [of _ "OK"] exI conjI) (auto simp: same_setup_def)
next
  case (Suc n)
  let ?head = "av_ring a (unat (vq_last_avail vq mod vq_qsz vq))"
  let ?m1 = "m\<lparr>m_guest := (m_guest m)\<lparr>g_now := Suc (g_now (m_guest m))\<rparr>\<rparr>"
  have rd: "read_avail_m vq m = (a, ?m1)" and g1: "guest_mem_same m ?m1"
    using Suc.prems(3) by (simp_all add: read_avail_m_eq quiet_ring_def guest_mem_same_def same_tables_def)
  show ?case
  proof (cases "?head \<ge> vq_qsz vq")
    case True
    with rd have "dequeue_loop (recording h) (Suc n) (vq, m, s, tr) = Some (Inl ERANGE, vq, ?m1, s, tr)" by simp
    then show ?thesis by (intro exI [of _ "Inl ERANGE"] exI [of _ vq] exI [of _ ?m1] exI [of _ s]
      exI [of _ tr] exI [of _ 0]) (simp add: same_setup_def)
  next
    case False
    have "queue_live vq ?m1 0 (Suc n)" using Suc.prems(2) by (simp add: queue_live_def)
    moreover have fair1: "fair (m_guest ?m1)" using fair_same [OF Suc.prems(4)] g1 by (simp add: guest_mem_same_def)
    ultimately obtain res vq2 m2 s2 tr2 where
      one: "virtq_dequeue_one (recording h) ?head False (vq, ?m1, s, tr) = Some (res, vq2, m2, s2, tr2)"
      "same_setup vq vq2" "guest_mem_same ?m1 m2" "queue_live vq2 m2 0 n" "vq_broken vq2 = vq_broken vq"
      "if res = OK then tr2 = tr @ [?head] \<and> vq_last_avail vq2 = vq_last_avail vq + 1
       else tr2 = tr \<and> vq_last_avail vq2 = vq_last_avail vq"
      using dequeue_one [OF Suc.prems(1), of ?m1 n ?head False s tr] by blast
    show ?thesis
    proof (cases res)
      case (Inl e)
      with one rd False have
        "dequeue_loop (recording h) (Suc n) (vq, m, s, tr) = Some (Inl e, mark_broken vq2, m2, s2, tr)" by simp
      with Inl one(2,6) show ?thesis by (intro exI [of _ "Inl e"] exI [of _ "mark_broken vq2"] exI [of _ m2]
        exI [of _ s2] exI [of _ tr] exI [of _ 0]) (simp add: mark_broken_def same_setup_def)
    next
      case (Inr u)
      let ?vq3 = "vq2\<lparr>vq_metrics := (vq_metrics vq2)
        \<lparr>vm_request_total := vm_request_total (vq_metrics vq2) + 1\<rparr>\<rparr>"
      from Inr one(6) have tr2: "tr2 = tr @ [?head]" "vq_last_avail vq2 = vq_last_avail vq + 1" by auto
      have s3: "same_setup vq ?vq3" using one(2) by (simp add: same_setup_def)
      have q: "vq_qsz ?vq3 = vq_qsz vq" "vq_avail ?vq3 = vq_avail vq" using s3 by (simp_all add: same_setup_def)
      have "quiet_ring a (vq_avail ?vq3) (m_guest m2)"
        using Suc.prems(3) quiet_ring_same [OF g1] quiet_ring_same [OF one(3)] q by simp
      moreover have "queue_live ?vq3 m2 0 n" using one(4) by (simp add: queue_live_def)
      moreover have "fair (m_guest m2)" using fair_same [OF fair1] one(3) by (simp add: guest_mem_same_def)
      ultimately obtain res' vq' m' s' tr' k where
        rec: "dequeue_loop (recording h) n (?vq3, m2, s2, tr2) = Some (res', vq', m', s', tr')"
        "k \<le> n" "tr' = tr2 @ ring_heads a (vq_qsz ?vq3) (vq_last_avail ?vq3) k"
        "vq_last_avail vq' = vq_last_avail ?vq3 + word_of_nat k" "res' = OK \<longleftrightarrow> k = n"
        "\<forall>x \<in> set (ring_heads a (vq_qsz ?vq3) (vq_last_avail ?vq3) k). x < vq_qsz ?vq3"
        "res' = OK \<longrightarrow> vq_broken vq' = vq_broken ?vq3" "same_setup ?vq3 vq'"
        using Suc.IH [OF same_setup_wf [OF s3 Suc.prems(1)], of m2 s2 tr2] by blast
      have "dequeue_loop (recording h) (Suc n) (vq, m, s, tr) = Some (res', vq', m', s', tr')"
        using one(1) rd False Inr rec(1) by simp
      then show ?thesis
        using rec(2-7) tr2 q one(5) False same_setup_trans [OF s3 rec(8)]
        by (intro exI [of _ res'] exI [of _ vq'] exI [of _ m'] exI [of _ s'] exI [of _ tr'] exI [of _ "Suc k"])
          (simp add: not_le add.assoc)
    qed
  qed
qed

lemma dequeue_many_order:
  assumes wf: "vq_wf vq" and ok: "\<not> vq_broken vq" "\<not> vq_inflight_check vq"
    and q: "quiet_ring a (vq_avail vq) (m_guest m)"
    and n: "av_idx a - vq_last_avail vq \<le> vq_qsz vq"
    and live: "queue_live vq m 0 (unat (av_idx a - vq_last_avail vq))" and fair: "fair (m_guest m)"
  shows "\<exists>res vq' m' s' tr' k. virtq_dequeue_many (recording h) now (vq, m, s, []) = Some (res, vq', m', s', tr') \<and>
    k \<le> unat (av_idx a - vq_last_avail vq) \<and> tr' = ring_heads a (vq_qsz vq) (vq_last_avail vq) k \<and>
    vq_last_avail vq' = vq_last_avail vq + word_of_nat k \<and>
    (res = OK \<longleftrightarrow> k = unat (av_idx a - vq_last_avail vq)) \<and> (\<forall>x \<in> set tr'. x < vq_qsz vq)"
proof -
  define vq2 where "vq2 = (let vq1 = (if now - vq_period_start_ts vq > 60
      then vq\<lparr>vq_period_start_ts := now, vq_metrics := (vq_metrics vq)\<lparr>vm_queue_len_max_60s := 0\<rparr>\<rparr> else vq)
    in vq1\<lparr>vq_metrics := (vq_metrics vq1)\<lparr>vm_dispatch_total := vm_dispatch_total (vq_metrics vq1) + 1\<rparr>\<rparr>)"
  let ?num = "av_idx a - vq_last_avail vq"
  define vq3 where "vq3 = vq2\<lparr>vq_metrics := (vq_metrics vq2)\<lparr>vm_queue_len_last := ?num,
    vm_queue_len_max_60s := max ?num (vm_queue_len_max_60s (vq_metrics vq2))\<rparr>\<rparr>"
  have f: "same_setup vq vq2" "vq_last_avail vq2 = vq_last_avail vq" "vq_avail vq2 = vq_avail vq"
    "vq_qsz vq2 = vq_qsz vq" by (simp_all add: vq2_def Let_def same_setup_def)
  have f3: "same_setup vq vq3" "vq_last_avail vq3 = vq_last_avail vq" "vq_avail vq3 = vq_avail vq"
    "vq_qsz vq3 = vq_qsz vq" using f by (simp_all add: vq3_def same_setup_def)
  obtain m1 where rd: "read_avail_idx vq2 m = Some (av_idx a, m1)" and oc: "only_clock m m1"
    using read_avail_idx_quiet [of a vq2 m] q f(3) by auto
  have un: "virtq_dequeue_many (recording h) now (vq, m, s, []) =
      (if ?num = 0 then Some (OK, vq2\<lparr>vq_metrics := (vq_metrics vq2)
          \<lparr>vm_dispatch_empty := vm_dispatch_empty (vq_metrics vq2) + 1\<rparr>\<rparr>, m1, s, [])
       else dequeue_loop (recording h) (unat ?num) (vq3, m1, s, []))"
    using ok iffD2 [OF not_less n] rd f unfolding virtq_dequeue_many_def virtq_is_broken_def dequeue_avail_def vq3_def
    by (simp add: Let_def vq2_def [unfolded Let_def, symmetric])
  show ?thesis
  proof (cases "?num = 0")
    case True
    then show ?thesis unfolding un using f(2) by simp
  next
    case False
    have l3: "queue_live vq3 m1 0 (unat ?num)"
      using live f3(1) oc by (simp add: queue_live_def same_setup_def only_clock_def same_tables_def)
    have "quiet_ring a (vq_avail vq3) (m_guest m1)"
      using q f3(3) oc by (simp add: quiet_ring_def only_clock_def same_tables_def)
    moreover have "fair (m_guest m1)" using fair_same [OF fair] oc by (simp add: only_clock_def)
    ultimately have "?thesis" if "?num \<noteq> 0"
      using dequeue_loop_order [OF same_setup_wf [OF f3(1) wf] l3, of a s "[]"] that unfolding un f3 by auto
    with False
    show ?thesis by blast
  qed
qed

end

section \<open>Properties\<close>



text \<open>A guest that adds a request at each of the first two reads, and a machine around it.\<close>

definition demo_machine :: "guest \<Rightarrow> machine" where
  "demo_machine g = \<lparr>m_guest = g,
     m_used = (\<lambda>_. \<lparr>us_flags = 0, us_idx = 0, us_ring = (\<lambda>_. \<lparr>ue_id = 0, ue_len = 0\<rparr>), us_avail_event = 0\<rparr>),
     m_inflight = (\<lambda>_. \<lparr>isr_features = 0, isr_version = 1, isr_desc_num = 4, isr_last_batch_head = 0,
       isr_used_idx = 0, isr_desc = (\<lambda>_. \<lparr>isd_inflight = 0, isd_next = 0, isd_counter = 0\<rparr>)\<rparr>),
     m_status = (\<lambda>_. 0), m_ids = (\<lambda>_. []), m_fs_out = (\<lambda>_. \<lparr>fout_len = 0, fout_error = 0, fout_unique = 0\<rparr>),
     m_mms = \<lparr>ms_next = 1, ms_maps = [0 \<mapsto> one_slot_map], ms_as = (\<lambda>_. Some Anonymous)\<rparr>,
     m_logs = (\<lambda>_. None), m_eventfd = (\<lambda>_. 0)\<rparr>"

definition busy_guest :: guest where
  "busy_guest = demo_guest\<lparr>g_avail :=
     (\<lambda>t _. \<lparr>av_flags = 0, av_idx = word_of_nat (min t 2), av_ring = (\<lambda>_. 0)\<rparr>)\<rparr>"


end
