(* ===== verification/Virtq_Push.thy ===== *)
theory Virtq_Push
  imports Virtq_Dequeue
begin

text \<open>
  Completing a request: \<open>virtq_push\<close> returns, puts the element in the used ring and moves the
  index, notifies the guest exactly when the guest asked for it, and logs every page the device
  wrote for the request.
\<close>

section \<open>The stores of a completion\<close>

text \<open>
  The stores \<open>virtq_push\<close> makes to the used ring and the inflight region, one by one, in the
  order the barriers impose: the used element, the link and the head of the batch, the used
  index, the inflight flag, and the copy of the used index.
\<close>

definition push_elem :: "virtio_virtq \<Rightarrow> virtq_iov_private \<Rightarrow> u32 \<Rightarrow> machine \<Rightarrow> machine" where
  "push_elem vq iov len m = upd_used vq (\<lambda>u. u\<lparr>us_ring := (us_ring u)
     (unat (us_idx u mod vq_qsz vq) := \<lparr>ue_id = ucast (iov_used_head iov), ue_len = len\<rparr>)\<rparr>) m"

definition push_stores :: "virtio_virtq \<Rightarrow> virtq_iov_private \<Rightarrow> u32 \<Rightarrow> (machine \<Rightarrow> machine) list" where
  "push_stores vq iov len =
     (let head = iov_used_head iov in
      [push_elem vq iov len,
       with_inflight vq (\<lambda>r. upd_desc head (isd_next_update (\<lambda>_. isr_last_batch_head r)) r),
       with_inflight vq (\<lambda>r. r\<lparr>isr_last_batch_head := head\<rparr>),
       upd_used vq (\<lambda>u. u\<lparr>us_idx := us_idx u + 1\<rparr>),
       with_inflight vq (upd_desc head (isd_inflight_update (\<lambda>_. 0))),
       (\<lambda>m. with_inflight vq (\<lambda>r. r\<lparr>isr_used_idx := us_idx (m_used m (vq_used vq))\<rparr>) m)])"

definition run_stores :: "(machine \<Rightarrow> machine) list \<Rightarrow> machine \<Rightarrow> machine" where
  "run_stores fs m = fold (\<lambda>f. f) fs m"

text \<open>What follows the stores: the dirty log and the notification.\<close>

definition push_log :: "virtio_virtq \<Rightarrow> virtq_iov_private \<Rightarrow> u16 \<Rightarrow> machine \<Rightarrow> machine option" where
  "push_log vq iov used_idx m =
     (case vq_log vq of
        None \<Rightarrow> Some m
      | Some l \<Rightarrow> do {
          log \<leftarrow> m_logs m l;
          mm \<leftarrow> ms_maps (m_mms m) (iov_mm iov);
          log' \<leftarrow> vhd_log_modified vq mm iov used_idx log;
          Some (m\<lparr>m_logs := (m_logs m)(l := Some log')\<rparr>)
        })"

lemma head_width: "ucast (ucast (head :: u16) :: u32) = head"
  by (rule bit_word_eqI) (simp add: bit_simps)

lemma push_stores_eq:
  fixes vq iov len m
  defines "head \<equiv> iov_used_head iov"
  shows "virtq_inflight_used_commit vq head (upd_used vq (\<lambda>u. u\<lparr>us_idx := us_idx u + 1\<rparr>)
      (virtq_inflight_used_update vq head (upd_used vq (\<lambda>u. u\<lparr>us_ring := (us_ring u)
         (unat (us_idx (m_used m (vq_used vq)) mod vq_qsz vq) := \<lparr>ue_id = ucast head, ue_len = len\<rparr>)\<rparr>) m))) =
    run_stores (push_stores vq iov len) m"
  by (cases "vq_inflight_region vq = 0")
    (simp_all add: push_stores_def run_stores_def push_elem_def Let_def upd_used_def head_def
      virtq_inflight_used_update_def virtq_inflight_used_commit_def with_inflight_def upd_desc_def)

lemma virtq_push_stores:
  assumes "vq_qsz vq \<noteq> 0"
  shows "virtq_push vq iov len m =
    map_option (virtq_notify vq) (push_log vq iov (us_idx (m_used m (vq_used vq)) mod vq_qsz vq)
      (run_stores (push_stores vq iov len) m))"
  using assms unfolding virtq_push_def Let_def push_log_def map_conv_bind_option
  by (cases "vq_log vq") (simp_all add: head_width push_stores_eq)

text \<open>What the stores do not change.\<close>

lemma run_push_stores_frame [vhd_frame]:
  "m_guest (run_stores (push_stores vq iov len) m) = m_guest m"
  "m_mms (run_stores (push_stores vq iov len) m) = m_mms m"
  "m_logs (run_stores (push_stores vq iov len) m) = m_logs m"
  "m_eventfd (run_stores (push_stores vq iov len) m) = m_eventfd m"
  by (simp_all add: push_stores_def run_stores_def push_elem_def Let_def upd_used_def with_inflight_def)

lemma run_push_stores_used:
  "m_used (run_stores (push_stores vq iov len) m) = (m_used m)(vq_used vq :=
     (let u = m_used m (vq_used vq) in u\<lparr>us_ring := (us_ring u)
        (unat (us_idx u mod vq_qsz vq) := \<lparr>ue_id = ucast (iov_used_head iov), ue_len = len\<rparr>),
        us_idx := us_idx u + 1\<rparr>))"
  by (simp add: push_stores_def run_stores_def push_elem_def Let_def upd_used_def with_inflight_def)

section \<open>The dirty log\<close>

lemma log_buffers_total:
  "\<exists>log'. vhd_log_buffers mm bs log = Some log' \<and> ml_size log' = ml_size log \<and>
    (\<forall>n. page_dirty (ml_base log) n \<longrightarrow> page_dirty (ml_base log') n)"
proof (induction bs arbitrary: log)
  case (Cons b bs)
  show ?case
  proof (cases "buf_write_only b")
    case True
    obtain log1 where one: "vhd_mark_range_dirty log mm (buf_base b) (buf_len b) = Some log1"
      "ml_size log1 = ml_size log" "\<forall>n. page_dirty (ml_base log) n \<longrightarrow> page_dirty (ml_base log1) n"
      using mark_range_total by blast
    obtain log2 where "vhd_log_buffers mm bs log1 = Some log2" "ml_size log2 = ml_size log1"
      "\<forall>n. page_dirty (ml_base log1) n \<longrightarrow> page_dirty (ml_base log2) n"
      using Cons.IH by blast
    with one True show ?thesis by simp
  next
    case False
    with Cons.IH [of log] show ?thesis by simp
  qed
qed simp

lemma log_modified_total:
  "\<exists>log'. vhd_log_modified vq mm iov i log = Some log' \<and> ml_size log' = ml_size log \<and>
    (\<forall>n. page_dirty (ml_base log) n \<longrightarrow> page_dirty (ml_base log') n)"
proof -
  obtain log1 where one: "vhd_log_buffers mm (iov_buffers iov) log = Some log1" "ml_size log1 = ml_size log"
    "\<forall>n. page_dirty (ml_base log) n \<longrightarrow> page_dirty (ml_base log1) n"
    using log_buffers_total by blast
  obtain log2 where two: "vhd_mark_gpa_range_dirty log1 (vq_used_gpa_base vq + 2) 2 = Some log2"
    "ml_size log2 = ml_size log1" "\<forall>n. page_dirty (ml_base log1) n \<longrightarrow> page_dirty (ml_base log2) n"
    using mark_gpa_total by blast
  obtain log3 where "vhd_mark_gpa_range_dirty log2 (vq_used_gpa_base vq + (4 + 8 * ucast i)) 8 = Some log3"
    "ml_size log3 = ml_size log2" "\<forall>n. page_dirty (ml_base log2) n \<longrightarrow> page_dirty (ml_base log3) n"
    using mark_gpa_total by blast
  with one two show ?thesis by (simp add: vhd_log_modified_def)
qed

text \<open>Completion returns as long as the objects the request refers to are there.\<close>

lemma push_log_total:
  assumes "\<And>l. vq_log vq = Some l \<Longrightarrow> m_logs m l \<noteq> None" and "ms_maps (m_mms m) (iov_mm iov) \<noteq> None"
  shows "\<exists>m'. push_log vq iov i m = Some m' \<and> m' = m\<lparr>m_logs := m_logs m'\<rparr> \<and>
    (\<forall>l. m_logs m' l = None \<longleftrightarrow> m_logs m l = None)"
proof (cases "vq_log vq")
  case (Some l)
  obtain log mm where "m_logs m l = Some log" "ms_maps (m_mms m) (iov_mm iov) = Some mm"
    using assms Some by auto
  moreover obtain log' where "vhd_log_modified vq mm iov i log = Some log'"
    using log_modified_total by blast
  ultimately show ?thesis using Some by (simp add: push_log_def)
qed (simp add: push_log_def)

lemma notify_frame [vhd_frame]:
  "m_used (virtq_notify vq m) = m_used m" "m_inflight (virtq_notify vq m) = m_inflight m"
  "m_mms (virtq_notify vq m) = m_mms m" "m_logs (virtq_notify vq m) = m_logs m"
  "g_desc (m_guest (virtq_notify vq m)) = g_desc (m_guest m)"
  "g_avail (m_guest (virtq_notify vq m)) = g_avail (m_guest m)"
  "g_blk_hdr (m_guest (virtq_notify vq m)) = g_blk_hdr (m_guest m)"
  "g_fs_in (m_guest (virtq_notify vq m)) = g_fs_in (m_guest m)"
  by (simp_all add: virtq_notify_def virtq_need_notify_def virtq_do_notify_def read_avail_m_eq)

lemma virtq_push_total:
  assumes q: "vq_qsz vq \<noteq> 0" and log: "\<And>l. vq_log vq = Some l \<Longrightarrow> m_logs m l \<noteq> None"
    and mm: "ms_maps (m_mms m) (iov_mm iov) \<noteq> None"
  obtains m' where "virtq_push vq iov len m = Some m'" "m_mms m' = m_mms m" "guest_mem_same m m'"
    "m_used m' = m_used (run_stores (push_stores vq iov len) m)"
    "m_inflight m' = m_inflight (run_stores (push_stores vq iov len) m)"
    "\<forall>l. m_logs m' l = None \<longleftrightarrow> m_logs m l = None"
proof -
  let ?m = "run_stores (push_stores vq iov len) m" and ?i = "us_idx (m_used m (vq_used vq)) mod vq_qsz vq"
  note fr = run_push_stores_frame [of vq iov len m]
  obtain m1 where m1: "push_log vq iov ?i ?m = Some m1" "m1 = ?m\<lparr>m_logs := m_logs m1\<rparr>"
    "\<forall>l. m_logs m1 l = None \<longleftrightarrow> m_logs ?m l = None"
    using push_log_total [of vq ?m iov ?i] log mm by (auto simp: fr)
  have f1: "m_mms m1 = m_mms m" "m_guest m1 = m_guest m" "m_used m1 = m_used ?m" "m_inflight m1 = m_inflight ?m"
    by (subst m1(2), simp add: fr)+
  show thesis
  proof (rule that)
    show "virtq_push vq iov len m = Some (virtq_notify vq m1)"
      using m1(1) by (simp add: virtq_push_stores [OF q])
  qed (use f1 m1(3) in \<open>simp_all add: notify_frame guest_mem_same_def same_tables_def fr\<close>)
qed

lemma log_buffers_marks:
  assumes inv: "memmap_inv A mm" and "8 * unat (ml_size log) < 2 ^ 64"
    and "b \<in> set bs" and wo: "buf_write_only b" and b: "gpa_range_to_ptr mm gpa (buf_len b) = Some (buf_base b)"
    and len: "0 < unat (buf_len b)"
    and n: "n < 8 * unat (ml_size log)" "unat gpa div 4096 \<le> n" "n \<le> (unat gpa + unat (buf_len b) - 1) div 4096"
    and "vhd_log_buffers mm bs log = Some log'"
  shows "page_dirty (ml_base log') n"
  using assms(2,3,7,10)
proof (induction bs arbitrary: log)
  case (Cons c bs)
  have bnd: "unat gpa + unat (buf_len b) \<le> 2 ^ 64" and nf: "gpa \<noteq> TRANSLATION_FAILED"
    using gpa_range_bound [OF inv b] len by (auto simp: TRANSLATION_FAILED_def unsigned_minus_1_eq_mask mask_eq_exp_minus_1)
  obtain log1 where one: "(if buf_write_only c then vhd_mark_range_dirty log mm (buf_base c) (buf_len c) else Some log) = Some log1"
    "ml_size log1 = ml_size log"
    using mark_range_total [of log mm "buf_base c" "buf_len c"] by (cases "buf_write_only c") auto
  have rest: "vhd_log_buffers mm bs log1 = Some log'"
    using Cons.prems(4) one by (auto split: if_splits)
  show ?case
  proof (cases "b = c")
    case True
    obtain log2 where l2: "vhd_mark_gpa_range_dirty log gpa (buf_len b) = Some log2"
      using mark_gpa_total by blast
    have "page_dirty (ml_base log2) n"
      by (rule mark_gpa_marks [OF l2 len bnd Cons.prems(1,3) n(2,3)])
    note l2 this
    moreover have "vhd_mark_range_dirty log mm (buf_base b) (buf_len b) = vhd_mark_gpa_range_dirty log gpa (buf_len b)"
      by (simp add: vhd_mark_range_dirty_def gpa_ptr_gpa [OF inv b len] nf)
    ultimately have "page_dirty (ml_base log1) n" using one(1) True wo by simp
    then show ?thesis using log_buffers_total [of mm bs log1] rest by auto
  next
    case False
    then show ?thesis using Cons.IH [of log1] Cons.prems one(2) rest by simp
  qed
qed simp

text \<open>The pages of the used index and of used element \<open>i\<close>.\<close>

definition ring_page :: "virtio_virtq \<Rightarrow> u16 \<Rightarrow> nat \<Rightarrow> bool" where
  "ring_page vq i n \<longleftrightarrow> (let base = unat (vq_used_gpa_base vq); elem = base + 4 + 8 * unat i in
     (base + 2) div 4096 \<le> n \<and> n \<le> (base + 3) div 4096 \<or> elem div 4096 \<le> n \<and> n \<le> (elem + 7) div 4096)"

lemma log_modified_marks:
  assumes q: "vq_qsz vq \<noteq> 0" and one: "vhd_log_buffers mm (iov_buffers iov) log = Some log1" "ml_size log1 = ml_size log"
    and sz: "8 * unat (ml_size log) < 2 ^ 64"
  shows "\<exists>log'. vhd_log_modified vq mm iov (i mod vq_qsz vq) log = Some log' \<and>
    (\<forall>n. page_dirty (ml_base log1) n \<longrightarrow> page_dirty (ml_base log') n) \<and>
    (vq_flags vq AND VHOST_VRING_F_LOG \<noteq> 0 \<longrightarrow> unat (vq_used_gpa_base vq) + 4 + 8 * unat (vq_qsz vq) \<le> 2 ^ 64 \<longrightarrow>
      (\<forall>n < 8 * unat (ml_size log). ring_page vq (i mod vq_qsz vq) n \<longrightarrow> page_dirty (ml_base log') n))"
proof -
  let ?i = "i mod vq_qsz vq" and ?b = "vq_used_gpa_base vq"
  let ?e = "?b + (4 + 8 * ucast ?i)"
  have i: "unat ?i < unat (vq_qsz vq)" using q by (simp add: unat_mod unat_gt_0)
  obtain log2 where two: "vhd_mark_gpa_range_dirty log1 (?b + 2) 2 = Some log2" "ml_size log2 = ml_size log1"
    "\<forall>n. page_dirty (ml_base log1) n \<longrightarrow> page_dirty (ml_base log2) n"
    using mark_gpa_total by blast
  obtain log3 where three: "vhd_mark_gpa_range_dirty log2 ?e 8 = Some log3"
    "\<forall>n. page_dirty (ml_base log2) n \<longrightarrow> page_dirty (ml_base log3) n"
    using mark_gpa_total by blast
  have "page_dirty (ml_base log3) n"
    if bnd: "unat ?b + 4 + 8 * unat (vq_qsz vq) \<le> 2 ^ 64" and n: "n < 8 * unat (ml_size log)" "ring_page vq ?i n" for n
  proof -
    have e8: "unat (4 + 8 * ucast ?i :: u64) = 4 + 8 * unat ?i"
      using unat_less_16 [of ?i] by (simp add: unat_word_ariths unat_ucast_up)
    have e: "unat ?e = unat ?b + 4 + 8 * unat ?i" and b2: "unat (?b + 2) = unat ?b + 2"
      using i bnd e8 by (simp_all add: unat_add_64)
    show ?thesis
    proof (cases "(unat ?b + 2) div 4096 \<le> n \<and> n \<le> (unat ?b + 3) div 4096")
      case True
      have "page_dirty (ml_base log2) n"
        by (rule mark_gpa_marks [OF two(1)]) (use True n(1) sz one(2) bnd b2 i in \<open>simp_all add: add.commute\<close>)
      with three(2) show ?thesis by blast
    next
      case False
      then have p: "unat ?e div 4096 \<le> n" "n \<le> (unat ?e + unat (8 :: u64) - 1) div 4096"
        using n(2) unfolding e by (auto simp: ring_page_def Let_def)
      show ?thesis
        by (rule mark_gpa_marks [OF three(1) _ _ _ _ p], unfold e)
          (use n(1) sz one(2) two(2) bnd i in simp_all)
    qed
  qed
  with one two three show ?thesis
    by (cases "vq_flags vq AND VHOST_VRING_F_LOG = 0") (auto simp: vhd_log_modified_def)
qed

section \<open>Giving a request back\<close>

text \<open>
  The device handlers complete a request by \<open>virtq_push\<close> followed by \<open>virtio_free_iov\<close>. The
  used rings after that, and what the pair guarantees: the contract of a handler, and that
  nothing else the device writes to the guest changes.
\<close>

definition used_with :: "virtio_virtq \<Rightarrow> virtq_iov_private \<Rightarrow> u32 \<Rightarrow> (u64 \<Rightarrow> virtq_used) \<Rightarrow> u64 \<Rightarrow> virtq_used" where
  "used_with vq iov len U = U(vq_used vq := (let u = U (vq_used vq) in
     u\<lparr>us_ring := (us_ring u)(unat (us_idx u mod vq_qsz vq) := \<lparr>ue_id = ucast (iov_used_head iov), ue_len = len\<rparr>),
       us_idx := us_idx u + 1\<rparr>))"

definition given_back :: "virtio_virtq \<Rightarrow> virtq_iov_private \<Rightarrow> u32 \<Rightarrow> nat \<Rightarrow> machine \<Rightarrow> machine \<Rightarrow> bool" where
  "given_back vq iov len n m m' \<longleftrightarrow> guest_mem_same m m' \<and> queue_live vq m' 0 n \<and>
     m_used m' = used_with vq iov len (m_used m) \<and> m_status m' = m_status m \<and> m_ids m' = m_ids m \<and>
     m_fs_out m' = m_fs_out m"

lemma written_frame [vhd_frame]:
  "m_status (run_stores (push_stores vq iov len) m) = m_status m"
  "m_ids (run_stores (push_stores vq iov len) m) = m_ids m"
  "m_fs_out (run_stores (push_stores vq iov len) m) = m_fs_out m"
  "m_status (virtq_notify vq m) = m_status m" "m_ids (virtq_notify vq m) = m_ids m"
  "m_fs_out (virtq_notify vq m) = m_fs_out m"
  by (simp_all add: push_stores_def run_stores_def push_elem_def Let_def upd_used_def with_inflight_def
      virtq_notify_def virtq_need_notify_def virtq_do_notify_def read_avail_m_eq)

lemma push_log_frame:
  assumes "push_log vq iov i m = Some m'"
  shows "m_status m' = m_status m" "m_ids m' = m_ids m" "m_fs_out m' = m_fs_out m"
  using assms by (auto simp: push_log_def bind_eq_Some_conv split: option.splits)

lemma virtq_push_frame:
  assumes "vq_qsz vq \<noteq> 0" and "virtq_push vq iov len m = Some m'"
  shows "m_status m' = m_status m" "m_ids m' = m_ids m" "m_fs_out m' = m_fs_out m"
  using assms(2) push_log_frame unfolding virtq_push_stores [OF assms(1)]
  by (auto simp: written_frame)

lemma free_iov_frame [vhd_frame]:
  "m_guest (virtio_free_iov K iov m) = m_guest m" "m_used (virtio_free_iov K iov m) = m_used m"
  "m_logs (virtio_free_iov K iov m) = m_logs m" "m_status (virtio_free_iov K iov m) = m_status m"
  "m_ids (virtio_free_iov K iov m) = m_ids m" "m_fs_out (virtio_free_iov K iov m) = m_fs_out m"
  by (simp_all add: virtio_free_iov_def)

lemma free_iov_live:
  assumes "iov_mm iov = vq_mm vq" and "queue_live vq m 1 n"
  shows "queue_live vq (virtio_free_iov K iov m) 0 n"
proof -
  from assms(2) obtain mm where mm: "ms_maps (m_mms m) (vq_mm vq) = Some mm" "1 < unat (mm_ref mm)"
    "unat (mm_ref mm) + n < 2 ^ 64" by (auto simp: queue_live_def)
  then have "1 \<le> mm_ref mm" "mm_ref mm \<noteq> 1" by (auto simp: word_le_nat_alt)
  then have "unat (mm_ref mm - 1) = unat (mm_ref mm) - 1" "mm_ref mm - 1 \<noteq> 0" by (simp_all add: unat_sub_le)
  with mm assms show ?thesis
    by (auto simp: queue_live_def virtio_free_iov_def vhd_memmap_unref_def refcount_dec_and_test_def)
qed

lemma push_free_total:
  assumes q: "vq_qsz vq \<noteq> 0" and mm: "iov_mm iov = vq_mm vq" and live: "queue_live vq m 1 n"
  obtains m1 where "virtq_push vq iov len m = Some m1" "given_back vq iov len n m (virtio_free_iov K iov m1)"
proof -
  have log: "\<And>l. vq_log vq = Some l \<Longrightarrow> m_logs m l \<noteq> None" and "ms_maps (m_mms m) (iov_mm iov) \<noteq> None"
    using live mm by (auto simp: queue_live_def)
  from virtq_push_total [OF q this, of len] obtain m1 where m1: "virtq_push vq iov len m = Some m1"
    "m_mms m1 = m_mms m" "guest_mem_same m m1" "m_used m1 = m_used (run_stores (push_stores vq iov len) m)"
    "\<forall>l. m_logs m1 l = None \<longleftrightarrow> m_logs m l = None" by metis
  have "queue_live vq m1 1 n" using live m1(2,5) by (auto simp: queue_live_def)
  from free_iov_live [OF mm this] have "given_back vq iov len n m (virtio_free_iov K iov m1)"
    using m1(3) unfolding given_back_def
    by (simp add: free_iov_frame virtq_push_frame [OF q m1(1)] guest_mem_same_def m1(4)
        run_push_stores_used used_with_def)
  with m1(1) show thesis by (rule that)
qed

section \<open>Properties\<close>

text \<open>
  C9: what completing a request does. \<open>virtq_push\<close> returns when the objects the request
  refers to are alive; the used ring then has the head and the length at the old index modulo
  the queue size and is otherwise unchanged, its index is one more, no other ring changes, and
  the guest is signalled once on the queue's eventfd exactly when it asked for it: with the
  event index, if it waits for this element, otherwise if it did not suppress interrupts.
\<close>

theorem virtq_push_completes:
  assumes "vq_qsz vq \<noteq> 0" and "\<forall>l. vq_log vq = Some l \<longrightarrow> m_logs m l \<noteq> None"
    and "ms_maps (m_mms m) (iov_mm iov) \<noteq> None"
  shows "\<exists>m'. virtq_push vq iov len m = Some m' \<and>
    (let u = m_used m (vq_used vq); a = g_avail (m_guest m) (g_now (m_guest m)) (vq_avail vq) in
     m_used m' = (m_used m)(vq_used vq := u\<lparr>us_ring := (us_ring u)
        (unat (us_idx u mod vq_qsz vq) := \<lparr>ue_id = ucast (iov_used_head iov), ue_len = len\<rparr>),
        us_idx := us_idx u + 1\<rparr>) \<and>
     m_eventfd m' = (if vq_notify_fd vq \<noteq> - 1 \<and>
          (if vq_has_event_idx vq then av_ring a (unat (vq_qsz vq)) = us_idx u
           else av_flags a AND VIRTQ_AVAIL_F_NO_INTERRUPT = 0)
        then (m_eventfd m)(vq_notify_fd vq := Suc (m_eventfd m (vq_notify_fd vq))) else m_eventfd m))"
proof -
  let ?m = "run_stores (push_stores vq iov len) m" and ?i = "us_idx (m_used m (vq_used vq)) mod vq_qsz vq"
  note fr = run_push_stores_frame [of vq iov len m]
  obtain m1 where m1: "push_log vq iov ?i ?m = Some m1" "m1 = ?m\<lparr>m_logs := m_logs m1\<rparr>"
    using push_log_total [of vq ?m iov ?i] assms(2,3) by (auto simp: fr)
  have f1: "m_guest m1 = m_guest m" "m_used m1 = m_used ?m" "m_eventfd m1 = m_eventfd m"
    by (subst m1(2), simp add: fr)+
  have "virtq_push vq iov len m = Some (virtq_notify vq m1)"
    using m1(1) by (simp add: virtq_push_stores [OF assms(1)])
  moreover have "m_eventfd (virtq_notify vq m1) = (if vq_notify_fd vq \<noteq> - 1 \<and>
      fst (virtq_need_notify vq m1) then (m_eventfd m)(vq_notify_fd vq := Suc (m_eventfd m (vq_notify_fd vq)))
      else m_eventfd m)"
    by (simp add: virtq_notify_def virtq_need_notify_def virtq_do_notify_def read_avail_m_eq f1)
  ultimately show ?thesis
    by (simp add: notify_frame f1 run_push_stores_used virtq_need_notify_def read_avail_m_eq
        virtq_get_used_event_def Let_def)
qed

abbreviation demo_iov :: virtq_iov_private where
  "demo_iov \<equiv> \<lparr>iov_used_head = 3, iov_mm = 0, iov_buffers = demo_buffers\<rparr>"

theorem virtq_push_completes_witness:
  "\<exists>m'. virtq_push (demo_vq\<lparr>vq_notify_fd := 7\<rparr>) demo_iov 513 (demo_machine demo_guest) = Some m' \<and>
     us_idx (m_used m' 0) = 1 \<and> us_ring (m_used m' 0) 0 = \<lparr>ue_id = 3, ue_len = 513\<rparr> \<and> m_eventfd m' 7 = 1"
  using virtq_push_completes [of "demo_vq\<lparr>vq_notify_fd := 7\<rparr>" "demo_machine demo_guest" demo_iov 513]
  by (auto simp: demo_vq_def zero_virtq_def demo_machine_def demo_guest_def)

text \<open>
  C14: live migration misses no page that completing a request made dirty. With a log attached,
  after \<open>virtq_push\<close> every page of every device-writable buffer of the request that the log
  covers is marked, as are, when the ring itself is logged, the pages of the used element and
  of the used index; no mark is lost.
\<close>

theorem virtq_push_logs_writes:
  assumes q: "vq_qsz vq \<noteq> 0" and l: "vq_log vq = Some l" "m_logs m l = Some log"
    and mm: "ms_maps (m_mms m) (iov_mm iov) = Some mm" "memmap_inv A mm"
    and sz: "8 * unat (ml_size log) < 2 ^ 64"
  shows "\<exists>m' log'. virtq_push vq iov len m = Some m' \<and> m_logs m' l = Some log' \<and>
    (\<forall>n. page_dirty (ml_base log) n \<longrightarrow> page_dirty (ml_base log') n) \<and>
    (\<forall>b \<in> set (iov_buffers iov). \<forall>gpa n. buf_write_only b \<and> 0 < unat (buf_len b) \<and>
       gpa_range_to_ptr mm gpa (buf_len b) = Some (buf_base b) \<and> n < 8 * unat (ml_size log) \<and>
       unat gpa div 4096 \<le> n \<and> n \<le> (unat gpa + unat (buf_len b) - 1) div 4096 \<longrightarrow>
       page_dirty (ml_base log') n) \<and>
    (vq_flags vq AND VHOST_VRING_F_LOG \<noteq> 0 \<and> unat (vq_used_gpa_base vq) + 4 + 8 * unat (vq_qsz vq) \<le> 2 ^ 64 \<longrightarrow>
       (\<forall>n < 8 * unat (ml_size log). let base = unat (vq_used_gpa_base vq);
          elem = base + 4 + 8 * unat (us_idx (m_used m (vq_used vq)) mod vq_qsz vq) in
          (base + 2) div 4096 \<le> n \<and> n \<le> (base + 3) div 4096 \<or> elem div 4096 \<le> n \<and> n \<le> (elem + 7) div 4096
          \<longrightarrow> page_dirty (ml_base log') n))"
proof -
  let ?i = "us_idx (m_used m (vq_used vq)) mod vq_qsz vq" and ?m = "run_stores (push_stores vq iov len) m"
  obtain log1 where one: "vhd_log_buffers mm (iov_buffers iov) log = Some log1" "ml_size log1 = ml_size log"
    "\<forall>n. page_dirty (ml_base log) n \<longrightarrow> page_dirty (ml_base log1) n"
    using log_buffers_total by blast
  note marks = log_buffers_marks [OF mm(2) sz _ _ _ _ _ _ _ one(1)]
  obtain log' where log': "vhd_log_modified vq mm iov ?i log = Some log'"
    "\<forall>n. page_dirty (ml_base log) n \<longrightarrow> page_dirty (ml_base log') n"
    "\<forall>n. page_dirty (ml_base log1) n \<longrightarrow> page_dirty (ml_base log') n"
    and ring: "vq_flags vq AND VHOST_VRING_F_LOG \<noteq> 0 \<Longrightarrow> unat (vq_used_gpa_base vq) + 4 + 8 * unat (vq_qsz vq) \<le> 2 ^ 64 \<Longrightarrow>
      n < 8 * unat (ml_size log) \<Longrightarrow> ring_page vq ?i n \<Longrightarrow> page_dirty (ml_base log') n" for n
    using log_modified_marks [OF q one(1,2) sz, of "us_idx (m_used m (vq_used vq))"] one(3) by blast
  have "push_log vq iov ?i ?m = Some (?m\<lparr>m_logs := (m_logs ?m)(l := Some log')\<rparr>)"
    using l mm(1) log'(1) by (simp add: push_log_def vhd_frame)
  then have push: "virtq_push vq iov len m = Some (virtq_notify vq (?m\<lparr>m_logs := (m_logs ?m)(l := Some log')\<rparr>))"
    by (simp add: virtq_push_stores [OF q])
  show ?thesis
    by (rule exI, rule exI [of _ log'], rule conjI [OF push])
      (use log'(2,3) marks ring in \<open>auto simp: vhd_frame ring_page_def Let_def\<close>)
qed

theorem virtq_push_logs_writes_witness:
  "\<exists>m' log'. virtq_push (demo_vq\<lparr>vq_log := Some 5, vq_flags := 1, vq_used_gpa_base := 0x104000\<rparr>) demo_iov 513
     ((demo_machine demo_guest)\<lparr>m_logs := [5 \<mapsto> \<lparr>ml_base = (\<lambda>_. 0), ml_size = 64\<rparr>]\<rparr>) = Some m' \<and>
     m_logs m' 5 = Some log' \<and> page_dirty (ml_base log') 0x100 \<and> page_dirty (ml_base log') 0x104"
proof -
  let ?vq = "demo_vq\<lparr>vq_log := Some 5, vq_flags := 1, vq_used_gpa_base := 0x104000\<rparr>"
  let ?log = "\<lparr>ml_base = (\<lambda>_. 0), ml_size = 64\<rparr> :: vhd_memory_log"
  let ?m = "(demo_machine demo_guest)\<lparr>m_logs := [5 \<mapsto> ?log]\<rparr>"
  have buf: "gpa_range_to_ptr one_slot_map 0x100100 512 = Some 0x7f0000200100"
    by (simp add: gpa_range_to_ptr_def)
  obtain m' log' where r: "virtq_push ?vq demo_iov 513 ?m = Some m'" "m_logs m' 5 = Some log'"
    "\<forall>b \<in> set demo_buffers. \<forall>gpa n. buf_write_only b \<and> 0 < unat (buf_len b) \<and>
       gpa_range_to_ptr one_slot_map gpa (buf_len b) = Some (buf_base b) \<and> n < 8 * unat (ml_size ?log) \<and>
       unat gpa div 4096 \<le> n \<and> n \<le> (unat gpa + unat (buf_len b) - 1) div 4096 \<longrightarrow> page_dirty (ml_base log') n"
    "\<forall>n < 8 * unat (ml_size ?log). 0x104002 div 4096 \<le> n \<and> n \<le> 0x104003 div (4096 :: nat) \<longrightarrow> page_dirty (ml_base log') n"
    using virtq_push_logs_writes [of ?vq 5 ?m ?log demo_iov one_slot_map "\<lambda>_. Some Anonymous" 513] one_slot_map_inv
    by (auto simp: demo_vq_def zero_virtq_def demo_machine_def VHOST_VRING_F_LOG_def Let_def)
  from r(3) [rule_format, of "demo_buffers ! 1" "0x100100" "0x100"] buf have "page_dirty (ml_base log') 0x100" by simp
  with r show ?thesis by simp
qed

end
