(* ===== verification/Server.thy ===== *)
theory Server
  imports Event Virtq_Push
begin

text \<open>
  Block I/O requests and the request queues of \<open>server.c\<close>: requests wait in the submission list
  until the backend takes them, completed ones come back through a lock-free list that a bottom
  half of the queue's event loop empties. The server thread of the control loop is modelled by
  the same event loop.
\<close>

section \<open>Requests\<close>

datatype vhd_bdev_io_type = VHD_BDEV_READ | VHD_BDEV_WRITE

datatype vhd_bdev_io_result = VHD_BDEV_SUCCESS | VHD_BDEV_IOERR | VHD_BDEV_CANCELED

record vhd_bdev_io =
  io_type :: vhd_bdev_io_type
  io_first_sector :: u64
  io_total_sectors :: u64
  io_buffers :: "vhd_buffer list"

text \<open>
  A request is embedded in the structure of the device that made it (\<open>virtio_blk_io\<close>,
  \<open>virtio_fs_io\<close>), which its completion handler gets at through \<open>containerof\<close>; here that
  structure is a field. For a file system request it has the address of the response header.
\<close>

datatype vbio_owner = BlkIo virtq_iov_private | FsIo virtq_iov_private "u64 option"

record vhd_bio =
  bio_bdev_io :: vhd_bdev_io
  bio_status :: vhd_bdev_io_result
  bio_vring :: nat
  bio_owner :: vbio_owner

section \<open>Request queues\<close>

text \<open>
  The lists of a queue; the completion list has its head first. \<open>rq_completion_bh\<close> is the bottom
  half on the queue's event loop, which is kept beside the queue.
\<close>

record vhd_request_queue =
  rq_submission :: "vhd_bio list"
  rq_completion :: "vhd_bio list"
  rq_completion_bh :: nat

text \<open>
  The counters of requests in flight belong to the vrings: \<open>inc\<close> and \<open>dec\<close> stand for
  \<open>vhd_vring_inc_in_flight\<close> and \<open>vhd_vring_dec_in_flight\<close>, and \<open>handler\<close> for the request's
  completion handler, all on the state of the devices.
\<close>

definition req_complete ::
  "(vhd_bio \<Rightarrow> 'v \<Rightarrow> 'v option) \<Rightarrow> (nat \<Rightarrow> 'v \<Rightarrow> 'v option) \<Rightarrow> vhd_bio \<Rightarrow> 'v \<Rightarrow> 'v option" where
  "req_complete handler dec bio v = do {
     v1 \<leftarrow> handler bio v;
     dec (bio_vring bio) v1
   }"

text \<open>The second loop of \<open>rq_complete_bh\<close>.\<close>

primrec complete_list :: "(vhd_bio \<Rightarrow> 'v \<Rightarrow> 'v option) \<Rightarrow> vhd_bio list \<Rightarrow> 'v \<Rightarrow> 'v option" where
  "complete_list complete [] v = Some v"
| "complete_list complete (bio # bios) v = do { v1 \<leftarrow> complete bio v; complete_list complete bios v1 }"

text \<open>The first loop: move the elements one by one to the front of another list.\<close>

primrec move_reverse :: "vhd_bio list \<Rightarrow> vhd_bio list \<Rightarrow> vhd_bio list" where
  "move_reverse [] bio_list = bio_list"
| "move_reverse (bio # bios) bio_list = move_reverse bios (bio # bio_list)"

definition rq_complete_bh ::
  "(vhd_bio \<Rightarrow> 'v \<Rightarrow> 'v option) \<Rightarrow> vhd_request_queue \<Rightarrow> 'v \<Rightarrow> (vhd_request_queue \<times> 'v) option" where
  "rq_complete_bh complete rq v =
     map_option (Pair (rq\<lparr>rq_completion := []\<rparr>))
       (complete_list complete (move_reverse (rq_completion rq) []) v)"

text \<open>Creation and release, with the event loop; \<open>complete_cb\<close> is the callback of the bottom half.\<close>

definition vhd_create_request_queue ::
  "'c \<Rightarrow> 'c vhd_event_loop option \<Rightarrow> (vhd_request_queue \<times> 'c vhd_event_loop) option" where
  "vhd_create_request_queue complete_cb created =
     (case created of
        None \<Rightarrow> None
      | Some ev \<Rightarrow>
          (let (b, ev1) = vhd_bh_new complete_cb ev
           in Some (\<lparr>rq_submission = [], rq_completion = [], rq_completion_bh = b\<rparr>, ev1)))"

definition vhd_release_request_queue :: "vhd_request_queue \<Rightarrow> 'c vhd_event_loop \<Rightarrow> unit option" where
  "vhd_release_request_queue rq ev =
     (if rq_submission rq \<noteq> [] \<or> rq_completion rq \<noteq> [] then None
      else do {
        ev1 \<leftarrow> vhd_bh_delete (rq_completion_bh rq) ev;
        vhd_free_event_loop ev1
      })"

definition vhd_run_in_rq :: "'c \<Rightarrow> 'c vhd_event_loop \<Rightarrow> 'c vhd_event_loop option" where
  "vhd_run_in_rq cb ev = vhd_bh_schedule_oneshot cb ev"

definition vhd_stop_queue :: "'c \<Rightarrow> 'c vhd_event_loop \<Rightarrow> 'c vhd_event_loop option" where
  "vhd_stop_queue stop_cb ev = vhd_terminate_event_loop stop_cb ev"

definition vhd_dequeue_request :: "vhd_request_queue \<Rightarrow> (vhd_bio \<times> vhd_request_queue) option" where
  "vhd_dequeue_request rq =
     (case rq_submission rq of
        [] \<Rightarrow> None
      | bio # bios \<Rightarrow> Some (bio, rq\<lparr>rq_submission := bios\<rparr>))"

definition vhd_enqueue_block_request ::
  "(nat \<Rightarrow> 'v \<Rightarrow> 'v) \<Rightarrow> vhd_bio \<Rightarrow> vhd_request_queue \<times> 'v \<Rightarrow> status \<times> vhd_request_queue \<times> 'v" where
  "vhd_enqueue_block_request inc bio st =
     (case st of (rq, v) \<Rightarrow> (OK, rq\<lparr>rq_submission := rq_submission rq @ [bio]\<rparr>, inc (bio_vring bio) v))"

text \<open>
  \<open>vhd_cancel_queued_requests\<close>: inside \<open>TAILQ_FOREACH\<close> the body sets the loop variable to the
  next element after removing one, and the loop statement then advances it once more, following
  the pointer of the next element or, if there is none, the NULL pointer.
\<close>

fun cancel_loop ::
  "(vhd_bio \<Rightarrow> 'v \<Rightarrow> 'v option) \<Rightarrow> nat \<Rightarrow> vhd_bio list \<Rightarrow> 'v \<Rightarrow> (vhd_bio list \<times> 'v) option" where
  "cancel_loop complete vring [] v = Some ([], v)"
| "cancel_loop complete vring (bio # bios) v =
     (if bio_vring bio = vring
      then do {
        v1 \<leftarrow> complete (bio\<lparr>bio_status := VHD_BDEV_CANCELED\<rparr>) v;
        (case bios of
           [] \<Rightarrow> None
         | next # bios' \<Rightarrow> do {
             (kept, v2) \<leftarrow> cancel_loop complete vring bios' v1;
             Some (next # kept, v2)
           })
      }
      else do {
        (kept, v2) \<leftarrow> cancel_loop complete vring bios v;
        Some (bio # kept, v2)
      })"

definition vhd_cancel_queued_requests ::
  "(vhd_bio \<Rightarrow> 'v \<Rightarrow> 'v option) \<Rightarrow> nat \<Rightarrow> vhd_request_queue \<Rightarrow> 'v \<Rightarrow> (vhd_request_queue \<times> 'v) option" where
  "vhd_cancel_queued_requests complete vring rq v = do {
     (kept, v1) \<leftarrow> cancel_loop complete vring (rq_submission rq) v;
     Some (rq\<lparr>rq_submission := kept\<rparr>, v1)
   }"

definition vhd_complete_bio ::
  "vhd_bio \<Rightarrow> vhd_bdev_io_result \<Rightarrow> vhd_request_queue \<times> 'c vhd_event_loop
    \<Rightarrow> (vhd_request_queue \<times> 'c vhd_event_loop) option" where
  "vhd_complete_bio bio status st =
     (case st of (rq, ev) \<Rightarrow>
        (let rq1 = rq\<lparr>rq_completion := bio\<lparr>bio_status := status\<rparr> # rq_completion rq\<rparr>
         in if rq_completion rq = [] then map_option (Pair rq1) (vhd_bh_schedule (rq_completion_bh rq) ev)
            else Some (rq1, ev)))"

section \<open>The control loop\<close>

text \<open>
  \<open>vhost_evloop_func\<close> on the results of successive iterations: whether the thread keeps going.
\<close>

primrec vhost_evloop_func :: "status list \<Rightarrow> status option" where
  "vhost_evloop_func [] = None"
| "vhost_evloop_func (res # results) =
     (if res = Inl EAGAIN then vhost_evloop_func results else Some res)"

text \<open>
  Starting the server: nothing if it runs, otherwise create the loop and the thread, whose
  results are arguments; the state is the loop.
\<close>

definition vhd_start_vhost_server ::
  "'c vhd_event_loop option \<Rightarrow> status \<Rightarrow> 'c vhd_event_loop option \<Rightarrow> (status \<times> 'c vhd_event_loop option) option" where
  "vhd_start_vhost_server created pthread_create g_vhost_evloop =
     (case g_vhost_evloop of
        Some ev \<Rightarrow> Some (OK, Some ev)
      | None \<Rightarrow>
          (case created of
             None \<Rightarrow> Some (Inl EIO, None)
           | Some ev \<Rightarrow>
               (case pthread_create of
                  Inr _ \<Rightarrow> Some (OK, Some ev)
                | Inl e \<Rightarrow> map_option (\<lambda>_. (Inl e, None)) (vhd_free_event_loop ev))))"

definition vhd_run_in_ctl :: "'c \<Rightarrow> 'c vhd_event_loop \<Rightarrow> 'c vhd_event_loop option" where
  "vhd_run_in_ctl cb g_vhost_evloop = vhd_bh_schedule_oneshot cb g_vhost_evloop"

text \<open>
  Stopping it: the loop is told to end, the thread is joined, where \<open>run\<close> is what the loop does
  until then, and the loop is freed.
\<close>

definition vhd_stop_vhost_server ::
  "'c \<Rightarrow> ('c vhd_event_loop \<Rightarrow> 'c vhd_event_loop option) \<Rightarrow> 'c vhd_event_loop option \<Rightarrow> 'c vhd_event_loop option option" where
  "vhd_stop_vhost_server stop_cb run g_vhost_evloop =
     (case g_vhost_evloop of
        None \<Rightarrow> Some None
      | Some ev \<Rightarrow> do {
          ev1 \<leftarrow> vhd_terminate_event_loop stop_cb ev;
          ev2 \<leftarrow> run ev1;
          u \<leftarrow> vhd_free_event_loop ev2;
          Some None
        })"

section \<open>Completions\<close>

lemma move_reverse_rev: "move_reverse xs ys = rev xs @ ys"
  by (induction xs arbitrary: ys) auto

text \<open>Complete several requests one after the other.\<close>

primrec complete_all ::
  "(vhd_bio \<times> vhd_bdev_io_result) list \<Rightarrow> vhd_request_queue \<times> 'c vhd_event_loop
    \<Rightarrow> (vhd_request_queue \<times> 'c vhd_event_loop) option" where
  "complete_all [] st = Some st"
| "complete_all (x # xs) st = do { st1 \<leftarrow> vhd_complete_bio (fst x) (snd x) st; complete_all xs st1 }"

definition with_status :: "vhd_bio \<times> vhd_bdev_io_result \<Rightarrow> vhd_bio" where
  "with_status x = (fst x)\<lparr>bio_status := snd x\<rparr>"

lemma complete_all_nonempty:
  "rq_completion rq \<noteq> [] \<Longrightarrow>
    complete_all xs (rq, ev) = Some (rq\<lparr>rq_completion := rev (map with_status xs) @ rq_completion rq\<rparr>, ev)"
  by (induction xs arbitrary: rq) (simp_all add: vhd_complete_bio_def with_status_def Let_def)

lemma complete_all_empty:
  assumes "rq_completion rq = []" and "bh_plain ev (rq_completion_bh rq) False"
    and "rq_completion_bh rq \<notin> set (ev_bh_list ev)"
  shows "\<exists>ev'. complete_all xs (rq, ev) = Some (rq\<lparr>rq_completion := rev (map with_status xs)\<rparr>, ev') \<and>
    ev_bh_list ev' = (if xs = [] then ev_bh_list ev else rq_completion_bh rq # ev_bh_list ev)"
proof (cases xs)
  case Nil
  then show ?thesis using assms(1) by simp
next
  case (Cons x xs')
  obtain ev1 where e: "vhd_bh_schedule (rq_completion_bh rq) ev = Some ev1"
    "ev_bh_list ev1 = rq_completion_bh rq # ev_bh_list ev"
    using schedule_one [OF assms(2)] assms(3) by metis
  let ?rq = "rq\<lparr>rq_completion := [with_status x]\<rparr>"
  have "vhd_complete_bio (fst x) (snd x) (rq, ev) = Some (?rq, ev1)"
    using assms(1) e(1) by (simp add: vhd_complete_bio_def with_status_def Let_def)
  with complete_all_nonempty [of ?rq xs' ev1] e(2) Cons show ?thesis by simp
qed

definition record_bio :: "vhd_bio \<Rightarrow> vhd_bio list \<Rightarrow> vhd_bio list option" where
  "record_bio bio tr = Some (tr @ [bio])"

lemma complete_list_record: "complete_list record_bio bios tr = Some (tr @ bios)"
  by (induction bios arbitrary: tr) (simp_all add: record_bio_def)

section \<open>Properties\<close>

text \<open>
  C30: completions reach the guest in the order the backend reported them, each once. Starting
  from an empty completion list, whatever requests the backend completes before the loop runs,
  the bottom half of the queue is put on the loop's list exactly once, and when it runs it
  completes the requests in that order with the reported results and empties the list.
\<close>

theorem completions_fifo:
  assumes "rq_completion rq = []" and "bh_plain ev (rq_completion_bh rq) False"
    and "rq_completion_bh rq \<notin> set (ev_bh_list ev)"
  shows "\<exists>rq1 ev1. complete_all xs (rq, ev) = Some (rq1, ev1) \<and>
    ev_bh_list ev1 = (if xs = [] then ev_bh_list ev else rq_completion_bh rq # ev_bh_list ev) \<and>
    rq_complete_bh record_bio rq1 [] = Some (rq, map with_status xs)"
proof -
  obtain ev1 where "complete_all xs (rq, ev) = Some (rq\<lparr>rq_completion := rev (map with_status xs)\<rparr>, ev1)"
    "ev_bh_list ev1 = (if xs = [] then ev_bh_list ev else rq_completion_bh rq # ev_bh_list ev)"
    using complete_all_empty [OF assms] by blast
  then show ?thesis
    using assms(1) by (simp add: rq_complete_bh_def move_reverse_rev complete_list_record)
qed

abbreviation demo_bio :: "nat \<Rightarrow> u64 \<Rightarrow> vhd_bio" where
  "demo_bio vring sector \<equiv> \<lparr>bio_bdev_io = \<lparr>io_type = VHD_BDEV_READ, io_first_sector = sector, io_total_sectors = 1,
     io_buffers = []\<rparr>, bio_status = VHD_BDEV_SUCCESS, bio_vring = vring, bio_owner = BlkIo demo_iov\<rparr>"

theorem completions_fifo_witness:
  "\<exists>rq1 ev1. complete_all [(demo_bio 0 5, VHD_BDEV_SUCCESS), (demo_bio 0 6, VHD_BDEV_IOERR)]
      (\<lparr>rq_submission = [], rq_completion = [], rq_completion_bh = 1\<rparr>, demo_loop) = Some (rq1, ev1) \<and>
    ev_bh_list ev1 = [1] \<and>
    rq_complete_bh record_bio rq1 [] = Some (\<lparr>rq_submission = [], rq_completion = [], rq_completion_bh = 1\<rparr>,
      [demo_bio 0 5, (demo_bio 0 6)\<lparr>bio_status := VHD_BDEV_IOERR\<rparr>])"
proof -
  let ?rq = "\<lparr>rq_submission = [], rq_completion = [], rq_completion_bh = 1\<rparr>"
  have "rq_completion ?rq = []" "bh_plain demo_loop (rq_completion_bh ?rq) False"
    "rq_completion_bh ?rq \<notin> set (ev_bh_list demo_loop)"
    by (simp_all add: bh_plain_def demo_loop_def)
  from completions_fifo [OF this, of "[(demo_bio 0 5, VHD_BDEV_SUCCESS), (demo_bio 0 6, VHD_BDEV_IOERR)]"]
  show ?thesis by (simp add: with_status_def demo_loop_def)
qed

text \<open>
  Cancelling the queued requests of a vring crashes when the last of them is at the end of
  the submission list: the loop follows the NULL pointer. This is so for every way the requests
  complete, in particular for a single queued request.
\<close>

lemma cancel_queued_crashes:
  assumes "\<forall>b \<in> set bios. bio_vring b \<noteq> vring" and "bio_vring bio = vring"
    and "rq_submission rq = bios @ [bio]"
  shows "vhd_cancel_queued_requests complete vring rq v = None"
proof -
  have "cancel_loop complete vring (bios @ [bio]) v = None"
    using assms(1,2) by (induction bios) (auto simp: bind_eq_None_conv split: option.splits)
  then show ?thesis using assms(3) by (simp add: vhd_cancel_queued_requests_def)
qed

lemma cancel_queued_crashes_demo:
  "vhd_cancel_queued_requests record_bio 7
     \<lparr>rq_submission = [demo_bio 3 0, demo_bio 7 8], rq_completion = [], rq_completion_bh = 0\<rparr> [] = None"
  by (rule cancel_queued_crashes [of "[demo_bio 3 0]" _ "demo_bio 7 8"]) simp_all

text \<open>
  Cancelling also skips requests. When two requests of the vring are next to each other and
  the one after them belongs to another vring, the second is neither cancelled nor removed.
\<close>

theorem cancel_queued_skips:
  assumes "bio_vring b1 = vring" and "bio_vring b2 = vring" and "bio_vring c \<noteq> vring"
    and "rq_submission rq = [b1, b2, c]"
  shows "vhd_cancel_queued_requests record_bio vring rq [] =
    Some (rq\<lparr>rq_submission := [b2, c]\<rparr>, [b1\<lparr>bio_status := VHD_BDEV_CANCELED\<rparr>])"
  using assms by (simp add: vhd_cancel_queued_requests_def record_bio_def)

theorem cancel_queued_skips_witness:
  "vhd_cancel_queued_requests record_bio 7
     \<lparr>rq_submission = [demo_bio 7 0, demo_bio 7 8, demo_bio 3 0], rq_completion = [], rq_completion_bh = 0\<rparr> [] =
   Some (\<lparr>rq_submission = [demo_bio 7 8, demo_bio 3 0], rq_completion = [], rq_completion_bh = 0\<rparr>,
     [(demo_bio 7 0)\<lparr>bio_status := VHD_BDEV_CANCELED\<rparr>])"
  using cancel_queued_skips [of "demo_bio 7 0" 7 "demo_bio 7 8" "demo_bio 3 0"
      "\<lparr>rq_submission = [demo_bio 7 0, demo_bio 7 8, demo_bio 3 0], rq_completion = [], rq_completion_bh = 0\<rparr>"]
  by simp

text \<open>
  The error path of starting the server: a loop just created is not terminated, so freeing it
  when the thread cannot be created fails the assertion.
\<close>

lemma start_server_error_aborts:
  assumes "vhd_create_event_loop epoll_create eventfd epoll_ctl n = (Some ev, closed)"
  shows "vhd_start_vhost_server (Some ev) (Inl e) None = None"
  using assms by (auto simp: vhd_create_event_loop_def vhd_start_vhost_server_def vhd_free_event_loop_def
      split: sum.splits)

end
