(* ===== verification/VirtioBlk.thy ===== *)
theory VirtioBlk
  imports Server
begin

text \<open>
  The block device: \<open>virtio/virtio_blk.c\<close>, which turns descriptor chains into block requests,
  and the contract of a queue's handler for it.
\<close>

section \<open>The device\<close>

definition VIRTIO_BLK_SECTOR_SIZE :: u64 where "VIRTIO_BLK_SECTOR_SIZE = 512"
definition VIRTIO_BLK_DISKID_LENGTH :: u64 where "VIRTIO_BLK_DISKID_LENGTH = 20"
definition VHD_SECTOR_SHIFT :: nat where "VHD_SECTOR_SHIFT = 9"
definition VHD_SECTOR_SIZE :: u32 where "VHD_SECTOR_SIZE = 512"

definition VIRTIO_BLK_T_IN :: u32 where "VIRTIO_BLK_T_IN = 0"
definition VIRTIO_BLK_T_OUT :: u32 where "VIRTIO_BLK_T_OUT = 1"
definition VIRTIO_BLK_T_GET_ID :: u32 where "VIRTIO_BLK_T_GET_ID = 8"

definition VIRTIO_BLK_S_OK :: u8 where "VIRTIO_BLK_S_OK = 0"
definition VIRTIO_BLK_S_IOERR :: u8 where "VIRTIO_BLK_S_IOERR = 1"
definition VIRTIO_BLK_S_UNSUPP :: u8 where "VIRTIO_BLK_S_UNSUPP = 2"

text \<open>Feature bits: the ring's, and those of the block device.\<close>

definition VIRTIO_BLK_DEFAULT_FEATURES :: u64 where
  "VIRTIO_BLK_DEFAULT_FEATURES = push_bit 28 1 OR push_bit 29 1 OR push_bit 32 1 OR push_bit 2 1 OR
     push_bit 4 1 OR push_bit 6 1 OR push_bit 10 1 OR push_bit 12 1"

definition VIRTIO_BLK_F_RO :: nat where "VIRTIO_BLK_F_RO = 5"

record vhd_bdev_info =
  bdi_serial :: string
  bdi_socket_path :: string
  bdi_block_size :: u32
  bdi_num_queues :: u32
  bdi_total_blocks :: u64
  bdi_readonly :: bool

record virtio_blk_config =
  bc_capacity :: u64
  bc_size_max :: u32
  bc_seg_max :: u32
  bc_cylinders :: u16
  bc_heads :: u8
  bc_sectors :: u8
  bc_blk_size :: u32
  bc_physical_block_exp :: u8
  bc_alignment_offset :: u8
  bc_min_io_size :: u16
  bc_opt_io_size :: u32
  bc_writeback :: u8
  bc_reserved :: u8
  bc_numqueues :: u16

text \<open>
  The dispatch function of a device works on the state \<open>'s\<close> of whoever provided it; it sets
  the vring of the request it is given.
\<close>

record 's virtio_blk_dev =
  vblk_bdev :: vhd_bdev_info
  vblk_config :: virtio_blk_config
  vblk_dispatch :: "vhd_bio \<Rightarrow> 's \<Rightarrow> status \<times> 's"

section \<open>Completing requests\<close>

definition translate_status :: "vhd_bdev_io_result \<Rightarrow> u8" where
  "translate_status status =
     (case status of VHD_BDEV_SUCCESS \<Rightarrow> VIRTIO_BLK_S_OK | _ \<Rightarrow> VIRTIO_BLK_S_IOERR)"

text \<open>The last buffer; without one the access is outside of the array.\<close>

definition set_status :: "virtq_iov_private \<Rightarrow> u8 \<Rightarrow> machine \<Rightarrow> machine option" where
  "set_status iov status m =
     (if iov_buffers iov = [] then None
      else Some (m\<lparr>m_status := (m_status m)(buf_base (last (iov_buffers iov)) := status)\<rparr>))"

definition abort_request :: "kernel \<Rightarrow> virtio_virtq \<Rightarrow> virtq_iov_private \<Rightarrow> machine \<Rightarrow> machine option" where
  "abort_request K vq iov m = do {
     m1 \<leftarrow> virtq_push vq iov 0 m;
     Some (virtio_free_iov K iov m1)
   }"

definition complete_req ::
  "kernel \<Rightarrow> virtio_virtq \<Rightarrow> virtq_iov_private \<Rightarrow> u8 \<Rightarrow> machine \<Rightarrow> machine option" where
  "complete_req K vq iov status m = do {
     m1 \<leftarrow> set_status iov status m;
     m2 \<leftarrow> virtq_push vq iov 0 m1;
     Some (virtio_free_iov K iov m2)
   }"

text \<open>The completion handler of a block request; \<open>iov\<close> is that of its \<open>virtio_blk_io\<close>.\<close>

definition complete_io ::
  "kernel \<Rightarrow> virtio_virtq \<Rightarrow> virtq_iov_private \<Rightarrow> vhd_bdev_io_result \<Rightarrow> machine \<Rightarrow> machine option" where
  "complete_io K vq iov status m =
     (if status \<noteq> VHD_BDEV_CANCELED then complete_req K vq iov (translate_status status) m
      else Some (virtio_free_iov K iov m))"

section \<open>Handling a request\<close>

definition vhd_buffer_is_read_only :: "vhd_buffer \<Rightarrow> bool" where
  "vhd_buffer_is_read_only buf = (\<not> buf_write_only buf)"

definition vhd_buffer_is_write_only :: "vhd_buffer \<Rightarrow> bool" where
  "vhd_buffer_is_write_only buf = buf_write_only buf"

definition check_status_buffer :: "vhd_buffer \<Rightarrow> bool" where
  "check_status_buffer buf =
     (if buf_len buf \<noteq> 1 then False
      else if \<not> vhd_buffer_is_write_only buf then False
      else True)"

definition is_valid_req :: "u64 \<Rightarrow> u64 \<Rightarrow> u64 \<Rightarrow> bool" where
  "is_valid_req sector len capacity =
     (let nsectors = len div VIRTIO_BLK_SECTOR_SIZE
      in if len = 0 then False
         else if len mod VIRTIO_BLK_SECTOR_SIZE \<noteq> 0 then False
         else if sector > capacity \<or> sector > capacity - nsectors then False
         else True)"

text \<open>
  The header stays in the guest's memory and the handlers read its fields again at every use;
  nothing keeps the guest from changing it in between.
\<close>

definition read_hdr :: "u64 \<Rightarrow> machine \<Rightarrow> virtio_blk_req_hdr \<times> machine" where
  "read_hdr req m =
     (let g = m_guest m in (g_blk_hdr g (g_now g) req, m\<lparr>m_guest := g\<lparr>g_now := Suc (g_now g)\<rparr>\<rparr>))"

definition read_type :: "u64 \<Rightarrow> machine \<Rightarrow> u32 \<times> machine" where
  "read_type req m = (let (h, m1) = read_hdr req m in (hdr_type h, m1))"

definition read_sector :: "u64 \<Rightarrow> machine \<Rightarrow> u64 \<times> machine" where
  "read_sector req m = (let (h, m1) = read_hdr req m in (hdr_sector h, m1))"

text \<open>The assertion at the start: the second operand of the disjunction reads the type again.\<close>

definition assert_inout :: "u64 \<Rightarrow> machine \<Rightarrow> machine option" where
  "assert_inout req m =
     (let (t1, m1) = read_type req m
      in if t1 = VIRTIO_BLK_T_IN then Some m1
         else let (t2, m2) = read_type req m1 in if t2 = VIRTIO_BLK_T_OUT then Some m2 else None)"

definition readonly_denied :: "bool \<Rightarrow> u64 \<Rightarrow> machine \<Rightarrow> bool \<times> machine" where
  "readonly_denied readonly req m =
     (if readonly then (let (t, m1) = read_type req m in (t = VIRTIO_BLK_T_OUT, m1)) else (False, m))"

text \<open>The loop over the data buffers: their total length, or \<open>None\<close> for \<open>goto complete\<close>.\<close>

primrec sum_data_buffers :: "u64 \<Rightarrow> vhd_buffer list \<Rightarrow> u64 \<Rightarrow> machine \<Rightarrow> u64 option \<times> machine" where
  "sum_data_buffers req [] len m = (Some len, m)"
| "sum_data_buffers req (b # bs) len m =
     (let (t1, m1) = read_type req m
      in if t1 = VIRTIO_BLK_T_IN \<and> \<not> vhd_buffer_is_write_only b then (None, m1)
         else let (t2, m2) = read_type req m1
              in if t2 = VIRTIO_BLK_T_OUT \<and> \<not> vhd_buffer_is_read_only b then (None, m2)
                 else sum_data_buffers req bs (len + buf_len b) m2)"

definition handle_inout ::
  "kernel \<Rightarrow> 's virtio_blk_dev \<Rightarrow> u64 \<Rightarrow> virtio_virtq \<Rightarrow> virtq_iov_private \<Rightarrow> machine \<times> 's
    \<Rightarrow> (machine \<times> 's) option" where
  "handle_inout K dev req vq iov st =
     (case st of (m, s) \<Rightarrow>
      let complete = (\<lambda>m s. map_option (\<lambda>m'. (m', s)) (complete_req K vq iov VIRTIO_BLK_S_IOERR m))
      in do {
        m1 \<leftarrow> assert_inout req m;
        (case readonly_denied (bdi_readonly (vblk_bdev dev)) req m1 of
           (True, m2) \<Rightarrow> complete m2 s
         | (False, m2) \<Rightarrow>
             if length (iov_buffers iov) < 3 then complete m2 s
             else
               (let pdata = take (length (iov_buffers iov) - 2) (drop 1 (iov_buffers iov))
                in case sum_data_buffers req pdata 0 m2 of
                     (None, m3) \<Rightarrow> complete m3 s
                   | (Some len, m3) \<Rightarrow>
                       (let (sector, m4) = read_sector req m3
                        in if \<not> is_valid_req sector len (bc_capacity (vblk_config dev)) then complete m4 s
                           else
                             (let (t, m5) = read_type req m4;
                                  (first_sector, m6) = read_sector req m5;
                                  bio = \<lparr>bio_bdev_io = \<lparr>io_type = (if t = VIRTIO_BLK_T_IN then VHD_BDEV_READ
                                                                    else VHD_BDEV_WRITE),
                                           io_first_sector = first_sector,
                                           io_total_sectors = len div VIRTIO_BLK_SECTOR_SIZE,
                                           io_buffers = pdata\<rparr>,
                                         bio_status = VHD_BDEV_SUCCESS, bio_vring = 0, bio_owner = BlkIo iov\<rparr>
                              in case vblk_dispatch dev bio s of
                                   (Inl e, s1) \<Rightarrow> complete m6 s1
                                 | (Inr _, s1) \<Rightarrow> Some (m6, s1)))))
      })"

text \<open>\<open>strncpy\<close>: the serial, cut or padded with zeroes to the length of the buffer.\<close>

definition strncpy :: "string \<Rightarrow> nat \<Rightarrow> string" where
  "strncpy src n = take n (src @ replicate n (CHR 0x00))"

definition handle_getid :: "'s virtio_blk_dev \<Rightarrow> virtq_iov_private \<Rightarrow> machine \<Rightarrow> u8 \<times> machine" where
  "handle_getid dev iov m =
     (if length (iov_buffers iov) \<noteq> 3 then (VIRTIO_BLK_S_IOERR, m)
      else
        (let id_buf = iov_buffers iov ! 1
         in if buf_len id_buf \<noteq> VIRTIO_BLK_DISKID_LENGTH \<or> \<not> vhd_buffer_is_write_only id_buf
            then (VIRTIO_BLK_S_IOERR, m)
            else (VIRTIO_BLK_S_OK, m\<lparr>m_ids := (m_ids m)
                    (buf_base id_buf := strncpy (bdi_serial (vblk_bdev dev)) (unat (buf_len id_buf)))\<rparr>)))"

definition blk_handle_buffers :: "kernel \<Rightarrow> 's virtio_blk_dev \<Rightarrow> 's handle_buffers_cb" where
  "blk_handle_buffers K dev iov st =
     (case st of (vq, m, s) \<Rightarrow>
      let aborted = map_option (\<lambda>m'. (vq, m', s)) (abort_request K vq iov m)
      in if iov_buffers iov = [] then None
         else if \<not> check_status_buffer (last (iov_buffers iov)) then aborted
         else if \<not> vhd_buffer_is_read_only (hd (iov_buffers iov)) then aborted
         else if buf_len (hd (iov_buffers iov)) \<noteq> 16 then aborted
         else
           (let req = buf_base (hd (iov_buffers iov)); (t, m1) = read_type req m
            in if t = VIRTIO_BLK_T_IN \<or> t = VIRTIO_BLK_T_OUT
               then map_option (Pair vq) (handle_inout K dev req vq iov (m1, s))
               else
                 (let (status, m2) = (if t = VIRTIO_BLK_T_GET_ID then handle_getid dev iov m1
                                      else (VIRTIO_BLK_S_UNSUPP, m1))
                  in map_option (\<lambda>m3. (vq, m3, s)) (complete_req K vq iov status m2))))"

definition virtio_blk_dispatch_requests ::
  "kernel \<Rightarrow> int \<Rightarrow> 's virtio_blk_dev \<Rightarrow> 's vqst \<Rightarrow> (status \<times> 's vqst) option" where
  "virtio_blk_dispatch_requests K now dev st = virtq_dequeue_many (blk_handle_buffers K dev) now st"

section \<open>Setting up the device\<close>

definition virtio_blk_init_dev ::
  "vhd_bdev_info \<Rightarrow> (vhd_bio \<Rightarrow> 's \<Rightarrow> status \<times> 's) \<Rightarrow> 's virtio_blk_dev" where
  "virtio_blk_init_dev bdev dispatch =
     (let phys_block_sectors = drop_bit VHD_SECTOR_SHIFT (bdi_block_size bdev);
          phys_block_exp = word_of_nat (vhd_find_first_bit32 phys_block_sectors) :: u8;
          capacity = push_bit (unat phys_block_exp) (bdi_total_blocks bdev)
      in \<lparr>vblk_bdev = bdev,
          vblk_config =
            \<lparr>bc_capacity = capacity,
             bc_size_max = 0,
             bc_seg_max = 128 - 2,
             bc_cylinders = ucast (min (1 + (capacity - 1) div (255 * 255)) 65535),
             bc_heads = ucast (min (1 + (capacity - 1) div 255) 255),
             bc_sectors = ucast (min capacity 255),
             bc_blk_size = VHD_SECTOR_SIZE,
             bc_physical_block_exp = phys_block_exp,
             bc_alignment_offset = 0,
             bc_min_io_size = 1,
             bc_opt_io_size = 0,
             bc_writeback = 0,
             bc_reserved = 0,
             bc_numqueues = ucast (bdi_num_queues bdev)\<rparr>,
          vblk_dispatch = dispatch\<rparr>)"

section \<open>A header that is left alone\<close>

text \<open>
  When the guest does not touch a request's header, reading it again and again is reading it
  once. \<open>blk_outcome\<close> says what the handlers then decide: a request is answered at once, with
  or without a status, or it becomes a block request.
\<close>

definition quiet_hdr :: "(u64 \<Rightarrow> virtio_blk_req_hdr) \<Rightarrow> guest \<Rightarrow> bool" where
  "quiet_hdr H g \<longleftrightarrow> (\<forall>t a. g_blk_hdr g t a = H a)"

datatype blk_outcome = Aborted | Completed u8 | Submitted vhd_bio

definition data_buffers :: "virtq_iov_private \<Rightarrow> vhd_buffer list" where
  "data_buffers iov = take (length (iov_buffers iov) - 2) (drop 1 (iov_buffers iov))"

definition data_len :: "virtq_iov_private \<Rightarrow> u64" where
  "data_len iov = sum_list (map buf_len (data_buffers iov))"

definition inout_outcome :: "'s virtio_blk_dev \<Rightarrow> virtio_blk_req_hdr \<Rightarrow> virtq_iov_private \<Rightarrow> blk_outcome" where
  "inout_outcome dev h iov =
     (if bdi_readonly (vblk_bdev dev) \<and> hdr_type h = VIRTIO_BLK_T_OUT then Completed VIRTIO_BLK_S_IOERR
      else if length (iov_buffers iov) < 3 then Completed VIRTIO_BLK_S_IOERR
      else if \<exists>b \<in> set (data_buffers iov). buf_write_only b \<noteq> (hdr_type h = VIRTIO_BLK_T_IN)
      then Completed VIRTIO_BLK_S_IOERR
      else if \<not> is_valid_req (hdr_sector h) (data_len iov) (bc_capacity (vblk_config dev))
      then Completed VIRTIO_BLK_S_IOERR
      else Submitted \<lparr>bio_bdev_io =
             \<lparr>io_type = (if hdr_type h = VIRTIO_BLK_T_IN then VHD_BDEV_READ else VHD_BDEV_WRITE),
              io_first_sector = hdr_sector h,
              io_total_sectors = data_len iov div VIRTIO_BLK_SECTOR_SIZE,
              io_buffers = data_buffers iov\<rparr>,
            bio_status = VHD_BDEV_SUCCESS, bio_vring = 0, bio_owner = BlkIo iov\<rparr>)"

definition getid_ok :: "virtq_iov_private \<Rightarrow> bool" where
  "getid_ok iov \<longleftrightarrow> length (iov_buffers iov) = 3 \<and> buf_len (iov_buffers iov ! 1) = VIRTIO_BLK_DISKID_LENGTH \<and>
     buf_write_only (iov_buffers iov ! 1)"

definition blk_outcome :: "'s virtio_blk_dev \<Rightarrow> virtio_blk_req_hdr \<Rightarrow> virtq_iov_private \<Rightarrow> blk_outcome" where
  "blk_outcome dev h iov =
     (if \<not> check_status_buffer (last (iov_buffers iov)) \<or> buf_write_only (hd (iov_buffers iov)) \<or>
         buf_len (hd (iov_buffers iov)) \<noteq> 16 then Aborted
      else if hdr_type h = VIRTIO_BLK_T_IN \<or> hdr_type h = VIRTIO_BLK_T_OUT then inout_outcome dev h iov
      else if hdr_type h = VIRTIO_BLK_T_GET_ID
      then Completed (if getid_ok iov then VIRTIO_BLK_S_OK else VIRTIO_BLK_S_IOERR)
      else Completed VIRTIO_BLK_S_UNSUPP)"

text \<open>The machine after \<open>k\<close> reads.\<close>

definition tick :: "nat \<Rightarrow> machine \<Rightarrow> machine" where
  "tick k m = m\<lparr>m_guest := (m_guest m)\<lparr>g_now := g_now (m_guest m) + k\<rparr>\<rparr>"

lemma tick_0 [simp]: "tick 0 m = m"
  by (simp add: tick_def)

lemma read_quiet:
  assumes "quiet_hdr H (m_guest m)"
  shows "read_type req (tick k m) = (hdr_type (H req), tick (Suc k) m)"
    "read_sector req (tick k m) = (hdr_sector (H req), tick (Suc k) m)"
  using assms by (simp_all add: read_type_def read_sector_def read_hdr_def tick_def quiet_hdr_def Let_def)

lemma blk_types_differ [simp]: "VIRTIO_BLK_T_IN \<noteq> VIRTIO_BLK_T_OUT" "VIRTIO_BLK_T_OUT \<noteq> VIRTIO_BLK_T_IN"
  by (simp_all add: VIRTIO_BLK_T_IN_def VIRTIO_BLK_T_OUT_def)

lemma assert_inout_quiet:
  assumes "quiet_hdr H (m_guest m)" and "hdr_type (H req) = VIRTIO_BLK_T_IN \<or> hdr_type (H req) = VIRTIO_BLK_T_OUT"
  shows "\<exists>j. assert_inout req (tick k m) = Some (tick j m)"
  using assms by (auto simp: assert_inout_def read_quiet Let_def)

lemma readonly_denied_quiet:
  assumes "quiet_hdr H (m_guest m)"
  shows "\<exists>j. readonly_denied ro req (tick k m) = (ro \<and> hdr_type (H req) = VIRTIO_BLK_T_OUT, tick j m)"
  using assms by (cases ro) (auto simp: readonly_denied_def read_quiet)

lemma sum_data_buffers_quiet:
  assumes "quiet_hdr H (m_guest m)" and "hdr_type (H req) = VIRTIO_BLK_T_IN \<or> hdr_type (H req) = VIRTIO_BLK_T_OUT"
  shows "\<exists>j. sum_data_buffers req bs len (tick k m) =
    (if \<exists>b \<in> set bs. buf_write_only b \<noteq> (hdr_type (H req) = VIRTIO_BLK_T_IN) then None
     else Some (len + sum_list (map buf_len bs)), tick j m)"
proof (induction bs arbitrary: len k)
  case (Cons b bs)
  note read = read_quiet [OF assms(1)] and q = vhd_buffer_is_write_only_def vhd_buffer_is_read_only_def
  show ?case
  proof (cases "buf_write_only b = (hdr_type (H req) = VIRTIO_BLK_T_IN)")
    case True
    then have step: "sum_data_buffers req (b # bs) len (tick k m) =
        sum_data_buffers req bs (len + buf_len b) (tick (Suc (Suc k)) m)"
      using assms(2) by (auto simp: read q)
    let ?bad = "\<exists>b \<in> set bs. buf_write_only b \<noteq> (hdr_type (H req) = VIRTIO_BLK_T_IN)"
    from Cons.IH obtain j where "sum_data_buffers req bs (len + buf_len b) (tick (Suc (Suc k)) m) =
        (if ?bad then None else Some (len + buf_len b + sum_list (map buf_len bs)), tick j m)" by blast
    then show ?thesis unfolding step using True by (intro exI [of _ j]) (simp add: add.assoc)
  next
    case False
    then have "\<exists>j. sum_data_buffers req (b # bs) len (tick k m) = (None, tick j m)"
      using assms(2) by (auto simp: read q)
    with False show ?thesis by auto
  qed
qed auto

text \<open>What the handler does, in terms of the outcome.\<close>

definition answer ::
  "kernel \<Rightarrow> 's virtio_blk_dev \<Rightarrow> virtq_iov_private \<Rightarrow> blk_outcome \<Rightarrow> 's vqst \<Rightarrow> 's vqst option" where
  "answer K dev iov out st =
     (case st of (vq, m, s) \<Rightarrow>
      let complete = (\<lambda>status s. map_option (\<lambda>m'. (vq, m', s)) (complete_req K vq iov status m))
      in case out of
           Aborted \<Rightarrow> map_option (\<lambda>m'. (vq, m', s)) (abort_request K vq iov m)
         | Completed status \<Rightarrow> complete status s
         | Submitted bio \<Rightarrow>
             (case vblk_dispatch dev bio s of
                (Inl e, s1) \<Rightarrow> complete VIRTIO_BLK_S_IOERR s1
              | (Inr _, s1) \<Rightarrow> Some (vq, m, s1)))"

lemma handle_inout_quiet:
  assumes q: "quiet_hdr H (m_guest m)"
    and t: "hdr_type (H req) = VIRTIO_BLK_T_IN \<or> hdr_type (H req) = VIRTIO_BLK_T_OUT"
  shows "\<exists>j. map_option (Pair vq) (handle_inout K dev req vq iov (tick k m, s)) =
    answer K dev iov (inout_outcome dev (H req) iov) (vq, tick j m, s)"
proof -
  let ?ro = "bdi_readonly (vblk_bdev dev)" and ?h = "H req"
  obtain k1 where k1: "assert_inout req (tick k m) = Some (tick k1 m)"
    using assert_inout_quiet [OF q t] by blast
  obtain k2 where k2: "readonly_denied ?ro req (tick k1 m) = (?ro \<and> hdr_type ?h = VIRTIO_BLK_T_OUT, tick k2 m)"
    using readonly_denied_quiet [OF q] by blast
  obtain k3 where k3: "sum_data_buffers req (data_buffers iov) 0 (tick k2 m) =
      (if \<exists>b \<in> set (data_buffers iov). buf_write_only b \<noteq> (hdr_type ?h = VIRTIO_BLK_T_IN) then None
       else Some (data_len iov), tick k3 m)"
    using sum_data_buffers_quiet [OF q t, of "data_buffers iov" 0 k2]
    unfolding data_len_def add_0 by blast
  note un = handle_inout_def k1 k2 Let_def data_buffers_def [symmetric, unfolded One_nat_def] read_quiet [OF q]
    inout_outcome_def answer_def option.map_comp comp_def
  show ?thesis
  proof (cases "?ro \<and> hdr_type ?h = VIRTIO_BLK_T_OUT \<or> length (iov_buffers iov) < 3")
    case True
    then show ?thesis by (intro exI [of _ k2]) (auto simp: un)
  next
    case short: False
    show ?thesis
    proof (cases "\<exists>b \<in> set (data_buffers iov). buf_write_only b \<noteq> (hdr_type ?h = VIRTIO_BLK_T_IN)")
      case True
      then have "sum_data_buffers req (data_buffers iov) 0 (tick k2 m) = (None, tick k3 m)" using k3 by auto
      with True short show ?thesis by (intro exI [of _ k3]) (auto simp: un)
    next
      case dir: False
      then have sum: "sum_data_buffers req (data_buffers iov) 0 (tick k2 m) = (Some (data_len iov), tick k3 m)"
        using k3 by auto
      show ?thesis
      proof (cases "is_valid_req (hdr_sector ?h) (data_len iov) (bc_capacity (vblk_config dev))")
        case True
        with short dir show ?thesis
          by (intro exI [of _ "Suc (Suc (Suc k3))"]) (auto simp: un sum split: prod.splits sum.splits)
      next
        case False
        with short dir show ?thesis by (intro exI [of _ "Suc k3"]) (auto simp: un sum)
      qed
    qed
  qed
qed

text \<open>The device id that a successful \<open>GET_ID\<close> writes.\<close>

definition with_id :: "'s virtio_blk_dev \<Rightarrow> virtio_blk_req_hdr \<Rightarrow> virtq_iov_private \<Rightarrow> machine \<Rightarrow> machine" where
  "with_id dev h iov m =
     (if blk_outcome dev h iov \<noteq> Aborted \<and> hdr_type h = VIRTIO_BLK_T_GET_ID \<and> getid_ok iov
      then m\<lparr>m_ids := (m_ids m)(buf_base (iov_buffers iov ! 1) := strncpy (bdi_serial (vblk_bdev dev)) 20)\<rparr>
      else m)"

lemma blk_handler_refines:
  assumes q: "quiet_hdr H (m_guest m)" and b: "iov_buffers iov \<noteq> []"
    and h: "h = H (buf_base (hd (iov_buffers iov)))"
  shows "\<exists>j. blk_handle_buffers K dev iov (vq, m, s) =
    answer K dev iov (blk_outcome dev h iov) (vq, with_id dev h iov (tick j m), s)"
proof -
  let ?req = "buf_base (hd (iov_buffers iov))"
  note q' = vhd_buffer_is_read_only_def vhd_buffer_is_write_only_def
  have rd: "read_type ?req m = (hdr_type h, tick 1 m)" using read_quiet(1) [OF q, of ?req 0] h by simp
  show ?thesis
  proof (cases "\<not> check_status_buffer (last (iov_buffers iov)) \<or> buf_write_only (hd (iov_buffers iov)) \<or>
      buf_len (hd (iov_buffers iov)) \<noteq> 16")
    case True
    then show ?thesis using b
      by (intro exI [of _ 0]) (auto simp: blk_handle_buffers_def blk_outcome_def answer_def with_id_def q' Let_def)
  next
    case framed: False
    show ?thesis
    proof (cases "hdr_type h = VIRTIO_BLK_T_IN \<or> hdr_type h = VIRTIO_BLK_T_OUT")
      case True
      then have "blk_handle_buffers K dev iov (vq, m, s) =
          map_option (Pair vq) (handle_inout K dev ?req vq iov (tick 1 m, s))"
        using framed b by (auto simp: blk_handle_buffers_def q' rd Let_def)
      moreover have "with_id dev h iov = (\<lambda>m. m)"
        using True by (auto simp: with_id_def VIRTIO_BLK_T_IN_def VIRTIO_BLK_T_OUT_def VIRTIO_BLK_T_GET_ID_def)
      moreover have "blk_outcome dev h iov = inout_outcome dev h iov"
        using True framed by (simp add: blk_outcome_def)
      ultimately show ?thesis
        using handle_inout_quiet [OF q, of ?req vq K dev iov 1 s] True h by simp
    next
      case False
      then show ?thesis using framed b
        by (intro exI [of _ 1]) (auto simp: blk_handle_buffers_def q' rd Let_def blk_outcome_def answer_def
            with_id_def handle_getid_def getid_ok_def VIRTIO_BLK_DISKID_LENGTH_def)
    qed
  qed
qed

section \<open>The contract of the handler\<close>

lemma live_cong:
  "m_mms m' = m_mms m \<Longrightarrow> m_logs m' = m_logs m \<Longrightarrow> queue_live vq m' k n = queue_live vq m k n"
  by (simp add: queue_live_def)

lemma abort_request_total:
  assumes "vq_qsz vq \<noteq> 0" and "iov_mm iov = vq_mm vq" and "queue_live vq m 1 n"
  shows "\<exists>m'. abort_request K vq iov m = Some m' \<and> given_back vq iov 0 n m m'"
  using push_free_total [OF assms, of 0 K] by (metis abort_request_def bind.bind_lunit)

lemma complete_req_total:
  assumes "vq_qsz vq \<noteq> 0" and "iov_mm iov = vq_mm vq" and "queue_live vq m 1 n" and "iov_buffers iov \<noteq> []"
  shows "\<exists>m'. complete_req K vq iov status m = Some m' \<and>
    given_back vq iov 0 n (m\<lparr>m_status := (m_status m)(buf_base (last (iov_buffers iov)) := status)\<rparr>) m'"
proof -
  let ?m = "m\<lparr>m_status := (m_status m)(buf_base (last (iov_buffers iov)) := status)\<rparr>"
  have "queue_live vq ?m 1 n" using assms(3) by (simp add: queue_live_def)
  from push_free_total [OF assms(1,2) this, of 0 K] obtain m1 where
    "virtq_push vq iov 0 ?m = Some m1" "given_back vq iov 0 n ?m (virtio_free_iov K iov m1)" .
  with assms(4) show ?thesis by (auto simp: complete_req_def set_status_def)
qed

text \<open>What the guest sees of an answer: the status byte and the used ring.\<close>

definition replied :: "virtio_virtq \<Rightarrow> virtq_iov_private \<Rightarrow> u8 \<Rightarrow> machine \<Rightarrow> machine \<Rightarrow> bool" where
  "replied vq iov status m m' \<longleftrightarrow> m_used m' = used_with vq iov 0 (m_used m) \<and>
     m_status m' = (m_status m)(buf_base (last (iov_buffers iov)) := status)"

definition outcome_seen ::
  "'s virtio_blk_dev \<Rightarrow> virtio_virtq \<Rightarrow> virtq_iov_private \<Rightarrow> blk_outcome \<Rightarrow> machine \<times> 's \<Rightarrow> machine \<times> 's \<Rightarrow> bool" where
  "outcome_seen dev vq iov out st st' =
     (case (st, st') of ((m, s), (m', s')) \<Rightarrow>
      (case out of
         Aborted \<Rightarrow> s' = s \<and> m_used m' = used_with vq iov 0 (m_used m) \<and> m_status m' = m_status m
       | Completed status \<Rightarrow> s' = s \<and> replied vq iov status m m'
       | Submitted bio \<Rightarrow> s' = snd (vblk_dispatch dev bio s) \<and>
           (if fst (vblk_dispatch dev bio s) = OK then m_used m' = m_used m \<and> m_status m' = m_status m
            else replied vq iov VIRTIO_BLK_S_IOERR m m')))"

lemma answer_total:
  assumes a: "vq_qsz vq \<noteq> 0" "iov_mm iov = vq_mm vq" "queue_live vq m 1 n" and b: "iov_buffers iov \<noteq> []"
  shows "\<exists>m' s'. answer K dev iov out (vq, m, s) = Some (vq, m', s') \<and> guest_mem_same m m' \<and>
    queue_live vq m' 0 n \<and> outcome_seen dev vq iov out (m, s) (m', s')"
proof (cases out)
  case Aborted
  with abort_request_total [OF a, of K] show ?thesis
    by (auto simp: answer_def given_back_def outcome_seen_def)
next
  case (Completed status)
  with complete_req_total [OF a b, of K status] show ?thesis
    by (auto simp: answer_def given_back_def outcome_seen_def replied_def guest_mem_same_def)
next
  case (Submitted bio)
  obtain r s1 where d: "vblk_dispatch dev bio s = (r, s1)" by fastforce
  show ?thesis
  proof (cases r)
    case (Inl e)
    with Submitted d complete_req_total [OF a b, of K VIRTIO_BLK_S_IOERR] show ?thesis
      by (auto simp: answer_def given_back_def outcome_seen_def replied_def guest_mem_same_def)
  next
    case (Inr u)
    with Submitted d queue_live_weaken [OF a(3), of 0 n] show ?thesis
      by (auto simp: answer_def outcome_seen_def guest_mem_same_def same_tables_def)
  qed
qed

lemma with_id_frame:
  "m_guest (with_id dev h iov m) = m_guest m" "m_mms (with_id dev h iov m) = m_mms m"
  "m_logs (with_id dev h iov m) = m_logs m" "m_used (with_id dev h iov m) = m_used m"
  "m_status (with_id dev h iov m) = m_status m"
  by (simp_all add: with_id_def)

lemma blk_handler_total:
  assumes a: "vq_qsz vq \<noteq> 0" "iov_mm iov = vq_mm vq" "queue_live vq m 1 n" and b: "iov_buffers iov \<noteq> []"
    and q: "quiet_hdr H (m_guest m)" and h: "h = H (buf_base (hd (iov_buffers iov)))"
  shows "\<exists>m' s'. blk_handle_buffers K dev iov (vq, m, s) = Some (vq, m', s') \<and> guest_mem_same m m' \<and>
    queue_live vq m' 0 n \<and> outcome_seen dev vq iov (blk_outcome dev h iov) (m, s) (m', s')"
proof -
  obtain j where j: "blk_handle_buffers K dev iov (vq, m, s) =
      answer K dev iov (blk_outcome dev h iov) (vq, with_id dev h iov (tick j m), s)"
    using blk_handler_refines [OF q b h, of K dev vq s] by blast
  let ?m = "with_id dev h iov (tick j m)"
  have m: "m_mms ?m = m_mms m" "m_logs ?m = m_logs m" "m_used ?m = m_used m" "m_status ?m = m_status m"
    "guest_mem_same m ?m" by (simp_all add: with_id_frame tick_def guest_mem_same_def same_tables_def)
  have "queue_live vq ?m 1 n" using a(3) live_cong [OF m(1,2)] by simp
  from answer_total [OF a(1,2) this b, of K dev "blk_outcome dev h iov" s] obtain m' s' where
    "answer K dev iov (blk_outcome dev h iov) (vq, ?m, s) = Some (vq, m', s')" "guest_mem_same ?m m'"
    "queue_live vq m' 0 n" "outcome_seen dev vq iov (blk_outcome dev h iov) (?m, s) (m', s')" by blast
  moreover have "outcome_seen dev vq iov (blk_outcome dev h iov) (?m, s) =
      outcome_seen dev vq iov (blk_outcome dev h iov) (m, s)"
    by (auto simp: outcome_seen_def replied_def fun_eq_iff m split: blk_outcome.splits)
  ultimately show ?thesis using j guest_mem_same_trans [OF m(5)] by auto
qed

definition quiet_headers :: "guest \<Rightarrow> bool" where
  "quiet_headers g \<longleftrightarrow> (\<exists>H. quiet_hdr H g)"

interpretation blk: virtq_handler "blk_handle_buffers K dev" quiet_headers for K dev
proof
  show "quiet_headers g \<Longrightarrow> same_tables g g' \<Longrightarrow> quiet_headers g'" for g g'
    by (simp add: quiet_headers_def quiet_hdr_def same_tables_def)
  show "\<exists>m' s'. blk_handle_buffers K dev iov (vq, m, s) = Some (vq, m', s') \<and>
      guest_mem_same m m' \<and> queue_live vq m' 0 n"
    if "vq_qsz vq \<noteq> 0" "iov_buffers iov \<noteq> []" "iov_mm iov = vq_mm vq" "quiet_headers (m_guest m)"
      "queue_live vq m 1 n" for vq iov m n s
    using blk_handler_total [OF that(1,3,5,2) _ refl, of _ K dev s] that(4) unfolding quiet_headers_def by blast
qed

section \<open>The bounds check\<close>

lemma sector_size: "unat (len div VIRTIO_BLK_SECTOR_SIZE) = unat len div 512"
  "len mod VIRTIO_BLK_SECTOR_SIZE = 0 \<longleftrightarrow> 512 dvd unat len"
  by (simp_all add: VIRTIO_BLK_SECTOR_SIZE_def unat_div unat_mod_distrib word_unat_eq_iff dvd_eq_mod_eq_0)

text \<open>
  The subtraction \<open>capacity - nsectors\<close> wraps when the request is longer than the device, to a
  number above every sector the first comparison lets through.
\<close>

lemma sector_check:
  fixes s cap n :: u64
  assumes "unat n < 2 ^ 55"
  shows "\<not> (s > cap \<or> s > cap - n) \<longleftrightarrow>
    unat s \<le> unat cap \<and> (unat s + unat n \<le> unat cap \<or> unat cap < unat n)"
proof (cases "n \<le> cap")
  case True
  then have "unat (cap - n) = unat cap - unat n" "unat n \<le> unat cap"
    by (simp_all add: unat_sub_le word_le_nat_alt)
  then show ?thesis by (auto simp: word_less_nat_alt not_less)
next
  case False
  then have lt: "unat cap < unat n" by (simp add: word_le_nat_alt)
  have "unat (cap - n) = unat cap + 2 ^ 64 - unat n"
    using lt unat_less_64 [of n] by (simp add: unat_word_ariths unat_sub_if')
  with lt assms show ?thesis by (auto simp: word_less_nat_alt not_less)
qed

lemma is_valid_req_iff:
  "is_valid_req s len cap \<longleftrightarrow> len \<noteq> 0 \<and> 512 dvd unat len \<and> unat s \<le> unat cap \<and>
     (unat s + unat len div 512 \<le> unat cap \<or> unat cap < unat len div 512)"
proof -
  have "unat (len div VIRTIO_BLK_SECTOR_SIZE) < 2 ^ 55" using unat_less_64 [of len] by (simp add: sector_size)
  note check = sector_check [OF this, of cap s, unfolded sector_size]
  show ?thesis unfolding is_valid_req_def Let_def sector_size(2) if_bool_eq_conj using check by blast
qed

section \<open>Properties\<close>


definition demo_bdev :: vhd_bdev_info where
  "demo_bdev = \<lparr>bdi_serial = ''disk'', bdi_socket_path = ''/s'', bdi_block_size = 4096, bdi_num_queues = 1,
     bdi_total_blocks = 2, bdi_readonly = True\<rparr>"

definition demo_blk :: "vhd_bio list virtio_blk_dev" where
  "demo_blk = virtio_blk_init_dev demo_bdev (\<lambda>bio bios. (OK, bios @ [bio]))"

definition demo_blk_iov :: "bool \<Rightarrow> virtq_iov_private" where
  "demo_blk_iov wo = \<lparr>iov_used_head = 3, iov_mm = 0, iov_buffers =
     [\<lparr>buf_base = 0x1000, buf_len = 16, buf_write_only = False\<rparr>,
      \<lparr>buf_base = 0x2000, buf_len = 512, buf_write_only = wo\<rparr>,
      \<lparr>buf_base = 0x3000, buf_len = 1, buf_write_only = True\<rparr>]\<rparr>"

lemma demo_live: "queue_live demo_vq (demo_machine g\<lparr>m_mms := vhd_memmap_ref 0 (m_mms (demo_machine g))\<rparr>) 1 5"
  by (simp add: queue_live_def demo_vq_def zero_virtq_def demo_machine_def vhd_memmap_ref_def refcount_inc_def)

lemma demo_blk_config: "bc_capacity (vblk_config demo_blk) = 16" "bdi_readonly (vblk_bdev demo_blk)"
  "vblk_dispatch demo_blk bio bios = (OK, bios @ [bio])"
proof -
  have "vhd_find_first_bit32 8 = 3" by code_simp
  then show "bc_capacity (vblk_config demo_blk) = 16"
    by (simp add: demo_blk_def demo_bdev_def virtio_blk_init_dev_def VHD_SECTOR_SHIFT_def Let_def)
qed (simp_all add: demo_blk_def demo_bdev_def virtio_blk_init_dev_def Let_def)

abbreviation demo_blk_machine :: machine where
  "demo_blk_machine \<equiv> demo_machine demo_guest\<lparr>m_mms := vhd_memmap_ref 0 (m_mms (demo_machine demo_guest))\<rparr>"

lemma demo_headers: "quiet_hdr (\<lambda>_. \<lparr>hdr_type = 0, hdr_reserved = 0, hdr_sector = 0\<rparr>) demo_guest"
  by (simp add: quiet_hdr_def demo_guest_def)

lemma demo_machine_guest: "m_guest (demo_machine g) = g"
  by (simp add: demo_machine_def)

abbreviation demo_read :: vhd_bio where
  "demo_read \<equiv> \<lparr>bio_bdev_io = \<lparr>io_type = VHD_BDEV_READ, io_first_sector = 0, io_total_sectors = 1,
       io_buffers = [\<lparr>buf_base = 0x2000, buf_len = 512, buf_write_only = True\<rparr>]\<rparr>,
     bio_status = VHD_BDEV_SUCCESS, bio_vring = 0, bio_owner = BlkIo (demo_blk_iov True)\<rparr>"

lemmas blk_consts = VIRTIO_BLK_SECTOR_SIZE_def VIRTIO_BLK_T_IN_def VIRTIO_BLK_T_OUT_def VIRTIO_BLK_T_GET_ID_def
  VIRTIO_BLK_S_OK_def VIRTIO_BLK_S_IOERR_def VIRTIO_BLK_S_UNSUPP_def VIRTIO_BLK_DISKID_LENGTH_def

lemma demo_outcome:
  "blk_outcome demo_blk \<lparr>hdr_type = 0, hdr_reserved = 0, hdr_sector = 0\<rparr> (demo_blk_iov True) = Submitted demo_read"
  by (simp add: blk_outcome_def inout_outcome_def data_buffers_def data_len_def demo_blk_config is_valid_req_def
      check_status_buffer_def vhd_buffer_is_write_only_def blk_consts demo_blk_iov_def)




text \<open>
  C36: what the bounds check accepts. A request passes exactly if its length is a positive
  multiple of the sector size, it starts at or before the end of the device, and it either ends
  inside of the device or is longer than the whole device.
\<close>

theorem is_valid_req_exact:
  "is_valid_req sector len capacity \<longleftrightarrow> len \<noteq> 0 \<and> 512 dvd unat len \<and> unat sector \<le> unat capacity \<and>
     (unat sector + unat len div 512 \<le> unat capacity \<or> unat capacity < unat len div 512)"
  by (rule is_valid_req_iff)

text \<open>A guest that changes the type of a header from the \<open>n\<close>-th read on.\<close>

definition retyped_guest :: "nat \<Rightarrow> u32 \<Rightarrow> guest" where
  "retyped_guest n t = demo_guest\<lparr>g_blk_hdr :=
     (\<lambda>now _. \<lparr>hdr_type = (if now < n then VIRTIO_BLK_T_IN else t), hdr_reserved = 0, hdr_sector = 0\<rparr>)\<rparr>"



end
