(* ===== verification/VirtioFs.thy ===== *)
theory VirtioFs
  imports VirtioBlk
begin

text \<open>
  The file system device: \<open>virtio/virtio_fs.c\<close>, which checks the framing of FUSE requests and
  hands them to the backend, and the device type of \<open>fs.c\<close>.
\<close>

section \<open>The device\<close>

record vhd_fsdev_info =
  fsi_socket_path :: string
  fsi_tag :: "u8 list option"
  fsi_num_queues :: u32

record virtio_fs_config =
  fsc_tag :: "u8 list"
  fsc_num_request_queues :: u32

record 's virtio_fs_dev =
  vfs_fsdev :: vhd_fsdev_info
  vfs_config :: virtio_fs_config
  vfs_dispatch :: "vhd_bio \<Rightarrow> 's \<Rightarrow> status \<times> 's"

text \<open>The ring features: indirect descriptors and version 1.\<close>

definition VIRTIO_FS_DEFAULT_FEATURES :: u64 where
  "VIRTIO_FS_DEFAULT_FEATURES = push_bit 28 1 OR push_bit 32 1"

section \<open>Requests\<close>

definition fs_abort_request :: "kernel \<Rightarrow> virtio_virtq \<Rightarrow> virtq_iov_private \<Rightarrow> machine \<Rightarrow> machine option" where
  "fs_abort_request K vq iov m = do {
     m1 \<leftarrow> virtq_push vq iov 0 m;
     Some (virtio_free_iov K iov m1)
   }"

text \<open>
  The completion handler. The response header is what was last written to it, by the backend or
  by \<open>handle_buffers\<close> for a request that was refused.
\<close>

definition complete_request ::
  "kernel \<Rightarrow> virtio_virtq \<Rightarrow> virtq_iov_private \<Rightarrow> u64 option \<Rightarrow> vhd_bdev_io_result \<Rightarrow> machine \<Rightarrow> machine option" where
  "complete_request K vq iov out_hdr status m =
     (let len = (case out_hdr of None \<Rightarrow> 0 | Some a \<Rightarrow> fout_len (m_fs_out m a))
      in do {
        m1 \<leftarrow> (if status \<noteq> VHD_BDEV_CANCELED then virtq_push vq iov len m else Some m);
        Some (virtio_free_iov K iov m1)
      })"

text \<open>The parse of the buffers: the address of the response header, if the request has one.\<close>

datatype fs_parse = BadFraming | Framed "u64 option"

definition parse_buffers :: "vhd_buffer list \<Rightarrow> fs_parse" where
  "parse_buffers bufs =
     (if vhd_buffer_is_write_only (hd bufs) then BadFraming
      else if buf_len (hd bufs) < 40 then BadFraming
      else
        (let out_bufs = dropWhile vhd_buffer_is_read_only bufs
         in if out_bufs = [] then Framed None
            else if buf_len (hd out_bufs) < 16 then BadFraming
            else if dropWhile vhd_buffer_is_write_only out_bufs \<noteq> [] then BadFraming
            else Framed (Some (buf_base (hd out_bufs)))))"

definition read_unique :: "u64 \<Rightarrow> machine \<Rightarrow> u64 \<times> machine" where
  "read_unique a m =
     (let g = m_guest m in (fin_unique (g_fs_in g (g_now g) a), m\<lparr>m_guest := g\<lparr>g_now := Suc (g_now g)\<rparr>\<rparr>))"

definition fs_handle_buffers :: "kernel \<Rightarrow> 's virtio_fs_dev \<Rightarrow> 's handle_buffers_cb" where
  "fs_handle_buffers K dev iov st =
     (case st of (vq, m, s) \<Rightarrow>
      if iov_buffers iov = [] then None
      else
        (case parse_buffers (iov_buffers iov) of
           BadFraming \<Rightarrow> map_option (\<lambda>m'. (vq, m', s)) (fs_abort_request K vq iov m)
         | Framed out \<Rightarrow>
             (let bio = \<lparr>bio_bdev_io = \<lparr>io_type = VHD_BDEV_READ, io_first_sector = 0, io_total_sectors = 0,
                           io_buffers = iov_buffers iov\<rparr>,
                         bio_status = VHD_BDEV_SUCCESS, bio_vring = 0, bio_owner = FsIo iov out\<rparr>
              in case vfs_dispatch dev bio s of
                   (Inr _, s1) \<Rightarrow> Some (vq, m, s1)
                 | (Inl e, s1) \<Rightarrow>
                     (let m1 = (case out of
                                  None \<Rightarrow> m
                                | Some a \<Rightarrow>
                                    (let (u, m1) = read_unique (buf_base (hd (iov_buffers iov))) m
                                     in m1\<lparr>m_fs_out := (m_fs_out m1)(a := \<lparr>fout_len = 16,
                                          fout_error = word_of_int (- int (errno_code e)), fout_unique = u\<rparr>)\<rparr>))
                      in map_option (\<lambda>m'. (vq, m', s1)) (complete_request K vq iov out VHD_BDEV_SUCCESS m1)))))"

definition virtio_fs_init_dev :: "vhd_fsdev_info \<Rightarrow> (vhd_bio \<Rightarrow> 's \<Rightarrow> status \<times> 's) \<Rightarrow> 's virtio_fs_dev" where
  "virtio_fs_init_dev fsdev dispatch =
     \<lparr>vfs_fsdev = fsdev,
      vfs_config = \<lparr>fsc_tag = (case fsi_tag fsdev of
                                None \<Rightarrow> replicate 36 0
                              | Some tag \<Rightarrow> take (min (length tag) 36) tag @ replicate (36 - min (length tag) 36) 0),
                    fsc_num_request_queues = fsi_num_queues fsdev\<rparr>,
      vfs_dispatch = dispatch\<rparr>"

definition virtio_fs_dispatch_requests ::
  "kernel \<Rightarrow> int \<Rightarrow> 's virtio_fs_dev \<Rightarrow> 's vqst \<Rightarrow> (status \<times> 's vqst) option" where
  "virtio_fs_dispatch_requests K now dev st = virtq_dequeue_many (fs_handle_buffers K dev) now st"

section \<open>The device type\<close>

record 's vhd_fsdev =
  fd_fsdev :: "vhd_fsdev_info option"
  fd_vfs :: "'s virtio_fs_dev"

definition vfs_get_features :: "'s vhd_fsdev \<Rightarrow> u64" where
  "vfs_get_features dev = VIRTIO_FS_DEFAULT_FEATURES"

definition vfs_set_features :: "'s vhd_fsdev \<Rightarrow> u64 \<Rightarrow> status" where
  "vfs_set_features dev features = OK"

definition virtio_fs_config_bytes :: "virtio_fs_config \<Rightarrow> u8 list" where
  "virtio_fs_config_bytes c = fsc_tag c @ le_bytes 4 (fsc_num_request_queues c)"

definition vfs_get_config :: "'s vhd_fsdev \<Rightarrow> nat \<Rightarrow> nat \<Rightarrow> u8 list" where
  "vfs_get_config dev = get_config_bytes (virtio_fs_config_bytes (vfs_config (fd_vfs dev)))"

definition vfs_dispatch_requests ::
  "kernel \<Rightarrow> int \<Rightarrow> 's vhd_fsdev \<Rightarrow> 's vqst \<Rightarrow> (status \<times> 's vqst) option" where
  "vfs_dispatch_requests K now dev st = virtio_fs_dispatch_requests K now (fd_vfs dev) st"

definition vfs_handle_request ::
  "(nat \<Rightarrow> 'v \<Rightarrow> 'v) \<Rightarrow> nat \<Rightarrow> vhd_bio \<Rightarrow> vhd_request_queue \<times> 'v \<Rightarrow> status \<times> vhd_request_queue \<times> 'v" where
  "vfs_handle_request inc vring bio st = vhd_enqueue_block_request inc (bio\<lparr>bio_vring := vring\<rparr>) st"

definition vhd_register_fs ::
  "('s vhd_fsdev \<Rightarrow> status) \<Rightarrow> (vhd_bio \<Rightarrow> 's \<Rightarrow> status \<times> 's) \<Rightarrow> vhd_fsdev_info \<Rightarrow> 's vhd_fsdev option" where
  "vhd_register_fs init_server handle_request fsdev =
     (let dev = \<lparr>fd_fsdev = None, fd_vfs = virtio_fs_init_dev fsdev handle_request\<rparr>
      in case init_server dev of Inl _ \<Rightarrow> None | Inr _ \<Rightarrow> Some (dev\<lparr>fd_fsdev := Some fsdev\<rparr>))"

section \<open>The contract of the handler\<close>

lemma fs_give_back:
  assumes "vq_qsz vq \<noteq> 0" and "iov_mm iov = vq_mm vq" and "queue_live vq m 1 n"
  shows "\<exists>m'. fs_abort_request K vq iov m = Some m' \<and> given_back vq iov 0 n m m'"
    "\<exists>m'. complete_request K vq iov out VHD_BDEV_SUCCESS m = Some m' \<and>
       given_back vq iov (case out of None \<Rightarrow> 0 | Some a \<Rightarrow> fout_len (m_fs_out m a)) n m m'"
proof -
  from push_free_total [OF assms, of 0 K] obtain m1 where
    "virtq_push vq iov 0 m = Some m1" "given_back vq iov 0 n m (virtio_free_iov K iov m1)" .
  then show "\<exists>m'. fs_abort_request K vq iov m = Some m' \<and> given_back vq iov 0 n m m'"
    by (simp add: fs_abort_request_def)
  let ?len = "case out of None \<Rightarrow> 0 | Some a \<Rightarrow> fout_len (m_fs_out m a)"
  from push_free_total [OF assms, of ?len K] obtain m1 where
    "virtq_push vq iov ?len m = Some m1" "given_back vq iov ?len n m (virtio_free_iov K iov m1)" .
  then show "\<exists>m'. complete_request K vq iov out VHD_BDEV_SUCCESS m = Some m' \<and> given_back vq iov ?len n m m'"
    by (simp add: complete_request_def)
qed

text \<open>What the guest sees of the handling of a request.\<close>

definition fs_bio :: "virtq_iov_private \<Rightarrow> u64 option \<Rightarrow> vhd_bio" where
  "fs_bio iov out = \<lparr>bio_bdev_io = \<lparr>io_type = VHD_BDEV_READ, io_first_sector = 0, io_total_sectors = 0,
     io_buffers = iov_buffers iov\<rparr>, bio_status = VHD_BDEV_SUCCESS, bio_vring = 0, bio_owner = FsIo iov out\<rparr>"

definition fs_refused :: "virtio_virtq \<Rightarrow> virtq_iov_private \<Rightarrow> u64 option \<Rightarrow> errno \<Rightarrow> machine \<Rightarrow> machine \<Rightarrow> bool" where
  "fs_refused vq iov out e m m' =
     (case out of
        None \<Rightarrow> m_used m' = used_with vq iov 0 (m_used m) \<and> m_fs_out m' = m_fs_out m
      | Some a \<Rightarrow> m_used m' = used_with vq iov 16 (m_used m) \<and>
          (\<exists>t. m_fs_out m' = (m_fs_out m)(a := \<lparr>fout_len = 16, fout_error = word_of_int (- int (errno_code e)),
             fout_unique = fin_unique (g_fs_in (m_guest m) t (buf_base (hd (iov_buffers iov))))\<rparr>)))"

definition fs_seen ::
  "'s virtio_fs_dev \<Rightarrow> virtio_virtq \<Rightarrow> virtq_iov_private \<Rightarrow> machine \<times> 's \<Rightarrow> machine \<times> 's \<Rightarrow> bool" where
  "fs_seen dev vq iov st st' =
     (case (st, st') of ((m, s), (m', s')) \<Rightarrow>
      (case parse_buffers (iov_buffers iov) of
         BadFraming \<Rightarrow> s' = s \<and> m_used m' = used_with vq iov 0 (m_used m) \<and> m_fs_out m' = m_fs_out m
       | Framed out \<Rightarrow> s' = snd (vfs_dispatch dev (fs_bio iov out) s) \<and>
           (case fst (vfs_dispatch dev (fs_bio iov out) s) of
              Inr _ \<Rightarrow> m_used m' = m_used m \<and> m_fs_out m' = m_fs_out m
            | Inl e \<Rightarrow> fs_refused vq iov out e m m')))"

lemma fs_handler_total:
  assumes a: "vq_qsz vq \<noteq> 0" "iov_mm iov = vq_mm vq" "queue_live vq m 1 n" and b: "iov_buffers iov \<noteq> []"
  shows "\<exists>m' s'. fs_handle_buffers K dev iov (vq, m, s) = Some (vq, m', s') \<and> guest_mem_same m m' \<and>
    queue_live vq m' 0 n \<and> fs_seen dev vq iov (m, s) (m', s')"
proof (cases "parse_buffers (iov_buffers iov)")
  case BadFraming
  with fs_give_back(1) [OF a, of K] b show ?thesis
    by (auto simp: fs_handle_buffers_def fs_seen_def given_back_def)
next
  case (Framed out)
  obtain r s1 where d: "vfs_dispatch dev (fs_bio iov out) s = (r, s1)" by fastforce
  show ?thesis
  proof (cases r)
    case (Inr u)
    with d Framed b queue_live_weaken [OF a(3), of 0 n] show ?thesis
      by (auto simp: fs_handle_buffers_def fs_seen_def fs_bio_def guest_mem_same_def same_tables_def Let_def)
  next
    case (Inl e)
    let ?u = "fin_unique (g_fs_in (m_guest m) (g_now (m_guest m)) (buf_base (hd (iov_buffers iov))))"
    define m1 where "m1 = (case out of None \<Rightarrow> m
      | Some a \<Rightarrow> m\<lparr>m_guest := (m_guest m)\<lparr>g_now := Suc (g_now (m_guest m))\<rparr>, m_fs_out := (m_fs_out m)
          (a := \<lparr>fout_len = 16, fout_error = word_of_int (- int (errno_code e)), fout_unique = ?u\<rparr>)\<rparr>)"
    have m1: "m_mms m1 = m_mms m" "m_logs m1 = m_logs m" "m_used m1 = m_used m" "guest_mem_same m m1"
      by (simp_all add: m1_def guest_mem_same_def same_tables_def split: option.splits)
    have "queue_live vq m1 1 n" using a(3) live_cong [OF m1(1,2)] by simp
    from fs_give_back(2) [OF a(1,2) this, of K out] obtain m' where
      m': "complete_request K vq iov out VHD_BDEV_SUCCESS m1 = Some m'"
      "given_back vq iov (case out of None \<Rightarrow> 0 | Some a \<Rightarrow> fout_len (m_fs_out m1 a)) n m1 m'" by blast
    have "fs_handle_buffers K dev iov (vq, m, s) = Some (vq, m', s1)"
      using d Inl Framed b m'(1)
      by (cases out) (simp_all add: fs_handle_buffers_def fs_bio_def m1_def read_unique_def Let_def)
    moreover have "fs_seen dev vq iov (m, s) (m', s1)"
      using d Inl Framed m'(2) m1(3)
      by (cases out) (auto simp: fs_seen_def fs_refused_def given_back_def m1_def)
    ultimately show ?thesis
      using m'(2) guest_mem_same_trans [OF m1(4)] unfolding given_back_def by blast
  qed
qed

interpretation fs: virtq_handler "fs_handle_buffers K dev" "\<lambda>_. True" for K dev
proof
  show "\<exists>m' s'. fs_handle_buffers K dev iov (vq, m, s) = Some (vq, m', s') \<and>
      guest_mem_same m m' \<and> queue_live vq m' 0 n"
    if "vq_qsz vq \<noteq> 0" "iov_buffers iov \<noteq> []" "iov_mm iov = vq_mm vq" "True" "queue_live vq m 1 n" for vq iov m n s
    using fs_handler_total [OF that(1,3,5,2), of K dev s] by blast
qed simp

section \<open>Properties\<close>

text \<open>
  C26: the framing that is accepted. Buffers pass exactly if they are a non-empty run of
  device-readable ones followed by a run of device-writable ones, the first readable one has
  room for a request header, and the first writable one, if there is any, has room for a
  response header, whose address is the result.
\<close>

theorem fs_framing_exact:
  assumes "bufs \<noteq> []"
  shows "parse_buffers bufs = Framed out \<longleftrightarrow>
    (\<exists>ins outs. bufs = ins @ outs \<and> ins \<noteq> [] \<and> (\<forall>b \<in> set ins. \<not> buf_write_only b) \<and>
       (\<forall>b \<in> set outs. buf_write_only b) \<and> 40 \<le> buf_len (hd ins) \<and>
       (case outs of [] \<Rightarrow> out = None | b # _ \<Rightarrow> 16 \<le> buf_len b \<and> out = Some (buf_base b)))" (is "?L \<longleftrightarrow> ?R")
proof
  note ro = vhd_buffer_is_read_only_def vhd_buffer_is_write_only_def
  assume ?L
  then have c: "\<not> buf_write_only (hd bufs)" "\<not> buf_len (hd bufs) < 40"
    by (auto simp: parse_buffers_def ro split: if_splits)
  let ?ins = "takeWhile vhd_buffer_is_read_only bufs" and ?outs = "dropWhile vhd_buffer_is_read_only bufs"
  have "?ins \<noteq> []" "hd ?ins = hd bufs" using c(1) assms by (cases bufs; simp add: ro)+
  moreover have "\<forall>b \<in> set ?ins. \<not> buf_write_only b" by (auto dest: set_takeWhileD simp: ro)
  moreover have "?outs = [] \<or> dropWhile vhd_buffer_is_write_only ?outs = []"
    using \<open>?L\<close> by (simp add: parse_buffers_def Let_def split: if_splits del: dropWhile_eq_Nil_conv)
  then have "\<forall>b \<in> set ?outs. buf_write_only b"
    using dropWhile_eq_Nil_conv [of vhd_buffer_is_write_only ?outs]
    by (metis empty_iff empty_set vhd_buffer_is_write_only_def)
  moreover have "case ?outs of [] \<Rightarrow> out = None | b # _ \<Rightarrow> 16 \<le> buf_len b \<and> out = Some (buf_base b)"
    using \<open>?L\<close>
    by (cases ?outs) (simp_all add: parse_buffers_def Let_def not_less split: if_splits del: dropWhile_eq_Nil_conv)
  ultimately show ?R
    using c(2) by (intro exI [of _ ?ins] exI [of _ ?outs]) (simp add: not_less)
next
  note ro = vhd_buffer_is_read_only_def vhd_buffer_is_write_only_def
  assume ?R
  then obtain ins outs where b: "bufs = ins @ outs" "ins \<noteq> []" "\<forall>b \<in> set ins. \<not> buf_write_only b"
    "\<forall>b \<in> set outs. buf_write_only b" "40 \<le> buf_len (hd ins)"
    "case outs of [] \<Rightarrow> out = None | b # _ \<Rightarrow> 16 \<le> buf_len b \<and> out = Some (buf_base b)" by blast
  have "dropWhile vhd_buffer_is_read_only bufs = outs"
    using b(1,3,4) by (cases outs) (auto simp: dropWhile_append3 dropWhile_append2 ro)
  moreover have "dropWhile vhd_buffer_is_write_only outs = []" using b(4) by (simp add: ro)
  moreover have "hd bufs = hd ins" "hd ins \<in> set ins" using b(1,2) by simp_all
  ultimately show ?L
    using b(3,5,6) by (auto simp: parse_buffers_def ro not_less Let_def split: list.splits)
qed

abbreviation demo_fs_buffers :: "vhd_buffer list" where
  "demo_fs_buffers \<equiv> [\<lparr>buf_base = 0x1000, buf_len = 40, buf_write_only = False\<rparr>,
     \<lparr>buf_base = 0x2000, buf_len = 16, buf_write_only = True\<rparr>]"

theorem fs_framing_exact_witness:
  "parse_buffers demo_fs_buffers = Framed (Some 0x2000)"
proof -
  have "demo_fs_buffers \<noteq> []" by simp
  show ?thesis
    by (rule iffD2 [OF fs_framing_exact [OF \<open>demo_fs_buffers \<noteq> []\<close>]],
        rule exI [of _ "take 1 demo_fs_buffers"], rule exI [of _ "drop 1 demo_fs_buffers"]) simp
qed


definition demo_fs :: "nat virtio_fs_dev" where
  "demo_fs = virtio_fs_init_dev \<lparr>fsi_socket_path = ''/s'', fsi_tag = None, fsi_num_queues = 1\<rparr> (\<lambda>_ n. (Inl EIO, Suc n))"


end
