(* ===== verification/Blockdev.thy ===== *)
theory Blockdev
  imports VirtioBlk
begin

text \<open>
  The block device of \<open>blockdev.c\<close>: the device type that the generic device calls, its
  configuration space, and registration.
\<close>

section \<open>The device type\<close>

text \<open>
  The device of \<open>blockdev.c\<close>. Its own pointer to the backend is set only after
  \<open>vhd_vdev_init_server\<close>, until then it is NULL.
\<close>

record 's vhd_bdev =
  bd_bdev :: "vhd_bdev_info option"
  bd_vblk :: "'s virtio_blk_dev"

definition vblk_get_features :: "'s vhd_bdev \<Rightarrow> u64 option" where
  "vblk_get_features dev = do {
     bdev \<leftarrow> bd_bdev dev;
     Some (VIRTIO_BLK_DEFAULT_FEATURES OR (if bdi_readonly bdev then push_bit VIRTIO_BLK_F_RO 1 else 0))
   }"

definition vblk_set_features :: "'s vhd_bdev \<Rightarrow> u64 \<Rightarrow> status" where
  "vblk_set_features dev features = OK"

text \<open>The bytes of the packed structure.\<close>

definition virtio_blk_config_bytes :: "virtio_blk_config \<Rightarrow> u8 list" where
  "virtio_blk_config_bytes c =
     le_bytes 8 (bc_capacity c) @ le_bytes 4 (bc_size_max c) @ le_bytes 4 (bc_seg_max c) @
     le_bytes 2 (bc_cylinders c) @ [bc_heads c, bc_sectors c] @ le_bytes 4 (bc_blk_size c) @
     [bc_physical_block_exp c, bc_alignment_offset c] @ le_bytes 2 (bc_min_io_size c) @
     le_bytes 4 (bc_opt_io_size c) @ [bc_writeback c, bc_reserved c] @ le_bytes 2 (bc_numqueues c)"

definition vblk_get_config :: "'s vhd_bdev \<Rightarrow> nat \<Rightarrow> nat \<Rightarrow> u8 list" where
  "vblk_get_config dev = get_config_bytes (virtio_blk_config_bytes (vblk_config (bd_vblk dev)))"

definition vblk_dispatch_requests ::
  "kernel \<Rightarrow> int \<Rightarrow> 's vhd_bdev \<Rightarrow> 's vqst \<Rightarrow> (status \<times> 's vqst) option" where
  "vblk_dispatch_requests K now dev st = virtio_blk_dispatch_requests K now (bd_vblk dev) st"

text \<open>\<open>vring\<close> is the vring that contains the queue.\<close>

definition vblk_handle_request ::
  "(nat \<Rightarrow> 'v \<Rightarrow> 'v) \<Rightarrow> nat \<Rightarrow> vhd_bio \<Rightarrow> vhd_request_queue \<times> 'v \<Rightarrow> status \<times> vhd_request_queue \<times> 'v" where
  "vblk_handle_request inc vring bio st = vhd_enqueue_block_request inc (bio\<lparr>bio_vring := vring\<rparr>) st"

text \<open>
  Registration: the checks, and the device handed to \<open>vhd_vdev_init_server\<close>, whose result is
  an argument.
\<close>

definition vhd_register_blockdev ::
  "('s vhd_bdev \<Rightarrow> status) \<Rightarrow> (vhd_bio \<Rightarrow> 's \<Rightarrow> status \<times> 's) \<Rightarrow> vhd_bdev_info \<Rightarrow> 's vhd_bdev option" where
  "vhd_register_blockdev init_server handle_request bdev =
     (if bdi_total_blocks bdev = 0 \<or> bdi_block_size bdev = 0 then None
      else if bdi_block_size bdev AND (bdi_block_size bdev - 1) \<noteq> 0 \<or>
              bdi_block_size bdev mod VHD_SECTOR_SIZE \<noteq> 0 then None
      else
        (let dev = \<lparr>bd_bdev = None, bd_vblk = virtio_blk_init_dev bdev handle_request\<rparr>
         in case init_server dev of Inl _ \<Rightarrow> None | Inr _ \<Rightarrow> Some (dev\<lparr>bd_bdev := Some bdev\<rparr>)))"

section \<open>The configuration space\<close>


section \<open>Registration\<close>

lemma ucast_min:
  fixes x :: u64
  assumes "b < 2 ^ LENGTH('a::len)" and "b < 2 ^ 64"
  shows "unat (ucast (min x (word_of_nat b)) :: 'a word) = min (unat x) b"
proof -
  have b: "unat (word_of_nat b :: u64) = b" using assms(2) by (rule unat_of_nat_64)
  then have "unat (min x (word_of_nat b)) = min (unat x) b" by (simp add: min_def word_le_nat_alt)
  moreover have "min (unat x) b < 2 ^ LENGTH('a)" using assms(1) by simp
  ultimately show ?thesis by (simp add: unsigned_ucast_eq take_bit_nat_eq_self)
qed

lemma ceil_div:
  fixes c d :: u64
  assumes "0 < unat c" and "1 < unat d"
  shows "unat (1 + (c - 1) div d) = 1 + (unat c - 1) div unat d"
proof -
  have "1 \<le> c" using assms(1) by (simp add: word_le_nat_alt Suc_le_eq)
  then have "unat ((c - 1) div d) = (unat c - 1) div unat d" by (simp add: unat_div unat_sub_le)
  moreover have "(unat c - 1) div unat d < unat c" using assms div_le_dividend [of "unat c - 1" "unat d"] by linarith
  ultimately show ?thesis using unat_less_64 [of c] by (subst unat_add_64) simp_all
qed

text \<open>The geometry fields hold the minima they are computed from.\<close>

lemma geometry_fits:
  fixes cap :: u64
  assumes "0 < unat cap"
  shows "unat (ucast (min cap 255) :: u8) = min (unat cap) 255"
    "unat (ucast (min (1 + (cap - 1) div 255) 255) :: u8) = min (1 + (unat cap - 1) div 255) 255"
    "unat (ucast (min (1 + (cap - 1) div 65025) 65535) :: u16) = min (1 + (unat cap - 1) div 65025) 65535"
  using ucast_min [of 255 cap, where ?'a = 8] ucast_min [of 255 "1 + (cap - 1) div 255", where ?'a = 8]
    ucast_min [of 65535 "1 + (cap - 1) div 65025", where ?'a = 16] ceil_div [OF assms, of 255] ceil_div [OF assms, of 65025]
  by simp_all

text \<open>
  C34: what registration computes. A block device is registered only if its block size is a
  power of two and at least a sector; unless the size in sectors overflows 64 bits, the
  capacity in sectors is then the size of the device, the physical block exponent gives the
  block size back, and the geometry fields are the intended minima, untruncated.
\<close>

theorem register_blockdev_capacity:
  assumes r: "vhd_register_blockdev init_server handle_request bdev = Some dev"
    and fits: "unat (bdi_total_blocks bdev) * (unat (bdi_block_size bdev) div 512) < 2 ^ 64"
  shows "let c = vblk_config (bd_vblk dev); cap = unat (bc_capacity c) in
    512 * cap = unat (bdi_total_blocks bdev) * unat (bdi_block_size bdev) \<and> 0 < cap \<and>
    512 * 2 ^ unat (bc_physical_block_exp c) = unat (bdi_block_size bdev) \<and>
    unat (bc_sectors c) = min cap 255 \<and> unat (bc_heads c) = min (1 + (cap - 1) div 255) 255 \<and>
    unat (bc_cylinders c) = min (1 + (cap - 1) div 65025) 65535"
proof -
  let ?bs = "bdi_block_size bdev" and ?tot = "bdi_total_blocks bdev"
  have nz: "?tot \<noteq> 0" "?bs \<noteq> 0" "?bs AND (?bs - 1) = 0" "?bs mod 512 = 0"
    and dev: "vblk_config (bd_vblk dev) = vblk_config (virtio_blk_init_dev bdev handle_request)"
    using r by (auto simp: vhd_register_blockdev_def VHD_SECTOR_SIZE_def Let_def split: if_splits sum.splits)
  obtain j where j: "unat ?bs = 2 ^ j" "j < 32" using one_bit [OF nz(2,3)] by blast
  have "(2 :: nat) ^ 9 dvd 2 ^ j" using nz(4) j(1) by (simp add: word_unat_eq_iff unat_mod_distrib dvd_eq_mod_eq_0)
  then have "9 \<le> j" by (rule power_dvd_imp_le) simp
  let ?e = "j - 9"
  have bs: "unat ?bs = 512 * 2 ^ ?e" using j(1) \<open>9 \<le> j\<close> power_add [of "2 :: nat" 9 ?e] by simp
  have "vhd_find_first_bit32 (drop_bit 9 ?bs) = ?e"
  proof (rule first_bit32_pow)
    have "unat (drop_bit 9 ?bs) = unat ?bs div 512" by (simp only: unat_drop_bit_eq) (simp add: drop_bit_eq_div)
    then show "unat (drop_bit 9 ?bs) = 2 ^ ?e" using bs by simp
  qed (use j(2) in simp)
  moreover have e: "unat (word_of_nat ?e :: u8) = ?e" using j(2) by (simp add: unat_of_nat)
  moreover define cap where "cap = push_bit ?e ?tot"
  ultimately have c: "bc_capacity (vblk_config (bd_vblk dev)) = cap" "bc_physical_block_exp (vblk_config (bd_vblk dev)) = word_of_nat ?e"
    "bc_sectors (vblk_config (bd_vblk dev)) = ucast (min cap 255)"
    "bc_heads (vblk_config (bd_vblk dev)) = ucast (min (1 + (cap - 1) div 255) 255)"
    "bc_cylinders (vblk_config (bd_vblk dev)) = ucast (min (1 + (cap - 1) div 65025) 65535)"
    using dev by (simp_all add: virtio_blk_init_dev_def VHD_SECTOR_SHIFT_def Let_def)
  have "unat ?tot * 2 ^ ?e < 2 ^ 64" using fits bs by simp
  then have cap: "unat cap = unat ?tot * 2 ^ ?e"
    by (simp only: cap_def unsigned_push_bit_eq) (simp add: push_bit_eq_mult take_bit_nat_eq_self)
  moreover have "0 < unat cap" using cap nz(1) by (simp add: unat_gt_0)
  ultimately show ?thesis
    unfolding Let_def c using geometry_fits [of cap] bs e by simp
qed

theorem register_blockdev_capacity_witness:
  "\<exists>dev. vhd_register_blockdev (\<lambda>_. OK) (\<lambda>bio bios. (OK, bios @ [bio])) demo_bdev = Some dev \<and>
     512 * unat (bc_capacity (vblk_config (bd_vblk dev))) = 8192"
proof -
  have "\<exists>dev. vhd_register_blockdev (\<lambda>_. OK) (\<lambda>bio bios. (OK, bios @ [bio])) demo_bdev = Some dev"
    by (simp add: vhd_register_blockdev_def demo_bdev_def VHD_SECTOR_SIZE_def Let_def)
  moreover have "unat (bdi_total_blocks demo_bdev) * (unat (bdi_block_size demo_bdev) div 512) < 2 ^ 64"
    by (simp add: demo_bdev_def)
  ultimately show ?thesis
    using register_blockdev_capacity [of "\<lambda>_. OK" "\<lambda>bio bios. (OK, bios @ [bio])" demo_bdev]
    by (auto simp: Let_def demo_bdev_def)
qed

text \<open>
  The generic device starts listening inside of \<open>vhd_vdev_init_server\<close>, on the control thread.
  On the device as that function gets it, asking for the features follows a NULL pointer.
\<close>

lemma features_before_registered:
  "vhd_register_blockdev (\<lambda>dev. if vblk_get_features dev = None then Inl EFAULT else OK) handle_request bdev = None"
  by (simp add: vhd_register_blockdev_def vblk_get_features_def Let_def)

end
