(* ===== verification/Vhost_Proto.thy ===== *)
theory Vhost_Proto
  imports VirtioFs Blockdev
begin

text \<open>
  The vhost-user protocol: the constants and structures of \<open>vhost_spec.h\<close>, and the functions of
  \<open>vdev.c\<close> that receive and send messages over the control socket.
\<close>

section \<open>Constants\<close>

definition VHOST_USER_MSG_FLAGS_REPLY :: u32 where "VHOST_USER_MSG_FLAGS_REPLY = 5"
definition VHOST_USER_MSG_FLAGS_REPLY_ACK :: u32 where "VHOST_USER_MSG_FLAGS_REPLY_ACK = 8"

definition VHOST_USER_PROTOCOL_F_MQ :: nat where "VHOST_USER_PROTOCOL_F_MQ = 0"
definition VHOST_USER_PROTOCOL_F_LOG_SHMFD :: nat where "VHOST_USER_PROTOCOL_F_LOG_SHMFD = 1"
definition VHOST_USER_PROTOCOL_F_REPLY_ACK :: nat where "VHOST_USER_PROTOCOL_F_REPLY_ACK = 3"
definition VHOST_USER_PROTOCOL_F_CONFIG :: nat where "VHOST_USER_PROTOCOL_F_CONFIG = 9"
definition VHOST_USER_PROTOCOL_F_INFLIGHT_SHMFD :: nat where "VHOST_USER_PROTOCOL_F_INFLIGHT_SHMFD = 12"

definition VHOST_F_LOG_ALL :: nat where "VHOST_F_LOG_ALL = 26"
definition VIRTIO_F_RING_EVENT_IDX :: nat where "VIRTIO_F_RING_EVENT_IDX = 29"
definition VHOST_USER_F_PROTOCOL_FEATURES :: nat where "VHOST_USER_F_PROTOCOL_FEATURES = 30"

definition VHOST_VRING_INVALID_FD :: u64 where "VHOST_VRING_INVALID_FD = 0x100"
definition VHOST_VRING_IDX_MASK :: u64 where "VHOST_VRING_IDX_MASK = 0xff"
definition VHOST_USER_MEM_REGIONS_MAX :: u32 where "VHOST_USER_MEM_REGIONS_MAX = 8"
definition VHOST_USER_MAX_FDS :: nat where "VHOST_USER_MAX_FDS = 8"
definition VHOST_CONFIG_HDR_SIZE :: u32 where "VHOST_CONFIG_HDR_SIZE = 12"

definition g_default_features :: u64 where
  "g_default_features = push_bit VHOST_USER_F_PROTOCOL_FEATURES 1 OR push_bit VHOST_F_LOG_ALL 1"

definition g_default_protocol_features :: u64 where
  "g_default_protocol_features =
     push_bit VHOST_USER_PROTOCOL_F_MQ 1 OR push_bit VHOST_USER_PROTOCOL_F_LOG_SHMFD 1 OR
     push_bit VHOST_USER_PROTOCOL_F_REPLY_ACK 1 OR push_bit VHOST_USER_PROTOCOL_F_CONFIG 1 OR
     push_bit VHOST_USER_PROTOCOL_F_INFLIGHT_SHMFD 1"

definition has_feature :: "u64 \<Rightarrow> nat \<Rightarrow> bool" where
  "has_feature features_qword feature_bit = (features_qword AND push_bit feature_bit 1 \<noteq> 0)"

section \<open>Messages\<close>

record vhost_user_msg_hdr =
  mh_req :: u32
  mh_flags :: u32
  mh_size :: u32

record vhost_user_mem_region =
  mreg_guest_addr :: u64
  mreg_size :: u64
  mreg_user_addr :: u64
  mreg_mmap_offset :: u64

record vhost_user_mem_desc =
  md_nregions :: u32
  md_regions :: "nat \<Rightarrow> vhost_user_mem_region"

record vhost_user_vring_state =
  vs_index :: u32
  vs_num :: u32

record vhost_user_vring_addr =
  va_index :: u32
  va_flags :: u32
  va_desc_addr :: u64
  va_used_addr :: u64
  va_avail_addr :: u64
  va_used_gpa_base :: u64

record vhost_user_config_space =
  cs_offset :: u32
  cs_size :: u32
  cs_flags :: u32
  cs_payload :: "u8 list"

record vhost_user_inflight_desc =
  id_mmap_size :: u64
  id_mmap_offset :: u64
  id_num_queues :: u16
  id_queue_size :: u16

record vhost_user_log =
  lg_size :: u64
  lg_offset :: u64

text \<open>
  The union of payloads is the record of its views: what each of the types reads from the bytes
  of the message. A handler uses one view; theorems for arbitrary views hold for those of any
  bytes. The fields of a message shorter than its type are whatever the buffer held.
\<close>

record vhost_user_msg_payload =
  mp_u64 :: u64
  mp_config :: vhost_user_config_space
  mp_mem_desc :: vhost_user_mem_desc
  mp_vring_state :: vhost_user_vring_state
  mp_vring_addr :: vhost_user_vring_addr
  mp_inflight_desc :: vhost_user_inflight_desc
  mp_log :: vhost_user_log

text \<open>The payloads the device sends.\<close>

datatype reply =
    ReplyU64 u64
  | ReplyVringState vhost_user_vring_state
  | ReplyConfig vhost_user_config_space
  | ReplyInflight vhost_user_inflight_desc

text \<open>Request numbers.\<close>

definition VHOST_USER_NONE :: u32 where "VHOST_USER_NONE = 0"
definition VHOST_USER_GET_FEATURES :: u32 where "VHOST_USER_GET_FEATURES = 1"
definition VHOST_USER_SET_FEATURES :: u32 where "VHOST_USER_SET_FEATURES = 2"
definition VHOST_USER_SET_OWNER :: u32 where "VHOST_USER_SET_OWNER = 3"
definition VHOST_USER_SET_MEM_TABLE :: u32 where "VHOST_USER_SET_MEM_TABLE = 5"
definition VHOST_USER_SET_LOG_BASE :: u32 where "VHOST_USER_SET_LOG_BASE = 6"
definition VHOST_USER_SET_VRING_NUM :: u32 where "VHOST_USER_SET_VRING_NUM = 8"
definition VHOST_USER_SET_VRING_ADDR :: u32 where "VHOST_USER_SET_VRING_ADDR = 9"
definition VHOST_USER_SET_VRING_BASE :: u32 where "VHOST_USER_SET_VRING_BASE = 10"
definition VHOST_USER_GET_VRING_BASE :: u32 where "VHOST_USER_GET_VRING_BASE = 11"
definition VHOST_USER_SET_VRING_KICK :: u32 where "VHOST_USER_SET_VRING_KICK = 12"
definition VHOST_USER_SET_VRING_CALL :: u32 where "VHOST_USER_SET_VRING_CALL = 13"
definition VHOST_USER_SET_VRING_ERR :: u32 where "VHOST_USER_SET_VRING_ERR = 14"
definition VHOST_USER_GET_PROTOCOL_FEATURES :: u32 where "VHOST_USER_GET_PROTOCOL_FEATURES = 15"
definition VHOST_USER_SET_PROTOCOL_FEATURES :: u32 where "VHOST_USER_SET_PROTOCOL_FEATURES = 16"
definition VHOST_USER_GET_QUEUE_NUM :: u32 where "VHOST_USER_GET_QUEUE_NUM = 17"
definition VHOST_USER_GET_CONFIG :: u32 where "VHOST_USER_GET_CONFIG = 24"
definition VHOST_USER_GET_INFLIGHT_FD :: u32 where "VHOST_USER_GET_INFLIGHT_FD = 31"
definition VHOST_USER_SET_INFLIGHT_FD :: u32 where "VHOST_USER_SET_INFLIGHT_FD = 32"

lemmas vhost_reqs = VHOST_USER_NONE_def VHOST_USER_GET_FEATURES_def VHOST_USER_SET_FEATURES_def
  VHOST_USER_SET_OWNER_def VHOST_USER_SET_MEM_TABLE_def VHOST_USER_SET_LOG_BASE_def VHOST_USER_SET_VRING_NUM_def
  VHOST_USER_SET_VRING_ADDR_def VHOST_USER_SET_VRING_BASE_def VHOST_USER_GET_VRING_BASE_def
  VHOST_USER_SET_VRING_KICK_def VHOST_USER_SET_VRING_CALL_def VHOST_USER_SET_VRING_ERR_def
  VHOST_USER_GET_PROTOCOL_FEATURES_def VHOST_USER_SET_PROTOCOL_FEATURES_def VHOST_USER_GET_QUEUE_NUM_def
  VHOST_USER_GET_CONFIG_def VHOST_USER_GET_INFLIGHT_FD_def VHOST_USER_SET_INFLIGHT_FD_def

section \<open>Receiving\<close>

text \<open>
  The system calls' results are arguments, those of the calls that were not interrupted.
  \<open>recvmsg\<close> gives an error, or the number of bytes (0 at the end of the stream) with the
  header and the descriptors that came in a control message; \<open>read\<close> gives an error, or the
  number of bytes with the payload. The result is a byte count or an error, and for the caller
  the header and the payload, the descriptors passed on and those closed.
\<close>

type_synonym recvmsg_result = "(nat \<times> vhost_user_msg_hdr \<times> int list) res"
type_synonym read_result = "(nat \<times> vhost_user_msg_payload) res"

definition recv_payload ::
  "u32 \<Rightarrow> read_result \<Rightarrow> nat \<Rightarrow> (nat \<times> vhost_user_msg_payload option) res" where
  "recv_payload sz rd ret =
     (case rd of
        Inl e \<Rightarrow> Inl e
      | Inr (rlen, payload) \<Rightarrow> if rlen \<noteq> unat sz then Inl EIO else Inr (ret + rlen, Some payload))"

definition net_recv_msg ::
  "nat \<Rightarrow> nat \<Rightarrow> recvmsg_result \<Rightarrow> read_result
    \<Rightarrow> (nat \<times> vhost_user_msg_hdr option \<times> vhost_user_msg_payload option) res \<times> int list \<times> int list" where
  "net_recv_msg len num_fds recvmsg rd =
     (let (ret, fds_rcvd) =
            (case recvmsg of
               Inl e \<Rightarrow> (Inl e, [])
             | Inr (n, hdr, fds) \<Rightarrow>
                 if n = 0 then (Inr (0, None, None), [])
                 else if n \<noteq> 12 then (Inl EIO, fds)
                 else if unat (mh_size hdr) > len then (Inl EMSGSIZE, fds)
                 else case recv_payload (mh_size hdr) rd n of
                        Inl e \<Rightarrow> (Inl e, fds)
                      | Inr (k, payload) \<Rightarrow> (Inr (k, Some hdr, payload), fds));
          num = (case ret of Inl _ \<Rightarrow> 0 | Inr (k, _) \<Rightarrow> if k = 0 then 0 else min num_fds (length fds_rcvd))
      in (ret, take num fds_rcvd, drop num fds_rcvd))"

section \<open>Sending\<close>

definition net_send_msg :: "u32 \<Rightarrow> nat \<Rightarrow> nat res \<Rightarrow> nat res" where
  "net_send_msg sz num_fds sendmsg =
     (if num_fds > VHOST_USER_MAX_FDS then Inl EMSGSIZE
      else case sendmsg of
             Inl e \<Rightarrow> Inl e
           | Inr n \<Rightarrow> if n \<noteq> 12 + unat sz then Inl EIO else Inr n)"

section \<open>Properties\<close>

text \<open>
  C27: no descriptor is lost in receiving a message. Every descriptor the kernel delivered is
  either passed on or closed, in order and not both; descriptors are passed on only with a
  complete message, one that has a whole header and a payload of the length the header says,
  not longer than the buffer, and at most as many as the caller has room for.
\<close>

theorem recv_conserves_fds:
  assumes "recvmsg = Inr (n, hdr, fds)" and "n \<noteq> 0"
    and "net_recv_msg len num_fds recvmsg rd = (ret, passed, closed)"
  shows "passed @ closed = fds \<and> length passed \<le> num_fds \<and>
    (case ret of
       Inl _ \<Rightarrow> passed = []
     | Inr (k, h, p) \<Rightarrow> h = Some hdr \<and> n = 12 \<and> k = 12 + unat (mh_size hdr) \<and> unat (mh_size hdr) \<le> len \<and>
         (\<exists>payload. p = Some payload \<and> rd = Inr (unat (mh_size hdr), payload)))"
  using assms by (auto simp: net_recv_msg_def recv_payload_def Let_def split: if_splits sum.splits prod.splits)

theorem recv_conserves_fds_witness:
  "net_recv_msg 272 8 (Inr (12, \<lparr>mh_req = 3, mh_flags = 1, mh_size = 8\<rparr>, [5, 6])) (Inl EIO) = (Inl EIO, [], [5, 6])"
proof -
  let ?hdr = "\<lparr>mh_req = 3, mh_flags = 1, mh_size = 8\<rparr>"
  obtain ret passed closed where r: "net_recv_msg 272 8 (Inr (12, ?hdr, [5, 6])) (Inl EIO) = (ret, passed, closed)"
    using prod_cases3 by blast
  from recv_conserves_fds [OF refl _ this] have "passed @ closed = [5, 6]"
    "case ret of Inl _ \<Rightarrow> passed = [] | Inr _ \<Rightarrow> False" by (auto split: sum.splits prod.splits)
  moreover have "ret = Inl EIO" using r by (simp add: net_recv_msg_def recv_payload_def)
  ultimately show ?thesis using r by simp
qed

end
