(* ===== verification/Vdev.thy ===== *)
theory Vdev
  imports Vhost_Proto
begin

text \<open>
  The generic device of \<open>vdev.c\<close>: vrings, the handlers of the vhost-user messages, the bottom
  halves through which the control thread and the request queue's thread talk to each other, and
  the life cycle of a device.

  A device lives in a world: the device itself, the machine, the request queue with its lists,
  the requests that the backend has, the bottom halves pending in the two event loops (most
  recent first), and the record of what
  the device did to the outside (messages sent, descriptors closed, and so on). Operations are
  functions on the world; where the code fails an assertion or follows a NULL pointer the result
  is \<open>None\<close>. An event handler that the code has a pointer to is \<open>Some attached\<close>.
\<close>

section \<open>Vrings and devices\<close>

record vring_addr_cache =
  ac_avail :: u64
  ac_desc :: u64
  ac_used :: u64

record shadow_virtq =
  sh_flags :: u32
  sh_desc :: u64
  sh_avail :: u64
  sh_used :: u64
  sh_mm :: nat
  sh_log :: "nat option"

text \<open>The only callback ever stored in \<open>on_drain_cb\<close> is \<open>vhost_send_vring_base\<close>.\<close>

record vhd_vring =
  vr_kickfd :: int
  vr_callfd :: int
  vr_errfd :: int
  vr_started_in_ctl :: bool
  vr_disconnecting :: bool
  vr_kick_handler :: "bool option"
  vr_on_drain_cb :: bool
  vr_addr_cache :: vring_addr_cache
  vr_shadow_vq :: shadow_virtq
  vr_vq :: virtio_virtq
  vr_started_in_rq :: bool
  vr_num_in_flight :: u16
  vr_num_in_flight_at_stop :: u16

text \<open>The functions that may be stored in \<open>handle_complete\<close>.\<close>

datatype completion_fn =
    SetFeaturesComplete
  | SetMemTableComplete
  | SetVringCallComplete
  | SetVringKickComplete
  | SetVringKickFailComplete
  | SetVringErrComplete
  | SetVringAddrComplete
  | SetLogBaseComplete

record vhd_vdev =
  vd_listenfd :: int
  vd_listen_handler :: "bool option"
  vd_connfd :: int
  vd_conn_handler :: "bool option"
  vd_req :: u32
  vd_timerfd :: int
  vd_timer_handler :: "bool option"
  vd_supported_protocol_features :: u64
  vd_negotiated_protocol_features :: u64
  vd_supported_features :: u64
  vd_negotiated_features :: u64
  vd_num_queues :: u16
  vd_vrings :: "vhd_vring list"
  vd_map_cb :: "mem_cb option"
  vd_unmap_cb :: "mem_cb option"
  vd_memmap :: "nat option"
  vd_old_memmap :: "nat option"
  vd_memlog :: "nat option"
  vd_old_memlog :: "nat option"
  vd_inflight_mem :: u64
  vd_inflight_size :: u64
  vd_num_vrings_in_flight :: u16
  vd_num_vrings_started :: u16
  vd_num_vrings_handling_msg :: u16
  vd_handle_complete :: "completion_fn option"
  vd_ack_pending :: bool
  vd_keep_fd :: int
  vd_work :: bool

text \<open>The one-shot bottom halves of the two loops, with the index of their vring.\<close>

datatype rq_bh = VringSyncToVirtq nat | VringStart nat | VringStop nat
datatype ctl_bh = VringMarkMsgHandled nat | VringMarkStopped nat | VringMarkDrained nat | VringStartFailed nat

datatype action =
    Sent vhost_user_msg_hdr reply "int list"
  | Closed int
  | InflightUnmapped u64
  | LogUnmapped nat
  | LogFreed nat
  | WorkDone status
  | Released

record vworld =
  vw_vdev :: vhd_vdev
  vw_machine :: machine
  vw_queue :: vhd_request_queue
  vw_backend :: "vhd_bio list"
  vw_rq :: "rq_bh list"
  vw_ctl :: "ctl_bh list"
  vw_out :: "action list"
  vw_next_log :: nat

text \<open>
  The device type, as seen by the generic device: its features (\<open>None\<close> where asking for them
  crashes), its configuration space, and the dispatch of the requests of a vring.
\<close>

record vhd_vdev_type =
  vt_get_features :: "u64 option"
  vt_get_config :: "nat \<Rightarrow> nat \<Rightarrow> u8 list"
  vt_dispatch_requests :: "nat \<Rightarrow> vworld \<Rightarrow> (status \<times> vworld) option"

text \<open>
  What the kernel answers while one event is handled: whether a descriptor can be added to the
  epoll set, how much \<open>sendmsg\<close> sends of so many bytes, and so on. Taking a registered
  descriptor off an epoll set succeeds.
\<close>

record sys =
  sy_epoll_add :: "int \<Rightarrow> bool"
  sy_dup :: "int res"
  sy_sendmsg :: "nat \<Rightarrow> nat res"
  sy_memfd_create :: "int res"
  sy_ftruncate :: status
  sy_mmap :: "u64 res"
  sy_regions :: "u64 \<Rightarrow> inflight_split_region"
  sy_log :: "(nat \<Rightarrow> u64) res"
  sy_accept :: "int res"
  sy_timerfd :: "int res"

abbreviation vring :: "nat \<Rightarrow> vworld \<Rightarrow> vhd_vring" where
  "vring i w \<equiv> vd_vrings (vw_vdev w) ! i"

definition upd_vdev :: "(vhd_vdev \<Rightarrow> vhd_vdev) \<Rightarrow> vworld \<Rightarrow> vworld" where
  "upd_vdev f w = w\<lparr>vw_vdev := f (vw_vdev w)\<rparr>"

definition upd_vring :: "nat \<Rightarrow> (vhd_vring \<Rightarrow> vhd_vring) \<Rightarrow> vworld \<Rightarrow> vworld" where
  "upd_vring i f = upd_vdev (\<lambda>vd. vd\<lparr>vd_vrings := (vd_vrings vd)[i := f (vd_vrings vd ! i)]\<rparr>)"

definition upd_machine :: "(machine \<Rightarrow> machine) \<Rightarrow> vworld \<Rightarrow> vworld" where
  "upd_machine f w = w\<lparr>vw_machine := f (vw_machine w)\<rparr>"

definition act :: "action \<Rightarrow> vworld \<Rightarrow> vworld" where
  "act a w = w\<lparr>vw_out := vw_out w @ [a]\<rparr>"

definition run_in_rq :: "rq_bh \<Rightarrow> vworld \<Rightarrow> vworld" where
  "run_in_rq bh w = w\<lparr>vw_rq := bh # vw_rq w\<rparr>"

definition run_in_ctl :: "ctl_bh \<Rightarrow> vworld \<Rightarrow> vworld" where
  "run_in_ctl bh w = w\<lparr>vw_ctl := bh # vw_ctl w\<rparr>"

text \<open>\<open>replace_fd\<close> on a descriptor field: close the old descriptor if there is one.\<close>

definition replace_fd :: "int \<Rightarrow> vworld \<Rightarrow> vworld" where
  "replace_fd fd w = (if fd \<ge> 0 then act (Closed fd) w else w)"

text \<open>Attaching a handler fails an assertion if it is attached already.\<close>

definition attach_handler :: "bool \<Rightarrow> bool option \<Rightarrow> bool option option" where
  "attach_handler ok h = (case h of None \<Rightarrow> None | Some attached \<Rightarrow> if attached then None else Some (Some ok))"

definition vring_inflight_buf_size :: "u16 \<Rightarrow> u64" where
  "vring_inflight_buf_size num = 16 + ucast num * 16"

section \<open>The dataplane side of a vring\<close>

definition vring_kick :: "vhd_vdev_type \<Rightarrow> nat \<Rightarrow> vworld \<Rightarrow> vworld option" where
  "vring_kick ty i w = do {
     (ret, w1) \<leftarrow> vt_dispatch_requests ty i
       (upd_machine (\<lambda>m. m\<lparr>m_eventfd := (m_eventfd m)(vr_kickfd (vring i w) := 0)\<rparr>) w);
     (case ret of
        Inr _ \<Rightarrow> Some w1
      | Inl _ \<Rightarrow>
          if vr_kick_handler (vring i w1) = None then None
          else Some (upd_vring i (vr_kick_handler_update (\<lambda>_. Some False)) w1))
   }"

definition vring_update_shadow_vq_addrs :: "nat \<Rightarrow> nat \<Rightarrow> vworld \<Rightarrow> (status \<times> vworld) option" where
  "vring_update_shadow_vq_addrs i mid w = do {
     mm \<leftarrow> ms_maps (m_mms (vw_machine w)) mid;
     (let c = vr_addr_cache (vring i w)
      in case (uva_to_ptr mm (ac_desc c), uva_to_ptr mm (ac_used c), uva_to_ptr mm (ac_avail c)) of
           (Some desc, Some used, Some avail) \<Rightarrow>
             Some (OK, upd_vring i (\<lambda>v. v\<lparr>vr_shadow_vq := (vr_shadow_vq v)
               \<lparr>sh_desc := desc, sh_used := used, sh_avail := avail, sh_mm := mid\<rparr>\<rparr>) w)
         | _ \<Rightarrow> Some (Inl EINVAL, w))
   }"

definition vring_sync_to_virtq :: "nat \<Rightarrow> vworld \<Rightarrow> vworld" where
  "vring_sync_to_virtq i w =
     (let v = vring i w; s = vr_shadow_vq v;
          vq1 = (vr_vq v)\<lparr>vq_flags := sh_flags s, vq_desc := sh_desc s, vq_used := sh_used s,
                  vq_avail := sh_avail s, vq_mm := sh_mm s, vq_log := sh_log s\<rparr>;
          (vq2, m2) = virtq_set_notify_fd vq1 (vr_callfd v) (vw_machine w)
      in upd_vring i (\<lambda>v. v\<lparr>vr_vq := vq2\<rparr>) (w\<lparr>vw_machine := m2\<rparr>))"

definition vring_handle_msg :: "nat \<Rightarrow> rq_bh \<Rightarrow> vworld \<Rightarrow> vworld" where
  "vring_handle_msg i handler_bh w =
     (if \<not> vr_started_in_ctl (vring i w) then w
      else run_in_rq handler_bh
        (upd_vdev (\<lambda>vd. vd\<lparr>vd_num_vrings_handling_msg := vd_num_vrings_handling_msg vd + 1\<rparr>) w))"

definition vring_sync_to_virtq_bh :: "nat \<Rightarrow> vworld \<Rightarrow> vworld" where
  "vring_sync_to_virtq_bh i w = run_in_ctl (VringMarkMsgHandled i) (vring_sync_to_virtq i w)"

definition vhd_vring_inc_in_flight :: "nat \<Rightarrow> vworld \<Rightarrow> vworld" where
  "vhd_vring_inc_in_flight i = upd_vring i (\<lambda>v. v\<lparr>vr_num_in_flight := vr_num_in_flight v + 1\<rparr>)"

definition vhd_vring_dec_in_flight :: "nat \<Rightarrow> vworld \<Rightarrow> vworld" where
  "vhd_vring_dec_in_flight i w =
     (let w1 = upd_vring i (\<lambda>v. v\<lparr>vr_num_in_flight := vr_num_in_flight v - 1\<rparr>) w
      in if vr_num_in_flight (vring i w1) = 0 \<and> \<not> vr_started_in_rq (vring i w1)
         then run_in_ctl (VringMarkDrained i) w1 else w1)"

text \<open>
  The completion handler of a request of this device. Requests with a vring number that the
  device does not have belong to other devices on the same queue, and leave this one alone.
\<close>

definition bio_complete :: "kernel \<Rightarrow> vhd_bio \<Rightarrow> vworld \<Rightarrow> vworld option" where
  "bio_complete K bio w =
     (if bio_vring bio \<ge> length (vd_vrings (vw_vdev w)) then Some w
      else
        (let vq = vr_vq (vring (bio_vring bio) w) in
         map_option (\<lambda>m. w\<lparr>vw_machine := m\<rparr>)
           (case bio_owner bio of
              BlkIo iov \<Rightarrow> complete_io K vq iov (bio_status bio) (vw_machine w)
            | FsIo iov out_hdr \<Rightarrow> complete_request K vq iov out_hdr (bio_status bio) (vw_machine w))))"

definition bio_dec :: "nat \<Rightarrow> vworld \<Rightarrow> vworld option" where
  "bio_dec i w = Some (if i \<ge> length (vd_vrings (vw_vdev w)) then w else vhd_vring_dec_in_flight i w)"

definition vring_cancel_queued :: "kernel \<Rightarrow> nat \<Rightarrow> vworld \<Rightarrow> vworld option" where
  "vring_cancel_queued K i w = do {
     (rq, w1) \<leftarrow> vhd_cancel_queued_requests (req_complete (bio_complete K) bio_dec) i (vw_queue w) w;
     Some (w1\<lparr>vw_queue := rq\<rparr>)
   }"

definition vring_stop_bh :: "kernel \<Rightarrow> nat \<Rightarrow> vworld \<Rightarrow> vworld option" where
  "vring_stop_bh K i w =
     (if \<not> vr_started_in_rq (vring i w) then Some w
      else if vr_kick_handler (vring i w) = None then None
      else do {
        w1 \<leftarrow> Some (upd_vring i (\<lambda>v. v\<lparr>vr_kick_handler := None, vr_started_in_rq := False\<rparr>) w);
        w2 \<leftarrow> (if vr_disconnecting (vring i w1) then vring_cancel_queued K i w1 else Some w1);
        (let w3 = run_in_ctl (VringMarkStopped i)
               (upd_vring i (\<lambda>v. v\<lparr>vr_num_in_flight_at_stop := vr_num_in_flight v\<rparr>) w2)
         in Some (if vr_num_in_flight (vring i w3) = 0 then run_in_ctl (VringMarkDrained i) w3 else w3))
      })"

definition vring_start_bh :: "sys \<Rightarrow> nat \<Rightarrow> vworld \<Rightarrow> vworld option" where
  "vring_start_bh sy i w =
     (if vr_started_in_rq (vring i w) then None
      else if vr_disconnecting (vring i w) \<or> \<not> sy_epoll_add sy (vr_kickfd (vring i w)) then Some (run_in_ctl (VringStartFailed i) w)
      else Some (run_in_ctl (VringMarkMsgHandled i)
        (upd_vring i (\<lambda>v. v\<lparr>vr_started_in_rq := True\<rparr>)
          (vring_sync_to_virtq i (upd_vring i (\<lambda>v. v\<lparr>vr_kick_handler := Some True\<rparr>) w)))))"

section \<open>Life cycle of a device\<close>

definition inflight_mem_cleanup :: "vworld \<Rightarrow> vworld" where
  "inflight_mem_cleanup w =
     (if vd_inflight_mem (vw_vdev w) = 0 then w
      else upd_vdev (vd_inflight_mem_update (\<lambda>_. 0)) (act (InflightUnmapped (vd_inflight_mem (vw_vdev w))) w))"

definition vdev_complete_work :: "status \<Rightarrow> vworld \<Rightarrow> vworld option" where
  "vdev_complete_work ret w =
     (if \<not> vd_work (vw_vdev w) then None
      else Some (upd_vdev (vd_work_update (\<lambda>_. False)) (act (WorkDone ret) w)))"

definition memmap_put :: "kernel \<Rightarrow> nat option \<Rightarrow> vworld \<Rightarrow> vworld" where
  "memmap_put K mm w =
     (case mm of
        None \<Rightarrow> w
      | Some mid \<Rightarrow> upd_machine (\<lambda>m. m\<lparr>m_mms := vhd_memmap_unref K mid (m_mms m)\<rparr>) w)"

definition vhd_memlog_free :: "nat \<Rightarrow> vworld \<Rightarrow> vworld" where
  "vhd_memlog_free l w =
     upd_machine (\<lambda>m. m\<lparr>m_logs := (m_logs m)(l := None)\<rparr>) (act (LogFreed l) (act (LogUnmapped l) w))"

definition vdev_cleanup :: "kernel \<Rightarrow> vworld \<Rightarrow> vworld option" where
  "vdev_cleanup K w =
     (let vd = vw_vdev w in
      if vd_num_vrings_handling_msg vd \<noteq> 0 \<or> vd_req vd \<noteq> VHOST_USER_NONE \<or> vd_old_memmap vd \<noteq> None \<or>
         vd_old_memlog vd \<noteq> None \<or> vd_keep_fd vd \<noteq> - 1 then None
      else
        (let w1 = inflight_mem_cleanup w;
             w2 = upd_vdev (vd_memmap_update (\<lambda>_. None)) (memmap_put K (vd_memmap vd) w1);
             w3 = (case vd_memlog vd of
                     None \<Rightarrow> w2
                   | Some l \<Rightarrow> upd_vdev (vd_memlog_update (\<lambda>_. None)) (vhd_memlog_free l w2));
             w4 = (if vd_timer_handler vd = None then w3
                   else upd_vdev (\<lambda>vd. vd\<lparr>vd_timer_handler := None, vd_timerfd := - 1\<rparr>)
                     (replace_fd (vd_timerfd vd) w3))
         in Some (upd_vdev (vd_connfd_update (\<lambda>_. - 1)) (replace_fd (vd_connfd vd) w4))))"

definition vhd_vdev_release :: "vworld \<Rightarrow> vworld" where
  "vhd_vdev_release w = act Released w"

definition vdev_vrings_stopped :: "vworld \<Rightarrow> vworld option" where
  "vdev_vrings_stopped w =
     (if vd_listen_handler (vw_vdev w) = None then vdev_complete_work OK w else Some w)"

definition vdev_drained :: "kernel \<Rightarrow> sys \<Rightarrow> vworld \<Rightarrow> vworld option" where
  "vdev_drained K sy w = do {
     w1 \<leftarrow> vdev_cleanup K w;
     (if vd_listen_handler (vw_vdev w1) = None then Some (vhd_vdev_release w1)
      else do {
        h \<leftarrow> attach_handler (sy_epoll_add sy (vd_listenfd (vw_vdev w1))) (vd_listen_handler (vw_vdev w1));
        Some (upd_vdev (vd_listen_handler_update (\<lambda>_. h)) w1)
      })
   }"

definition vdev_maybe_vrings_stopped :: "vworld \<Rightarrow> vworld option" where
  "vdev_maybe_vrings_stopped w =
     (if vd_num_vrings_started (vw_vdev w) = 0 then vdev_vrings_stopped w else Some w)"

definition vdev_in_use :: "vhd_vdev \<Rightarrow> bool" where
  "vdev_in_use vd \<longleftrightarrow> vd_num_vrings_in_flight vd \<noteq> 0 \<or> vd_num_vrings_handling_msg vd \<noteq> 0 \<or>
     vd_conn_handler vd \<noteq> None"

definition vdev_maybe_drained :: "kernel \<Rightarrow> sys \<Rightarrow> vworld \<Rightarrow> vworld option" where
  "vdev_maybe_drained K sy w =
     (if \<not> vdev_in_use (vw_vdev w) \<and> vd_num_vrings_started (vw_vdev w) = 0 then vdev_drained K sy w
      else Some w)"

definition vring_reset :: "nat \<Rightarrow> vworld \<Rightarrow> vworld" where
  "vring_reset i w =
     (let v = vring i w
      in upd_vring i (\<lambda>v. v\<lparr>vr_callfd := - 1, vr_kickfd := - 1, vr_errfd := - 1,
              vr_shadow_vq := \<lparr>sh_flags = 0, sh_desc = 0, sh_avail = 0, sh_used = 0, sh_mm = 0, sh_log = None\<rparr>,
              vr_addr_cache := \<lparr>ac_avail = 0, ac_desc = 0, ac_used = 0\<rparr>,
              vr_num_in_flight_at_stop := 0, vr_disconnecting := False\<rparr>)
           (replace_fd (vr_errfd v) (replace_fd (vr_kickfd v) (replace_fd (vr_callfd v) w))))"

definition vring_disconnect :: "nat \<Rightarrow> vworld \<Rightarrow> vworld" where
  "vring_disconnect i w =
     (if vr_started_in_ctl (vring i w)
      then run_in_rq (VringStop i) (upd_vring i (vr_disconnecting_update (\<lambda>_. True)) w)
      else vring_reset i w)"

text \<open>A loop over all vrings.\<close>

definition for_vrings :: "(nat \<Rightarrow> vworld \<Rightarrow> vworld) \<Rightarrow> vworld \<Rightarrow> vworld" where
  "for_vrings f w = fold f [0..<unat (vd_num_queues (vw_vdev w))] w"

definition vdev_disconnect :: "kernel \<Rightarrow> sys \<Rightarrow> vworld \<Rightarrow> vworld option" where
  "vdev_disconnect K sy w =
     (if vd_conn_handler (vw_vdev w) = None then Some w
      else do {
        w1 \<leftarrow> vdev_maybe_vrings_stopped
          (for_vrings vring_disconnect (upd_vdev (vd_conn_handler_update (\<lambda>_. None)) w));
        vdev_maybe_drained K sy w1
      })"

section \<open>Replies\<close>

definition vdev_handle_start :: "sys \<Rightarrow> u32 \<Rightarrow> bool \<Rightarrow> vworld \<Rightarrow> vworld option" where
  "vdev_handle_start sy req ack_pending w =
     (if vd_conn_handler (vw_vdev w) = None then None
      else do {
        h \<leftarrow> attach_handler (sy_epoll_add sy (vd_timerfd (vw_vdev w))) (vd_timer_handler (vw_vdev w));
        Some (upd_vdev (\<lambda>vd. vd\<lparr>vd_conn_handler := Some False, vd_req := req,
          vd_ack_pending := ack_pending, vd_timer_handler := h\<rparr>) w)
      })"

definition vdev_handle_finish :: "sys \<Rightarrow> vworld \<Rightarrow> vworld option" where
  "vdev_handle_finish sy w =
     (if vd_timer_handler (vw_vdev w) = None then None
      else do {
        w1 \<leftarrow> Some (upd_vdev (\<lambda>vd. vd\<lparr>vd_timer_handler := Some False, vd_ack_pending := False,
          vd_req := VHOST_USER_NONE\<rparr>) w);
        (if vd_conn_handler (vw_vdev w1) = None then Some w1
         else do {
           h \<leftarrow> attach_handler (sy_epoll_add sy (vd_connfd (vw_vdev w1))) (vd_conn_handler (vw_vdev w1));
           Some (upd_vdev (vd_conn_handler_update (\<lambda>_. h)) w1)
         })
      })"

definition vhost_send_fds ::
  "sys \<Rightarrow> vhost_user_msg_hdr \<Rightarrow> reply \<Rightarrow> int list \<Rightarrow> bool \<Rightarrow> vworld \<Rightarrow> (status \<times> vworld) option" where
  "vhost_send_fds sy hdr payload fds handle_finish w =
     (case net_send_msg (mh_size hdr) (length fds) (sy_sendmsg sy (12 + unat (mh_size hdr))) of
        Inl e \<Rightarrow> Some (Inl e, w)
      | Inr _ \<Rightarrow>
          (let w1 = act (Sent hdr payload fds) w
           in if handle_finish then map_option (Pair OK) (vdev_handle_finish sy w1) else Some (OK, w1)))"

definition vhost_reply_fds :: "sys \<Rightarrow> reply \<Rightarrow> u32 \<Rightarrow> int list \<Rightarrow> vworld \<Rightarrow> (status \<times> vworld) option" where
  "vhost_reply_fds sy payload len fds w =
     vhost_send_fds sy \<lparr>mh_req = vd_req (vw_vdev w), mh_flags = VHOST_USER_MSG_FLAGS_REPLY, mh_size = len\<rparr>
       payload fds True w"

definition vhost_reply :: "sys \<Rightarrow> reply \<Rightarrow> u32 \<Rightarrow> vworld \<Rightarrow> (status \<times> vworld) option" where
  "vhost_reply sy payload len = vhost_reply_fds sy payload len []"

definition vhost_reply_u64 :: "sys \<Rightarrow> u64 \<Rightarrow> vworld \<Rightarrow> (status \<times> vworld) option" where
  "vhost_reply_u64 sy u = vhost_reply sy (ReplyU64 u) 8"

definition vhost_send_vring_base :: "sys \<Rightarrow> nat \<Rightarrow> vworld \<Rightarrow> (status \<times> vworld) option" where
  "vhost_send_vring_base sy i w =
     vhost_reply sy (ReplyVringState \<lparr>vs_index = word_of_nat i, vs_num = ucast (vq_last_avail (vr_vq (vring i w)))\<rparr>)
       8 w"

definition msg_ack_needed :: "vhd_vdev \<Rightarrow> u32 \<Rightarrow> bool" where
  "msg_ack_needed vd flags \<longleftrightarrow>
     has_feature (vd_negotiated_protocol_features vd) VHOST_USER_PROTOCOL_F_REPLY_ACK \<and>
     flags AND VHOST_USER_MSG_FLAGS_REPLY_ACK \<noteq> 0"

text \<open>The result that is acknowledged is an \<open>int\<close> that the reply sign-extends.\<close>

definition vhost_ack :: "sys \<Rightarrow> int \<Rightarrow> vworld \<Rightarrow> (status \<times> vworld) option" where
  "vhost_ack sy ret w =
     (if \<not> vd_ack_pending (vw_vdev w) then map_option (Pair OK) (vdev_handle_finish sy w)
      else vhost_reply_u64 sy (word_of_int ret) w)"

section \<open>Completing a message\<close>

definition set_mem_table_complete :: "kernel \<Rightarrow> sys \<Rightarrow> vworld \<Rightarrow> (status \<times> vworld) option" where
  "set_mem_table_complete K sy w =
     vhost_ack sy 0 (upd_vdev (vd_old_memmap_update (\<lambda>_. None)) (memmap_put K (vd_old_memmap (vw_vdev w)) w))"

definition set_vring_call_complete :: "sys \<Rightarrow> vworld \<Rightarrow> (status \<times> vworld) option" where
  "set_vring_call_complete sy w =
     vhost_ack sy 0 (upd_vdev (vd_keep_fd_update (\<lambda>_. - 1)) (replace_fd (vd_keep_fd (vw_vdev w)) w))"

definition set_vring_err_complete :: "sys \<Rightarrow> vworld \<Rightarrow> (status \<times> vworld) option" where
  "set_vring_err_complete sy w =
     vhost_ack sy 0 (upd_vdev (vd_keep_fd_update (\<lambda>_. - 1)) (replace_fd (vd_keep_fd (vw_vdev w)) w))"

text \<open>The old log is freed with \<open>vhd_free\<close>, which does not unmap it.\<close>

definition set_log_base_complete :: "sys \<Rightarrow> vworld \<Rightarrow> (status \<times> vworld) option" where
  "set_log_base_complete sy w =
     vhost_reply_u64 sy 0
       (case vd_old_memlog (vw_vdev w) of
          None \<Rightarrow> w
        | Some l \<Rightarrow> upd_vdev (vd_old_memlog_update (\<lambda>_. None))
            (upd_machine (\<lambda>m. m\<lparr>m_logs := (m_logs m)(l := None)\<rparr>) (act (LogFreed l) w)))"

definition handle_complete :: "kernel \<Rightarrow> sys \<Rightarrow> completion_fn \<Rightarrow> vworld \<Rightarrow> (status \<times> vworld) option" where
  "handle_complete K sy c w =
     (case c of
        SetFeaturesComplete \<Rightarrow> vhost_ack sy 0 w
      | SetMemTableComplete \<Rightarrow> set_mem_table_complete K sy w
      | SetVringCallComplete \<Rightarrow> set_vring_call_complete sy w
      | SetVringKickComplete \<Rightarrow> vhost_ack sy 0 w
      | SetVringKickFailComplete \<Rightarrow> vhost_ack sy (- int (errno_code EIO)) w
      | SetVringErrComplete \<Rightarrow> set_vring_err_complete sy w
      | SetVringAddrComplete \<Rightarrow> vhost_ack sy 0 w
      | SetLogBaseComplete \<Rightarrow> set_log_base_complete sy w)"

definition vring_mark_msg_handled :: "kernel \<Rightarrow> sys \<Rightarrow> vworld \<Rightarrow> vworld option" where
  "vring_mark_msg_handled K sy w =
     (if vd_num_vrings_handling_msg (vw_vdev w) = 0 then None
      else
        (let w1 = upd_vdev (\<lambda>vd. vd\<lparr>vd_num_vrings_handling_msg := vd_num_vrings_handling_msg vd - 1\<rparr>) w
         in if vd_num_vrings_handling_msg (vw_vdev w1) \<noteq> 0 then Some w1
            else do {
              c \<leftarrow> vd_handle_complete (vw_vdev w1);
              (ret, w2) \<leftarrow> handle_complete K sy c w1;
              (let w3 = upd_vdev (vd_handle_complete_update (\<lambda>_. None)) w2
               in case ret of Inl _ \<Rightarrow> vdev_disconnect K sy w3 | Inr _ \<Rightarrow> Some w3)
            }))"

definition vring_mark_stopped :: "kernel \<Rightarrow> sys \<Rightarrow> vworld \<Rightarrow> vworld option" where
  "vring_mark_stopped K sy w =
     (if vd_num_vrings_started (vw_vdev w) = 0 then None
      else do {
        w1 \<leftarrow> vdev_maybe_vrings_stopped
          (upd_vdev (\<lambda>vd. vd\<lparr>vd_num_vrings_started := vd_num_vrings_started vd - 1\<rparr>) w);
        vdev_maybe_drained K sy w1
      })"

definition vring_on_drain :: "kernel \<Rightarrow> sys \<Rightarrow> nat \<Rightarrow> vworld \<Rightarrow> vworld option" where
  "vring_on_drain K sy i w =
     (if \<not> vr_on_drain_cb (vring i w) then Some w
      else do {
        (ret, w1) \<leftarrow> vhost_send_vring_base sy i w;
        (let w2 = upd_vring i (vr_on_drain_cb_update (\<lambda>_. False)) w1
         in case ret of Inl _ \<Rightarrow> vdev_disconnect K sy w2 | Inr _ \<Rightarrow> Some w2)
      })"

definition vring_mark_drained :: "kernel \<Rightarrow> sys \<Rightarrow> nat \<Rightarrow> vworld \<Rightarrow> vworld option" where
  "vring_mark_drained K sy i w =
     (if \<not> vr_started_in_ctl (vring i w) then None
      else do {
        w1 \<leftarrow> vring_on_drain K sy i (upd_vring i (vr_started_in_ctl_update (\<lambda>_. False)) w);
        vq \<leftarrow> virtio_virtq_release (vr_vq (vring i w1));
        w2 \<leftarrow> Some (vring_reset i (upd_vring i (vr_vq_update (\<lambda>_. vq)) w1));
        (if vd_num_vrings_in_flight (vw_vdev w2) = 0 then None
         else vdev_maybe_drained K sy
           (upd_vdev (\<lambda>vd. vd\<lparr>vd_num_vrings_in_flight := vd_num_vrings_in_flight vd - 1\<rparr>) w2))
      })"

definition vring_start_failed_bh :: "kernel \<Rightarrow> sys \<Rightarrow> nat \<Rightarrow> vworld \<Rightarrow> vworld option" where
  "vring_start_failed_bh K sy i w = do {
     w1 \<leftarrow> vring_mark_msg_handled K sy (upd_vdev (vd_handle_complete_update (\<lambda>_. Some SetVringKickFailComplete)) w);
     w2 \<leftarrow> vring_mark_stopped K sy w1;
     vring_mark_drained K sy i w2
   }"

end
