(* ===== verification/Vdev_Msg.thy ===== *)
theory Vdev_Msg
  imports Vdev
begin

text \<open>
  The message handlers of \<open>vdev.c\<close>, the reading of messages and connections, starting and
  stopping a device, and the device types of \<open>blockdev.c\<close> and \<open>fs.c\<close> on the world of the device.
  A handler gets the payload, the size of the message and the descriptors that came with it.
\<close>

section \<open>Features\<close>

type_synonym msg_handler = "vhost_user_msg_payload \<Rightarrow> u32 \<Rightarrow> int list \<Rightarrow> vworld \<Rightarrow> (status \<times> vworld) option"

definition vhost_get_protocol_features :: "sys \<Rightarrow> msg_handler" where
  "vhost_get_protocol_features sy payload sz fds w =
     (if fds \<noteq> [] then Some (Inl EINVAL, w)
      else vhost_reply_u64 sy (vd_supported_protocol_features (vw_vdev w)) w)"

definition vhost_set_protocol_features :: "sys \<Rightarrow> msg_handler" where
  "vhost_set_protocol_features sy payload sz fds w =
     (let features = mp_u64 payload; vd = vw_vdev w in
      if fds \<noteq> [] \<or> sz < 8 then Some (Inl EINVAL, w)
      else if vd_num_vrings_in_flight vd \<noteq> 0 then Some (Inl EISCONN, w)
      else if features AND NOT (vd_supported_protocol_features vd) \<noteq> 0 then Some (Inl ENOTSUP, w)
      else vhost_ack sy 0 (upd_vdev (vd_negotiated_protocol_features_update (\<lambda>_. features)) w))"

definition vhost_get_features :: "sys \<Rightarrow> vhd_vdev_type \<Rightarrow> msg_handler" where
  "vhost_get_features sy ty payload sz fds w =
     (if fds \<noteq> [] then Some (Inl EINVAL, w)
      else do {
        features \<leftarrow> vt_get_features ty;
        w1 \<leftarrow> Some (upd_vdev (vd_supported_features_update (\<lambda>_. g_default_features OR features)) w);
        vhost_reply_u64 sy (vd_supported_features (vw_vdev w1)) w1
      })"

definition update_shadow_vq_memlog :: "vworld \<Rightarrow> vworld" where
  "update_shadow_vq_memlog w =
     (let vd = vw_vdev w;
          log = (if has_feature (vd_negotiated_features vd) VHOST_F_LOG_ALL then vd_memlog vd else None)
      in for_vrings (\<lambda>i. upd_vring i (vr_shadow_vq_update (sh_log_update (\<lambda>_. log)))) w)"

text \<open>Have every started vring take over the changed attributes, and complete the message then.\<close>

definition sync_vrings :: "completion_fn \<Rightarrow> vworld \<Rightarrow> vworld" where
  "sync_vrings c w =
     for_vrings (\<lambda>i. vring_handle_msg i (VringSyncToVirtq i)) (upd_vdev (vd_handle_complete_update (\<lambda>_. Some c)) w)"

definition vhost_set_features :: "sys \<Rightarrow> msg_handler" where
  "vhost_set_features sy payload sz fds w =
     (let features = mp_u64 payload; vd = vw_vdev w;
          has_event_idx = has_feature features VIRTIO_F_RING_EVENT_IDX;
          supported = vd_supported_features vd AND NOT (push_bit VHOST_USER_F_PROTOCOL_FEATURES 1);
          changed_features = (vd_negotiated_features vd XOR features) AND NOT (push_bit VHOST_F_LOG_ALL 1);
          w1 = upd_vdev (vd_negotiated_features_update (\<lambda>_. features)) w
      in if fds \<noteq> [] \<or> sz < 8 then Some (Inl EINVAL, w)
         else if features AND NOT supported \<noteq> 0 then Some (Inl ENOTSUP, w)
         else if vd_num_vrings_in_flight vd = 0
         then vhost_ack sy 0 (for_vrings (\<lambda>i. upd_vring i (vr_vq_update (vq_has_event_idx_update (\<lambda>_. has_event_idx)))) w1)
         else if changed_features \<noteq> 0 then Some (Inl EISCONN, w)
         else Some (OK, sync_vrings SetFeaturesComplete (update_shadow_vq_memlog w1)))"

definition vhost_set_owner :: "sys \<Rightarrow> msg_handler" where
  "vhost_set_owner sy payload sz fds w =
     (if fds \<noteq> [] then Some (Inl EINVAL, w) else vhost_ack sy 0 w)"

section \<open>Memory\<close>

text \<open>The two loops of \<open>vhost_set_mem_table\<close>: map the regions, and resolve the rings in them.\<close>

primrec add_slots ::
  "kernel \<Rightarrow> nat \<Rightarrow> vhost_user_mem_desc \<Rightarrow> int list \<Rightarrow> nat list \<Rightarrow> mm_store \<Rightarrow> (status \<times> mm_store) option" where
  "add_slots K mid desc fds [] S = Some (OK, S)"
| "add_slots K mid desc fds (i # is) S = do {
     mm \<leftarrow> ms_maps S mid;
     (let r = md_regions desc i;
          (ret, A, mm1) = vhd_memmap_add_slot K (ms_as S) mm (mreg_guest_addr r) (mreg_user_addr r)
            (mreg_size r) (fds ! i) (mreg_mmap_offset r);
          S1 = S\<lparr>ms_as := A, ms_maps := (ms_maps S)(mid := Some mm1)\<rparr>
      in case ret of Inl e \<Rightarrow> Some (Inl e, S1) | Inr _ \<Rightarrow> add_slots K mid desc fds is S1)
   }"

primrec update_shadow_addrs :: "nat \<Rightarrow> nat list \<Rightarrow> vworld \<Rightarrow> (status \<times> vworld) option" where
  "update_shadow_addrs mid [] w = Some (OK, w)"
| "update_shadow_addrs mid (i # is) w =
     (if \<not> vr_started_in_ctl (vring i w) then update_shadow_addrs mid is w
      else do {
        (ret, w1) \<leftarrow> vring_update_shadow_vq_addrs i mid w;
        (case ret of Inl e \<Rightarrow> Some (Inl e, w1) | Inr _ \<Rightarrow> update_shadow_addrs mid is w1)
      })"

text \<open>The new map: its identifier and the world that has it, or an error with the map released.\<close>

definition new_memmap ::
  "kernel \<Rightarrow> vhost_user_mem_desc \<Rightarrow> int list \<Rightarrow> vworld \<Rightarrow> (nat res \<times> vworld) option" where
  "new_memmap K desc fds w =
     (let vd = vw_vdev w;
          (mid, S) = vhd_memmap_new (vd_map_cb vd) (vd_unmap_cb vd) (m_mms (vw_machine w))
      in do {
        (ret, S1) \<leftarrow> add_slots K mid desc fds [0..<unat (md_nregions desc)] S;
        w1 \<leftarrow> Some (upd_machine (\<lambda>m. m\<lparr>m_mms := S1\<rparr>) w);
        (ret2, w2) \<leftarrow>
          (case ret of
             Inl e \<Rightarrow> Some (Inl e, w1)
           | Inr _ \<Rightarrow> update_shadow_addrs mid [0..<unat (vd_num_queues vd)] w1);
        (case ret2 of
           Inl e \<Rightarrow> Some (Inl e, memmap_put K (Some mid) w2)
         | Inr _ \<Rightarrow> Some (Inr mid, w2))
      })"

definition vhost_set_mem_table :: "kernel \<Rightarrow> sys \<Rightarrow> msg_handler" where
  "vhost_set_mem_table K sy payload sz fds w =
     (let desc = mp_mem_desc payload in
      if unat sz < 8 + 32 * length fds then Some (Inl EMSGSIZE, w)
      else if md_nregions desc > VHOST_USER_MEM_REGIONS_MAX then Some (Inl EINVAL, w)
      else if unat (md_nregions desc) \<noteq> length fds then Some (Inl EINVAL, w)
      else do {
        (ret, w1) \<leftarrow> new_memmap K desc fds w;
        (case ret of
           Inl e \<Rightarrow> Some (Inl e, w1)
         | Inr mid \<Rightarrow>
             (let w2 = upd_vdev (\<lambda>vd. vd\<lparr>vd_old_memmap := vd_memmap vd, vd_memmap := Some mid\<rparr>) w1
              in if vd_num_vrings_in_flight (vw_vdev w2) = 0 then set_mem_table_complete K sy w2
                 else Some (OK, sync_vrings SetMemTableComplete w2)))
      })"

definition vhost_get_config :: "sys \<Rightarrow> vhd_vdev_type \<Rightarrow> msg_handler" where
  "vhost_get_config sy ty payload sz fds w =
     (let config = mp_config payload in
      if fds \<noteq> [] \<or> sz < VHOST_CONFIG_HDR_SIZE \<or> sz > 268 then Some (Inl EINVAL, w)
      else
        (let bufsize = min (cs_size config) (sz - VHOST_CONFIG_HDR_SIZE);
             bytes = vt_get_config ty (unat bufsize) (unat (cs_offset config))
         in vhost_reply sy (ReplyConfig \<lparr>cs_offset = cs_offset config, cs_size = word_of_nat (length bytes),
              cs_flags = 0, cs_payload = bytes @ replicate (256 - length bytes) 0\<rparr>) sz w))"

definition vhost_get_queue_num :: "sys \<Rightarrow> msg_handler" where
  "vhost_get_queue_num sy payload sz fds w =
     (if fds \<noteq> [] then Some (Inl EINVAL, w)
      else vhost_reply_u64 sy (ucast (vd_num_queues (vw_vdev w))) w)"

section \<open>Vrings\<close>

text \<open>The index of a vring is cut down to 16 bits when it is passed.\<close>

definition get_vring :: "vhd_vdev \<Rightarrow> u16 \<Rightarrow> nat option" where
  "get_vring vd index = (if index \<ge> vd_num_queues vd then None else Some (unat index))"

definition msg_u64_get_vring :: "vhd_vdev \<Rightarrow> vhost_user_msg_payload \<Rightarrow> u32 \<Rightarrow> nat \<Rightarrow> nat option" where
  "msg_u64_get_vring vd payload sz num_fds =
     (let u = mp_u64 payload;
          has_fd = (u AND VHOST_VRING_INVALID_FD = 0);
          vring_idx = ucast (u AND VHOST_VRING_IDX_MASK) :: u8
      in if sz < 8 then None
         else if num_fds \<noteq> (if has_fd then 1 else 0) then None
         else get_vring vd (ucast vring_idx))"

text \<open>The descriptor for a vring: a duplicate of the one that came, if one came.\<close>

definition dup_fd :: "sys \<Rightarrow> int list \<Rightarrow> int res" where
  "dup_fd sy fds = (if fds = [] then Inr (- 1) else sy_dup sy)"

definition vhost_set_vring_call :: "sys \<Rightarrow> msg_handler" where
  "vhost_set_vring_call sy payload sz fds w =
     (case msg_u64_get_vring (vw_vdev w) payload sz (length fds) of
        None \<Rightarrow> Some (Inl EINVAL, w)
      | Some i \<Rightarrow>
          (case dup_fd sy fds of
             Inl e \<Rightarrow> Some (Inl e, w)
           | Inr callfd \<Rightarrow>
               if vd_keep_fd (vw_vdev w) \<noteq> - 1 then None
               else
                 (let w1 = upd_vring i (vr_callfd_update (\<lambda>_. callfd))
                        (upd_vdev (vd_keep_fd_update (\<lambda>_. vr_callfd (vring i w))) w)
                  in if \<not> vr_started_in_ctl (vring i w1)
                     then do {
                       (ret, w2) \<leftarrow> set_vring_call_complete sy w1;
                       (case ret of
                          Inl e \<Rightarrow> Some (Inl e, upd_vring i (vr_callfd_update (\<lambda>_. - 1))
                                      (replace_fd (vr_callfd (vring i w2)) w2))
                        | Inr _ \<Rightarrow> Some (OK, w2))
                     }
                     else Some (OK, vring_handle_msg i (VringSyncToVirtq i)
                       (upd_vdev (vd_handle_complete_update (\<lambda>_. Some SetVringCallComplete)) w1)))))"

definition vhost_set_vring_err :: "sys \<Rightarrow> msg_handler" where
  "vhost_set_vring_err sy payload sz fds w =
     (case msg_u64_get_vring (vw_vdev w) payload sz (length fds) of
        None \<Rightarrow> Some (Inl EINVAL, w)
      | Some i \<Rightarrow>
          (case dup_fd sy fds of
             Inl e \<Rightarrow> Some (Inl e, w)
           | Inr errfd \<Rightarrow>
               if vd_keep_fd (vw_vdev w) \<noteq> - 1 then None
               else
                 (let w1 = upd_vring i (vr_errfd_update (\<lambda>_. errfd))
                        (upd_vdev (vd_keep_fd_update (\<lambda>_. vr_errfd (vring i w))) w)
                  in if \<not> vr_started_in_ctl (vring i w1)
                     then do {
                       (ret, w2) \<leftarrow> set_vring_err_complete sy w1;
                       (case ret of
                          Inl e \<Rightarrow> Some (Inl e, upd_vring i (vr_errfd_update (\<lambda>_. - 1))
                                      (replace_fd (vr_errfd (vring i w2)) w2))
                        | Inr _ \<Rightarrow> Some (OK, w2))
                     }
                     else Some (OK, vring_handle_msg i (VringSyncToVirtq i)
                       (upd_vdev (vd_handle_complete_update (\<lambda>_. Some SetVringErrComplete)) w1)))))"

text \<open>The part of \<open>vhost_set_vring_kick\<close> that sets the queue up and counts the vring as started.\<close>

definition vring_start_in_ctl :: "nat \<Rightarrow> int \<Rightarrow> vworld \<Rightarrow> vworld option" where
  "vring_start_in_ctl i kickfd w =
     (if vr_kickfd (vring i w) \<ge> 0 then None
      else do {
        w1 \<leftarrow> Some (vring_sync_to_virtq i (upd_vring i (vr_kickfd_update (\<lambda>_. kickfd)) w));
        (vq, m) \<leftarrow> virtio_virtq_init (vr_vq (vring i w1)) (vw_machine w1);
        w2 \<leftarrow> Some (upd_vring i (\<lambda>v. v\<lparr>vr_vq := vq, vr_started_in_ctl := True\<rparr>) (w1\<lparr>vw_machine := m\<rparr>));
        Some (upd_vdev (\<lambda>vd. vd\<lparr>vd_num_vrings_started := vd_num_vrings_started vd + 1,
          vd_num_vrings_in_flight := vd_num_vrings_in_flight vd + 1\<rparr>) w2)
      })"

definition vhost_set_vring_kick :: "sys \<Rightarrow> msg_handler" where
  "vhost_set_vring_kick sy payload sz fds w =
     (case msg_u64_get_vring (vw_vdev w) payload sz (length fds) of
        None \<Rightarrow> Some (Inl EINVAL, w)
      | Some i \<Rightarrow>
          if fds = [] then Some (Inl ENOTSUP, w)
          else if vr_started_in_ctl (vring i w) then Some (Inl EISCONN, w)
          else do {
            mid \<leftarrow> vd_memmap (vw_vdev w);
            (ret, w1) \<leftarrow> vring_update_shadow_vq_addrs i mid w;
            (case ret of
               Inl e \<Rightarrow> Some (Inl e, w1)
             | Inr _ \<Rightarrow>
                 (case sy_dup sy of
                    Inl e \<Rightarrow> Some (Inl e, w1)
                  | Inr kickfd \<Rightarrow> do {
                      w2 \<leftarrow> vring_start_in_ctl i kickfd w1;
                      Some (OK, vring_handle_msg i (VringStart i)
                        (upd_vdev (vd_handle_complete_update (\<lambda>_. Some SetVringKickComplete)) w2))
                    }))
          })"

definition vhost_set_vring_num :: "sys \<Rightarrow> msg_handler" where
  "vhost_set_vring_num sy payload sz fds w =
     (let vrstate = mp_vring_state payload in
      if fds \<noteq> [] \<or> sz < 8 then Some (Inl EINVAL, w)
      else case get_vring (vw_vdev w) (ucast (vs_index vrstate)) of
             None \<Rightarrow> Some (Inl EINVAL, w)
           | Some i \<Rightarrow>
               if vr_started_in_ctl (vring i w) then Some (Inl EISCONN, w)
               else vhost_ack sy 0 (upd_vring i (vr_vq_update (vq_qsz_update (\<lambda>_. ucast (vs_num vrstate)))) w))"

definition vhost_set_vring_base :: "sys \<Rightarrow> msg_handler" where
  "vhost_set_vring_base sy payload sz fds w =
     (let vrstate = mp_vring_state payload in
      if fds \<noteq> [] \<or> sz < 8 then Some (Inl EINVAL, w)
      else case get_vring (vw_vdev w) (ucast (vs_index vrstate)) of
             None \<Rightarrow> Some (Inl EINVAL, w)
           | Some i \<Rightarrow>
               if vr_started_in_ctl (vring i w) then Some (Inl EISCONN, w)
               else vhost_ack sy 0 (upd_vring i (vr_vq_update (vq_last_avail_update (\<lambda>_. ucast (vs_num vrstate)))) w))"

definition vhost_get_vring_base :: "sys \<Rightarrow> msg_handler" where
  "vhost_get_vring_base sy payload sz fds w =
     (let vrstate = mp_vring_state payload in
      if fds \<noteq> [] \<or> sz < 8 then Some (Inl EINVAL, w)
      else case get_vring (vw_vdev w) (ucast (vs_index vrstate)) of
             None \<Rightarrow> Some (Inl EINVAL, w)
           | Some i \<Rightarrow>
               if \<not> vr_started_in_ctl (vring i w) then vhost_send_vring_base sy i w
               else Some (OK, run_in_rq (VringStop i) (upd_vring i (vr_on_drain_cb_update (\<lambda>_. True)) w)))"

definition vhost_set_vring_addr :: "sys \<Rightarrow> msg_handler" where
  "vhost_set_vring_addr sy payload sz fds w =
     (let a = mp_vring_addr payload;
          cache = \<lparr>ac_avail = va_avail_addr a, ac_desc = va_desc_addr a, ac_used = va_used_addr a\<rparr>
      in if fds \<noteq> [] \<or> sz < 40 then Some (Inl EINVAL, w)
         else case get_vring (vw_vdev w) (ucast (va_index a)) of
                None \<Rightarrow> Some (Inl EINVAL, w)
              | Some i \<Rightarrow>
                  if \<not> vr_started_in_ctl (vring i w)
                  then vhost_ack sy 0 (upd_vring i (\<lambda>v. v\<lparr>vr_addr_cache := cache,
                         vr_shadow_vq := (vr_shadow_vq v)\<lparr>sh_flags := va_flags a\<rparr>,
                         vr_vq := (vr_vq v)\<lparr>vq_used_gpa_base := va_used_gpa_base a\<rparr>\<rparr>) w)
                  else if vr_addr_cache (vring i w) \<noteq> cache \<or>
                          vq_used_gpa_base (vr_vq (vring i w)) \<noteq> va_used_gpa_base a
                  then Some (Inl EISCONN, w)
                  else Some (OK, vring_handle_msg i (VringSyncToVirtq i)
                         (upd_vdev (vd_handle_complete_update (\<lambda>_. Some SetVringAddrComplete))
                           (upd_vring i (vr_shadow_vq_update (sh_flags_update (\<lambda>_. va_flags a))) w))))"

section \<open>Dirty log and inflight region\<close>

definition vhost_set_log_base :: "sys \<Rightarrow> msg_handler" where
  "vhost_set_log_base sy payload sz fds w =
     (if length fds \<noteq> 1 \<or> sz < 16 then Some (Inl EINVAL, w)
      else case vhd_memlog_new (lg_size (mp_log payload)) (sy_log sy) of
             None \<Rightarrow> Some (Inl EFAULT, w)
           | Some log \<Rightarrow>
               (let l = vw_next_log w;
                    w1 = upd_machine (\<lambda>m. m\<lparr>m_logs := (m_logs m)(l \<mapsto> log)\<rparr>) (w\<lparr>vw_next_log := Suc l\<rparr>);
                    w2 = update_shadow_vq_memlog
                      (upd_vdev (\<lambda>vd. vd\<lparr>vd_old_memlog := vd_memlog vd, vd_memlog := Some l\<rparr>) w1)
                in if vd_num_vrings_in_flight (vw_vdev w2) = 0 then set_log_base_complete sy w2
                   else Some (OK, sync_vrings SetLogBaseComplete w2)))"

text \<open>The addresses of the regions of the queues in a buffer.\<close>

definition region_addr :: "u64 \<Rightarrow> u64 \<Rightarrow> nat \<Rightarrow> u64" where
  "region_addr buf queue_region_size i = buf + word_of_nat i * queue_region_size"

definition inflight_mem_init :: "u64 \<Rightarrow> u64 \<Rightarrow> u16 \<Rightarrow> u16 \<Rightarrow> machine \<Rightarrow> machine" where
  "inflight_mem_init buf queue_region_size num_queues queue_size m =
     m\<lparr>m_inflight := fold (\<lambda>i f. f(region_addr buf queue_region_size i :=
         \<lparr>isr_features = 0, isr_version = 1, isr_desc_num = queue_size, isr_last_batch_head = 0, isr_used_idx = 0,
          isr_desc = \<lambda>_. \<lparr>isd_inflight = 0, isd_next = 0, isd_counter = 0\<rparr>\<rparr>))
       [0..<unat num_queues] (m_inflight m)\<rparr>"

text \<open>A new mapping shows what the file has: \<open>sy_regions\<close>.\<close>

definition inflight_mmap_region :: "sys \<Rightarrow> u64 \<Rightarrow> u16 \<Rightarrow> vworld \<Rightarrow> status \<times> vworld" where
  "inflight_mmap_region sy queue_region_size num_queues w =
     (let mmap_size = queue_region_size * ucast num_queues; w1 = inflight_mem_cleanup w
      in case sy_mmap sy of
           Inl e \<Rightarrow> (Inl e, w1)
         | Inr buf \<Rightarrow>
             (let w2 = upd_machine (\<lambda>m. m\<lparr>m_inflight := fold (\<lambda>i f. let a = region_addr buf queue_region_size i
                     in f(a := sy_regions sy a)) [0..<unat num_queues] (m_inflight m)\<rparr>) w1;
                  num = min num_queues (vd_num_queues (vw_vdev w));
                  w3 = fold (\<lambda>i. upd_vring i (vr_vq_update (vq_inflight_region_update
                     (\<lambda>_. region_addr buf queue_region_size i)))) [0..<unat num] w2
              in (OK, upd_vdev (\<lambda>vd. vd\<lparr>vd_inflight_mem := buf, vd_inflight_size := mmap_size\<rparr>) w3)))"

definition vhost_get_inflight_fd :: "sys \<Rightarrow> msg_handler" where
  "vhost_get_inflight_fd sy payload sz fds w =
     (let idesc = mp_inflight_desc payload;
          queue_region_size = vring_inflight_buf_size (id_queue_size idesc)
      in if fds \<noteq> [] \<or> sz < 24 then Some (Inl EINVAL, w)
         else if vd_num_vrings_in_flight (vw_vdev w) \<noteq> 0 then Some (Inl EISCONN, w)
         else case sy_memfd_create sy of
                Inl e \<Rightarrow> Some (Inl e, w)
              | Inr fd \<Rightarrow> do {
                  (ret, w1) \<leftarrow>
                    (case sy_ftruncate sy of
                       Inl e \<Rightarrow> Some (Inl e, w)
                     | Inr _ \<Rightarrow>
                         (case inflight_mmap_region sy queue_region_size (id_num_queues idesc) w of
                            (Inl e, w1) \<Rightarrow> Some (Inl e, w1)
                          | (Inr _, w1) \<Rightarrow>
                              (let w2 = upd_machine (inflight_mem_init (vd_inflight_mem (vw_vdev w1)) queue_region_size
                                     (id_num_queues idesc) (id_queue_size idesc)) w1
                               in vhost_reply_fds sy (ReplyInflight \<lparr>id_mmap_size = vd_inflight_size (vw_vdev w2),
                                    id_mmap_offset = 0, id_num_queues = 0, id_queue_size = 0\<rparr>) 24 [fd] w2)));
                  Some (ret, act (Closed fd) w1)
                })"

definition vhost_set_inflight_fd :: "sys \<Rightarrow> msg_handler" where
  "vhost_set_inflight_fd sy payload sz fds w =
     (let idesc = mp_inflight_desc payload;
          queue_region_size = vring_inflight_buf_size (id_queue_size idesc)
      in if length fds \<noteq> 1 \<or> sz < 24 then Some (Inl EINVAL, w)
         else if vd_num_vrings_in_flight (vw_vdev w) \<noteq> 0 then Some (Inl EISCONN, w)
         else if id_mmap_offset idesc \<noteq> 0 then Some (Inl EINVAL, w)
         else if id_mmap_size idesc \<noteq> queue_region_size * ucast (id_num_queues idesc) then Some (Inl EINVAL, w)
         else case inflight_mmap_region sy queue_region_size (id_num_queues idesc) w of
                (Inl e, w1) \<Rightarrow> Some (Inl e, w1)
              | (Inr _, w1) \<Rightarrow> vhost_ack sy 0 w1)"

section \<open>Reading messages\<close>

definition vhost_handle_msg :: "kernel \<Rightarrow> sys \<Rightarrow> vhd_vdev_type \<Rightarrow> u32 \<Rightarrow> msg_handler" where
  "vhost_handle_msg K sy ty req =
     (if req = VHOST_USER_GET_FEATURES then vhost_get_features sy ty
      else if req = VHOST_USER_SET_FEATURES then vhost_set_features sy
      else if req = VHOST_USER_SET_OWNER then vhost_set_owner sy
      else if req = VHOST_USER_GET_PROTOCOL_FEATURES then vhost_get_protocol_features sy
      else if req = VHOST_USER_SET_PROTOCOL_FEATURES then vhost_set_protocol_features sy
      else if req = VHOST_USER_GET_CONFIG then vhost_get_config sy ty
      else if req = VHOST_USER_SET_MEM_TABLE then vhost_set_mem_table K sy
      else if req = VHOST_USER_GET_QUEUE_NUM then vhost_get_queue_num sy
      else if req = VHOST_USER_SET_LOG_BASE then vhost_set_log_base sy
      else if req = VHOST_USER_SET_VRING_CALL then vhost_set_vring_call sy
      else if req = VHOST_USER_SET_VRING_KICK then vhost_set_vring_kick sy
      else if req = VHOST_USER_SET_VRING_ERR then vhost_set_vring_err sy
      else if req = VHOST_USER_SET_VRING_NUM then vhost_set_vring_num sy
      else if req = VHOST_USER_SET_VRING_BASE then vhost_set_vring_base sy
      else if req = VHOST_USER_GET_VRING_BASE then vhost_get_vring_base sy
      else if req = VHOST_USER_SET_VRING_ADDR then vhost_set_vring_addr sy
      else if req = VHOST_USER_GET_INFLIGHT_FD then vhost_get_inflight_fd sy
      else if req = VHOST_USER_SET_INFLIGHT_FD then vhost_set_inflight_fd sy
      else (\<lambda>payload sz fds w. Some (Inl ENOTSUP, w)))"

definition close_fds :: "int list \<Rightarrow> vworld \<Rightarrow> vworld" where
  "close_fds fds = fold (\<lambda>fd. act (Closed fd)) fds"

text \<open>One message, with the results of the two system calls that read it.\<close>

definition conn_read ::
  "kernel \<Rightarrow> sys \<Rightarrow> vhd_vdev_type \<Rightarrow> recvmsg_result \<Rightarrow> read_result \<Rightarrow> vworld \<Rightarrow> vworld option" where
  "conn_read K sy ty recvmsg rd w =
     (case net_recv_msg 272 VHOST_USER_MAX_FDS recvmsg rd of
        (ret, fds, closed) \<Rightarrow>
          (let w0 = close_fds closed w in
           case ret of
             Inr (len, Some hdr, Some payload) \<Rightarrow> do {
               w1 \<leftarrow> vdev_handle_start sy (mh_req hdr) (msg_ack_needed (vw_vdev w0) (mh_flags hdr)) w0;
               (ret, w2) \<leftarrow> vhost_handle_msg K sy ty (mh_req hdr) payload (mh_size hdr) fds w1;
               w3 \<leftarrow> Some (close_fds (rev fds) w2);
               (case ret of
                  Inr _ \<Rightarrow> Some w3
                | Inl _ \<Rightarrow> do { w4 \<leftarrow> vdev_handle_finish sy w3; vdev_disconnect K sy w4 })
             }
           | _ \<Rightarrow> vdev_disconnect K sy w0))"

section \<open>Connections\<close>

definition server_read :: "sys \<Rightarrow> vworld \<Rightarrow> vworld option" where
  "server_read sy w =
     (if vd_connfd (vw_vdev w) \<ge> 0 then None
      else case sy_accept sy of
             Inl _ \<Rightarrow> Some w
           | Inr connfd \<Rightarrow>
               if \<not> sy_epoll_add sy connfd then Some (act (Closed connfd) w)
               else case sy_timerfd sy of
                      Inl _ \<Rightarrow> Some (act (Closed connfd) w)
                    | Inr timerfd \<Rightarrow>
                        if \<not> sy_epoll_add sy timerfd then Some (act (Closed connfd) (act (Closed timerfd) w))
                        else if vd_listen_handler (vw_vdev w) = None then None
                        else Some (upd_vdev (\<lambda>vd. vd\<lparr>vd_listen_handler := Some False, vd_connfd := connfd,
                               vd_conn_handler := Some True, vd_timerfd := timerfd, vd_timer_handler := Some False,
                               vd_negotiated_features := 0, vd_negotiated_protocol_features := 0\<rparr>) w))"

definition vdev_start_listening :: "sys \<Rightarrow> vworld \<Rightarrow> status \<times> vworld" where
  "vdev_start_listening sy w =
     (if sy_epoll_add sy (vd_listenfd (vw_vdev w))
      then (OK, upd_vdev (vd_listen_handler_update (\<lambda>_. Some True)) w)
      else (Inl EIO, upd_vdev (vd_listen_handler_update (\<lambda>_. None)) w))"

definition vdev_stop_listening :: "vworld \<Rightarrow> vworld option" where
  "vdev_stop_listening w =
     (if vd_listen_handler (vw_vdev w) = None then None
      else Some (upd_vdev (\<lambda>vd. vd\<lparr>vd_listen_handler := None, vd_listenfd := - 1\<rparr>)
        (replace_fd (vd_listenfd (vw_vdev w)) w)))"

text \<open>
  \<open>sock_create_server\<close> on a path, with the results of \<open>unlink\<close> (a missing file counts as
  success), \<open>socket\<close>, \<open>bind\<close> and \<open>listen\<close>: the result and the descriptors closed.
\<close>

definition sock_create_server ::
  "string \<Rightarrow> status \<Rightarrow> int res \<Rightarrow> status \<Rightarrow> status \<Rightarrow> int res \<times> int list" where
  "sock_create_server path unlink_res socket_res bind_res listen_res =
     (if length path \<ge> 108 then (Inl EINVAL, [])
      else case unlink_res of
             Inl e \<Rightarrow> (Inl e, [])
           | Inr _ \<Rightarrow>
               (case socket_res of
                  Inl e \<Rightarrow> (Inl e, [])
                | Inr fd \<Rightarrow>
                    (case bind_res of
                       Inl e \<Rightarrow> (Inl e, [fd])
                     | Inr _ \<Rightarrow> (case listen_res of Inl e \<Rightarrow> (Inl e, [fd]) | Inr _ \<Rightarrow> (Inr fd, [])))))"

definition vdev_work_fn :: "(vworld \<Rightarrow> vworld option) \<Rightarrow> vworld \<Rightarrow> vworld option" where
  "vdev_work_fn func w =
     (if vd_work (vw_vdev w) then Some (act (WorkDone (Inl EBUSY)) w)
      else func (upd_vdev (vd_work_update (\<lambda>_. True)) w))"

definition vdev_start :: "sys \<Rightarrow> vworld \<Rightarrow> vworld option" where
  "vdev_start sy w = (case vdev_start_listening sy w of (ret, w1) \<Rightarrow> vdev_complete_work ret w1)"

definition init_vring :: vhd_vring where
  "init_vring = \<lparr>vr_kickfd = - 1, vr_callfd = - 1, vr_errfd = - 1, vr_started_in_ctl = False,
     vr_disconnecting = False, vr_kick_handler = None, vr_on_drain_cb = False,
     vr_addr_cache = \<lparr>ac_avail = 0, ac_desc = 0, ac_used = 0\<rparr>,
     vr_shadow_vq = \<lparr>sh_flags = 0, sh_desc = 0, sh_avail = 0, sh_used = 0, sh_mm = 0, sh_log = None\<rparr>,
     vr_vq = zero_virtq, vr_started_in_rq = False, vr_num_in_flight = 0, vr_num_in_flight_at_stop = 0\<rparr>"

definition init_vdev :: "int \<Rightarrow> int \<Rightarrow> mem_cb option \<Rightarrow> mem_cb option \<Rightarrow> vhd_vdev" where
  "init_vdev listenfd max_queues map_cb unmap_cb =
     \<lparr>vd_listenfd = listenfd, vd_listen_handler = None, vd_connfd = - 1, vd_conn_handler = None,
      vd_req = VHOST_USER_NONE, vd_timerfd = 0, vd_timer_handler = None,
      vd_supported_protocol_features = g_default_protocol_features, vd_negotiated_protocol_features = 0,
      vd_supported_features = 0, vd_negotiated_features = 0, vd_num_queues = word_of_int max_queues,
      vd_vrings = replicate (unat (word_of_int max_queues :: u16)) init_vring, vd_map_cb = map_cb, vd_unmap_cb = unmap_cb,
      vd_memmap = None, vd_old_memmap = None, vd_memlog = None, vd_old_memlog = None,
      vd_inflight_mem = 0, vd_inflight_size = 0, vd_num_vrings_in_flight = 0, vd_num_vrings_started = 0,
      vd_num_vrings_handling_msg = 0, vd_handle_complete = None, vd_ack_pending = False, vd_keep_fd = - 1,
      vd_work = False\<rparr>"

text \<open>
  The work of starting is done before the call returns, so the result is the one the work is
  completed with. The machine and the request queue are there already.
\<close>

definition vhd_vdev_init_server ::
  "sys \<Rightarrow> int res \<Rightarrow> int \<Rightarrow> mem_cb option \<Rightarrow> mem_cb option \<Rightarrow> machine \<Rightarrow> vhd_request_queue
    \<Rightarrow> (status \<times> vworld option) option" where
  "vhd_vdev_init_server sy sock max_queues map_cb unmap_cb m rq =
     (if max_queues > uint VHOST_VRING_IDX_MASK + 1 then Some (Inl (EOTHER 1), None)
      else case sock of
             Inl _ \<Rightarrow> Some (Inl (EOTHER 1), None)
           | Inr listenfd \<Rightarrow> do {
               vrings \<leftarrow> vhd_calloc (unat (word_of_int max_queues :: u16)) init_vring;
               w \<leftarrow> vdev_work_fn (vdev_start sy)
                 \<lparr>vw_vdev = (init_vdev listenfd max_queues map_cb unmap_cb)\<lparr>vd_vrings := vrings\<rparr>, vw_machine = m, vw_queue = rq,
                  vw_backend = [], vw_rq = [], vw_ctl = [], vw_out = [], vw_next_log = 0\<rparr>;
               (case last (vw_out w) of
                  WorkDone (Inr _) \<Rightarrow> Some (OK, Some w)
                | WorkDone (Inl e) \<Rightarrow> Some (Inl e, Some (vhd_vdev_release w))
                | _ \<Rightarrow> None)
             })"

definition vdev_stop :: "kernel \<Rightarrow> sys \<Rightarrow> vworld \<Rightarrow> vworld option" where
  "vdev_stop K sy w = do {
     w1 \<leftarrow> vdev_stop_listening w;
     (if vd_conn_handler (vw_vdev w1) \<noteq> None then vdev_disconnect K sy w1
      else do {
        w2 \<leftarrow> vdev_maybe_vrings_stopped w1;
        vdev_maybe_drained K sy w2
      })
   }"

definition vhd_vdev_stop_server :: "kernel \<Rightarrow> sys \<Rightarrow> vworld \<Rightarrow> vworld option" where
  "vhd_vdev_stop_server K sy = vdev_work_fn (vdev_stop K sy)"

definition vhd_vdev_get_queue_stat :: "vhd_vdev \<Rightarrow> u32 \<Rightarrow> vhd_vq_metrics res" where
  "vhd_vdev_get_queue_stat vd queue_num =
     (if unat queue_num \<ge> unat (vd_num_queues vd) then Inl EINVAL
      else Inr (virtio_virtq_get_stat (vr_vq (vd_vrings vd ! unat queue_num))))"

section \<open>Device types\<close>

text \<open>
  Dispatch of a vring's requests: the queue is taken out of the vring and put back; the state of
  the handler is the request queue and the world, whose counters it changes.
\<close>

definition dispatch_on ::
  "((vhd_request_queue \<times> vworld) vqst \<Rightarrow> (status \<times> (vhd_request_queue \<times> vworld) vqst) option)
    \<Rightarrow> nat \<Rightarrow> vworld \<Rightarrow> (status \<times> vworld) option" where
  "dispatch_on dispatch i w = do {
     (ret, vq, m, rq, w1) \<leftarrow> dispatch (vr_vq (vring i w), vw_machine w, vw_queue w, w);
     Some (ret, upd_vring i (vr_vq_update (\<lambda>_. vq)) (w1\<lparr>vw_machine := m, vw_queue := rq\<rparr>))
   }"

definition blk_device :: "vhd_bdev_info \<Rightarrow> nat \<Rightarrow> (vhd_request_queue \<times> vworld) vhd_bdev" where
  "blk_device bdev i = \<lparr>bd_bdev = Some bdev,
     bd_vblk = virtio_blk_init_dev bdev (vblk_handle_request vhd_vring_inc_in_flight i)\<rparr>"

definition g_virtio_blk_vdev_type :: "kernel \<Rightarrow> int \<Rightarrow> vhd_bdev_info \<Rightarrow> vhd_vdev_type" where
  "g_virtio_blk_vdev_type K now bdev = \<lparr>
     vt_get_features = vblk_get_features (blk_device bdev 0),
     vt_get_config = vblk_get_config (blk_device bdev 0),
     vt_dispatch_requests = (\<lambda>i. dispatch_on (vblk_dispatch_requests K now (blk_device bdev i)) i)\<rparr>"

definition fs_device :: "vhd_fsdev_info \<Rightarrow> nat \<Rightarrow> (vhd_request_queue \<times> vworld) vhd_fsdev" where
  "fs_device fsdev i = \<lparr>fd_fsdev = Some fsdev,
     fd_vfs = virtio_fs_init_dev fsdev (vfs_handle_request vhd_vring_inc_in_flight i)\<rparr>"

definition g_virtio_fs_vdev_type :: "kernel \<Rightarrow> int \<Rightarrow> vhd_fsdev_info \<Rightarrow> vhd_vdev_type" where
  "g_virtio_fs_vdev_type K now fsdev = \<lparr>
     vt_get_features = Some (vfs_get_features (fs_device fsdev 0)),
     vt_get_config = vfs_get_config (fs_device fsdev 0),
     vt_dispatch_requests = (\<lambda>i. dispatch_on (vfs_dispatch_requests K now (fs_device fsdev i)) i)\<rparr>"

end
