(* ===== verification/Vdev_Inv.thy ===== *)
theory Vdev_Inv
  imports Vdev_Msg
begin

text \<open>
  The protocol between the control thread and the request queue's thread: the steps of a device
  with its environment, and the invariant that the counters, the flags of the vrings and the
  bottom halves under way satisfy together. The bottom halves of a loop may run in any order.
\<close>

section \<open>Steps\<close>

definition run_rq_bh :: "kernel \<Rightarrow> sys \<Rightarrow> rq_bh \<Rightarrow> vworld \<Rightarrow> vworld option" where
  "run_rq_bh K sy bh w =
     (case bh of
        VringSyncToVirtq i \<Rightarrow> Some (vring_sync_to_virtq_bh i w)
      | VringStart i \<Rightarrow> vring_start_bh sy i w
      | VringStop i \<Rightarrow> vring_stop_bh K i w)"

definition run_ctl_bh :: "kernel \<Rightarrow> sys \<Rightarrow> ctl_bh \<Rightarrow> vworld \<Rightarrow> vworld option" where
  "run_ctl_bh K sy bh w =
     (case bh of
        VringMarkMsgHandled i \<Rightarrow> vring_mark_msg_handled K sy w
      | VringMarkStopped i \<Rightarrow> vring_mark_stopped K sy w
      | VringMarkDrained i \<Rightarrow> vring_mark_drained K sy i w
      | VringStartFailed i \<Rightarrow> vring_start_failed_bh K sy i w)"

text \<open>The bottom half of the request queue, on the requests that the backend has completed.\<close>

definition reap :: "kernel \<Rightarrow> vworld \<Rightarrow> vworld option" where
  "reap K w = do {
     (rq, w1) \<leftarrow> rq_complete_bh (req_complete (bio_complete K) bio_dec) (vw_queue w) w;
     Some (w1\<lparr>vw_queue := rq\<rparr>)
   }"

definition backend_done :: "vhd_bio \<Rightarrow> vhd_bdev_io_result \<Rightarrow> vhd_request_queue \<Rightarrow> vhd_request_queue" where
  "backend_done bio status rq = rq\<lparr>rq_completion := bio\<lparr>bio_status := status\<rparr> # rq_completion rq\<rparr>"

lemma backend_done_complete_bio:
  "vhd_complete_bio bio status (rq, ev) = Some (rq', ev') \<Longrightarrow> rq' = backend_done bio status rq"
  by (auto simp: vhd_complete_bio_def backend_done_def Let_def split: if_splits)

text \<open>
  What can happen: the events of the two loops and what the environment does. The application
  stops a device once.
\<close>

datatype vdev_event =
    Accept
  | Message recvmsg_result read_result
  | Kick nat
  | RqBh rq_bh
  | CtlBh ctl_bh
  | Fetch
  | Complete vhd_bio vhd_bdev_io_result
  | Reap
  | Stop
  | OtherRequest vhd_bio

fun enabled :: "vdev_event \<Rightarrow> vworld \<Rightarrow> bool" where
  "enabled Accept w = (vd_listen_handler (vw_vdev w) = Some True)"
| "enabled (Message rm rd) w = (vd_conn_handler (vw_vdev w) = Some True)"
| "enabled (Kick i) w = (i < length (vd_vrings (vw_vdev w)) \<and> vr_kick_handler (vring i w) = Some True)"
| "enabled (RqBh bh) w = (bh \<in> set (vw_rq w))"
| "enabled (CtlBh bh) w = (bh \<in> set (vw_ctl w))"
| "enabled Fetch w = (rq_submission (vw_queue w) \<noteq> [])"
| "enabled (Complete bio status) w = (bio \<in> set (vw_backend w))"
| "enabled Reap w = (rq_completion (vw_queue w) \<noteq> [])"
| "enabled Stop w = (vd_listen_handler (vw_vdev w) \<noteq> None)"
| "enabled (OtherRequest bio) w = (bio_vring bio \<ge> length (vd_vrings (vw_vdev w)))"

fun perform :: "kernel \<Rightarrow> vhd_vdev_type \<Rightarrow> sys \<Rightarrow> vdev_event \<Rightarrow> vworld \<Rightarrow> vworld option" where
  "perform K ty sy Accept w = server_read sy w"
| "perform K ty sy (Message rm rd) w = conn_read K sy ty rm rd w"
| "perform K ty sy (Kick i) w = vring_kick ty i w"
| "perform K ty sy (RqBh bh) w = run_rq_bh K sy bh (w\<lparr>vw_rq := remove1 bh (vw_rq w)\<rparr>)"
| "perform K ty sy (CtlBh bh) w = run_ctl_bh K sy bh (w\<lparr>vw_ctl := remove1 bh (vw_ctl w)\<rparr>)"
| "perform K ty sy Fetch w = map_option (\<lambda>(bio, rq). w\<lparr>vw_queue := rq, vw_backend := bio # vw_backend w\<rparr>)
     (vhd_dequeue_request (vw_queue w))"
| "perform K ty sy (Complete bio status) w =
     Some (w\<lparr>vw_queue := backend_done bio status (vw_queue w), vw_backend := remove1 bio (vw_backend w)\<rparr>)"
| "perform K ty sy Reap w = reap K w"
| "perform K ty sy Stop w = vhd_vdev_stop_server K sy w"
| "perform K ty sy (OtherRequest bio) w =
     Some (w\<lparr>vw_queue := (vw_queue w)\<lparr>rq_submission := rq_submission (vw_queue w) @ [bio]\<rparr>\<rparr>)"

section \<open>The invariant\<close>

fun is_msg_rq :: "rq_bh \<Rightarrow> bool" where
  "is_msg_rq (VringSyncToVirtq i) = True"
| "is_msg_rq (VringStart i) = True"
| "is_msg_rq (VringStop i) = False"

fun is_msg_ctl :: "ctl_bh \<Rightarrow> bool" where
  "is_msg_ctl (VringMarkMsgHandled i) = True"
| "is_msg_ctl (VringMarkStopped i) = False"
| "is_msg_ctl (VringMarkDrained i) = False"
| "is_msg_ctl (VringStartFailed i) = True"

fun is_start_rq :: "rq_bh \<Rightarrow> bool" where
  "is_start_rq (VringStart i) = True"
| "is_start_rq _ = False"

fun is_stop_ctl :: "ctl_bh \<Rightarrow> bool" where
  "is_stop_ctl (VringMarkStopped i) = True"
| "is_stop_ctl (VringStartFailed i) = True"
| "is_stop_ctl _ = False"

fun rq_vring :: "rq_bh \<Rightarrow> nat" where
  "rq_vring (VringSyncToVirtq i) = i"
| "rq_vring (VringStart i) = i"
| "rq_vring (VringStop i) = i"

fun ctl_vring :: "ctl_bh \<Rightarrow> nat" where
  "ctl_vring (VringMarkMsgHandled i) = i"
| "ctl_vring (VringMarkStopped i) = i"
| "ctl_vring (VringMarkDrained i) = i"
| "ctl_vring (VringStartFailed i) = i"

abbreviation count_if :: "('a \<Rightarrow> bool) \<Rightarrow> 'a list \<Rightarrow> nat" where
  "count_if P xs \<equiv> length (filter P xs)"

text \<open>
  The three counters of the device. While a bottom half runs it is no longer in its list but
  not yet accounted for; the numbers \<open>h\<close> and \<open>s\<close> make up for it.
\<close>

definition counts_ok :: "nat \<Rightarrow> nat \<Rightarrow> vworld \<Rightarrow> bool" where
  "counts_ok h s w \<longleftrightarrow>
     (let vd = vw_vdev w in
      unat (vd_num_queues vd) = length (vd_vrings vd) \<and>
      unat (vd_num_vrings_in_flight vd) = count_if vr_started_in_ctl (vd_vrings vd) \<and>
      unat (vd_num_vrings_handling_msg vd) = count_if is_msg_rq (vw_rq w) + count_if is_msg_ctl (vw_ctl w) + h \<and>
      unat (vd_num_vrings_started vd) =
        count_if vr_started_in_rq (vd_vrings vd) + count_if is_start_rq (vw_rq w) + count_if is_stop_ctl (vw_ctl w) + s \<and>
      (\<forall>bh\<in>set (vw_rq w). rq_vring bh < length (vd_vrings vd)) \<and>
      (\<forall>bh\<in>set (vw_ctl w). ctl_vring bh < length (vd_vrings vd)))"

definition starting :: "nat \<Rightarrow> vworld \<Rightarrow> bool" where
  "starting i w \<longleftrightarrow> VringStart i \<in> set (vw_rq w) \<or> VringStartFailed i \<in> set (vw_ctl w)"

definition n_bios :: "vhd_bio list \<Rightarrow> nat \<Rightarrow> nat" where
  "n_bios bs i = count_if (\<lambda>b. bio_vring b = i) bs"

text \<open>One vring; \<open>bs\<close> are the requests in flight.\<close>

definition vring_ok :: "vhd_bio list \<Rightarrow> vworld \<Rightarrow> nat \<Rightarrow> bool" where
  "vring_ok bs w i \<longleftrightarrow>
     (let v = vring i w in
      (if vr_started_in_ctl v then vq_buffers (vr_vq v) \<noteq> []
       else \<not> vr_started_in_rq v \<and> vr_kickfd v < 0 \<and> \<not> vr_disconnecting v \<and> \<not> vr_on_drain_cb v \<and>
         vq_buffers (vr_vq v) = [] \<and> n_bios bs i = 0 \<and> \<not> starting i w \<and> VringMarkDrained i \<notin> set (vw_ctl w)) \<and>
      (vr_started_in_rq v \<longleftrightarrow> vr_kick_handler v \<noteq> None) \<and>
      (starting i w \<longrightarrow> \<not> vr_started_in_rq v \<and> n_bios bs i = 0) \<and>
      (VringMarkDrained i \<in> set (vw_ctl w) \<longrightarrow>
         \<not> vr_started_in_rq v \<and> n_bios bs i = 0 \<and> \<not> starting i w) \<and>
      count_if ((=) (VringMarkDrained i)) (vw_ctl w) \<le> 1 \<and>
      unat (vr_num_in_flight v) = n_bios bs i)"

text \<open>The message being handled.\<close>

definition msg_ok :: "vworld \<Rightarrow> bool" where
  "msg_ok w \<longleftrightarrow>
     (let vd = vw_vdev w; hc = vd_handle_complete vd in
      if vd_num_vrings_handling_msg vd = 0
      then vd_old_memmap vd = None \<and> vd_old_memlog vd = None \<and> vd_keep_fd vd = - 1
      else hc \<noteq> None \<and> vd_conn_handler vd \<noteq> Some True \<and>
        (vd_old_memmap vd \<noteq> None \<longrightarrow> hc = Some SetMemTableComplete) \<and>
        (vd_old_memlog vd \<noteq> None \<longrightarrow> hc = Some SetLogBaseComplete) \<and>
        (vd_keep_fd vd \<noteq> - 1 \<longrightarrow> hc = Some SetVringCallComplete \<or> hc = Some SetVringErrComplete) \<and>
        ((\<exists>i. starting i w) \<longrightarrow> hc = Some SetVringKickComplete) \<and>
        (hc = Some SetVringKickComplete \<longrightarrow> vd_num_vrings_handling_msg vd = 1) \<and>
        (\<forall>v\<in>set (vd_vrings vd). \<not> vr_on_drain_cb v))"

text \<open>At most one vring has a reply to send once it is drained.\<close>

definition drain_ok :: "vworld \<Rightarrow> bool" where
  "drain_ok w \<longleftrightarrow>
     (let vd = vw_vdev w in
      count_if vr_on_drain_cb (vd_vrings vd) \<le> 1 \<and>
      (count_if vr_on_drain_cb (vd_vrings vd) = 1 \<longrightarrow> vd_conn_handler vd \<noteq> Some True))"

text \<open>The connection and the listening socket.\<close>

definition conn_ok :: "vworld \<Rightarrow> bool" where
  "conn_ok w \<longleftrightarrow>
     (let vd = vw_vdev w in
      (vd_conn_handler vd = Some True \<longrightarrow> vd_req vd = VHOST_USER_NONE \<and> vd_timer_handler vd = Some False) \<and>
      (vd_timer_handler vd = None \<longleftrightarrow> vd_connfd vd < 0) \<and>
      (vd_conn_handler vd \<noteq> None \<longrightarrow> 0 \<le> vd_connfd vd \<and> vd_listen_handler vd \<noteq> None) \<and>
      (vd_connfd vd < 0 \<longrightarrow> vd_req vd = VHOST_USER_NONE \<and> vd_num_vrings_started vd = 0 \<and>
         vd_num_vrings_handling_msg vd = 0 \<and> vd_num_vrings_in_flight vd = 0) \<and>
      (0 \<le> vd_connfd vd \<longrightarrow> vd_listen_handler vd \<noteq> Some True))"

definition core :: "vhd_bio list \<Rightarrow> nat \<Rightarrow> nat \<Rightarrow> vworld \<Rightarrow> bool" where
  "core bs h s w \<longleftrightarrow> counts_ok h s w \<and> (\<forall>i<length (vd_vrings (vw_vdev w)). vring_ok bs w i) \<and>
     msg_ok w \<and> drain_ok w \<and> conn_ok w"

text \<open>A message is being handled only while there is something left to do for it.\<close>

definition busy_ok :: "vworld \<Rightarrow> bool" where
  "busy_ok w \<longleftrightarrow>
     (let vd = vw_vdev w in
      vd_req vd \<noteq> VHOST_USER_NONE \<longrightarrow>
        vd_num_vrings_handling_msg vd \<noteq> 0 \<or> count_if vr_on_drain_cb (vd_vrings vd) = 1)"

text \<open>The application waits for the device to stop until all vrings have stopped.\<close>

definition work_ok :: "vworld \<Rightarrow> bool" where
  "work_ok w \<longleftrightarrow>
     (let vd = vw_vdev w in
      vd_work vd \<longleftrightarrow> vd_listen_handler vd = None \<and> vd_num_vrings_started vd \<noteq> 0)"

text \<open>
  Nothing waits in vain. A vring that was stopped and has no requests left is going to be
  reported, unless a bottom half that reports it is running, which is the case for those in \<open>X\<close>;
  a vring that has to stop is going to be told; and without a connection every vring has to stop.
\<close>

definition due :: "nat set \<Rightarrow> vworld \<Rightarrow> nat \<Rightarrow> bool" where
  "due X w i \<longleftrightarrow>
     (let v = vring i w in
      (vr_started_in_ctl v \<and> \<not> vr_started_in_rq v \<and> vr_num_in_flight v = 0 \<and> i \<notin> X \<longrightarrow>
         starting i w \<or> VringMarkDrained i \<in> set (vw_ctl w)) \<and>
      (vr_started_in_rq v \<and> (vr_on_drain_cb v \<or> vr_disconnecting v) \<longrightarrow> VringStop i \<in> set (vw_rq w)))"

definition parting :: "vworld \<Rightarrow> nat \<Rightarrow> bool" where
  "parting w i \<longleftrightarrow> (vr_started_in_ctl (vring i w) \<longrightarrow> vr_disconnecting (vring i w))"

definition flow :: "nat set \<Rightarrow> vworld \<Rightarrow> bool" where
  "flow X w \<longleftrightarrow> (\<forall>i<length (vd_vrings (vw_vdev w)). due X w i \<and> (vd_conn_handler (vw_vdev w) = None \<longrightarrow> parting w i))"

text \<open>
  A device that lost its client, but was not stopped, has its connection until its vrings are
  drained.
\<close>

definition unmessaged :: "vworld \<Rightarrow> bool" where
  "unmessaged w \<longleftrightarrow>
     (let vd = vw_vdev w in
      vd_conn_handler vd = None \<and> vd_listen_handler vd \<noteq> None \<longrightarrow> vd_num_vrings_handling_msg vd = 0)"

definition open_ok :: "vworld \<Rightarrow> bool" where
  "open_ok w \<longleftrightarrow> unmessaged w \<and>
     (let vd = vw_vdev w in
      vd_conn_handler vd = None \<and> vd_listen_handler vd \<noteq> None \<and> 0 \<le> vd_connfd vd \<longrightarrow>
        vd_num_vrings_in_flight vd \<noteq> 0 \<or> vd_num_vrings_started vd \<noteq> 0)"

definition bios :: "vworld \<Rightarrow> vhd_bio list" where
  "bios w = rq_submission (vw_queue w) @ vw_backend w @ rq_completion (vw_queue w)"

definition vdev_inv :: "vworld \<Rightarrow> bool" where
  "vdev_inv w \<longleftrightarrow> core (bios w) 0 0 w \<and> busy_ok w \<and> work_ok w \<and> flow {} w \<and> open_ok w"

section \<open>What the invariant looks at\<close>

definition vflags :: "vhd_vring \<Rightarrow> bool \<times> bool \<times> bool \<times> bool \<times> bool \<times> bool \<times> bool \<times> u16" where
  "vflags v = (vr_started_in_ctl v, vr_started_in_rq v, vr_kickfd v < 0, vr_kick_handler v \<noteq> None,
     vr_on_drain_cb v, vr_disconnecting v, vq_buffers (vr_vq v) = [], vr_num_in_flight v)"

definition dflags where
  "dflags vd = (vd_num_queues vd, vd_num_vrings_in_flight vd, vd_num_vrings_handling_msg vd,
     vd_num_vrings_started vd, vd_handle_complete vd, vd_conn_handler vd, vd_old_memmap vd, vd_old_memlog vd,
     vd_keep_fd vd, vd_req vd, vd_timer_handler vd, vd_connfd vd, vd_listen_handler vd, vd_work vd)"

definition view where
  "view w = (dflags (vw_vdev w), map vflags (vd_vrings (vw_vdev w)), vw_rq w, vw_ctl w)"

definition unseen :: "vworld \<Rightarrow> vworld \<Rightarrow> bool" where
  "unseen w w' \<longleftrightarrow> view w' = view w \<and> vw_queue w' = vw_queue w \<and> vw_backend w' = vw_backend w"

lemma count_if_vflags:
  assumes "map vflags vs = map vflags vs'" and "\<And>v. P v = Q (vflags v)"
  shows "count_if P vs = count_if P vs'"
proof -
  have "P = (\<lambda>v. Q (vflags v))" using assms(2) by blast
  then have "count_if P us = count_if Q (map vflags us)" for us by (simp add: filter_map comp_def)
  then show ?thesis by (metis assms(1))
qed

lemma view_length: "view w = view w' \<Longrightarrow> length (vd_vrings (vw_vdev w)) = length (vd_vrings (vw_vdev w'))"
  by (auto simp: view_def dest: map_eq_imp_length_eq)

lemma view_nth:
  assumes "view w = view w'" and "i < length (vd_vrings (vw_vdev w'))"
  shows "vflags (vring i w) = vflags (vring i w')"
proof -
  have "map vflags (vd_vrings (vw_vdev w)) ! i = map vflags (vd_vrings (vw_vdev w')) ! i"
    using assms(1) by (simp add: view_def)
  then show ?thesis using assms(2) view_length [OF assms(1)] by simp
qed

lemma view_counts:
  assumes "view w = view w'"
  shows "count_if vr_started_in_ctl (vd_vrings (vw_vdev w)) = count_if vr_started_in_ctl (vd_vrings (vw_vdev w'))"
    and "count_if vr_started_in_rq (vd_vrings (vw_vdev w)) = count_if vr_started_in_rq (vd_vrings (vw_vdev w'))"
    and "count_if vr_on_drain_cb (vd_vrings (vw_vdev w)) = count_if vr_on_drain_cb (vd_vrings (vw_vdev w'))"
proof -
  have m: "map vflags (vd_vrings (vw_vdev w)) = map vflags (vd_vrings (vw_vdev w'))"
    using assms by (simp add: view_def)
  show "count_if vr_started_in_ctl (vd_vrings (vw_vdev w)) = count_if vr_started_in_ctl (vd_vrings (vw_vdev w'))"
    by (rule count_if_vflags [OF m, of _ "\<lambda>f. fst f"]) (simp add: vflags_def)
  show "count_if vr_started_in_rq (vd_vrings (vw_vdev w)) = count_if vr_started_in_rq (vd_vrings (vw_vdev w'))"
    by (rule count_if_vflags [OF m, of _ "\<lambda>f. fst (snd f)"]) (simp add: vflags_def)
  show "count_if vr_on_drain_cb (vd_vrings (vw_vdev w)) = count_if vr_on_drain_cb (vd_vrings (vw_vdev w'))"
    by (rule count_if_vflags [OF m, of _ "\<lambda>f. fst (snd (snd (snd (snd f))))"]) (simp add: vflags_def)
qed

lemma no_drain_iff: "(\<forall>v\<in>set vs. \<not> vr_on_drain_cb v) \<longleftrightarrow> count_if vr_on_drain_cb vs = 0"
  by (induction vs) auto

lemma view_dflags: "view w = view w' \<Longrightarrow> dflags (vw_vdev w) = dflags (vw_vdev w') \<and> vw_rq w = vw_rq w' \<and> vw_ctl w = vw_ctl w'"
  by (simp add: view_def)

lemma counts_ok_view: "view w = view w' \<Longrightarrow> counts_ok h s w = counts_ok h s w'"
  using view_counts [of w w'] view_length [of w w'] view_dflags [of w w']
  by (auto simp: counts_ok_def Let_def dflags_def)

lemma vring_ok_view:
  "view w = view w' \<Longrightarrow> i < length (vd_vrings (vw_vdev w')) \<Longrightarrow> vring_ok bs w i = vring_ok bs w' i"
  using view_nth [of w w' i] view_dflags [of w w']
  by (auto simp: vring_ok_def Let_def vflags_def starting_def)

lemma msg_ok_view: "view w = view w' \<Longrightarrow> msg_ok w = msg_ok w'"
  using view_counts(3) [of w w'] view_dflags [of w w']
  by (auto simp: msg_ok_def Let_def dflags_def no_drain_iff starting_def)

lemma drain_ok_view: "view w = view w' \<Longrightarrow> drain_ok w = drain_ok w'"
  using view_counts(3) [of w w'] view_dflags [of w w'] by (auto simp: drain_ok_def Let_def dflags_def)

lemma conn_ok_view: "view w = view w' \<Longrightarrow> conn_ok w = conn_ok w'"
  using view_dflags [of w w'] by (auto simp: conn_ok_def Let_def dflags_def)

lemma core_view: "view w = view w' \<Longrightarrow> core bs h s w = core bs h s w'"
  using counts_ok_view [of w w'] vring_ok_view [of w w'] msg_ok_view [of w w'] drain_ok_view [of w w']
    conn_ok_view [of w w'] view_length [of w w'] by (auto simp: core_def)

lemma busy_ok_view: "view w = view w' \<Longrightarrow> busy_ok w = busy_ok w'"
  using view_counts(3) [of w w'] view_dflags [of w w'] by (auto simp: busy_ok_def Let_def dflags_def)

lemma work_ok_view: "view w = view w' \<Longrightarrow> work_ok w = work_ok w'"
  using view_dflags [of w w'] by (auto simp: work_ok_def Let_def dflags_def)

lemma flow_view: "view w = view w' \<Longrightarrow> flow X w = flow X w'"
proof -
  assume v: "view w = view w'"
  have "due X w i = due X w' i \<and> parting w i = parting w' i" if "i < length (vd_vrings (vw_vdev w'))" for i
    using view_nth [OF v that] view_dflags [OF v] by (simp add: due_def parting_def vflags_def starting_def Let_def)
  then show ?thesis using view_length [OF v] view_dflags [OF v] by (simp add: flow_def dflags_def)
qed

lemma open_ok_dflags: "dflags (vw_vdev w) = dflags (vw_vdev w') \<Longrightarrow> open_ok w = open_ok w'"
  by (simp add: open_ok_def unmessaged_def Let_def dflags_def)

lemma open_ok_view: "view w = view w' \<Longrightarrow> open_ok w = open_ok w'"
  by (rule open_ok_dflags) (simp add: view_def)

lemma vdev_inv_unseen: "unseen w w' \<Longrightarrow> vdev_inv w' = vdev_inv w"
  using core_view [of w' w] busy_ok_view [of w' w] work_ok_view [of w' w] flow_view [of w' w] open_ok_view [of w' w]
  by (simp add: unseen_def vdev_inv_def bios_def)

lemma unseen_refl [simp]: "unseen w w"
  by (simp add: unseen_def)

lemma unseen_trans: "unseen w w' \<Longrightarrow> unseen w' w'' \<Longrightarrow> unseen w w''"
  by (simp add: unseen_def)

lemma unseen_upd_vring:
  assumes "\<And>v. vflags (f v) = vflags v"
  shows "unseen w (upd_vring i f w)"
proof -
  let ?vs = "vd_vrings (vw_vdev w)"
  have "map vflags (?vs[i := f (?vs ! i)]) = map vflags ?vs"
    using assms by (cases "i < length ?vs") (auto simp: map_update list_update_beyond list_update_same_conv)
  then show ?thesis by (simp add: unseen_def view_def upd_vring_def upd_vdev_def dflags_def)
qed

lemma unseen_upd_vdev:
  assumes "\<And>vd. dflags (f vd) = dflags vd" and "\<And>vd. vd_vrings (f vd) = vd_vrings vd"
  shows "unseen w (upd_vdev f w)"
  using assms by (simp add: unseen_def view_def upd_vdev_def)

lemma unseen_act [simp]: "unseen w (act a w)"
  by (simp add: unseen_def view_def act_def)

lemma unseen_upd_machine [simp]: "unseen w (upd_machine f w)"
  by (simp add: unseen_def view_def upd_machine_def)

lemma unseen_machine [simp]: "unseen w (w\<lparr>vw_machine := m\<rparr>)"
  by (simp add: unseen_def view_def)

lemma unseen_next_log [simp]: "unseen w (w\<lparr>vw_next_log := n\<rparr>)"
  by (simp add: unseen_def view_def)

lemma unseen_replace_fd [simp]: "unseen w (replace_fd fd w)"
  by (simp add: replace_fd_def)

lemma unseen_close_fds [simp]: "unseen w (close_fds fds w)"
  unfolding close_fds_def by (induction fds arbitrary: w) (auto intro: unseen_trans [OF unseen_act])

lemma unseen_fold:
  assumes "\<And>i w. unseen w (f i w)"
  shows "unseen w (fold f is w)"
  by (induction "is" arbitrary: w) (auto intro: unseen_trans [OF assms])

lemma unseen_for_vrings: "(\<And>i w. unseen w (f i w)) \<Longrightarrow> unseen w (for_vrings f w)"
  by (simp add: for_vrings_def unseen_fold)

lemma unseen_memmap_put [simp]: "unseen w (memmap_put K mm w)"
  by (simp add: memmap_put_def split: option.split)

lemma unseen_memlog_free [simp]: "unseen w (vhd_memlog_free l w)"
  unfolding vhd_memlog_free_def by (meson unseen_act unseen_trans unseen_upd_machine)

lemma unseen_inflight_cleanup [simp]: "unseen w (inflight_mem_cleanup w)"
  unfolding inflight_mem_cleanup_def
  by (auto simp: dflags_def intro: unseen_trans [OF unseen_act unseen_upd_vdev])

text \<open>How a count changes with one element.\<close>

lemma count_if_update:
  "i < length xs \<Longrightarrow>
    count_if P (xs[i := y]) + (if P (xs ! i) then 1 else 0) = count_if P xs + (if P y then 1 else 0)"
proof (induction xs arbitrary: i)
  case (Cons x xs)
  then show ?case by (cases i) (fastforce split: if_splits)+
qed simp

lemma count_if_remove1:
  "x \<in> set xs \<Longrightarrow> count_if P (remove1 x xs) + (if P x then 1 else 0) = count_if P xs"
  by (induction xs) auto

lemma count_if_pos: "i < length xs \<Longrightarrow> P (xs ! i) \<Longrightarrow> 0 < count_if P xs"
  by (metis length_greater_0_conv length_pos_if_in_set mem_Collect_eq nth_mem set_filter)

lemma count_if_0: "count_if P xs = 0 \<longleftrightarrow> (\<forall>x\<in>set xs. \<not> P x)"
  by (induction xs) auto

text \<open>How what is due changes with one vring.\<close>

lemma flow_change:
  assumes f: "flow X w" and vs: "vd_vrings (vw_vdev w') = (vd_vrings (vw_vdev w))[i := v]"
    and s: "\<And>j. j \<noteq> i \<Longrightarrow> starting j w \<Longrightarrow> starting j w'"
    and d: "\<And>j. j \<noteq> i \<Longrightarrow> VringMarkDrained j \<in> set (vw_ctl w) \<Longrightarrow> VringMarkDrained j \<in> set (vw_ctl w')"
    and r: "\<And>j. j \<noteq> i \<Longrightarrow> VringStop j \<in> set (vw_rq w) \<Longrightarrow> VringStop j \<in> set (vw_rq w')"
    and c: "vd_conn_handler (vw_vdev w') = None \<Longrightarrow> vd_conn_handler (vw_vdev w) = None"
    and x: "X - {i} \<subseteq> Y" and i: "i < length (vd_vrings (vw_vdev w)) \<Longrightarrow> due Y w' i \<and> (vd_conn_handler (vw_vdev w') = None \<longrightarrow> parting w' i)"
  shows "flow Y w'"
  unfolding flow_def
proof (intro allI impI)
  fix j assume j: "j < length (vd_vrings (vw_vdev w'))"
  show "due Y w' j \<and> (vd_conn_handler (vw_vdev w') = None \<longrightarrow> parting w' j)"
  proof (cases "j = i")
    case False
    then have "vring j w' = vring j w" using vs by simp
    moreover have "due X w j" "vd_conn_handler (vw_vdev w) = None \<longrightarrow> parting w j" using f j vs by (simp_all add: flow_def)
    ultimately show ?thesis using s [OF False] d [OF False] r [OF False] c x False by (auto simp: due_def parting_def Let_def)
  qed (use i j vs in simp)
qed

end
