(* ===== verification/Vdev_Ctl.thy ===== *)
theory Vdev_Ctl
  imports Vdev_Inv
begin

text \<open>
  The operations of the control thread keep the invariant and do not abort: finishing a message,
  the bottom halves that report what the vrings did, draining, disconnecting.
\<close>

section \<open>Finishing a message\<close>

definition finished :: "sys \<Rightarrow> vworld \<Rightarrow> vworld" where
  "finished sy = upd_vdev (\<lambda>vd. vd\<lparr>vd_timer_handler := Some False, vd_ack_pending := False,
     vd_req := VHOST_USER_NONE,
     vd_conn_handler := (if vd_conn_handler vd = None then None else Some (sy_epoll_add sy (vd_connfd vd)))\<rparr>)"

text \<open>A message has been read and there is nothing left to do for it but to reply.\<close>

definition idle :: "vworld \<Rightarrow> bool" where
  "idle w \<longleftrightarrow> vd_num_vrings_handling_msg (vw_vdev w) = 0 \<and> count_if vr_on_drain_cb (vd_vrings (vw_vdev w)) = 0 \<and>
     vd_conn_handler (vw_vdev w) \<noteq> Some True \<and> vd_timer_handler (vw_vdev w) \<noteq> None"

lemma finish_quiet:
  "vd_conn_handler (vw_vdev w) \<noteq> Some True \<Longrightarrow> vd_timer_handler (vw_vdev w) \<noteq> None \<Longrightarrow>
    vdev_handle_finish sy w = Some (finished sy w)"
  by (cases "vd_conn_handler (vw_vdev w)")
    (auto simp: vdev_handle_finish_def finished_def upd_vdev_def attach_handler_def)

lemma finish_eq: "idle w \<Longrightarrow> vdev_handle_finish sy w = Some (finished sy w)"
  by (simp add: idle_def finish_quiet)

lemma finished_fields [simp]:
  "vd_vrings (vw_vdev (finished sy w)) = vd_vrings (vw_vdev w)"
  "vd_num_queues (vw_vdev (finished sy w)) = vd_num_queues (vw_vdev w)"
  "vd_num_vrings_in_flight (vw_vdev (finished sy w)) = vd_num_vrings_in_flight (vw_vdev w)"
  "vd_num_vrings_started (vw_vdev (finished sy w)) = vd_num_vrings_started (vw_vdev w)"
  "vd_num_vrings_handling_msg (vw_vdev (finished sy w)) = vd_num_vrings_handling_msg (vw_vdev w)"
  "vd_old_memmap (vw_vdev (finished sy w)) = vd_old_memmap (vw_vdev w)"
  "vd_old_memlog (vw_vdev (finished sy w)) = vd_old_memlog (vw_vdev w)"
  "vd_keep_fd (vw_vdev (finished sy w)) = vd_keep_fd (vw_vdev w)"
  "vd_connfd (vw_vdev (finished sy w)) = vd_connfd (vw_vdev w)"
  "vd_listen_handler (vw_vdev (finished sy w)) = vd_listen_handler (vw_vdev w)"
  "vd_work (vw_vdev (finished sy w)) = vd_work (vw_vdev w)"
  "vd_req (vw_vdev (finished sy w)) = VHOST_USER_NONE"
  "vd_timer_handler (vw_vdev (finished sy w)) = Some False"
  "vd_conn_handler (vw_vdev (finished sy w)) =
     (if vd_conn_handler (vw_vdev w) = None then None else Some (sy_epoll_add sy (vd_connfd (vw_vdev w))))"
  "vw_rq (finished sy w) = vw_rq w" "vw_ctl (finished sy w) = vw_ctl w"
  "vw_queue (finished sy w) = vw_queue w" "vw_backend (finished sy w) = vw_backend w"
  by (simp_all add: finished_def upd_vdev_def)

lemma vring_ok_cong:
  assumes "vring i w' = vring i w" and "vw_rq w' = vw_rq w" and "vw_ctl w' = vw_ctl w"
  shows "vring_ok bs w' i = vring_ok bs w i"
  using assms by (simp add: vring_ok_def starting_def)

lemma vring_ok_upd_vdev:
  "vd_vrings (f (vw_vdev w)) = vd_vrings (vw_vdev w) \<Longrightarrow> vring_ok bs (upd_vdev f w) i = vring_ok bs w i"
  by (rule vring_ok_cong) (simp_all add: upd_vdev_def)

lemma vrings_upd_vdev:
  "vd_vrings (f (vw_vdev w)) = vd_vrings (vw_vdev w) \<Longrightarrow> vd_vrings (vw_vdev (upd_vdev f w)) = vd_vrings (vw_vdev w)"
  by (simp add: upd_vdev_def)

lemma starting_cong: "vw_rq w' = vw_rq w \<Longrightarrow> vw_ctl w' = vw_ctl w \<Longrightarrow> starting i w' = starting i w"
  by (simp add: starting_def)

lemma core_finished:
  assumes "core bs h s w" and "idle w"
  shows "core bs h s (finished sy w)" and "busy_ok (finished sy w)"
proof -
  have c: "counts_ok h s (finished sy w)" using assms by (simp add: core_def counts_ok_def Let_def)
  have v: "vring_ok bs (finished sy w) i = vring_ok bs w i" for i by (rule vring_ok_cong) simp_all
  have m: "msg_ok (finished sy w)" "drain_ok (finished sy w)"
    using assms by (auto simp: core_def msg_ok_def drain_ok_def idle_def Let_def)
  have k: "conn_ok (finished sy w)"
    using assms by (auto simp: core_def conn_ok_def idle_def Let_def)
  show "core bs h s (finished sy w)" using c v m k assms(1) by (simp add: core_def)
  show "busy_ok (finished sy w)" by (simp add: busy_ok_def Let_def)
qed

lemma work_ok_finished [simp]: "work_ok (finished sy w) = work_ok w"
  by (simp add: work_ok_def Let_def)

text \<open>
  A reply or acknowledgement either fails and changes nothing that matters, or finishes the
  message.
\<close>

definition answered :: "sys \<Rightarrow> vworld \<Rightarrow> status \<Rightarrow> vworld \<Rightarrow> bool" where
  "answered sy w ret w' \<longleftrightarrow>
     (case ret of Inl _ \<Rightarrow> unseen w w' | Inr _ \<Rightarrow> \<exists>w0. unseen w w0 \<and> w' = finished sy w0)"

lemma answered_ok: "unseen w w0 \<Longrightarrow> answered sy w OK (finished sy w0)"
  unfolding answered_def sum.case by blast

definition send_ok :: "sys \<Rightarrow> bool" where
  "send_ok sy \<longleftrightarrow> (\<forall>n. sy_sendmsg sy n = Inr n)"

lemma idle_unseen: "unseen w w' \<Longrightarrow> idle w' = idle w"
  using view_counts(3) [of w' w] view_dflags [of w' w] by (simp add: unseen_def idle_def dflags_def)

lemma reply_fds_answers:
  assumes "idle w"
  shows "\<exists>ret w'. vhost_reply_fds sy payload len fds w = Some (ret, w') \<and> answered sy w ret w' \<and>
    (send_ok sy \<and> length fds \<le> VHOST_USER_MAX_FDS \<longrightarrow> ret = OK)"
proof -
  let ?hdr = "\<lparr>mh_req = vd_req (vw_vdev w), mh_flags = VHOST_USER_MSG_FLAGS_REPLY, mh_size = len\<rparr>"
  have "vdev_handle_finish sy (act (Sent ?hdr payload fds) w) = Some (finished sy (act (Sent ?hdr payload fds) w))"
    by (rule finish_eq) (simp add: idle_unseen [OF unseen_act] assms)
  note fin = this
  show ?thesis
  proof (cases "net_send_msg len (length fds) (sy_sendmsg sy (12 + unat len))")
    case (Inl e)
    have "\<not> (send_ok sy \<and> length fds \<le> VHOST_USER_MAX_FDS)"
      using Inl by (auto simp: send_ok_def net_send_msg_def)
    then show ?thesis
      using Inl by (auto simp: vhost_reply_fds_def vhost_send_fds_def answered_def)
  next
    case (Inr n)
    have "unseen w (act (Sent ?hdr payload fds) w)" by simp
    then have "answered sy w OK (finished sy (act (Sent ?hdr payload fds) w))"
      by (rule answered_ok)
    then show ?thesis
      using Inr fin by (auto simp: vhost_reply_fds_def vhost_send_fds_def Let_def)
  qed
qed

lemma reply_u64_answers:
  "idle w \<Longrightarrow> \<exists>ret w'. vhost_reply_u64 sy u w = Some (ret, w') \<and> answered sy w ret w' \<and> (send_ok sy \<longrightarrow> ret = OK)"
  using reply_fds_answers [of w sy "ReplyU64 u" 8 "[]"] by (simp add: vhost_reply_u64_def vhost_reply_def)

lemma ack_answers:
  assumes "idle w"
  shows "\<exists>ret w'. vhost_ack sy r w = Some (ret, w') \<and> answered sy w ret w' \<and> (send_ok sy \<longrightarrow> ret = OK)"
proof (cases "vd_ack_pending (vw_vdev w)")
  case True
  then show ?thesis using reply_u64_answers [OF assms] by (simp add: vhost_ack_def)
next
  case False
  then show ?thesis using finish_eq [OF assms, of sy] answered_ok [OF unseen_refl] by (auto simp: vhost_ack_def)
qed

lemma answered_core:
  assumes "answered sy w ret w'" and "core bs h s w" and "idle w"
  shows "core bs h s w'" and "ret = OK \<Longrightarrow> busy_ok w'" and "work_ok w' = work_ok w" and "ret \<noteq> OK \<Longrightarrow> idle w'"
    and "vw_queue w' = vw_queue w" and "vw_backend w' = vw_backend w"
proof -
  consider "unseen w w'" "ret \<noteq> OK" | w0 where "unseen w w0" "w' = finished sy w0" "ret = OK"
    using assms(1) by (auto simp: answered_def split: sum.splits)
  then have "core bs h s w' \<and> (ret = OK \<longrightarrow> busy_ok w') \<and> work_ok w' = work_ok w \<and> (ret \<noteq> OK \<longrightarrow> idle w') \<and>
    vw_queue w' = vw_queue w \<and> vw_backend w' = vw_backend w"
  proof cases
    case 1
    then show ?thesis
      using core_view [of w' w] work_ok_view [of w' w] idle_unseen [of w w'] assms(2,3) by (simp add: unseen_def)
  next
    case 2
    then show ?thesis
      using core_view [of w0 w] work_ok_view [of w0 w] idle_unseen [of w w0] core_finished [of bs h s w0 sy] assms(2,3)
      by (simp add: unseen_def)
  qed
  then show "core bs h s w'" and "ret = OK \<Longrightarrow> busy_ok w'" and "work_ok w' = work_ok w" and "ret \<noteq> OK \<Longrightarrow> idle w'"
    and "vw_queue w' = vw_queue w" and "vw_backend w' = vw_backend w" by blast+
qed

section \<open>A message handled by all vrings\<close>

definition cleared :: "vworld \<Rightarrow> vworld" where
  "cleared = upd_vdev (\<lambda>vd. vd\<lparr>vd_old_memmap := None, vd_old_memlog := None, vd_keep_fd := - 1\<rparr>)"

definition completes :: "completion_fn \<Rightarrow> vhd_vdev \<Rightarrow> bool" where
  "completes c vd \<longleftrightarrow> (vd_old_memmap vd \<noteq> None \<longrightarrow> c = SetMemTableComplete) \<and>
     (vd_old_memlog vd \<noteq> None \<longrightarrow> c = SetLogBaseComplete) \<and>
     (vd_keep_fd vd \<noteq> - 1 \<longrightarrow> c = SetVringCallComplete \<or> c = SetVringErrComplete)"

lemma answered_unseen: "unseen a b \<Longrightarrow> answered sy b ret w \<Longrightarrow> answered sy a ret w"
  by (cases ret) (auto simp: answered_def intro: unseen_trans)

lemma idle_cleared [simp]: "idle (cleared w) = idle w"
  by (simp add: idle_def cleared_def upd_vdev_def)

lemma cleared_unseen:
  assumes "dflags (vw_vdev w') = dflags ((vw_vdev w)\<lparr>vd_old_memmap := None, vd_old_memlog := None, vd_keep_fd := - 1\<rparr>)"
    and "vd_vrings (vw_vdev w') = vd_vrings (vw_vdev w)" and "vw_rq w' = vw_rq w" and "vw_ctl w' = vw_ctl w"
    and "vw_queue w' = vw_queue w" and "vw_backend w' = vw_backend w"
  shows "unseen (cleared w) w'"
  using assms by (simp add: unseen_def view_def cleared_def upd_vdev_def)

lemma handle_complete_answers:
  assumes "idle w" and "completes c (vw_vdev w)"
  shows "\<exists>ret w'. handle_complete K sy c w = Some (ret, w') \<and> answered sy (cleared w) ret w' \<and> (send_ok sy \<longrightarrow> ret = OK)"
proof -
  obtain x where x: "unseen (cleared w) x"
    "(\<exists>r. handle_complete K sy c w = vhost_ack sy r x) \<or> handle_complete K sy c w = vhost_reply_u64 sy 0 x"
  proof (cases c)
    case SetMemTableComplete
    let ?x = "upd_vdev (vd_old_memmap_update (\<lambda>_. None)) (memmap_put K (vd_old_memmap (vw_vdev w)) w)"
    have "unseen (cleared w) ?x"
      by (rule cleared_unseen)
        (use assms(2) SetMemTableComplete in \<open>auto simp: dflags_def completes_def memmap_put_def upd_vdev_def
          upd_machine_def split: option.split\<close>)
    then show ?thesis by (intro that [of ?x]) (auto simp: SetMemTableComplete handle_complete_def set_mem_table_complete_def)
  next
    case SetLogBaseComplete
    let ?x = "case vd_old_memlog (vw_vdev w) of None \<Rightarrow> w
      | Some l \<Rightarrow> upd_vdev (vd_old_memlog_update (\<lambda>_. None))
            (upd_machine (\<lambda>m. m\<lparr>m_logs := (m_logs m)(l := None)\<rparr>) (act (LogFreed l) w))"
    have "unseen (cleared w) ?x"
      by (rule cleared_unseen)
        (use assms(2) SetLogBaseComplete in \<open>auto simp: dflags_def completes_def upd_vdev_def act_def
          upd_machine_def split: option.split\<close>)
    then show ?thesis by (intro that [of ?x]) (auto simp: SetLogBaseComplete handle_complete_def set_log_base_complete_def)
  next
    case SetVringCallComplete
    let ?x = "upd_vdev (vd_keep_fd_update (\<lambda>_. - 1)) (replace_fd (vd_keep_fd (vw_vdev w)) w)"
    have "unseen (cleared w) ?x"
      by (rule cleared_unseen)
        (use assms(2) SetVringCallComplete in \<open>auto simp: dflags_def completes_def upd_vdev_def act_def replace_fd_def\<close>)
    then show ?thesis
      by (intro that [of ?x]) (auto simp: SetVringCallComplete handle_complete_def set_vring_call_complete_def)
  next
    case SetVringErrComplete
    let ?x = "upd_vdev (vd_keep_fd_update (\<lambda>_. - 1)) (replace_fd (vd_keep_fd (vw_vdev w)) w)"
    have "unseen (cleared w) ?x"
      by (rule cleared_unseen)
        (use assms(2) SetVringErrComplete in \<open>auto simp: dflags_def completes_def upd_vdev_def act_def replace_fd_def\<close>)
    then show ?thesis
      by (intro that [of ?x]) (auto simp: SetVringErrComplete handle_complete_def set_vring_err_complete_def)
  qed (rule that [of w], rule cleared_unseen; use assms(2) in \<open>auto simp: dflags_def completes_def handle_complete_def\<close>)+
  have "idle x" using assms(1) idle_unseen [OF x(1)] by simp
  from ack_answers [OF this, of sy] reply_u64_answers [OF this, of sy 0] x(2)
  have "\<exists>ret w'. handle_complete K sy c w = Some (ret, w') \<and> answered sy x ret w' \<and> (send_ok sy \<longrightarrow> ret = OK)"
    by metis
  then show ?thesis using answered_unseen [OF x(1)] by blast
qed

text \<open>What handling the end of a message leaves alone.\<close>

definition same_vrings :: "vworld \<Rightarrow> vworld \<Rightarrow> bool" where
  "same_vrings w w' \<longleftrightarrow> map vflags (vd_vrings (vw_vdev w')) = map vflags (vd_vrings (vw_vdev w)) \<and>
     vw_rq w' = vw_rq w \<and> vw_ctl w' = vw_ctl w \<and> vw_queue w' = vw_queue w \<and> vw_backend w' = vw_backend w \<and>
     (vd_conn_handler (vw_vdev w') = None) = (vd_conn_handler (vw_vdev w) = None)"

lemma same_vrings_nth:
  assumes "same_vrings w w'"
  shows "length (vd_vrings (vw_vdev w')) = length (vd_vrings (vw_vdev w))"
    and "i < length (vd_vrings (vw_vdev w)) \<Longrightarrow> vflags (vring i w') = vflags (vring i w)"
proof -
  have m: "map vflags (vd_vrings (vw_vdev w')) = map vflags (vd_vrings (vw_vdev w))" using assms by (simp add: same_vrings_def)
  then show l: "length (vd_vrings (vw_vdev w')) = length (vd_vrings (vw_vdev w))" by (rule map_eq_imp_length_eq)
  show "i < length (vd_vrings (vw_vdev w)) \<Longrightarrow> vflags (vring i w') = vflags (vring i w)" using m l by (metis nth_map)
qed

lemma same_vrings_flow:
  assumes "same_vrings w w'" and "flow X w"
  shows "flow X w'"
proof -
  note n = same_vrings_nth [OF assms(1)]
  have "due X w' i = due X w i \<and> parting w' i = parting w i" if "i < length (vd_vrings (vw_vdev w))" for i
    using n(2) [OF that] assms(1) by (simp add: due_def parting_def vflags_def starting_def same_vrings_def Let_def)
  then show ?thesis using assms n(1) by (simp add: flow_def same_vrings_def)
qed

lemma unseen_same_vrings: "unseen w w' \<Longrightarrow> same_vrings w w'"
  by (simp add: unseen_def same_vrings_def view_def dflags_def)

lemma answered_same:
  assumes "answered sy w ret w'"
  shows "same_vrings w w'" and "vd_num_vrings_handling_msg (vw_vdev w') = vd_num_vrings_handling_msg (vw_vdev w)"
    and "vd_listen_handler (vw_vdev w') = vd_listen_handler (vw_vdev w)"
  using assms by (auto simp: answered_def unseen_def view_def dflags_def same_vrings_def split: sum.splits if_splits)

lemma open_okD: "open_ok w \<Longrightarrow> unmessaged w"
  by (simp add: open_ok_def)

text \<open>A device that handles a message has its client, or was stopped.\<close>

lemma open_ok_handling:
  assumes "unmessaged w" and "vd_num_vrings_handling_msg (vw_vdev w) \<noteq> 0"
    and "(vd_conn_handler (vw_vdev w') = None) = (vd_conn_handler (vw_vdev w) = None)" and "vd_listen_handler (vw_vdev w') = vd_listen_handler (vw_vdev w)"
  shows "open_ok w'"
  using assms by (auto simp: open_ok_def unmessaged_def Let_def)

lemma core_handle_complete:
  "vd_num_vrings_handling_msg (vw_vdev w) = 0 \<Longrightarrow>
    core bs h s (upd_vdev (vd_handle_complete_update f) w) = core bs h s w"
  unfolding core_def by (simp add: vring_ok_upd_vdev vrings_upd_vdev)
    (simp add: counts_ok_def starting_def msg_ok_def drain_ok_def conn_ok_def upd_vdev_def Let_def)

lemma core_cleared:
  assumes "counts_ok h s w" and "\<forall>i<length (vd_vrings (vw_vdev w)). vring_ok bs w i" and "drain_ok w" and "conn_ok w"
    and "vd_num_vrings_handling_msg (vw_vdev w) = 0"
  shows "core bs h s (cleared w)"
  using assms
  unfolding core_def cleared_def by (simp add: vring_ok_upd_vdev vrings_upd_vdev)
    (simp add: counts_ok_def starting_def msg_ok_def drain_ok_def conn_ok_def upd_vdev_def Let_def)

lemma work_ok_handle_complete [simp]: "work_ok (upd_vdev (vd_handle_complete_update f) w) = work_ok w"
  by (simp add: work_ok_def upd_vdev_def Let_def)

lemma busy_ok_handle_complete [simp]: "busy_ok (upd_vdev (vd_handle_complete_update f) w) = busy_ok w"
  by (simp add: busy_ok_def upd_vdev_def Let_def)

lemma core_dec_handling:
  assumes "core bs (Suc h) s w" and "w1 = upd_vdev (\<lambda>vd. vd\<lparr>vd_num_vrings_handling_msg := vd_num_vrings_handling_msg vd - 1\<rparr>) w"
  shows "vd_num_vrings_handling_msg (vw_vdev w) \<noteq> 0" and "counts_ok h s w1"
    and "\<forall>i<length (vd_vrings (vw_vdev w1)). vring_ok bs w1 i" and "drain_ok w1" and "conn_ok w1"
    and "vd_num_vrings_handling_msg (vw_vdev w1) \<noteq> 0 \<Longrightarrow> msg_ok w1 \<and> busy_ok w1"
    and "0 \<le> vd_connfd (vw_vdev w1)"
proof -
  have u: "unat (vd_num_vrings_handling_msg (vw_vdev w)) =
      count_if is_msg_rq (vw_rq w) + count_if is_msg_ctl (vw_ctl w) + Suc h"
    using assms(1) by (simp add: core_def counts_ok_def Let_def)
  then show nz: "vd_num_vrings_handling_msg (vw_vdev w) \<noteq> 0" by auto
  then have d: "unat (vd_num_vrings_handling_msg (vw_vdev w) - 1) = unat (vd_num_vrings_handling_msg (vw_vdev w)) - 1"
    by (simp add: unat_minus_one)
  show "counts_ok h s w1"
    using assms u d by (simp add: core_def counts_ok_def Let_def upd_vdev_def)
  show "\<forall>i<length (vd_vrings (vw_vdev w1)). vring_ok bs w1 i"
    using assms by (simp add: core_def vring_ok_upd_vdev vrings_upd_vdev)
  show "drain_ok w1" using assms by (simp add: core_def drain_ok_def upd_vdev_def Let_def)
  show "conn_ok w1" "0 \<le> vd_connfd (vw_vdev w1)"
    using assms nz by (auto simp: core_def conn_ok_def upd_vdev_def Let_def)
  show "vd_num_vrings_handling_msg (vw_vdev w1) \<noteq> 0 \<Longrightarrow> msg_ok w1 \<and> busy_ok w1"
    using assms nz by (auto simp: core_def msg_ok_def busy_ok_def starting_def upd_vdev_def Let_def)
qed

lemma mark_msg_handled_ok:
  assumes core: "core bs 1 s w" and "work_ok w" and send: "send_ok sy" and un: "unmessaged w"
  shows "\<exists>w'. vring_mark_msg_handled K sy w = Some w' \<and> core bs 0 s w' \<and> work_ok w' \<and> busy_ok w' \<and> open_ok w' \<and> same_vrings w w'"
proof -
  let ?w1 = "upd_vdev (\<lambda>vd. vd\<lparr>vd_num_vrings_handling_msg := vd_num_vrings_handling_msg vd - 1\<rparr>) w"
  note d = core_dec_handling [OF core [unfolded One_nat_def] refl]
  have w1: "work_ok ?w1" "same_vrings w ?w1"
    using assms(2) by (simp_all add: work_ok_def same_vrings_def upd_vdev_def Let_def)
  have op: "open_ok ?w1" by (rule open_ok_handling [OF un d(1)]) (simp_all add: upd_vdev_def)
  show ?thesis
  proof (cases "vd_num_vrings_handling_msg (vw_vdev ?w1) = 0")
    case False
    then show ?thesis
      using d w1 op by (simp add: vring_mark_msg_handled_def core_def Let_def)
  next
    case True
    have m: "msg_ok w" using core by (simp add: core_def)
    then obtain c where c: "vd_handle_complete (vw_vdev w) = Some c" "completes c (vw_vdev ?w1)"
      "vd_conn_handler (vw_vdev w) \<noteq> Some True" "\<forall>v\<in>set (vd_vrings (vw_vdev w)). \<not> vr_on_drain_cb v"
      using d(1) by (auto simp: msg_ok_def completes_def upd_vdev_def Let_def)
    have "vd_timer_handler (vw_vdev ?w1) \<noteq> None" using d(5,7) by (auto simp: conn_ok_def Let_def)
    with True c(3,4) have "idle ?w1" by (simp add: idle_def no_drain_iff upd_vdev_def)
    from handle_complete_answers [OF this c(2), of K sy] send obtain w2 where
      w2: "handle_complete K sy c ?w1 = Some (OK, w2)" "answered sy (cleared ?w1) OK w2" by blast
    have cc: "core bs 0 s (cleared ?w1)" by (rule core_cleared [OF d(2,3,4,5) True])
    note a = answered_core [OF w2(2) cc, unfolded idle_cleared, OF \<open>idle ?w1\<close>] answered_same [OF w2(2)]
    have h2: "vd_num_vrings_handling_msg (vw_vdev w2) = 0" using a(8) True by (simp add: cleared_def upd_vdev_def)
    let ?w3 = "upd_vdev (vd_handle_complete_update (\<lambda>_. None)) w2"
    have "work_ok w2" using a(3) w1(1) by (simp add: work_ok_def cleared_def upd_vdev_def Let_def)
    moreover have s3: "same_vrings w ?w3"
      using a(7) by (simp add: same_vrings_def cleared_def upd_vdev_def)
    moreover have "open_ok ?w3"
      by (rule open_ok_handling [OF un d(1)]) (use s3 a(9) in \<open>simp_all add: same_vrings_def cleared_def upd_vdev_def\<close>)
    moreover have "vring_mark_msg_handled K sy w = Some ?w3"
      using d(1) True c(1) w2(1) by (simp add: vring_mark_msg_handled_def Let_def upd_vdev_def)
    ultimately show ?thesis
      using a(1,2) core_handle_complete [OF h2] by simp
  qed
qed

section \<open>Draining\<close>

lemma cleanup_eq:
  assumes "vd_num_vrings_handling_msg (vw_vdev w) = 0" and "vd_req (vw_vdev w) = VHOST_USER_NONE"
    and "vd_old_memmap (vw_vdev w) = None" and "vd_old_memlog (vw_vdev w) = None" and "vd_keep_fd (vw_vdev w) = - 1"
  shows "\<exists>w'. vdev_cleanup K w = Some w' \<and>
    unseen (upd_vdev (\<lambda>vd. vd\<lparr>vd_timer_handler := None, vd_connfd := - 1\<rparr>) w) w'"
proof -
  have 1: "unseen w (inflight_mem_cleanup w)" by simp
  have 2: "unseen w (upd_vdev (vd_memmap_update (\<lambda>_. None)) (memmap_put K mm (inflight_mem_cleanup w)))" for mm
    by (rule unseen_trans [OF 1], rule unseen_trans [OF unseen_memmap_put unseen_upd_vdev]) (simp_all add: dflags_def)
  have 3: "unseen w (case l of None \<Rightarrow> x | Some l \<Rightarrow> upd_vdev (vd_memlog_update (\<lambda>_. None)) (vhd_memlog_free l x))"
    if "unseen w x" for l x
    using that by (auto split: option.split simp: dflags_def
        intro!: unseen_trans [OF that] unseen_trans [OF unseen_memlog_free unseen_upd_vdev])
  have 4: "unseen (upd_vdev (\<lambda>vd. vd\<lparr>vd_timer_handler := None, vd_connfd := - 1\<rparr>) w)
      (upd_vdev (vd_connfd_update (\<lambda>_. - 1)) (replace_fd fd
        (if vd_timer_handler (vw_vdev w) = None then x
         else upd_vdev (\<lambda>vd. vd\<lparr>vd_timer_handler := None, vd_timerfd := - 1\<rparr>) (replace_fd fd' x))))"
    if "unseen w x" for x fd fd'
    using that by (simp add: unseen_def view_def upd_vdev_def replace_fd_def act_def dflags_def)
  show ?thesis using assms 4 [OF 3 [OF 2]] by (simp add: vdev_cleanup_def Let_def)
qed

lemma in_flight_0:
  assumes "counts_ok h s w" and "vd_num_vrings_in_flight (vw_vdev w) = 0" and "i < length (vd_vrings (vw_vdev w))"
  shows "\<not> vr_started_in_ctl (vring i w)"
proof -
  have "count_if vr_started_in_ctl (vd_vrings (vw_vdev w)) = 0"
    using assms(1,2) by (auto simp: counts_ok_def Let_def)
  then show ?thesis using count_if_pos [OF assms(3), of vr_started_in_ctl] by linarith
qed

lemma no_drain_when_empty:
  assumes "core bs h s w" and "vd_num_vrings_in_flight (vw_vdev w) = 0"
  shows "count_if vr_on_drain_cb (vd_vrings (vw_vdev w)) = 0"
proof -
  have "\<not> vr_on_drain_cb (vring i w)" if "i < length (vd_vrings (vw_vdev w))" for i
    using in_flight_0 [of h s w i] assms that by (auto simp: core_def vring_ok_def Let_def split: if_splits)
  then show ?thesis unfolding count_if_0 by (auto simp: in_set_conv_nth)
qed

lemma drained_ok:
  assumes core: "core bs 0 0 w" and "busy_ok w" and "\<not> vdev_in_use (vw_vdev w)"
    and "vd_num_vrings_started (vw_vdev w) = 0" and "vd_listen_handler (vw_vdev w) \<noteq> Some True" and "\<not> vd_work (vw_vdev w)"
  shows "\<exists>w'. vdev_drained K sy w = Some w' \<and> core bs 0 0 w' \<and> busy_ok w' \<and> work_ok w' \<and> open_ok w' \<and> same_vrings w w'"
proof -
  have use: "vd_num_vrings_in_flight (vw_vdev w) = 0" "vd_num_vrings_handling_msg (vw_vdev w) = 0"
    "vd_conn_handler (vw_vdev w) = None"
    using assms(3) by (auto simp: vdev_in_use_def)
  have req: "vd_req (vw_vdev w) = VHOST_USER_NONE"
    using assms(2) use no_drain_when_empty [OF core use(1)] by (auto simp: busy_ok_def Let_def)
  have "vd_old_memmap (vw_vdev w) = None" "vd_old_memlog (vw_vdev w) = None" "vd_keep_fd (vw_vdev w) = - 1"
    using core use(2) by (auto simp: core_def msg_ok_def Let_def)
  from cleanup_eq [OF use(2) req this, of K] obtain w1 where w1: "vdev_cleanup K w = Some w1"
    "unseen (upd_vdev (\<lambda>vd. vd\<lparr>vd_timer_handler := None, vd_connfd := - 1\<rparr>) w) w1" by blast
  have f: "vd_listen_handler (vw_vdev w1) = vd_listen_handler (vw_vdev w)"
    using w1(2) by (simp add: unseen_def view_def dflags_def upd_vdev_def)
  define g :: "bool option \<Rightarrow> vhd_vdev \<Rightarrow> vhd_vdev"
    where "g = (\<lambda>l vd. vd\<lparr>vd_timer_handler := None, vd_connfd := - 1, vd_listen_handler := l\<rparr>)"
  have c: "core bs 0 0 (upd_vdev (g l) w)" for l
    using core req use assms(4) unfolding core_def by (simp add: vring_ok_upd_vdev vrings_upd_vdev g_def)
      (simp add: counts_ok_def starting_def msg_ok_def drain_ok_def conn_ok_def upd_vdev_def Let_def)
  have b: "busy_ok (upd_vdev (g l) w)" "work_ok (upd_vdev (g l) w)" "open_ok (upd_vdev (g l) w)" for l
    using req use(2) assms(4,6) by (simp_all add: busy_ok_def work_ok_def open_ok_def unmessaged_def g_def upd_vdev_def Let_def)
  obtain w' l where w': "vdev_drained K sy w = Some w'" "unseen (upd_vdev (g l) w) w'"
  proof (cases "vd_listen_handler (vw_vdev w)")
    case None
    then have "unseen (upd_vdev (g None) w) (vhd_vdev_release w1)"
      using w1(2) by (simp add: unseen_def view_def dflags_def upd_vdev_def g_def vhd_vdev_release_def act_def)
    with None show ?thesis using that w1(1) f by (auto simp: vdev_drained_def)
  next
    case (Some a)
    let ?l = "Some (sy_epoll_add sy (vd_listenfd (vw_vdev w1)))"
    have "unseen (upd_vdev (g ?l) w) (upd_vdev (vd_listen_handler_update (\<lambda>_. ?l)) w1)"
      using w1(2) by (simp add: unseen_def view_def dflags_def upd_vdev_def g_def)
    with Some show ?thesis using that w1(1) f assms(5) by (auto simp: vdev_drained_def attach_handler_def)
  qed
  then have "view w' = view (upd_vdev (g l) w)" "same_vrings w w'"
    by (simp_all add: unseen_def same_vrings_def view_def upd_vdev_def g_def) (simp add: dflags_def)
  then show ?thesis
    using w'(1) c [of l] b [of l] core_view busy_ok_view work_ok_view open_ok_view by blast
qed

lemma maybe_drained_ok:
  assumes "core bs 0 0 w" and "busy_ok w" and "work_ok w"
    and "vd_connfd (vw_vdev w) < 0 \<Longrightarrow> vd_listen_handler (vw_vdev w) \<noteq> Some True" and "unmessaged w"
  shows "\<exists>w'. vdev_maybe_drained K sy w = Some w' \<and> core bs 0 0 w' \<and> busy_ok w' \<and> work_ok w' \<and> open_ok w' \<and> same_vrings w w'"
proof (cases "\<not> vdev_in_use (vw_vdev w) \<and> vd_num_vrings_started (vw_vdev w) = 0")
  case True
  have "vd_listen_handler (vw_vdev w) \<noteq> Some True" using assms(1,4) by (auto simp: core_def conn_ok_def Let_def)
  moreover have "\<not> vd_work (vw_vdev w)" using True assms(3) by (simp add: work_ok_def Let_def)
  ultimately show ?thesis
    using drained_ok [OF assms(1,2), of K sy] True by (auto simp: vdev_maybe_drained_def)
next
  case False
  moreover have "open_ok w" using False assms(5) by (auto simp: open_ok_def unmessaged_def vdev_in_use_def Let_def)
  ultimately show ?thesis using assms unseen_same_vrings [OF unseen_refl] by (auto simp: vdev_maybe_drained_def)
qed

lemma core_work [simp]: "core bs h s (upd_vdev (vd_work_update f) w) = core bs h s w"
  unfolding core_def by (simp add: vring_ok_upd_vdev vrings_upd_vdev)
    (simp add: counts_ok_def starting_def msg_ok_def drain_ok_def conn_ok_def upd_vdev_def Let_def)

lemma core_act [simp]: "core bs h s (act a w) = core bs h s w"
  using core_view unseen_act [of w a] unfolding unseen_def by blast

lemma maybe_vrings_stopped_ok:
  assumes "core bs h s w" and "busy_ok w" and "vd_work (vw_vdev w) \<longleftrightarrow> vd_listen_handler (vw_vdev w) = None"
  shows "\<exists>w'. vdev_maybe_vrings_stopped w = Some w' \<and> core bs h s w' \<and> busy_ok w' \<and> work_ok w' \<and> same_vrings w w' \<and>
    vd_listen_handler (vw_vdev w') = vd_listen_handler (vw_vdev w) \<and> vd_connfd (vw_vdev w') = vd_connfd (vw_vdev w) \<and>
    unmessaged w' = unmessaged w"
proof (cases "vd_num_vrings_started (vw_vdev w) = 0 \<and> vd_listen_handler (vw_vdev w) = None")
  case True
  let ?w = "upd_vdev (vd_work_update (\<lambda>_. False)) (act (WorkDone OK) w)"
  have "vdev_maybe_vrings_stopped w = Some ?w"
    using True assms(3) by (simp add: vdev_maybe_vrings_stopped_def vdev_vrings_stopped_def vdev_complete_work_def)
  moreover have "busy_ok ?w" "work_ok ?w" "same_vrings w ?w"
    using True assms(2) by (simp_all add: busy_ok_def work_ok_def same_vrings_def upd_vdev_def act_def Let_def)
  moreover have "core bs h s ?w" using assms(1) by simp
  ultimately show ?thesis by (simp add: unmessaged_def upd_vdev_def act_def Let_def)
next
  case False
  have "vdev_maybe_vrings_stopped w = Some w"
    using False by (auto simp: vdev_maybe_vrings_stopped_def vdev_vrings_stopped_def)
  moreover have "work_ok w" using False assms(3) by (auto simp: work_ok_def Let_def)
  ultimately show ?thesis using assms unseen_same_vrings [OF unseen_refl] by simp
qed

lemma same_vrings_trans: "same_vrings a b \<Longrightarrow> same_vrings b c \<Longrightarrow> same_vrings a c"
  by (simp add: same_vrings_def)

lemma core_dec_started:
  assumes "core bs h (Suc s) w" and "w1 = upd_vdev (\<lambda>vd. vd\<lparr>vd_num_vrings_started := vd_num_vrings_started vd - 1\<rparr>) w"
  shows "vd_num_vrings_started (vw_vdev w) \<noteq> 0" and "core bs h s w1" and "0 \<le> vd_connfd (vw_vdev w1)"
proof -
  have u: "unat (vd_num_vrings_started (vw_vdev w)) = count_if vr_started_in_rq (vd_vrings (vw_vdev w)) +
      count_if is_start_rq (vw_rq w) + count_if is_stop_ctl (vw_ctl w) + Suc s"
    using assms(1) by (simp add: core_def counts_ok_def Let_def)
  then show nz: "vd_num_vrings_started (vw_vdev w) \<noteq> 0" by auto
  then have d: "unat (vd_num_vrings_started (vw_vdev w) - 1) = unat (vd_num_vrings_started (vw_vdev w)) - 1"
    by (simp add: unat_minus_one)
  show k: "0 \<le> vd_connfd (vw_vdev w1)" using assms nz by (auto simp: core_def conn_ok_def upd_vdev_def Let_def)
  show "core bs h s w1"
    using assms u d k unfolding core_def by (simp add: vring_ok_upd_vdev vrings_upd_vdev)
      (simp add: counts_ok_def starting_def msg_ok_def drain_ok_def conn_ok_def upd_vdev_def Let_def)
qed

lemma mark_stopped_ok:
  assumes "core bs 0 1 w" and "busy_ok w" and "work_ok w" and un: "unmessaged w"
  shows "\<exists>w'. vring_mark_stopped K sy w = Some w' \<and> core bs 0 0 w' \<and> busy_ok w' \<and> work_ok w' \<and> open_ok w' \<and> same_vrings w w'"
proof -
  let ?w1 = "upd_vdev (\<lambda>vd. vd\<lparr>vd_num_vrings_started := vd_num_vrings_started vd - 1\<rparr>) w"
  note d = core_dec_started [OF assms(1) [unfolded One_nat_def] refl]
  have "busy_ok ?w1" "same_vrings w ?w1" "vd_work (vw_vdev ?w1) \<longleftrightarrow> vd_listen_handler (vw_vdev ?w1) = None"
    using assms(2,3) d(1) by (auto simp: busy_ok_def work_ok_def same_vrings_def upd_vdev_def Let_def)
  from maybe_vrings_stopped_ok [OF d(2) this(1,3)] this(2) obtain w2 where
    w2: "vdev_maybe_vrings_stopped ?w1 = Some w2" "core bs 0 0 w2" "busy_ok w2" "work_ok w2" "same_vrings w w2"
    "vd_connfd (vw_vdev w2) = vd_connfd (vw_vdev ?w1)" "unmessaged w2 = unmessaged ?w1"
    using same_vrings_trans by blast
  have "unmessaged w2" unfolding w2(7) using un by (simp add: unmessaged_def upd_vdev_def Let_def)
  with maybe_drained_ok [OF w2(2,3,4), of K sy] d(3) w2(6) obtain w' where
    "vdev_maybe_drained K sy w2 = Some w'" "core bs 0 0 w'" "busy_ok w'" "work_ok w'" "open_ok w'" "same_vrings w2 w'" by auto
  then show ?thesis
    using w2(1,5) d(1) same_vrings_trans by (auto simp: vring_mark_stopped_def)
qed

section \<open>A vring drained\<close>

text \<open>What is left of a drained vring.\<close>

definition drained_vring :: "vhd_vring \<Rightarrow> vhd_vring" where
  "drained_vring v = v\<lparr>vr_started_in_ctl := False, vr_on_drain_cb := False, vr_vq := zero_virtq, vr_kickfd := - 1,
     vr_disconnecting := False\<rparr>"

definition drop_vring :: "nat \<Rightarrow> vworld \<Rightarrow> vworld" where
  "drop_vring i w = upd_vdev (\<lambda>vd. vd\<lparr>vd_num_vrings_in_flight := vd_num_vrings_in_flight vd - 1\<rparr>)
     (upd_vring i drained_vring w)"

text \<open>A vring that may be reported drained.\<close>

definition may_drain :: "vhd_bio list \<Rightarrow> vworld \<Rightarrow> nat \<Rightarrow> bool" where
  "may_drain bs w i \<longleftrightarrow> i < length (vd_vrings (vw_vdev w)) \<and> vr_started_in_ctl (vring i w) \<and>
     \<not> vr_started_in_rq (vring i w) \<and> n_bios bs i = 0 \<and> \<not> starting i w \<and> VringMarkDrained i \<notin> set (vw_ctl w)"

lemma drop_vring_fields [simp]:
  "vd_vrings (vw_vdev (drop_vring i w)) = (vd_vrings (vw_vdev w))[i := drained_vring (vring i w)]"
  "vw_rq (drop_vring i w) = vw_rq w" "vw_ctl (drop_vring i w) = vw_ctl w"
  "vw_queue (drop_vring i w) = vw_queue w" "vw_backend (drop_vring i w) = vw_backend w"
  "dflags (vw_vdev (drop_vring i w)) =
     dflags ((vw_vdev w)\<lparr>vd_num_vrings_in_flight := vd_num_vrings_in_flight (vw_vdev w) - 1\<rparr>)"
  by (simp_all add: drop_vring_def upd_vdev_def upd_vring_def dflags_def)

lemma drained_counts:
  assumes "i < length vs"
  shows "count_if vr_started_in_ctl (vs[i := drained_vring (vs ! i)]) + (if vr_started_in_ctl (vs ! i) then 1 else 0) =
      count_if vr_started_in_ctl vs"
    and "count_if vr_started_in_rq (vs[i := drained_vring (vs ! i)]) = count_if vr_started_in_rq vs"
    and "count_if vr_on_drain_cb (vs[i := drained_vring (vs ! i)]) + (if vr_on_drain_cb (vs ! i) then 1 else 0) =
      count_if vr_on_drain_cb vs"
  using count_if_update [OF assms, of vr_started_in_ctl "drained_vring (vs ! i)"]
    count_if_update [OF assms, of vr_started_in_rq "drained_vring (vs ! i)"]
    count_if_update [OF assms, of vr_on_drain_cb "drained_vring (vs ! i)"]
  by (simp_all add: drained_vring_def)

lemma in_flight_pos:
  assumes "core bs h s w" and "may_drain bs w i"
  shows "vd_num_vrings_in_flight (vw_vdev w) \<noteq> 0" and "0 \<le> vd_connfd (vw_vdev w)"
proof -
  show "vd_num_vrings_in_flight (vw_vdev w) \<noteq> 0"
    using in_flight_0 [of h s w i] assms by (auto simp: core_def may_drain_def)
  then show "0 \<le> vd_connfd (vw_vdev w)" using assms(1) by (auto simp: core_def conn_ok_def Let_def)
qed

lemma core_drop_vring:
  assumes core: "core bs h s w" and may: "may_drain bs w i"
  shows "core bs h s (drop_vring i w)"
proof -
  let ?vs = "vd_vrings (vw_vdev w)" and ?w = "drop_vring i w"
  have i: "i < length ?vs" and ci: "vr_started_in_ctl (?vs ! i)" using may by (auto simp: may_drain_def)
  note nz = in_flight_pos [OF core may] and dc = drained_counts [OF i]
  have d: "unat (vd_num_vrings_in_flight (vw_vdev w) - 1) = unat (vd_num_vrings_in_flight (vw_vdev w)) - 1"
    using nz(1) by (simp add: unat_minus_one)
  have f: "dflags (vw_vdev ?w) = dflags ((vw_vdev w)\<lparr>vd_num_vrings_in_flight := vd_num_vrings_in_flight (vw_vdev w) - 1\<rparr>)"
    by simp
  have cnt: "counts_ok h s ?w"
    using core dc(1,2) ci d f by (simp add: core_def counts_ok_def Let_def dflags_def)
  have v: "vring_ok bs ?w j" if j: "j < length ?vs" for j
  proof (cases "j = i")
    case True
    with core may i have "vring_ok bs w i" by (simp add: core_def)
    with True i may show ?thesis
      by (simp add: vring_ok_def may_drain_def drained_vring_def zero_virtq_def starting_def Let_def)
  next
    case False
    then have "vring_ok bs ?w j = vring_ok bs w j" by (intro vring_ok_cong) simp_all
    with j core show ?thesis by (simp add: core_def)
  qed
  have m: "msg_ok ?w"
    using core dc(3) f unfolding core_def msg_ok_def no_drain_iff
    by (auto simp: dflags_def Let_def starting_cong [of ?w w])
  have n: "drain_ok ?w"
    using core dc(3) f unfolding core_def drain_ok_def by (auto simp: dflags_def Let_def split: if_splits)
  have k: "conn_ok ?w"
    using core nz(2) f by (auto simp: core_def conn_ok_def dflags_def Let_def)
  show ?thesis using cnt v m n k by (simp add: core_def)
qed

lemma flow_drop_vring:
  assumes "flow {i} w"
  shows "flow {} (drop_vring i w)"
proof -
  have "(vd_conn_handler (vw_vdev (drop_vring i w)) = None) = (vd_conn_handler (vw_vdev w) = None)"
    by (simp add: drop_vring_def upd_vring_def upd_vdev_def)
  then show ?thesis
    by (intro flow_change [OF assms drop_vring_fields(1)]) (auto simp: due_def parting_def starting_def drained_vring_def Let_def)
qed

definition base_reply :: "nat \<Rightarrow> vworld \<Rightarrow> action" where
  "base_reply i w = Sent \<lparr>mh_req = vd_req (vw_vdev w), mh_flags = VHOST_USER_MSG_FLAGS_REPLY, mh_size = 8\<rparr>
     (ReplyVringState \<lparr>vs_index = word_of_nat i, vs_num = ucast (vq_last_avail (vr_vq (vring i w)))\<rparr>) []"

lemma send_base_ok:
  assumes "vd_conn_handler (vw_vdev w) \<noteq> Some True" and "vd_timer_handler (vw_vdev w) \<noteq> None" and "send_ok sy"
  shows "vhost_send_vring_base sy i w = Some (OK, finished sy (act (base_reply i w) w))"
proof -
  have "vdev_handle_finish sy (act a w) = Some (finished sy (act a w))" for a
    using assms(1,2) by (intro finish_quiet) (simp_all add: act_def)
  then show ?thesis
    using assms(3) by (simp add: vhost_send_vring_base_def vhost_reply_def vhost_reply_fds_def vhost_send_fds_def
        base_reply_def net_send_msg_def send_ok_def Let_def)
qed

lemma vflags_reset:
  "vflags (v\<lparr>vr_callfd := a, vr_kickfd := - 1, vr_errfd := b, vr_shadow_vq := c, vr_addr_cache := d,
     vr_num_in_flight_at_stop := e, vr_disconnecting := False\<rparr>) =
   vflags (v\<lparr>vr_kickfd := - 1, vr_disconnecting := False\<rparr>)"
  by (simp add: vflags_def)

lemma unseen_vring_reset: "unseen (upd_vring i (\<lambda>v. v\<lparr>vr_kickfd := - 1, vr_disconnecting := False\<rparr>) w) (vring_reset i w)"
  by (simp add: unseen_def view_def vring_reset_def upd_vring_def upd_vdev_def replace_fd_def act_def dflags_def
      map_update vflags_reset Let_def)

lemma drop_vring_eq:
  assumes "i < length (vd_vrings (vw_vdev w))"
  shows "unseen (drop_vring i w) (upd_vdev (\<lambda>vd. vd\<lparr>vd_num_vrings_in_flight := vd_num_vrings_in_flight vd - 1\<rparr>)
    (vring_reset i (upd_vring i (vr_vq_update (\<lambda>_. zero_virtq)) (upd_vring i (vr_started_in_ctl_update (\<lambda>_. False))
      (upd_vring i (vr_on_drain_cb_update (\<lambda>_. False)) w)))))"
  using assms unseen_vring_reset [of i "upd_vring i (vr_vq_update (\<lambda>_. zero_virtq))
      (upd_vring i (vr_started_in_ctl_update (\<lambda>_. False)) (upd_vring i (vr_on_drain_cb_update (\<lambda>_. False)) w))"]
  by (simp add: unseen_def view_def drop_vring_def upd_vring_def upd_vdev_def dflags_def drained_vring_def map_update)
    (simp add: vflags_def)

lemma drain_count:
  assumes "drain_ok w" and "i < length (vd_vrings (vw_vdev w))" and "vr_on_drain_cb (vring i w)"
  shows "count_if vr_on_drain_cb (vd_vrings (vw_vdev w)) = 1"
proof -
  have "count_if vr_on_drain_cb (vd_vrings (vw_vdev w)) \<le> 1" using assms(1) by (simp add: drain_ok_def Let_def)
  with count_if_pos [OF assms(2), of vr_on_drain_cb] assms(3) show ?thesis by linarith
qed

text \<open>The world before the last step of \<open>vring_mark_drained\<close>.\<close>

lemma mark_drained_eq:
  assumes core: "core bs 0 0 w" and may: "may_drain bs w i" and send: "send_ok sy"
  shows "\<exists>x. vring_mark_drained K sy i w = vdev_maybe_drained K sy x \<and>
    unseen (if vr_on_drain_cb (vring i w) then finished sy (drop_vring i w) else drop_vring i w) x"
proof -
  have i: "i < length (vd_vrings (vw_vdev w))" "vr_started_in_ctl (vring i w)" using may by (simp_all add: may_drain_def)
  have buf: "vq_buffers (vr_vq (vring i w)) \<noteq> []" using core i by (auto simp: core_def vring_ok_def Let_def)
  note nz = in_flight_pos [OF core may]
  let ?wa = "upd_vring i (vr_started_in_ctl_update (\<lambda>_. False)) w"
  let ?fin = "\<lambda>u. upd_vdev (\<lambda>vd. vd\<lparr>vd_num_vrings_in_flight := vd_num_vrings_in_flight vd - 1\<rparr>)
    (vring_reset i (upd_vring i (vr_vq_update (\<lambda>_. zero_virtq)) u))"
  have rest: "vring_mark_drained K sy i w = vdev_maybe_drained K sy (?fin u)"
    if "vring_on_drain K sy i ?wa = Some u" and "vr_vq (vring i u) = vr_vq (vring i w)"
      and "vd_num_vrings_in_flight (vw_vdev u) = vd_num_vrings_in_flight (vw_vdev w)" for u
    using that i buf nz(1) by (simp add: vring_mark_drained_def virtio_virtq_release_def vring_reset_def replace_fd_def
        upd_vring_def upd_vdev_def act_def Let_def)
  show ?thesis
  proof (cases "vr_on_drain_cb (vring i w)")
    case False
    let ?u = "upd_vring i (vr_on_drain_cb_update (\<lambda>_. False)) w"
    have "?u = w" using False by (simp add: upd_vring_def upd_vdev_def list_update_same_conv i)
    then have "unseen (drop_vring i w) (?fin ?wa)" using drop_vring_eq [OF i(1)] by simp
    moreover have "vring_mark_drained K sy i w = vdev_maybe_drained K sy (?fin ?wa)"
      by (rule rest) (use False i in \<open>simp_all add: vring_on_drain_def upd_vring_def upd_vdev_def\<close>)
    ultimately show ?thesis using False by auto
  next
    case True
    have "count_if vr_on_drain_cb (vd_vrings (vw_vdev w)) = 1"
      by (rule drain_count [OF _ i(1) True]) (use core in \<open>simp add: core_def\<close>)
    then have q: "vd_conn_handler (vw_vdev ?wa) \<noteq> Some True" "vd_timer_handler (vw_vdev ?wa) \<noteq> None"
      using core nz(2)
      by (auto simp: core_def drain_ok_def conn_ok_def upd_vring_def upd_vdev_def Let_def)
    let ?u = "upd_vring i (vr_on_drain_cb_update (\<lambda>_. False)) (finished sy (act (base_reply i ?wa) ?wa))"
    have "vring_on_drain K sy i ?wa = Some ?u"
      using True i(1) send_base_ok [OF q send, of i] by (simp add: vring_on_drain_def upd_vring_def upd_vdev_def Let_def)
    then have "vring_mark_drained K sy i w = vdev_maybe_drained K sy (?fin ?u)"
      by (rule rest) (use i in \<open>simp_all add: upd_vring_def upd_vdev_def act_def finished_def\<close>)
    moreover have "unseen (finished sy (drop_vring i w)) (?fin ?u)"
      using i(1)
      by (simp add: unseen_def view_def finished_def upd_vring_def upd_vdev_def act_def dflags_def vring_reset_def
          replace_fd_def Let_def drop_vring_def drained_vring_def map_update) (simp add: vflags_def)
    ultimately show ?thesis using True by auto
  qed
qed

lemma mark_drained_ok:
  assumes core: "core bs 0 0 w" and busy: "busy_ok w" and work: "work_ok w" and may: "may_drain bs w i" and send: "send_ok sy"
    and un: "unmessaged w" and flow: "flow {i} w"
  shows "\<exists>w'. vring_mark_drained K sy i w = Some w' \<and> core bs 0 0 w' \<and> busy_ok w' \<and> work_ok w' \<and> open_ok w' \<and> flow {} w' \<and>
    vw_queue w' = vw_queue w \<and> vw_backend w' = vw_backend w \<and> vw_rq w' = vw_rq w \<and> vw_ctl w' = vw_ctl w"
proof -
  have i: "i < length (vd_vrings (vw_vdev w))" using may by (simp add: may_drain_def)
  note nz = in_flight_pos [OF core may] and dc = drained_counts [OF i]
  let ?d = "drop_vring i w"
  let ?y = "if vr_on_drain_cb (vring i w) then finished sy ?d else ?d"
  have cd: "core bs 0 0 ?d" by (rule core_drop_vring [OF core may])
  have fd: "dflags (vw_vdev ?d) = dflags ((vw_vdev w)\<lparr>vd_num_vrings_in_flight := vd_num_vrings_in_flight (vw_vdev w) - 1\<rparr>)"
    by simp
  have y: "core bs 0 0 ?y \<and> busy_ok ?y"
  proof (cases "vr_on_drain_cb (vring i w)")
    case True
    have c1: "count_if vr_on_drain_cb (vd_vrings (vw_vdev w)) = 1"
      by (rule drain_count [OF _ i True]) (use core in \<open>simp add: core_def\<close>)
    have "vd_num_vrings_handling_msg (vw_vdev w) = 0"
      using core c1 unfolding core_def msg_ok_def no_drain_iff by (auto simp: Let_def split: if_splits)
    then have "idle ?d"
      using core c1 dc(3) True nz(2) fd by (auto simp: idle_def core_def drain_ok_def conn_ok_def dflags_def Let_def)
    then show ?thesis using core_finished [OF cd] True by simp
  next
    case False
    then show ?thesis using cd busy dc(3) fd by (simp add: busy_ok_def dflags_def Let_def)
  qed
  have wy: "work_ok ?y" "0 \<le> vd_connfd (vw_vdev ?y)"
    using work nz(2) fd by (auto simp: work_ok_def dflags_def Let_def)
  have same: "same_vrings ?d ?y" by (simp add: same_vrings_def)
  then have fy: "flow {} ?y" using same_vrings_flow flow_drop_vring [OF flow] by blast
  have uy: "unmessaged ?y" using un fd by (simp add: unmessaged_def dflags_def Let_def)
  obtain x where x: "vring_mark_drained K sy i w = vdev_maybe_drained K sy x" "unseen ?y x"
    using mark_drained_eq [OF core may send, of K] by blast
  have "core bs 0 0 x" "busy_ok x" "work_ok x"
    using x(2) y wy(1) core_view busy_ok_view work_ok_view unfolding unseen_def by metis+
  moreover have "unmessaged x" using x(2) uy by (simp add: unseen_def view_def dflags_def unmessaged_def Let_def)
  moreover have "0 \<le> vd_connfd (vw_vdev x)" using x(2) wy(2) by (simp add: unseen_def view_def dflags_def)
  ultimately obtain w' where w': "vdev_maybe_drained K sy x = Some w'" "core bs 0 0 w'" "busy_ok w'" "work_ok w'" "open_ok w'" "same_vrings x w'"
    using maybe_drained_ok [of bs x K sy] by auto
  have "same_vrings ?y w'" using unseen_same_vrings [OF x(2)] w'(6) by (rule same_vrings_trans)
  then have "flow {} w'" "same_vrings ?d w'" using same_vrings_flow [OF _ fy] same_vrings_trans [OF same] by blast+
  then show ?thesis using x(1) w'(1-5) by (simp add: same_vrings_def)
qed

lemma same_vrings_may_drain:
  assumes "same_vrings w w'"
  shows "may_drain bs w' i = may_drain bs w i"
  using same_vrings_nth(1) [OF assms] same_vrings_nth(2) [OF assms, of i] assms by (auto simp: may_drain_def starting_def same_vrings_def vflags_def)

lemma start_failed_ok:
  assumes core: "core bs 1 1 w" and "work_ok w" and may: "may_drain bs w i" and send: "send_ok sy"
    and hc: "vd_handle_complete (vw_vdev w) = Some SetVringKickComplete" and un: "unmessaged w" and flow: "flow {i} w"
  shows "\<exists>w'. vring_start_failed_bh K sy i w = Some w' \<and> core bs 0 0 w' \<and> busy_ok w' \<and> work_ok w' \<and> open_ok w' \<and> flow {} w' \<and>
    vw_queue w' = vw_queue w \<and> vw_backend w' = vw_backend w \<and> vw_rq w' = vw_rq w \<and> vw_ctl w' = vw_ctl w"
proof -
  let ?w0 = "upd_vdev (vd_handle_complete_update (\<lambda>_. Some SetVringKickFailComplete)) w"
  have u: "unat (vd_num_vrings_handling_msg (vw_vdev w)) =
      count_if is_msg_rq (vw_rq w) + count_if is_msg_ctl (vw_ctl w) + 1"
    using core by (simp add: core_def counts_ok_def Let_def)
  then have nz: "vd_num_vrings_handling_msg (vw_vdev w) \<noteq> 0" by auto
  with core hc have one: "vd_num_vrings_handling_msg (vw_vdev w) = 1" by (simp add: core_def msg_ok_def Let_def)
  with u have "count_if is_msg_rq (vw_rq w) = 0" "count_if is_msg_ctl (vw_ctl w) = 0" by simp_all
  then have "\<not> starting j w" for j unfolding count_if_0 by (auto simp: starting_def)
  then have "core bs 1 1 ?w0"
    using core hc nz unfolding core_def by (simp add: vring_ok_upd_vdev vrings_upd_vdev)
      (auto simp: counts_ok_def starting_def msg_ok_def drain_ok_def conn_ok_def upd_vdev_def Let_def)
  moreover have "unmessaged ?w0" using un by (simp add: unmessaged_def upd_vdev_def Let_def)
  ultimately obtain w1 where w1: "vring_mark_msg_handled K sy ?w0 = Some w1" "core bs 0 1 w1" "work_ok w1" "busy_ok w1" "same_vrings ?w0 w1"
    "open_ok w1" using mark_msg_handled_ok [of bs 1 ?w0 sy K] assms(2) send by auto
  from mark_stopped_ok [OF w1(2,4,3) open_okD [OF w1(6)], of K sy] obtain w2 where
    w2: "vring_mark_stopped K sy w1 = Some w2" "core bs 0 0 w2" "busy_ok w2" "work_ok w2" "same_vrings w1 w2" "open_ok w2" by blast
  have s: "same_vrings w w2"
    using w1(5) w2(5) by (simp add: same_vrings_def upd_vdev_def)
  then have "may_drain bs w2 i" using may by (simp add: same_vrings_may_drain)
  from mark_drained_ok [OF w2(2,3,4) this send open_okD [OF w2(6)] same_vrings_flow [OF s flow], of K] obtain w' where
    "vring_mark_drained K sy i w2 = Some w'" "core bs 0 0 w'" "busy_ok w'" "work_ok w'" "open_ok w'" "flow {} w'"
    "vw_queue w' = vw_queue w2" "vw_backend w' = vw_backend w2" "vw_rq w' = vw_rq w2" "vw_ctl w' = vw_ctl w2" by blast
  then show ?thesis using w1(1) w2(1) s by (simp add: vring_start_failed_bh_def same_vrings_def)
qed

end
