(* ===== verification/Vdev_Conn.thy ===== *)
theory Vdev_Conn
  imports Vdev_Ctl
begin

text \<open>
  Connections keep the invariant: accepting a client, disconnecting from it, and stopping the
  device.
\<close>

section \<open>Disconnecting\<close>

lemma vring_disconnect_ok:
  assumes core: "core bs h s w" and i: "i < length (vd_vrings (vw_vdev w))"
  shows "core bs h s (vring_disconnect i w)" and "dflags (vw_vdev (vring_disconnect i w)) = dflags (vw_vdev w)"
    and "length (vd_vrings (vw_vdev (vring_disconnect i w))) = length (vd_vrings (vw_vdev w))"
    and "count_if vr_on_drain_cb (vd_vrings (vw_vdev (vring_disconnect i w))) = count_if vr_on_drain_cb (vd_vrings (vw_vdev w))"
    and "vw_queue (vring_disconnect i w) = vw_queue w" and "vw_backend (vring_disconnect i w) = vw_backend w"
proof -
  let ?vs = "vd_vrings (vw_vdev w)"
  have *: "core bs h s (vring_disconnect i w) \<and> dflags (vw_vdev (vring_disconnect i w)) = dflags (vw_vdev w) \<and>
    length (vd_vrings (vw_vdev (vring_disconnect i w))) = length ?vs \<and>
    count_if vr_on_drain_cb (vd_vrings (vw_vdev (vring_disconnect i w))) = count_if vr_on_drain_cb ?vs \<and>
    vw_queue (vring_disconnect i w) = vw_queue w \<and> vw_backend (vring_disconnect i w) = vw_backend w"
  proof (cases "vr_started_in_ctl (vring i w)")
    case False
    have "vr_kickfd (vring i w) < 0" "\<not> vr_disconnecting (vring i w)"
      using core i False by (auto simp: core_def vring_ok_def Let_def)
    then have "vflags ((vring i w)\<lparr>vr_kickfd := - 1, vr_disconnecting := False\<rparr>) = vflags (vring i w)"
      by (simp add: vflags_def)
    then have "unseen w (upd_vring i (\<lambda>v. v\<lparr>vr_kickfd := - 1, vr_disconnecting := False\<rparr>) w)"
      using i by (simp add: unseen_def view_def upd_vring_def upd_vdev_def dflags_def map_update list_update_same_conv)
    with unseen_vring_reset have u: "unseen w (vring_disconnect i w)"
      using False unseen_trans by (auto simp: vring_disconnect_def)
    then show ?thesis
      using core core_view [of "vring_disconnect i w" w] view_counts(3) [of "vring_disconnect i w" w]
        view_length [of "vring_disconnect i w" w]
      by (simp add: unseen_def view_def)
  next
    case True
    let ?v = "(vring i w)\<lparr>vr_disconnecting := True\<rparr>"
    have w': "vd_vrings (vw_vdev (vring_disconnect i w)) = ?vs[i := ?v]" "vw_rq (vring_disconnect i w) = VringStop i # vw_rq w"
      "vw_ctl (vring_disconnect i w) = vw_ctl w" "dflags (vw_vdev (vring_disconnect i w)) = dflags (vw_vdev w)"
      using True by (simp_all add: vring_disconnect_def run_in_rq_def upd_vring_def upd_vdev_def dflags_def)
    note cu = count_if_update [OF i, of _ ?v]
    have cnt: "count_if P (?vs[i := ?v]) = count_if P ?vs" if "P ?v = P (vring i w)" for P
      using cu [of P] that by (simp split: if_splits)
    have c: "counts_ok h s (vring_disconnect i w)"
      using core w' i by (simp add: core_def counts_ok_def dflags_def cnt Let_def)
    have v: "vring_ok bs (vring_disconnect i w) j" if "j < length ?vs" for j
      using core that i w' True by (auto simp: core_def vring_ok_def starting_def nth_list_update Let_def)
    have m: "msg_ok (vring_disconnect i w)" "drain_ok (vring_disconnect i w)"
      using core w' unfolding core_def msg_ok_def drain_ok_def no_drain_iff
      by (auto simp: dflags_def starting_def cnt Let_def)
    have k: "conn_ok (vring_disconnect i w)" using core w' by (auto simp: core_def conn_ok_def dflags_def Let_def)
    show ?thesis
      using c v m k w' by (simp add: core_def cnt vring_disconnect_def run_in_rq_def upd_vring_def upd_vdev_def True)
  qed
  then show "core bs h s (vring_disconnect i w)" "dflags (vw_vdev (vring_disconnect i w)) = dflags (vw_vdev w)"
    "length (vd_vrings (vw_vdev (vring_disconnect i w))) = length (vd_vrings (vw_vdev w))"
    "count_if vr_on_drain_cb (vd_vrings (vw_vdev (vring_disconnect i w))) = count_if vr_on_drain_cb (vd_vrings (vw_vdev w))"
    "vw_queue (vring_disconnect i w) = vw_queue w" "vw_backend (vring_disconnect i w) = vw_backend w" by blast+
qed

lemma fold_disconnect_length: "length (vd_vrings (vw_vdev (fold vring_disconnect is w))) = length (vd_vrings (vw_vdev w))"
  by (induction "is" arbitrary: w)
    (simp_all add: vring_disconnect_def vring_reset_def run_in_rq_def upd_vring_def upd_vdev_def replace_fd_def act_def Let_def)

text \<open>Every vring that is disconnected has to stop, and is told to.\<close>

lemma vring_disconnect_flow:
  assumes core: "core bs h s w" and i: "i < length (vd_vrings (vw_vdev w))" and d: "\<forall>j<length (vd_vrings (vw_vdev w)). due X w j"
    and w': "w' = vring_disconnect i w"
  shows "\<forall>j<length (vd_vrings (vw_vdev w)). due X w' j" and "parting w' i" and "j \<noteq> i \<Longrightarrow> parting w j \<Longrightarrow> parting w' j"
proof -
  have v: "vring j w' = vring j w" if "j \<noteq> i" for j
    using that by (simp add: w' vring_disconnect_def vring_reset_def run_in_rq_def upd_vring_def upd_vdev_def replace_fd_def act_def Let_def)
  have l: "vw_ctl w' = vw_ctl w" "set (vw_rq w) \<subseteq> set (vw_rq w')" "starting j w' = starting j w" for j
    by (auto simp: w' vring_disconnect_def vring_reset_def run_in_rq_def upd_vring_def upd_vdev_def replace_fd_def act_def starting_def Let_def)
  have ok: "vr_started_in_rq (vring i w) \<Longrightarrow> vr_started_in_ctl (vring i w)" using core i by (auto simp: core_def vring_ok_def Let_def split: if_splits)
  have vi: "vr_started_in_ctl (vring i w') = vr_started_in_ctl (vring i w)" "vr_started_in_rq (vring i w') = vr_started_in_rq (vring i w)"
    "vr_num_in_flight (vring i w') = vr_num_in_flight (vring i w)" "vr_disconnecting (vring i w') = vr_started_in_ctl (vring i w)"
    "vr_started_in_ctl (vring i w) \<Longrightarrow> VringStop i \<in> set (vw_rq w')"
    using i by (simp_all add: w' vring_disconnect_def vring_reset_def run_in_rq_def upd_vring_def upd_vdev_def replace_fd_def act_def Let_def)
  show "\<forall>j<length (vd_vrings (vw_vdev w)). due X w' j"
  proof (intro allI impI)
    fix j assume j: "j < length (vd_vrings (vw_vdev w))"
    then have dj: "due X w j" using d by simp
    show "due X w' j"
    proof (cases "j = i")
      case True
      then show ?thesis using dj vi ok l by (auto simp: due_def Let_def)
    next
      case False
      then show ?thesis using dj v [OF False] l by (auto simp: due_def Let_def)
    qed
  qed
  show "parting w' i" using vi by (simp add: parting_def)
  show "j \<noteq> i \<Longrightarrow> parting w j \<Longrightarrow> parting w' j" using v [of j] by (simp add: parting_def)
qed

lemma fold_disconnect_flow:
  assumes "core bs h s w" and "\<forall>i\<in>set is. i < length (vd_vrings (vw_vdev w))" and "\<forall>j<length (vd_vrings (vw_vdev w)). due X w j"
    and "\<forall>j\<in>A. parting w j" and "w' = fold vring_disconnect is w"
  shows "(\<forall>j<length (vd_vrings (vw_vdev w)). due X w' j) \<and> (\<forall>j\<in>A \<union> set is. parting w' j)"
  using assms
proof (induction "is" arbitrary: w A)
  case (Cons i "is")
  have i: "i < length (vd_vrings (vw_vdev w))" using Cons.prems(2) by simp
  note s = vring_disconnect_ok [OF Cons.prems(1) i] and f = vring_disconnect_flow [OF Cons.prems(1) i Cons.prems(3) refl]
  have "\<forall>j\<in>insert i A. parting (vring_disconnect i w) j" using f(2,3) Cons.prems(4) by (metis insert_iff)
  from Cons.IH [OF s(1) _ _ this] show ?case using Cons.prems(2,5) s(3) f(1) by simp
qed simp

lemma fold_disconnect_ok:
  assumes "core bs h s w" and "\<forall>i\<in>set is. i < length (vd_vrings (vw_vdev w))" and "w' = fold vring_disconnect is w"
  shows "core bs h s w' \<and> dflags (vw_vdev w') = dflags (vw_vdev w) \<and>
    count_if vr_on_drain_cb (vd_vrings (vw_vdev w')) = count_if vr_on_drain_cb (vd_vrings (vw_vdev w)) \<and>
    vw_queue w' = vw_queue w \<and> vw_backend w' = vw_backend w"
  using assms
proof (induction "is" arbitrary: w)
  case (Cons i "is")
  note s = vring_disconnect_ok [OF Cons.prems(1), of i]
  show ?case using Cons.IH [OF s(1)] Cons.prems s by simp
qed simp

lemma disconnect_vrings_flow:
  assumes core: "core bs h s (upd_vdev (vd_conn_handler_update (\<lambda>_. None)) w)" (is "core _ _ _ ?w0") and flow: "flow X w"
  shows "flow X (for_vrings vring_disconnect ?w0)"
proof -
  let ?is = "[0..<length (vd_vrings (vw_vdev ?w0))]"
  have "unat (vd_num_queues (vw_vdev ?w0)) = length (vd_vrings (vw_vdev ?w0))" using core by (simp add: core_def counts_ok_def Let_def)
  then have w1: "for_vrings vring_disconnect ?w0 = fold vring_disconnect ?is ?w0" by (simp add: for_vrings_def)
  have "\<forall>j<length (vd_vrings (vw_vdev ?w0)). due X ?w0 j"
    using flow by (simp add: flow_def due_def starting_def upd_vdev_def Let_def)
  from fold_disconnect_flow [OF core _ this, of ?is "{}", OF _ _ refl] show ?thesis
    unfolding w1 by (simp add: flow_def fold_disconnect_length)
qed

lemma disconnect_ok:
  assumes core: "core bs 0 0 (upd_vdev (vd_conn_handler_update (\<lambda>_. None)) w)" and busy: "busy_ok w"
    and "vd_conn_handler (vw_vdev w) \<noteq> None" and "0 \<le> vd_connfd (vw_vdev w)"
    and "vd_work (vw_vdev w) \<longleftrightarrow> vd_listen_handler (vw_vdev w) = None"
    and flow: "flow {} w" and un: "vd_listen_handler (vw_vdev w) \<noteq> None \<Longrightarrow> vd_num_vrings_handling_msg (vw_vdev w) = 0"
  shows "\<exists>w'. vdev_disconnect K sy w = Some w' \<and> core bs 0 0 w' \<and> busy_ok w' \<and> work_ok w' \<and> open_ok w' \<and> flow {} w' \<and>
    vw_queue w' = vw_queue w \<and> vw_backend w' = vw_backend w"
proof -
  let ?w0 = "upd_vdev (vd_conn_handler_update (\<lambda>_. None)) w"
  define w1 where "w1 = for_vrings vring_disconnect ?w0"
  have "unat (vd_num_queues (vw_vdev ?w0)) = length (vd_vrings (vw_vdev ?w0))"
    using core by (simp add: core_def counts_ok_def Let_def)
  then have w1: "core bs 0 0 w1" "dflags (vw_vdev w1) = dflags (vw_vdev ?w0)"
    "count_if vr_on_drain_cb (vd_vrings (vw_vdev w1)) = count_if vr_on_drain_cb (vd_vrings (vw_vdev ?w0))"
    "vw_queue w1 = vw_queue w" "vw_backend w1 = vw_backend w"
    using fold_disconnect_ok [OF core _ refl, of "[0..<unat (vd_num_queues (vw_vdev ?w0))]"]
    by (simp_all add: w1_def for_vrings_def upd_vdev_def)
  have f1: "flow {} w1" using disconnect_vrings_flow [OF core flow] by (simp add: w1_def)
  have u1: "unmessaged w1" using un w1(2) by (simp add: unmessaged_def dflags_def upd_vdev_def Let_def)
  have "busy_ok w1" "vd_work (vw_vdev w1) \<longleftrightarrow> vd_listen_handler (vw_vdev w1) = None"
    using busy assms(5) w1(2,3) by (simp_all add: busy_ok_def upd_vdev_def dflags_def Let_def)
  from maybe_vrings_stopped_ok [OF w1(1) this] obtain w2 where
    w2: "vdev_maybe_vrings_stopped w1 = Some w2" "core bs 0 0 w2" "busy_ok w2" "work_ok w2" "same_vrings w1 w2"
    "vd_connfd (vw_vdev w2) = vd_connfd (vw_vdev w1)" "unmessaged w2 = unmessaged w1" by blast
  have "0 \<le> vd_connfd (vw_vdev w2)" using w2(6) w1(2) assms(4) by (simp add: dflags_def upd_vdev_def)
  with maybe_drained_ok [OF w2(2,3,4), of K sy] w2(7) u1 obtain w' where
    w': "vdev_maybe_drained K sy w2 = Some w'" "core bs 0 0 w'" "busy_ok w'" "work_ok w'" "open_ok w'" "same_vrings w2 w'" by auto
  have s: "same_vrings w1 w'" by (rule same_vrings_trans [OF w2(5) w'(6)])
  have "vdev_disconnect K sy w = Some w'" using w2(1) w'(1) assms(3) by (auto simp: vdev_disconnect_def w1_def)
  then show ?thesis using w' w1(4,5) same_vrings_flow [OF s f1] s by (simp add: same_vrings_def)
qed

lemma core_conn_none:
  "core bs h s w \<Longrightarrow> core bs h s (upd_vdev (vd_conn_handler_update (\<lambda>_. None)) w)"
  unfolding core_def by (simp add: vring_ok_upd_vdev vrings_upd_vdev)
    (auto simp: counts_ok_def starting_def msg_ok_def drain_ok_def conn_ok_def upd_vdev_def Let_def)

text \<open>Disconnecting from the handler of the connection.\<close>

lemma disconnect_inv:
  assumes "core bs 0 0 w" and "busy_ok w" and "work_ok w" and "vd_conn_handler (vw_vdev w) \<noteq> None" and "flow {} w"
    and "vd_num_vrings_handling_msg (vw_vdev w) = 0"
  shows "\<exists>w'. vdev_disconnect K sy w = Some w' \<and> core bs 0 0 w' \<and> busy_ok w' \<and> work_ok w' \<and> open_ok w' \<and> flow {} w' \<and>
    vw_queue w' = vw_queue w \<and> vw_backend w' = vw_backend w"
  by (rule disconnect_ok [OF core_conn_none [OF assms(1)] assms(2,4)])
    (use assms in \<open>auto simp: core_def conn_ok_def work_ok_def Let_def\<close>)

section \<open>Stopping the device\<close>

lemma stop_ok:
  assumes inv: "vdev_inv w" and listen: "vd_listen_handler (vw_vdev w) \<noteq> None"
  shows "\<exists>w'. vhd_vdev_stop_server K sy w = Some w' \<and> vdev_inv w' \<and> bios w' = bios w"
proof -
  have core: "core (bios w) 0 0 w" and busy: "busy_ok w" and work: "\<not> vd_work (vw_vdev w)" and flow: "flow {} w"
    using inv listen by (auto simp: vdev_inv_def work_ok_def Let_def)
  define w1 where "w1 = upd_vdev (\<lambda>vd. vd\<lparr>vd_listen_handler := None, vd_listenfd := - 1\<rparr>)
    (replace_fd (vd_listenfd (vw_vdev w)) (upd_vdev (vd_work_update (\<lambda>_. True)) w))"
  have e: "vhd_vdev_stop_server K sy w =
    (if vd_conn_handler (vw_vdev w1) \<noteq> None then vdev_disconnect K sy w1
     else do { w2 \<leftarrow> vdev_maybe_vrings_stopped w1; vdev_maybe_drained K sy w2 })"
    using work listen by (auto simp: vhd_vdev_stop_server_def vdev_work_fn_def vdev_stop_def vdev_stop_listening_def
        w1_def upd_vdev_def)
  have u: "unseen (upd_vdev (\<lambda>vd. vd\<lparr>vd_listen_handler := None, vd_work := True\<rparr>) w) w1"
    by (simp add: w1_def unseen_def view_def dflags_def upd_vdev_def replace_fd_def act_def)
  have c0: "core (bios w) 0 0 (upd_vdev (vd_conn_handler_update (\<lambda>_. None))
      (upd_vdev (\<lambda>vd. vd\<lparr>vd_listen_handler := None, vd_work := True\<rparr>) w))"
    using core unfolding core_def by (simp add: vring_ok_upd_vdev vrings_upd_vdev)
      (auto simp: counts_ok_def starting_def msg_ok_def drain_ok_def conn_ok_def upd_vdev_def Let_def)
  have c1: "core (bios w) 0 0 (upd_vdev (vd_conn_handler_update (\<lambda>_. None)) w1)"
    using c0 by (rule core_view [THEN iffD1, rotated])
      (use u in \<open>simp add: unseen_def view_def dflags_def upd_vdev_def\<close>)
  have b: "busy_ok w1" "vd_work (vw_vdev w1) \<longleftrightarrow> vd_listen_handler (vw_vdev w1) = None" "bios w1 = bios w"
    "vd_listen_handler (vw_vdev w1) = None"
    using busy by (auto simp: w1_def busy_ok_def bios_def upd_vdev_def replace_fd_def act_def Let_def)
  have f1: "flow {} w1" by (rule same_vrings_flow [OF _ flow]) (simp add: w1_def same_vrings_def upd_vdev_def replace_fd_def act_def)
  have o1: "unmessaged w1" using b(4) by (simp add: unmessaged_def Let_def)
  show ?thesis
  proof (cases "vd_conn_handler (vw_vdev w1) = None")
    case False
    moreover have "vd_conn_handler (vw_vdev w1) = vd_conn_handler (vw_vdev w)"
      "vd_connfd (vw_vdev w1) = vd_connfd (vw_vdev w)"
      using u by (simp_all add: unseen_def view_def dflags_def upd_vdev_def)
    ultimately have "0 \<le> vd_connfd (vw_vdev w1)"
      using core by (auto simp: core_def conn_ok_def Let_def)
    from disconnect_ok [OF c1 b(1) False this b(2) f1, of K sy] b(4) show ?thesis
      using e False b(3) by (auto simp: vdev_inv_def bios_def)
  next
    case True
    then have "upd_vdev (vd_conn_handler_update (\<lambda>_. None)) w1 = w1" by (simp add: upd_vdev_def)
    with c1 have c: "core (bios w) 0 0 w1" by simp
    from maybe_vrings_stopped_ok [OF c b(1,2)] obtain w2 where
      w2: "vdev_maybe_vrings_stopped w1 = Some w2" "core (bios w) 0 0 w2" "busy_ok w2" "work_ok w2" "same_vrings w1 w2"
      "vd_listen_handler (vw_vdev w2) = vd_listen_handler (vw_vdev w1)" "unmessaged w2" using o1 by blast
    from maybe_drained_ok [OF w2(2,3,4), of K sy] w2(6,7) b(4) obtain w' where
      w': "vdev_maybe_drained K sy w2 = Some w'" "core (bios w) 0 0 w'" "busy_ok w'" "work_ok w'" "open_ok w'" "same_vrings w2 w'" by auto
    have s: "same_vrings w1 w'" by (rule same_vrings_trans [OF w2(5) w'(6)])
    have "vhd_vdev_stop_server K sy w = Some w'" using e True w2(1) w'(1) by simp
    then show ?thesis using w' b(3) same_vrings_flow [OF s f1] s by (simp add: vdev_inv_def bios_def same_vrings_def)
  qed
qed

section \<open>Accepting a client\<close>

lemma server_read_ok:
  assumes inv: "vdev_inv w" and listen: "vd_listen_handler (vw_vdev w) = Some True"
    and fd: "\<And>fd. sy_accept sy = Inr fd \<Longrightarrow> 0 \<le> fd"
  shows "\<exists>w'. server_read sy w = Some w' \<and> vdev_inv w' \<and> bios w' = bios w"
proof -
  have core: "core (bios w) 0 0 w" using inv by (simp add: vdev_inv_def)
  then have neg: "vd_connfd (vw_vdev w) < 0" using listen by (auto simp: core_def conn_ok_def Let_def)
  then have z: "vd_req (vw_vdev w) = VHOST_USER_NONE" "vd_num_vrings_in_flight (vw_vdev w) = 0"
    "vd_num_vrings_handling_msg (vw_vdev w) = 0"
    using core by (auto simp: core_def conn_ok_def Let_def)
  have n: "count_if vr_on_drain_cb (vd_vrings (vw_vdev w)) = 0" by (rule no_drain_when_empty [OF core z(2)])
  have closed: "vdev_inv (act a w)" "vdev_inv (act a (act b w))" for a b
    using inv vdev_inv_unseen unseen_act by blast+
  have open_inv: "vdev_inv (upd_vdev (\<lambda>vd. vd\<lparr>vd_listen_handler := Some False, vd_connfd := connfd,
         vd_conn_handler := Some True, vd_timerfd := timerfd, vd_timer_handler := Some False,
         vd_negotiated_features := 0, vd_negotiated_protocol_features := 0\<rparr>) w)" (is "vdev_inv ?w")
    if "0 \<le> connfd" for connfd timerfd
  proof -
    have "core (bios w) 0 0 ?w"
      using core z n that unfolding core_def by (simp add: vring_ok_upd_vdev vrings_upd_vdev)
        (auto simp: counts_ok_def starting_def msg_ok_def drain_ok_def conn_ok_def upd_vdev_def Let_def)
    moreover have "flow {} ?w"
      using inv by (auto simp: vdev_inv_def flow_def due_def starting_def upd_vdev_def Let_def)
    ultimately show ?thesis
      using inv z by (auto simp: vdev_inv_def bios_def busy_ok_def work_ok_def open_ok_def unmessaged_def upd_vdev_def listen Let_def)
  qed
  show ?thesis
    using neg fd listen inv closed open_inv
    by (auto simp: server_read_def bios_def act_def upd_vdev_def split: sum.splits)
qed

end
