(* ===== verification/Vdev_Rq.thy ===== *)
theory Vdev_Rq
  imports Vdev_Conn
begin

text \<open>
  The bottom halves keep the invariant: those of the control thread, which report what a vring
  did, and those of the request queue's thread, which start, stop and update a vring; so do the
  completion of requests and the dispatch of new ones.
\<close>

section \<open>Taking a bottom half from its list\<close>

lemma vring_ok_fewer:
  assumes "vring_ok bs w i" and "vring i w' = vring i w" and "set (vw_rq w') \<subseteq> set (vw_rq w)"
    and "set (vw_ctl w') \<subseteq> set (vw_ctl w)"
    and "count_if ((=) (VringMarkDrained i)) (vw_ctl w') \<le> count_if ((=) (VringMarkDrained i)) (vw_ctl w)"
  shows "vring_ok bs w' i"
proof -
  have "starting i w' \<Longrightarrow> starting i w" using assms(3,4) by (auto simp: starting_def)
  then show ?thesis using assms by (auto simp: vring_ok_def Let_def)
qed

lemma count_if_remove1_le: "count_if P (remove1 x xs) \<le> count_if P xs"
  by (induction xs) auto

lemma core_remove_ctl:
  assumes core: "core bs h s w" and bh: "bh \<in> set (vw_ctl w)"
  shows "core bs (h + (if is_msg_ctl bh then 1 else 0)) (s + (if is_stop_ctl bh then 1 else 0))
    (w\<lparr>vw_ctl := remove1 bh (vw_ctl w)\<rparr>)" (is "core bs ?h ?s ?w")
proof -
  have "counts_ok ?h ?s ?w"
    using core count_if_remove1 [OF bh, of is_msg_ctl] count_if_remove1 [OF bh, of is_stop_ctl]
      notin_set_remove1 [of _ "vw_ctl w" bh]
    by (auto simp: core_def counts_ok_def Let_def split: if_splits)
  moreover have "vring_ok bs ?w i" if "i < length (vd_vrings (vw_vdev w))" for i
    by (rule vring_ok_fewer [of bs w i]) (use core that in \<open>auto simp: core_def set_remove1_subset count_if_remove1_le\<close>)
  moreover have "starting i ?w \<Longrightarrow> starting i w" for i
    using notin_set_remove1 by (fastforce simp: starting_def)
  then have "msg_ok ?w" using core by (auto simp: core_def msg_ok_def Let_def)
  ultimately show ?thesis using core by (simp add: core_def drain_ok_def conn_ok_def)
qed

lemma core_remove_rq:
  assumes core: "core bs h s w" and bh: "bh \<in> set (vw_rq w)"
  shows "core bs (h + (if is_msg_rq bh then 1 else 0)) (s + (if is_start_rq bh then 1 else 0))
    (w\<lparr>vw_rq := remove1 bh (vw_rq w)\<rparr>)" (is "core bs ?h ?s ?w")
proof -
  have "counts_ok ?h ?s ?w"
    using core count_if_remove1 [OF bh, of is_msg_rq] count_if_remove1 [OF bh, of is_start_rq]
      notin_set_remove1 [of _ "vw_rq w" bh]
    by (auto simp: core_def counts_ok_def Let_def split: if_splits)
  moreover have "vring_ok bs ?w i" if "i < length (vd_vrings (vw_vdev w))" for i
    by (rule vring_ok_fewer [of bs w i]) (use core that in \<open>auto simp: core_def set_remove1_subset\<close>)
  moreover have "starting i ?w \<Longrightarrow> starting i w" for i
    using notin_set_remove1 by (fastforce simp: starting_def)
  then have "msg_ok ?w" using core by (auto simp: core_def msg_ok_def Let_def)
  ultimately show ?thesis using core by (simp add: core_def drain_ok_def conn_ok_def)
qed

text \<open>While a vring starts, its bottom half is the only one that handles a message.\<close>

lemma starting_facts:
  assumes core: "core bs 0 s w" and "starting i w"
  shows "vd_handle_complete (vw_vdev w) = Some SetVringKickComplete"
    and "count_if is_msg_rq (vw_rq w) + count_if is_msg_ctl (vw_ctl w) = 1"
    and "i < length (vd_vrings (vw_vdev w))" and "vr_started_in_ctl (vring i w)" and "\<not> vr_started_in_rq (vring i w)"
    and "n_bios bs i = 0" and "VringMarkDrained i \<notin> set (vw_ctl w)"
proof -
  have "0 < count_if is_msg_rq (vw_rq w) + count_if is_msg_ctl (vw_ctl w)"
  proof (rule ccontr)
    assume "\<not> ?thesis"
    then have "count_if is_msg_rq (vw_rq w) = 0" "count_if is_msg_ctl (vw_ctl w) = 0" by linarith+
    then show False using assms(2) unfolding count_if_0 by (auto simp: starting_def)
  qed
  then have "unat (vd_num_vrings_handling_msg (vw_vdev w)) \<noteq> 0"
    using core by (simp add: core_def counts_ok_def Let_def)
  then have nz: "vd_num_vrings_handling_msg (vw_vdev w) \<noteq> 0" by auto
  then show hc: "vd_handle_complete (vw_vdev w) = Some SetVringKickComplete"
    using core assms(2) by (auto simp: core_def msg_ok_def Let_def)
  with nz have "vd_num_vrings_handling_msg (vw_vdev w) = 1"
    using core by (simp add: core_def msg_ok_def Let_def)
  then show "count_if is_msg_rq (vw_rq w) + count_if is_msg_ctl (vw_ctl w) = 1"
    using core by (simp add: core_def counts_ok_def Let_def)
  show i: "i < length (vd_vrings (vw_vdev w))"
    using core assms(2) by (auto simp: core_def counts_ok_def starting_def Let_def)
  then have "vring_ok bs w i" using core by (simp add: core_def)
  then show "vr_started_in_ctl (vring i w)" "\<not> vr_started_in_rq (vring i w)" "n_bios bs i = 0"
    "VringMarkDrained i \<notin> set (vw_ctl w)"
    using assms(2) by (auto simp: vring_ok_def Let_def split: if_splits)
qed

lemma no_more_msgs:
  "count_if is_msg_rq (vw_rq w) + count_if is_msg_ctl (vw_ctl w) = 0 \<Longrightarrow> \<not> starting i w"
proof -
  assume "count_if is_msg_rq (vw_rq w) + count_if is_msg_ctl (vw_ctl w) = 0"
  then have "count_if is_msg_rq (vw_rq w) = 0" "count_if is_msg_ctl (vw_ctl w) = 0" by linarith+
  then show ?thesis unfolding count_if_0 by (auto simp: starting_def)
qed

text \<open>What becomes due when a bottom half is taken: its own report.\<close>

fun drains_ctl :: "ctl_bh \<Rightarrow> nat set" where
  "drains_ctl (VringMarkDrained i) = {i}"
| "drains_ctl (VringStartFailed i) = {i}"
| "drains_ctl _ = {}"

lemma flow_remove_ctl:
  assumes "flow {} w"
  shows "flow (drains_ctl bh) (w\<lparr>vw_ctl := remove1 bh (vw_ctl w)\<rparr>)" (is "flow ?X ?w")
proof -
  have "starting i ?w \<or> VringMarkDrained i \<in> set (vw_ctl ?w)" if "starting i w \<or> VringMarkDrained i \<in> set (vw_ctl w)" "i \<notin> ?X" for i
    using that by (cases bh) (auto simp: starting_def in_set_remove1)
  then show ?thesis using assms by (auto simp: flow_def due_def parting_def Let_def)
qed

lemma flow_run_in_ctl: "flow X w \<Longrightarrow> flow X (run_in_ctl bh w)"
  by (auto simp: flow_def due_def parting_def starting_def run_in_ctl_def Let_def)

section \<open>The control thread\<close>

lemma run_ctl_bh_ok:
  assumes inv: "vdev_inv w" and bh: "bh \<in> set (vw_ctl w)" and send: "send_ok sy"
  shows "\<exists>w'. run_ctl_bh K sy bh (w\<lparr>vw_ctl := remove1 bh (vw_ctl w)\<rparr>) = Some w' \<and> vdev_inv w' \<and> bios w' = bios w \<and>
    vw_queue w' = vw_queue w \<and> vw_backend w' = vw_backend w \<and> vw_rq w' = vw_rq w \<and> vw_ctl w' = remove1 bh (vw_ctl w)"
proof -
  let ?w = "w\<lparr>vw_ctl := remove1 bh (vw_ctl w)\<rparr>"
  have core: "core (bios w) 0 0 w" and flow: "flow {} w" using inv by (simp_all add: vdev_inv_def)
  note r = core_remove_ctl [OF core bh]
  have bw: "busy_ok ?w" "work_ok ?w" "unmessaged ?w"
    using inv by (simp_all add: vdev_inv_def busy_ok_def work_ok_def open_ok_def unmessaged_def)
  note fw = flow_remove_ctl [OF flow, of bh]
  have fin: "\<exists>w'. x = Some w' \<and> vdev_inv w' \<and> bios w' = bios w \<and>
      vw_queue w' = vw_queue w \<and> vw_backend w' = vw_backend w \<and> vw_rq w' = vw_rq w \<and> vw_ctl w' = remove1 bh (vw_ctl w)"
    if "\<exists>w'. x = Some w' \<and> core (bios w) 0 0 w' \<and> busy_ok w' \<and> work_ok w' \<and> open_ok w' \<and> flow {} w' \<and>
      vw_queue w' = vw_queue ?w \<and> vw_backend w' = vw_backend ?w \<and> vw_rq w' = vw_rq ?w \<and> vw_ctl w' = vw_ctl ?w"
    for x using that by (auto simp: vdev_inv_def bios_def)
  have same: "flow {} w' \<and> vw_queue w' = vw_queue ?w \<and> vw_backend w' = vw_backend ?w \<and> vw_rq w' = vw_rq ?w \<and> vw_ctl w' = vw_ctl ?w"
    if "same_vrings ?w w'" "drains_ctl bh = {}" for w'
    using that same_vrings_flow [OF that(1) fw] by (simp add: same_vrings_def)
  show ?thesis
  proof (cases bh)
    case (VringMarkMsgHandled i)
    with r have "core (bios w) 1 0 ?w" by simp
    from mark_msg_handled_ok [OF this bw(2) send bw(3), of K] obtain w' where
      "vring_mark_msg_handled K sy ?w = Some w'" "core (bios w) 0 0 w'" "work_ok w'" "busy_ok w'" "open_ok w'" "same_vrings ?w w'" by blast
    then show ?thesis using same [of w'] VringMarkMsgHandled by (intro fin) (simp add: run_ctl_bh_def)
  next
    case (VringMarkStopped i)
    with r have "core (bios w) 0 1 ?w" by simp
    from mark_stopped_ok [OF this bw, of K sy] obtain w' where
      "vring_mark_stopped K sy ?w = Some w'" "core (bios w) 0 0 w'" "work_ok w'" "busy_ok w'" "open_ok w'" "same_vrings ?w w'" by blast
    then show ?thesis using same [of w'] VringMarkStopped by (intro fin) (simp add: run_ctl_bh_def)
  next
    case (VringMarkDrained i)
    have i: "i < length (vd_vrings (vw_vdev w))" using core bh VringMarkDrained by (auto simp: core_def counts_ok_def Let_def)
    then have v: "vring_ok (bios w) w i" using core by (simp add: core_def)
    have "count_if ((=) (VringMarkDrained i)) (vw_ctl w) \<le> 1" using v by (simp add: vring_ok_def Let_def)
    moreover have "count_if ((=) (VringMarkDrained i)) (vw_ctl ?w) + 1 = count_if ((=) (VringMarkDrained i)) (vw_ctl w)"
      using count_if_remove1 [OF bh, of "(=) (VringMarkDrained i)"] VringMarkDrained by simp
    ultimately have "count_if ((=) (VringMarkDrained i)) (vw_ctl ?w) = 0" by linarith
    then have "VringMarkDrained i \<notin> set (vw_ctl ?w)" unfolding count_if_0 by blast
    moreover have "\<not> starting i ?w" using v bh VringMarkDrained notin_set_remove1
      by (fastforce simp: vring_ok_def starting_def Let_def)
    ultimately have m: "may_drain (bios w) ?w i"
      using v bh VringMarkDrained i by (auto simp: may_drain_def vring_ok_def Let_def split: if_splits)
    have "core (bios w) 0 0 ?w" using r VringMarkDrained by simp
    moreover have "flow {i} ?w" using fw VringMarkDrained by simp
    ultimately show ?thesis using mark_drained_ok [OF _ bw(1,2) m send bw(3), of K]
      by (intro fin) (simp add: run_ctl_bh_def VringMarkDrained)
  next
    case (VringStartFailed i)
    have "starting i w" using bh VringStartFailed by (simp add: starting_def)
    note f = starting_facts [OF core this]
    have c: "core (bios w) 1 1 ?w" using r VringStartFailed by simp
    have "count_if is_msg_rq (vw_rq ?w) = count_if is_msg_rq (vw_rq w)"
      "count_if is_msg_ctl (vw_ctl ?w) + 1 = count_if is_msg_ctl (vw_ctl w)"
      using count_if_remove1 [OF bh, of is_msg_ctl] VringStartFailed by simp_all
    with f(2) have "count_if is_msg_rq (vw_rq ?w) + count_if is_msg_ctl (vw_ctl ?w) = 0" by linarith
    then have "may_drain (bios w) ?w i"
      using f no_more_msgs [of ?w i] notin_set_remove1 by (simp add: may_drain_def)
    moreover have "flow {i} ?w" using fw VringStartFailed by simp
    ultimately show ?thesis using start_failed_ok [OF c bw(2) _ send, of i K] f(1) bw(3)
      by (intro fin) (simp add: run_ctl_bh_def VringStartFailed)
  qed
qed

section \<open>A change of one vring\<close>

lemma mem_count: "x \<in> set xs \<longleftrightarrow> count_if ((=) x) xs \<noteq> 0"
  unfolding count_if_0 by blast

lemma vring_ok_other:
  assumes "vring_ok bs w j" and "vring j w' = vring j w" and "starting j w' = starting j w" and "n_bios bs' j = n_bios bs j"
    and "count_if ((=) (VringMarkDrained j)) (vw_ctl w') = count_if ((=) (VringMarkDrained j)) (vw_ctl w)"
  shows "vring_ok bs' w' j"
proof -
  have m: "VringMarkDrained j \<in> set (vw_ctl w') \<longleftrightarrow> VringMarkDrained j \<in> set (vw_ctl w)"
    using assms(5) unfolding mem_count by simp
  have "vring_ok bs' w' j = vring_ok bs w j" by (simp only: vring_ok_def assms(2-5) m)
  with assms(1) show ?thesis by simp
qed

lemma core_change:
  assumes core: "core bs h s w" and i: "i < length (vd_vrings (vw_vdev w))"
    and vs: "vd_vrings (vw_vdev w') = (vd_vrings (vw_vdev w))[i := v']" and d: "dflags (vw_vdev w') = dflags (vw_vdev w)"
    and counts: "counts_ok h' s' w'" and ring: "vring_ok bs' w' i"
    and others: "\<And>j. j \<noteq> i \<Longrightarrow> starting j w' = starting j w"
      "\<And>j. j \<noteq> i \<Longrightarrow> n_bios bs' j = n_bios bs j"
      "\<And>j. j \<noteq> i \<Longrightarrow> count_if ((=) (VringMarkDrained j)) (vw_ctl w') = count_if ((=) (VringMarkDrained j)) (vw_ctl w)"
    and drain: "vr_on_drain_cb v' = vr_on_drain_cb (vring i w)"
    and kick: "starting i w' \<Longrightarrow> vd_handle_complete (vw_vdev w) = Some SetVringKickComplete"
  shows "core bs' h' s' w'"
proof -
  have cd: "count_if vr_on_drain_cb (vd_vrings (vw_vdev w')) = count_if vr_on_drain_cb (vd_vrings (vw_vdev w))"
    using count_if_update [OF i, of vr_on_drain_cb v'] drain vs by (simp split: if_splits)
  have v: "vring_ok bs' w' j" if "j < length (vd_vrings (vw_vdev w'))" for j
  proof (cases "j = i")
    case False
    have "vring_ok bs w j" using core that vs by (simp add: core_def)
    then show ?thesis by (rule vring_ok_other) (use False vs others in simp_all)
  qed (simp add: ring)
  have "starting j w' \<Longrightarrow> starting j w \<or> vd_handle_complete (vw_vdev w) = Some SetVringKickComplete" for j
    using others(1) [of j] kick by (cases "j = i") auto
  then have m: "msg_ok w'" "drain_ok w'"
    using core d cd unfolding core_def msg_ok_def drain_ok_def no_drain_iff by (auto simp: dflags_def Let_def)
  have k: "conn_ok w'" using core d by (auto simp: core_def conn_ok_def dflags_def Let_def)
  show ?thesis using counts v m k by (simp add: core_def)
qed

lemma sync_form:
  "\<exists>vq m. vring_sync_to_virtq i w = upd_vring i (vr_vq_update (\<lambda>_. vq)) (w\<lparr>vw_machine := m\<rparr>) \<and>
     vq_buffers vq = vq_buffers (vr_vq (vring i w))"
  by (simp add: vring_sync_to_virtq_def virtq_set_notify_fd_def Let_def) (intro exI conjI, rule refl, simp)

lemma unseen_sync: "i < length (vd_vrings (vw_vdev w)) \<Longrightarrow> unseen w (vring_sync_to_virtq i w)"
  using sync_form [of i w]
  by (auto simp: unseen_def view_def upd_vring_def upd_vdev_def dflags_def map_update list_update_same_conv vflags_def)

text \<open>Reporting that a message is handled.\<close>

lemma core_report:
  assumes core: "core bs (Suc h) s w" and i: "i < length (vd_vrings (vw_vdev w))"
  shows "core bs h s (run_in_ctl (VringMarkMsgHandled i) w)"
proof -
  have "counts_ok h s (run_in_ctl (VringMarkMsgHandled i) w)"
    using core i by (simp add: core_def counts_ok_def run_in_ctl_def Let_def)
  moreover have "vring_ok bs (run_in_ctl (VringMarkMsgHandled i) w) j = vring_ok bs w j" for j
    by (simp add: vring_ok_def starting_def run_in_ctl_def)
  moreover have "msg_ok (run_in_ctl (VringMarkMsgHandled i) w) = msg_ok w"
    "drain_ok (run_in_ctl (VringMarkMsgHandled i) w) = drain_ok w"
    "conn_ok (run_in_ctl (VringMarkMsgHandled i) w) = conn_ok w"
    by (simp_all add: msg_ok_def drain_ok_def conn_ok_def starting_def run_in_ctl_def)
  ultimately show ?thesis using core by (simp add: core_def) (simp add: run_in_ctl_def)
qed

section \<open>The request queue's thread\<close>

definition started_vring :: "virtio_virtq \<Rightarrow> vhd_vring \<Rightarrow> vhd_vring" where
  "started_vring vq v = v\<lparr>vr_kick_handler := Some True, vr_vq := vq, vr_started_in_rq := True\<rparr>"

lemma core_start:
  assumes core: "core bs 1 1 w" and i: "i < length (vd_vrings (vw_vdev w))" and "vr_started_in_ctl (vring i w)"
    and "\<not> vr_started_in_rq (vring i w)" and "\<not> starting i w" and "VringMarkDrained i \<notin> set (vw_ctl w)"
    and "vq_buffers vq = vq_buffers (vr_vq (vring i w))"
  shows "core bs 1 0 (upd_vring i (started_vring vq) w)"
proof -
  let ?w = "upd_vring i (started_vring vq) w" and ?v = "started_vring vq (vring i w)"
  have vs: "vd_vrings (vw_vdev ?w) = (vd_vrings (vw_vdev w))[i := ?v]" "dflags (vw_vdev ?w) = dflags (vw_vdev w)"
    "vw_rq ?w = vw_rq w" "vw_ctl ?w = vw_ctl w"
    by (simp_all add: upd_vring_def upd_vdev_def dflags_def)
  have "vring_ok bs w i" using core i by (simp add: core_def)
  then have ring: "vring_ok bs ?w i"
    using assms(3-7) i vs by (auto simp: vring_ok_def started_vring_def starting_def Let_def)
  have "count_if vr_started_in_ctl (vd_vrings (vw_vdev ?w)) = count_if vr_started_in_ctl (vd_vrings (vw_vdev w))"
    "count_if vr_started_in_rq (vd_vrings (vw_vdev ?w)) = count_if vr_started_in_rq (vd_vrings (vw_vdev w)) + 1"
    using count_if_update [OF i, of vr_started_in_ctl ?v] count_if_update [OF i, of vr_started_in_rq ?v] assms(3,4) vs
    by (simp_all add: started_vring_def)
  then have "counts_ok 1 0 ?w" using core vs by (simp add: core_def counts_ok_def dflags_def Let_def)
  then show ?thesis
    by (rule core_change [OF core i vs(1,2) _ ring])
      (use vs assms(5) in \<open>auto simp: starting_def started_vring_def\<close>)
qed

lemma core_start_failed:
  assumes core: "core bs 1 1 w" and i: "i < length (vd_vrings (vw_vdev w))" and "vr_started_in_ctl (vring i w)"
    and "\<not> vr_started_in_rq (vring i w)" and "n_bios bs i = 0" and "VringMarkDrained i \<notin> set (vw_ctl w)"
    and "vd_handle_complete (vw_vdev w) = Some SetVringKickComplete"
  shows "core bs 0 0 (run_in_ctl (VringStartFailed i) w)"
proof -
  let ?w = "run_in_ctl (VringStartFailed i) w"
  have "vring_ok bs w i" using core i by (simp add: core_def)
  then have ring: "vring_ok bs ?w i"
    using assms(3-6) by (simp add: vring_ok_def starting_def run_in_ctl_def Let_def)
  have vs: "vd_vrings (vw_vdev ?w) = (vd_vrings (vw_vdev w))[i := vring i w]" "dflags (vw_vdev ?w) = dflags (vw_vdev w)"
    by (simp_all add: run_in_ctl_def)
  have "counts_ok 0 0 ?w" using core i by (simp add: core_def counts_ok_def run_in_ctl_def Let_def)
  then show ?thesis
    by (rule core_change [OF core i vs _ ring])
      (use assms(7) in \<open>auto simp: starting_def run_in_ctl_def\<close>)
qed

lemma start_bh_ok:
  assumes inv: "vdev_inv w" and bh: "VringStart i \<in> set (vw_rq w)"
  shows "\<exists>w'. vring_start_bh sy i (w\<lparr>vw_rq := remove1 (VringStart i) (vw_rq w)\<rparr>) = Some w' \<and> vdev_inv w' \<and> bios w' = bios w \<and>
    vw_queue w' = vw_queue w \<and> vw_backend w' = vw_backend w \<and> vw_rq w' = remove1 (VringStart i) (vw_rq w) \<and> length (vw_ctl w') \<le> length (vw_ctl w) + 2"
proof -
  let ?w = "w\<lparr>vw_rq := remove1 (VringStart i) (vw_rq w)\<rparr>"
  have core: "core (bios w) 0 0 w" using inv by (simp add: vdev_inv_def)
  have "starting i w" using bh by (simp add: starting_def)
  note f = starting_facts [OF core this]
  have c: "core (bios w) 1 1 ?w" using core_remove_rq [OF core bh] by simp
  have "count_if is_msg_rq (vw_rq ?w) + 1 = count_if is_msg_rq (vw_rq w)"
    "count_if is_msg_ctl (vw_ctl ?w) = count_if is_msg_ctl (vw_ctl w)"
    using count_if_remove1 [OF bh, of is_msg_rq] by simp_all
  with f(2) have "count_if is_msg_rq (vw_rq ?w) + count_if is_msg_ctl (vw_ctl ?w) = 0" by linarith
  then have ns: "\<not> starting i ?w" by (rule no_more_msgs)
  have bw: "busy_ok ?w" "work_ok ?w" "open_ok ?w"
    using inv open_ok_dflags [of ?w w] by (simp_all add: vdev_inv_def busy_ok_def work_ok_def)
  have flow: "flow {} w" and pi: "vd_conn_handler (vw_vdev w) = None \<longrightarrow> parting w i" using inv f(3) by (simp_all add: vdev_inv_def flow_def)
  show ?thesis
  proof (cases "vr_disconnecting (vring i w) \<or> \<not> sy_epoll_add sy (vr_kickfd (vring i w))")
    case True
    then have "vring_start_bh sy i ?w = Some (run_in_ctl (VringStartFailed i) ?w)"
      using f(5) by (simp add: vring_start_bh_def)
    moreover have "core (bios w) 0 0 (run_in_ctl (VringStartFailed i) ?w)"
      by (rule core_start_failed [OF c]) (use f in simp_all)
    moreover have "flow {} (run_in_ctl (VringStartFailed i) ?w)"
      by (rule flow_change [OF flow, of _ i "vring i w"])
        (use f(5) pi in \<open>auto simp: run_in_ctl_def starting_def in_set_remove1 due_def parting_def Let_def\<close>)
    moreover have "open_ok (run_in_ctl (VringStartFailed i) ?w)" using bw(3) open_ok_dflags [of "run_in_ctl (VringStartFailed i) ?w" ?w]
      by (simp add: run_in_ctl_def)
    ultimately show ?thesis using bw by (simp add: vdev_inv_def bios_def busy_ok_def work_ok_def run_in_ctl_def)
  next
    case False
    let ?u = "upd_vring i (\<lambda>v. v\<lparr>vr_kick_handler := Some True\<rparr>) ?w"
    obtain vq m where s: "vring_sync_to_virtq i ?u = upd_vring i (vr_vq_update (\<lambda>_. vq)) (?u\<lparr>vw_machine := m\<rparr>)"
      "vq_buffers vq = vq_buffers (vr_vq (vring i ?u))" using sync_form by blast
    let ?x = "upd_vring i (started_vring vq) (?w\<lparr>vw_machine := m\<rparr>)"
    have "vring_start_bh sy i ?w = Some (run_in_ctl (VringMarkMsgHandled i) ?x)"
      using False f(3,5) s(1) by (simp add: vring_start_bh_def started_vring_def upd_vring_def upd_vdev_def)
    moreover have "core (bios w) 1 1 (?w\<lparr>vw_machine := m\<rparr>)" using c core_view [of "?w\<lparr>vw_machine := m\<rparr>" ?w]
      by (simp add: view_def)
    then have "core (bios w) 1 0 ?x"
      by (rule core_start) (use f ns s(2) in \<open>simp_all add: starting_def upd_vring_def upd_vdev_def\<close>)
    then have "core (bios w) 0 0 (run_in_ctl (VringMarkMsgHandled i) ?x)"
      by (intro core_report) (use f(3) in \<open>simp_all add: upd_vring_def upd_vdev_def\<close>)
    moreover have "busy_ok (run_in_ctl (VringMarkMsgHandled i) ?x)" "work_ok (run_in_ctl (VringMarkMsgHandled i) ?x)"
      using bw count_if_update [OF f(3), of vr_on_drain_cb "started_vring vq (vring i w)"]
      by (simp_all add: busy_ok_def work_ok_def run_in_ctl_def upd_vring_def upd_vdev_def started_vring_def Let_def
          split: if_splits)
    moreover have "flow {} (run_in_ctl (VringMarkMsgHandled i) ?x)"
    proof (rule flow_change [OF flow, of _ i "started_vring vq (vring i w)"])
      have "vd_num_vrings_handling_msg (vw_vdev w) \<noteq> 0" using core f(2) by (auto simp: core_def counts_ok_def Let_def)
      then have "\<not> vr_on_drain_cb (vring i w)" using core f(3) by (simp add: core_def msg_ok_def Let_def)
      then show "due {} (run_in_ctl (VringMarkMsgHandled i) ?x) i \<and>
          (vd_conn_handler (vw_vdev (run_in_ctl (VringMarkMsgHandled i) ?x)) = None \<longrightarrow> parting (run_in_ctl (VringMarkMsgHandled i) ?x) i)"
        using False f(3) pi by (simp add: due_def parting_def started_vring_def run_in_ctl_def upd_vring_def upd_vdev_def Let_def)
    qed (auto simp: run_in_ctl_def upd_vring_def upd_vdev_def starting_def in_set_remove1)
    moreover have "open_ok (run_in_ctl (VringMarkMsgHandled i) ?x)" using bw(3) open_ok_dflags [of "run_in_ctl (VringMarkMsgHandled i) ?x" ?w]
      by (simp add: run_in_ctl_def upd_vring_def upd_vdev_def dflags_def)
    ultimately show ?thesis by (simp add: vdev_inv_def bios_def run_in_ctl_def upd_vring_def upd_vdev_def)
  qed
qed

lemma core_add_drained:
  assumes core: "core bs h s w" and may: "may_drain bs w i"
  shows "core bs h s (run_in_ctl (VringMarkDrained i) w)"
proof -
  let ?w = "run_in_ctl (VringMarkDrained i) w"
  have i: "i < length (vd_vrings (vw_vdev w))" using may by (simp add: may_drain_def)
  have "count_if ((=) (VringMarkDrained i)) (vw_ctl w) = 0"
    using may unfolding count_if_0 by (auto simp: may_drain_def)
  moreover have "vring_ok bs w i" using core i by (simp add: core_def)
  ultimately have ring: "vring_ok bs ?w i"
    using may by (simp add: vring_ok_def may_drain_def starting_def run_in_ctl_def Let_def)
  have vs: "vd_vrings (vw_vdev ?w) = (vd_vrings (vw_vdev w))[i := vring i w]" "dflags (vw_vdev ?w) = dflags (vw_vdev w)"
    by (simp_all add: run_in_ctl_def)
  have "counts_ok h s ?w" using core i by (simp add: core_def counts_ok_def run_in_ctl_def Let_def)
  then show ?thesis
    by (rule core_change [OF core i vs _ ring])
      (use may in \<open>auto simp: starting_def run_in_ctl_def may_drain_def\<close>)
qed

definition stopped_vring :: "vhd_vring \<Rightarrow> vhd_vring" where
  "stopped_vring v = v\<lparr>vr_kick_handler := None, vr_started_in_rq := False, vr_num_in_flight_at_stop := vr_num_in_flight v\<rparr>"

lemma core_stop:
  assumes core: "core bs h s w" and i: "i < length (vd_vrings (vw_vdev w))" and rq: "vr_started_in_rq (vring i w)"
    and w': "w' = run_in_ctl (VringMarkStopped i) (upd_vring i stopped_vring w)"
  shows "core bs h s w'" and "n_bios bs i = 0 \<Longrightarrow> may_drain bs w' i"
proof -
  let ?v = "stopped_vring (vring i w)"
  have ok: "vring_ok bs w i" using core i by (simp add: core_def)
  have vs: "vd_vrings (vw_vdev w') = (vd_vrings (vw_vdev w))[i := ?v]" "dflags (vw_vdev w') = dflags (vw_vdev w)"
    and l: "vw_rq w' = vw_rq w" "vw_ctl w' = VringMarkStopped i # vw_ctl w"
    by (simp_all add: w' run_in_ctl_def upd_vring_def upd_vdev_def dflags_def)
  have ring: "vring_ok bs w' i"
    using ok rq i vs l by (auto simp: vring_ok_def stopped_vring_def starting_def Let_def split: if_splits)
  have "count_if vr_started_in_ctl (vd_vrings (vw_vdev w')) = count_if vr_started_in_ctl (vd_vrings (vw_vdev w))"
    "count_if vr_started_in_rq (vd_vrings (vw_vdev w')) + 1 = count_if vr_started_in_rq (vd_vrings (vw_vdev w))"
    using count_if_update [OF i, of vr_started_in_ctl ?v] count_if_update [OF i, of vr_started_in_rq ?v] rq vs
    by (simp_all add: stopped_vring_def split: if_splits)
  then have "counts_ok h s w'" using core vs l i by (auto simp: core_def counts_ok_def dflags_def Let_def)
  then show "core bs h s w'"
    by (rule core_change [OF core i vs _ ring])
      (use vs l ok rq in \<open>auto simp: starting_def stopped_vring_def vring_ok_def Let_def\<close>)
  show "n_bios bs i = 0 \<Longrightarrow> may_drain bs w' i"
    using ok rq i vs l by (auto simp: may_drain_def vring_ok_def stopped_vring_def starting_def Let_def split: if_splits)
qed

lemma cancel_none:
  "n_bios bs i = 0 \<Longrightarrow> cancel_loop complete i bs v = Some (bs, v)"
  by (induction bs) (auto simp: n_bios_def split: if_splits)

lemma vring_cancel_none:
  "n_bios (rq_submission (vw_queue w)) i = 0 \<Longrightarrow> vring_cancel_queued K i w = Some w"
  by (simp add: vring_cancel_queued_def vhd_cancel_queued_requests_def cancel_none)

text \<open>No request of a vring is waiting for the backend when it is stopped for a disconnect.\<close>

definition calm_stop :: "nat \<Rightarrow> vworld \<Rightarrow> bool" where
  "calm_stop i w \<longleftrightarrow> (vr_disconnecting (vring i w) \<longrightarrow> n_bios (rq_submission (vw_queue w)) i = 0)"

lemma stop_bh_ok:
  assumes inv: "vdev_inv w" and bh: "VringStop i \<in> set (vw_rq w)" and calm: "calm_stop i w"
  shows "\<exists>w'. vring_stop_bh K i (w\<lparr>vw_rq := remove1 (VringStop i) (vw_rq w)\<rparr>) = Some w' \<and> vdev_inv w' \<and> bios w' = bios w \<and>
    vw_queue w' = vw_queue w \<and> vw_backend w' = vw_backend w \<and> vw_rq w' = remove1 (VringStop i) (vw_rq w) \<and> length (vw_ctl w') \<le> length (vw_ctl w) + 2"
proof -
  let ?w = "w\<lparr>vw_rq := remove1 (VringStop i) (vw_rq w)\<rparr>"
  have core: "core (bios w) 0 0 w" using inv by (simp add: vdev_inv_def)
  have c: "core (bios w) 0 0 ?w" using core_remove_rq [OF core bh] by simp
  have i: "i < length (vd_vrings (vw_vdev ?w))" using core bh by (auto simp: core_def counts_ok_def Let_def)
  have bw: "busy_ok ?w" "work_ok ?w" "open_ok ?w"
    using inv open_ok_dflags [of ?w w] by (simp_all add: vdev_inv_def busy_ok_def work_ok_def)
  have flow: "flow {} w" and di: "due {} w i" "vd_conn_handler (vw_vdev w) = None \<longrightarrow> parting w i"
    using inv i by (simp_all add: vdev_inv_def flow_def)
  have ok: "vring_ok (bios w) ?w i" using c i by (simp add: core_def)
  show ?thesis
  proof (cases "vr_started_in_rq (vring i w)")
    case False
    have "flow {} ?w" by (rule flow_change [OF flow, of _ i "vring i w"])
        (use False di in \<open>auto simp: starting_def in_set_remove1 due_def parting_def Let_def\<close>)
    then show ?thesis using False c bw by (simp add: vring_stop_bh_def vdev_inv_def bios_def)
  next
    case True
    let ?x = "run_in_ctl (VringMarkStopped i) (upd_vring i stopped_vring ?w)"
    let ?y = "if vr_num_in_flight (vring i w) = 0 then run_in_ctl (VringMarkDrained i) ?x else ?x"
    have n: "unat (vr_num_in_flight (vring i w)) = n_bios (bios w) i" using ok by (simp add: vring_ok_def Let_def)
    have "vr_kick_handler (vring i w) \<noteq> None" using ok True by (simp add: vring_ok_def Let_def)
    then have "vring_stop_bh K i ?w = Some ?y"
      using True calm i vring_cancel_none [of "upd_vring i (\<lambda>v. v\<lparr>vr_kick_handler := None, vr_started_in_rq := False\<rparr>) ?w" i K]
      by (simp add: vring_stop_bh_def calm_stop_def stopped_vring_def upd_vring_def upd_vdev_def run_in_ctl_def Let_def)
    moreover have "core (bios w) 0 0 ?y"
      using core_stop [OF c i _ refl] core_add_drained [of "bios w" 0 0 ?x i] True n by auto
    moreover have "busy_ok ?y" "work_ok ?y"
      using bw count_if_update [OF i, of vr_on_drain_cb "stopped_vring (vring i w)"]
      by (auto simp: busy_ok_def work_ok_def run_in_ctl_def upd_vring_def upd_vdev_def stopped_vring_def Let_def
          split: if_splits)
    moreover have y: "vd_vrings (vw_vdev ?y) = (vd_vrings (vw_vdev w))[i := stopped_vring (vring i w)]" "vw_rq ?y = remove1 (VringStop i) (vw_rq w)"
      "set (vw_ctl w) \<subseteq> set (vw_ctl ?y)" "vr_num_in_flight (vring i w) = 0 \<Longrightarrow> VringMarkDrained i \<in> set (vw_ctl ?y)"
      "vd_conn_handler (vw_vdev ?y) = vd_conn_handler (vw_vdev w)"
      by (auto simp: run_in_ctl_def upd_vring_def upd_vdev_def)
    have "due {} ?y i" "vd_conn_handler (vw_vdev w) = None \<longrightarrow> parting ?y i"
      using di(2) i y(1,4) by (simp_all add: due_def parting_def stopped_vring_def Let_def)
    then have "flow {} ?y"
      by (intro flow_change [OF flow y(1)]) (use y(2,3,5) in \<open>auto simp: starting_def in_set_remove1\<close>)
    moreover have "open_ok ?y" using bw(3) open_ok_dflags [of ?y ?w] by (simp add: run_in_ctl_def upd_vring_def upd_vdev_def dflags_def)
    moreover have "bios ?y = bios w" "vw_queue ?y = vw_queue w" "vw_backend ?y = vw_backend w" "vw_rq ?y = vw_rq ?w"
      "length (vw_ctl ?y) \<le> length (vw_ctl w) + 2"
      by (simp_all add: bios_def run_in_ctl_def upd_vring_def upd_vdev_def)
    ultimately show ?thesis unfolding vdev_inv_def by (intro exI [of _ ?y]) simp
  qed
qed

lemma run_rq_bh_ok:
  assumes inv: "vdev_inv w" and bh: "bh \<in> set (vw_rq w)" and calm: "\<And>i. bh = VringStop i \<Longrightarrow> calm_stop i w"
  shows "\<exists>w'. run_rq_bh K sy bh (w\<lparr>vw_rq := remove1 bh (vw_rq w)\<rparr>) = Some w' \<and> vdev_inv w' \<and> bios w' = bios w \<and>
    vw_queue w' = vw_queue w \<and> vw_backend w' = vw_backend w \<and> vw_rq w' = remove1 bh (vw_rq w) \<and> length (vw_ctl w') \<le> length (vw_ctl w) + 2"
proof (cases bh)
  case (VringSyncToVirtq i)
  let ?w = "w\<lparr>vw_rq := remove1 bh (vw_rq w)\<rparr>"
  have core: "core (bios w) 0 0 w" using inv by (simp add: vdev_inv_def)
  have i: "i < length (vd_vrings (vw_vdev ?w))" using core bh VringSyncToVirtq by (auto simp: core_def counts_ok_def Let_def)
  have c: "core (bios w) 1 0 ?w" using core_remove_rq [OF core bh] VringSyncToVirtq by simp
  let ?x = "vring_sync_to_virtq i ?w"
  have u: "unseen ?w ?x" by (rule unseen_sync [OF i])
  then have l: "length (vd_vrings (vw_vdev ?x)) = length (vd_vrings (vw_vdev ?w))"
    using view_length [of ?x ?w] by (simp add: unseen_def)
  have "core (bios w) 1 0 ?x" using c u core_view [of ?x ?w] by (simp add: unseen_def)
  then have "core (bios w) 0 0 (run_in_ctl (VringMarkMsgHandled i) ?x)"
    by (intro core_report) (use i l in simp_all)
  moreover have "busy_ok ?w" "work_ok ?w" using inv by (simp_all add: vdev_inv_def busy_ok_def work_ok_def)
  then have "busy_ok ?x" "work_ok ?x"
    using u busy_ok_view [of ?x ?w] work_ok_view [of ?x ?w] by (simp_all add: unseen_def)
  then have "busy_ok (run_in_ctl (VringMarkMsgHandled i) ?x)" "work_ok (run_in_ctl (VringMarkMsgHandled i) ?x)"
    by (simp_all add: busy_ok_def work_ok_def run_in_ctl_def)
  moreover have "flow {} ?w" using inv VringSyncToVirtq by (auto simp: vdev_inv_def flow_def due_def parting_def starting_def in_set_remove1 Let_def)
  then have "flow {} (run_in_ctl (VringMarkMsgHandled i) ?x)" using u flow_view [of ?x ?w] flow_run_in_ctl by (simp add: unseen_def)
  moreover have "open_ok (run_in_ctl (VringMarkMsgHandled i) ?x)"
    using inv u view_dflags [of ?x ?w] open_ok_dflags [of "run_in_ctl (VringMarkMsgHandled i) ?x" w] by (simp add: vdev_inv_def run_in_ctl_def unseen_def)
  moreover have "bios (run_in_ctl (VringMarkMsgHandled i) ?x) = bios w"
    using u by (simp add: bios_def run_in_ctl_def unseen_def)
  moreover have "vw_queue ?x = vw_queue w" "vw_backend ?x = vw_backend w" "vw_rq ?x = vw_rq ?w" "vw_ctl ?x = vw_ctl w"
    using u by (simp_all add: unseen_def view_def)
  ultimately show ?thesis
    by (simp add: run_rq_bh_def VringSyncToVirtq vring_sync_to_virtq_bh_def vdev_inv_def) (simp add: run_in_ctl_def VringSyncToVirtq)
next
  case (VringStart i)
  then show ?thesis using start_bh_ok [OF inv] bh by (simp add: run_rq_bh_def)
next
  case (VringStop i)
  then show ?thesis using stop_bh_ok [OF inv _ calm] bh by (simp add: run_rq_bh_def)
qed

end
