(* ===== verification/Vdev_Io.thy ===== *)
theory Vdev_Io
  imports Vdev_Rq
begin

text \<open>
  Requests of a vring: dispatch, completion, and the count of those in flight. The contract of a
  device type is a locale, interpreted for the block and the file system device.
\<close>

section \<open>Completing requests\<close>

lemma core_bios_cong:
  assumes "\<And>i. i < length (vd_vrings (vw_vdev w)) \<Longrightarrow> n_bios bs i = n_bios bs' i"
  shows "core bs h s w = core bs' h s w"
proof -
  have "vring_ok bs w i = vring_ok bs' w i" if "i < length (vd_vrings (vw_vdev w))" for i
    using assms [OF that] by (simp add: vring_ok_def)
  then show ?thesis by (auto simp: core_def)
qed

lemma n_bios_simps [simp]:
  "n_bios [] i = 0"
  "n_bios (b # bs) i = (if bio_vring b = i then Suc (n_bios bs i) else n_bios bs i)"
  "n_bios (bs @ bs') i = n_bios bs i + n_bios bs' i"
  "n_bios (rev bs) i = n_bios bs i"
  by (simp_all add: n_bios_def rev_filter [symmetric])

lemma dec_in_flight_ok:
  assumes core: "core (b # bs) h s w" and i: "i < length (vd_vrings (vw_vdev w))" and b: "bio_vring b = i"
    and w': "w' = vhd_vring_dec_in_flight i w"
  shows "core bs h s w'" and "busy_ok w' = busy_ok w" and "work_ok w' = work_ok w"
    and "vw_queue w' = vw_queue w" and "vw_backend w' = vw_backend w"
    and "length (vd_vrings (vw_vdev w')) = length (vd_vrings (vw_vdev w))"
    and "flow {} w \<Longrightarrow> flow {} w'" and "dflags (vw_vdev w') = dflags (vw_vdev w)" and "vw_rq w' = vw_rq w"
    and "length (vw_ctl w') \<le> Suc (length (vw_ctl w))"
proof -
  let ?v = "(vring i w)\<lparr>vr_num_in_flight := vr_num_in_flight (vring i w) - 1\<rparr>"
  let ?x = "upd_vring i (\<lambda>v. v\<lparr>vr_num_in_flight := vr_num_in_flight v - 1\<rparr>) w"
  have ok: "vring_ok (b # bs) w i" using core i by (simp add: core_def)
  then have u: "unat (vr_num_in_flight (vring i w)) = Suc (n_bios bs i)" using b by (simp add: vring_ok_def Let_def)
  then have "vr_num_in_flight (vring i w) \<noteq> 0" by auto
  then have d: "unat (vr_num_in_flight (vring i w) - 1) = n_bios bs i" using u by (simp add: unat_minus_one)
  have f: "vr_started_in_ctl (vring i w)" "\<not> starting i w" "VringMarkDrained i \<notin> set (vw_ctl w)"
    using ok b by (auto simp: vring_ok_def Let_def split: if_splits)
  have vs: "vd_vrings (vw_vdev ?x) = (vd_vrings (vw_vdev w))[i := ?v]" "dflags (vw_vdev ?x) = dflags (vw_vdev w)"
    and l: "vw_rq ?x = vw_rq w" "vw_ctl ?x = vw_ctl w"
    by (simp_all add: upd_vring_def upd_vdev_def dflags_def)
  have cnt: "count_if P ((vd_vrings (vw_vdev w))[i := ?v]) = count_if P (vd_vrings (vw_vdev w))"
    if "P ?v = P (vring i w)" for P
    using count_if_update [OF i, of P ?v] that by (simp split: if_splits)
  have ring: "vring_ok bs ?x i"
    using ok d f i vs l by (simp add: vring_ok_def starting_def Let_def)
  have "counts_ok h s ?x" using core vs l i by (simp add: core_def counts_ok_def dflags_def cnt Let_def)
  then have c: "core bs h s ?x"
    by (rule core_change [OF core i vs _ ring]) (use b f(2) vs l in \<open>auto simp: starting_def\<close>)
  let ?go = "vr_num_in_flight (vring i ?x) = 0 \<and> \<not> vr_started_in_rq (vring i ?x)"
  have w'': "w' = (if ?go then run_in_ctl (VringMarkDrained i) ?x else ?x)"
    by (simp add: w' vhd_vring_dec_in_flight_def Let_def)
  have "may_drain bs ?x i" if ?go
    using that i f vs l d by (auto simp: may_drain_def starting_def)
  then show "core bs h s w'" using c core_add_drained w'' by simp
  have dr: "count_if vr_on_drain_cb (vd_vrings (vw_vdev w')) = count_if vr_on_drain_cb (vd_vrings (vw_vdev w))"
    "dflags (vw_vdev w') = dflags (vw_vdev w)"
    using vs cnt [of vr_on_drain_cb] by (simp_all add: w'' run_in_ctl_def)
  then show "busy_ok w' = busy_ok w" "work_ok w' = work_ok w"
    by (simp_all add: busy_ok_def work_ok_def dflags_def Let_def)
  show "vw_queue w' = vw_queue w" "vw_backend w' = vw_backend w"
    "length (vd_vrings (vw_vdev w')) = length (vd_vrings (vw_vdev w))" "vw_rq w' = vw_rq w" "length (vw_ctl w') \<le> Suc (length (vw_ctl w))"
    by (simp_all add: w'' run_in_ctl_def upd_vring_def upd_vdev_def)
  show "dflags (vw_vdev w') = dflags (vw_vdev w)" by (rule dr(2))
  have vw: "vd_vrings (vw_vdev w') = (vd_vrings (vw_vdev w))[i := ?v]" "set (vw_ctl w) \<subseteq> set (vw_ctl w')" "?go \<Longrightarrow> VringMarkDrained i \<in> set (vw_ctl w')"
    using vs l by (auto simp: w'' run_in_ctl_def)
  show "flow {} w'" if fl: "flow {} w"
  proof (rule flow_change [OF fl vw(1)])
    have "due {} w i \<and> (vd_conn_handler (vw_vdev w) = None \<longrightarrow> parting w i)" using fl i by (simp add: flow_def)
    then show "due {} w' i \<and> (vd_conn_handler (vw_vdev w') = None \<longrightarrow> parting w' i)"
      using i vw vs l dr(2) by (auto simp: due_def parting_def dflags_def w'' run_in_ctl_def Let_def)
  qed (use vw(2) l dr(2) in \<open>auto simp: starting_def dflags_def w'' run_in_ctl_def\<close>)
qed

lemma complete_one_ok:
  assumes core: "core (b # bs) h s w" and r: "req_complete (bio_complete K) bio_dec b w = Some w'"
  shows "core bs h s w' \<and> busy_ok w' = busy_ok w \<and> work_ok w' = work_ok w \<and>
    vw_queue w' = vw_queue w \<and> vw_backend w' = vw_backend w \<and> (flow {} w \<longrightarrow> flow {} w') \<and> dflags (vw_vdev w') = dflags (vw_vdev w) \<and>
    vw_rq w' = vw_rq w \<and> length (vw_ctl w') \<le> Suc (length (vw_ctl w))"
proof -
  obtain w1 where w1: "bio_complete K b w = Some w1" "bio_dec (bio_vring b) w1 = Some w'"
    using r by (auto simp: req_complete_def bind_eq_Some_conv)
  obtain m where m: "w1 = w \<or> w1 = w\<lparr>vw_machine := m\<rparr>"
    using w1(1) by (auto simp: bio_complete_def Let_def split: if_splits)
  then have u: "unseen w w1" by auto
  then have c: "core (b # bs) h s w1" using core core_view [of w1 w] by (simp add: unseen_def)
  have e: "busy_ok w1 = busy_ok w" "work_ok w1 = work_ok w" "vw_queue w1 = vw_queue w" "vw_backend w1 = vw_backend w"
    "flow {} w1 = flow {} w" "dflags (vw_vdev w1) = dflags (vw_vdev w)" "vw_rq w1 = vw_rq w" "vw_ctl w1 = vw_ctl w"
    using u busy_ok_view [of w1 w] work_ok_view [of w1 w] flow_view [of w1 w] view_dflags [of w1 w] by (simp_all add: unseen_def)
  show ?thesis
  proof (cases "bio_vring b < length (vd_vrings (vw_vdev w1))")
    case True
    then have "w' = vhd_vring_dec_in_flight (bio_vring b) w1" using w1(2) by (simp add: bio_dec_def)
    from dec_in_flight_ok [OF c True refl this] e show ?thesis by simp
  next
    case False
    then have "w' = w1" using w1(2) by (simp add: bio_dec_def)
    moreover have "core bs h s w1" using c core_bios_cong [of w1 "b # bs" bs h s] False by auto
    ultimately show ?thesis using e by simp
  qed
qed

lemma complete_list_ok:
  "core (bs @ rest) h s w \<Longrightarrow> complete_list (req_complete (bio_complete K) bio_dec) bs w = Some w' \<Longrightarrow>
    core rest h s w' \<and> busy_ok w' = busy_ok w \<and> work_ok w' = work_ok w \<and>
    vw_queue w' = vw_queue w \<and> vw_backend w' = vw_backend w \<and> (flow {} w \<longrightarrow> flow {} w') \<and> dflags (vw_vdev w') = dflags (vw_vdev w) \<and>
    vw_rq w' = vw_rq w \<and> length (vw_ctl w') \<le> length bs + length (vw_ctl w)"
proof (induction bs arbitrary: w)
  case (Cons b bs)
  obtain w1 where w1: "req_complete (bio_complete K) bio_dec b w = Some w1"
    "complete_list (req_complete (bio_complete K) bio_dec) bs w1 = Some w'"
    using Cons.prems(2) by (auto simp: bind_eq_Some_conv)
  have "core (b # bs @ rest) h s w" using Cons.prems(1) by simp
  note one = complete_one_ok [OF this w1(1)]
  then have "core (bs @ rest) h s w1" by blast
  from Cons.IH [OF this w1(2)] one show ?case by auto
qed simp

lemma reap_ok:
  assumes inv: "vdev_inv w" and r: "reap K w = Some w'"
  shows "vdev_inv w'" and "vw_rq w' = vw_rq w" and "length (vw_ctl w') \<le> length (rq_completion (vw_queue w)) + length (vw_ctl w)"
    and "vw_queue w' = (vw_queue w)\<lparr>rq_completion := []\<rparr>" and "vw_backend w' = vw_backend w"
proof -
  let ?L = "rev (rq_completion (vw_queue w))" and ?rest = "rq_submission (vw_queue w) @ vw_backend w"
  obtain w1 where w1: "complete_list (req_complete (bio_complete K) bio_dec) ?L w = Some w1"
    "w' = w1\<lparr>vw_queue := (vw_queue w)\<lparr>rq_completion := []\<rparr>\<rparr>"
    using r by (auto simp: reap_def rq_complete_bh_def move_reverse_rev bind_eq_Some_conv)
  have "core (?L @ ?rest) 0 0 w"
    using inv core_bios_cong [of w "bios w" "?L @ ?rest" 0 0] by (auto simp: vdev_inv_def bios_def)
  note c = complete_list_ok [OF this w1(1)]
  then have "core (bios w') 0 0 w1" using w1(2) by (simp add: bios_def)
  then have "core (bios w') 0 0 w'" using core_view [of w' w1] w1(2) by (simp add: view_def)
  moreover have "flow {} w'" using c inv w1(2) flow_view [of w' w1] by (simp add: vdev_inv_def view_def)
  moreover have "open_ok w'" using c inv w1(2) open_ok_dflags [of w' w] by (simp add: vdev_inv_def)
  ultimately show "vdev_inv w'" using c w1(2) inv by (simp add: vdev_inv_def busy_ok_def work_ok_def)
  show "vw_rq w' = vw_rq w" "length (vw_ctl w') \<le> length (rq_completion (vw_queue w)) + length (vw_ctl w)"
    "vw_queue w' = (vw_queue w)\<lparr>rq_completion := []\<rparr>" "vw_backend w' = vw_backend w"
    using c w1(2) by simp_all
qed

section \<open>What a handler of requests may do to the device\<close>

text \<open>Walking a chain keeps the size of the buffer array.\<close>

lemma add_buffer_length: "add_buffer vq a l wo = (r, vq') \<Longrightarrow> length (vq_buffers vq') = length (vq_buffers vq)"
  by (auto simp: add_buffer_def split: if_splits)

lemma map_buffer_length: "map_buffer mm vq g l wo = (r, vq') \<Longrightarrow> length (vq_buffers vq') = length (vq_buffers vq)"
  by (auto simp: map_buffer_def dest: add_buffer_length split: option.splits)

lemma walk_indirect_length:
  "walk_indirect_loop mm t n vq g idx = (r, vq', g') \<Longrightarrow> length (vq_buffers vq') = length (vq_buffers vq)"
proof (induction mm t n vq g idx rule: walk_indirect_loop.induct)
  case (1 mm t n vq g idx)
  then show ?case
    by (subst (asm) (2) walk_indirect_loop.simps)
      (fastforce dest: map_buffer_length split: prod.splits sum.splits if_splits)
qed

lemma walk_chain_length: "walk_chain mm vq g idx = (r, vq', g') \<Longrightarrow> length (vq_buffers vq') = length (vq_buffers vq)"
proof -
  have "walk_chain_loop mm vq g idx c = (r, vq', g') \<Longrightarrow> length (vq_buffers vq') = length (vq_buffers vq)" for vq c
  proof (induction mm vq g idx c rule: walk_chain_loop.induct)
    case (1 mm vq g idx c)
    then show ?case
      by (subst (asm) (2) walk_chain_loop.simps)
        (fastforce dest: map_buffer_length walk_indirect_length simp: walk_indirect_table_def Let_def
          split: prod.splits sum.splits if_splits option.splits)
  qed
  from this [of "vq\<lparr>vq_next_buffer := 0\<rparr>" 1]
  show "walk_chain mm vq g idx = (r, vq', g') \<Longrightarrow> length (vq_buffers vq') = length (vq_buffers vq)"
    by (simp add: walk_chain_def)
qed

text \<open>
  A handler that keeps the number of the queue's buffers and changes its own state by steps of a
  relation; then dispatching a queue changes the state by a step of the relation too.
\<close>

locale request_handler =
  fixes h :: "'s handle_buffers_cb" and step :: "'s \<Rightarrow> 's \<Rightarrow> bool"
  assumes step_refl: "step s s"
    and step_trans: "step s t \<Longrightarrow> step t u \<Longrightarrow> step s u"
    and handler_step: "h iov (vq, m, s) = Some (vq', m', s') \<Longrightarrow>
      length (vq_buffers vq') = length (vq_buffers vq) \<and> step s s'"
begin

lemma dequeue_one_step:
  assumes d: "virtq_dequeue_one h head resubmit (vq, m, s) = Some (r, vq', m', s')"
  shows "length (vq_buffers vq') = length (vq_buffers vq) \<and> step s s'"
proof -
  obtain mm where mm: "ms_maps (m_mms m) (vq_mm vq) = Some mm" using d by (auto simp: virtq_dequeue_one_def bind_eq_Some_conv)
  obtain res vq1 g1 where walk: "walk_chain mm vq (m_guest m) head = (res, vq1, g1)" using prod_cases3 by blast
  note l1 = walk_chain_length [OF walk]
  show ?thesis
  proof (cases res)
    case (Inl e)
    then show ?thesis using d mm walk l1 step_refl by (simp add: virtq_dequeue_one_def)
  next
    case (Inr n)
    let ?m1 = "m\<lparr>m_guest := g1, m_mms := vhd_memmap_ref (vq_mm vq1) (m_mms m)\<rparr>"
    obtain vq2 m2 where u: "(if resubmit then (vq1, ?m1) else virtq_inflight_avail_update vq1 head ?m1) = (vq2, m2)"
      using prod.exhaust_sel by blast
    then have l2: "length (vq_buffers vq2) = length (vq_buffers vq1)"
      by (auto simp: virtq_inflight_avail_update_def split: if_splits)
    obtain iov vq3 m3 s3 where "h iov (vq2, m2, s) = Some (vq3, m3, s3)" "s' = s3"
      "vq' = vq3\<lparr>vq_last_avail := vq_last_avail vq3 + 1\<rparr>"
      using d mm walk Inr u by (auto simp: virtq_dequeue_one_def Let_def bind_eq_Some_conv)
    with handler_step l1 l2 show ?thesis by fastforce
  qed
qed

lemma dequeue_loop_step:
  "dequeue_loop h n (vq, m, s) = Some (r, vq', m', s') \<Longrightarrow> length (vq_buffers vq') = length (vq_buffers vq) \<and> step s s'"
proof (induction n arbitrary: vq m s)
  case (Suc n)
  obtain a m1 where ra: "read_avail_m vq m = (a, m1)" by fastforce
  let ?head = "av_ring a (unat (vq_last_avail vq mod vq_qsz vq))"
  show ?case
  proof (cases "?head \<ge> vq_qsz vq")
    case True
    then show ?thesis using Suc.prems ra step_refl by simp
  next
    case False
    then obtain res vq2 m2 s2 where one: "virtq_dequeue_one h ?head False (vq, m1, s) = Some (res, vq2, m2, s2)"
      using Suc.prems ra by (auto simp: bind_eq_Some_conv)
    note o = dequeue_one_step [OF one]
    show ?thesis
    proof (cases res)
      case (Inl e)
      then show ?thesis using Suc.prems ra False one o by (auto simp: mark_broken_def)
    next
      case (Inr u)
      with Suc.prems ra False one have "dequeue_loop h n (vq2\<lparr>vq_metrics := (vq_metrics vq2)
          \<lparr>vm_request_total := vm_request_total (vq_metrics vq2) + 1\<rparr>\<rparr>, m2, s2) = Some (r, vq', m', s')" by simp
      from Suc.IH [OF this] o step_trans show ?thesis by auto
    qed
  qed
qed (simp add: step_refl)

lemma resubmit_loop_step:
  "resubmit_loop h heads (vq, m, s) = Some (r, vq', m', s') \<Longrightarrow> length (vq_buffers vq') = length (vq_buffers vq) \<and> step s s'"
proof (induction heads arbitrary: vq m s)
  case (Cons head heads)
  show ?case
  proof (cases "head \<ge> vq_qsz vq")
    case True
    then show ?thesis using Cons.prems step_refl by simp
  next
    case False
    then obtain res vq2 m2 s2 where one: "virtq_dequeue_one h head True (vq, m, s) = Some (res, vq2, m2, s2)"
      using Cons.prems by (auto simp: bind_eq_Some_conv)
    note o = dequeue_one_step [OF one]
    show ?thesis
    proof (cases res)
      case (Inl e)
      then show ?thesis using Cons.prems False one o by simp
    next
      case (Inr u)
      with Cons.prems False one have "resubmit_loop h heads (vq2, m2, s2) = Some (r, vq', m', s')" by simp
      from Cons.IH [OF this] o step_trans show ?thesis by auto
    qed
  qed
qed (simp add: step_refl)

lemma dequeue_avail_step:
  "dequeue_avail h now (vq, m, s) = Some (r, vq', m', s') \<Longrightarrow> length (vq_buffers vq') = length (vq_buffers vq) \<and> step s s'"
  by (auto simp: dequeue_avail_def Let_def bind_eq_Some_conv step_refl dest!: dequeue_loop_step split: if_splits)

lemma dequeue_many_step:
  assumes d: "virtq_dequeue_many h now (vq, m, s) = Some (r, vq', m', s')"
  shows "length (vq_buffers vq') = length (vq_buffers vq) \<and> step s s'"
proof (cases "vq_broken vq \<or> \<not> vq_inflight_check vq")
  case True
  then show ?thesis
    using d step_refl by (auto simp: virtq_dequeue_many_def virtq_is_broken_def dest: dequeue_avail_step split: if_splits)
next
  case False
  then obtain res vq1 m1 s1 where rs: "virtq_inflight_resubmit h (vq, m, s) = Some (res, vq1, m1, s1)"
    using d by (auto simp: virtq_dequeue_many_def virtq_is_broken_def bind_eq_Some_conv)
  then have o: "length (vq_buffers vq1) = length (vq_buffers vq) \<and> step s s1"
    using step_refl by (auto simp: virtq_inflight_resubmit_def dest: resubmit_loop_step split: if_splits)
  show ?thesis
  proof (cases res)
    case (Inl e)
    then show ?thesis using d False rs o by (auto simp: virtq_dequeue_many_def virtq_is_broken_def mark_broken_def)
  next
    case (Inr u)
    then have "dequeue_avail h now (vq1\<lparr>vq_inflight_check := False\<rparr>, m1, s1) = Some (r, vq', m', s')"
      using d False rs by (simp add: virtq_dequeue_many_def virtq_is_broken_def)
    from dequeue_avail_step [OF this] o step_trans show ?thesis by auto
  qed
qed

end

section \<open>Device types\<close>

text \<open>New requests of a vring are appended to the queue and counted.\<close>

definition enqueued :: "nat \<Rightarrow> vhd_request_queue \<times> vworld \<Rightarrow> vhd_request_queue \<times> vworld \<Rightarrow> bool" where
  "enqueued i s s' \<longleftrightarrow> (\<exists>new. (\<forall>b\<in>set new. bio_vring b = i) \<and>
     fst s' = (fst s)\<lparr>rq_submission := rq_submission (fst s) @ new\<rparr> \<and>
     snd s' = upd_vring i (\<lambda>v. v\<lparr>vr_num_in_flight := vr_num_in_flight v + word_of_nat (length new)\<rparr>) (snd s))"

lemma enqueued_refl: "enqueued i s s"
  by (auto simp: enqueued_def upd_vring_def upd_vdev_def intro!: exI [of _ "[]"])

lemma enqueued_one:
  "enqueued i (rq, w) (rq\<lparr>rq_submission := rq_submission rq @ [bio\<lparr>bio_vring := i\<rparr>]\<rparr>, vhd_vring_inc_in_flight i w)"
  by (auto simp: enqueued_def vhd_vring_inc_in_flight_def intro!: exI [of _ "[bio\<lparr>bio_vring := i\<rparr>]"])

lemma enqueued_trans:
  assumes "enqueued i s t" and "enqueued i t u"
  shows "enqueued i s u"
proof -
  obtain n1 n2 where n: "\<forall>b\<in>set n1. bio_vring b = i" "fst t = (fst s)\<lparr>rq_submission := rq_submission (fst s) @ n1\<rparr>"
    "snd t = upd_vring i (\<lambda>v. v\<lparr>vr_num_in_flight := vr_num_in_flight v + word_of_nat (length n1)\<rparr>) (snd s)"
    "\<forall>b\<in>set n2. bio_vring b = i" "fst u = (fst t)\<lparr>rq_submission := rq_submission (fst t) @ n2\<rparr>"
    "snd u = upd_vring i (\<lambda>v. v\<lparr>vr_num_in_flight := vr_num_in_flight v + word_of_nat (length n2)\<rparr>) (snd t)"
    using assms by (auto simp: enqueued_def)
  have "snd u = upd_vring i (\<lambda>v. v\<lparr>vr_num_in_flight := vr_num_in_flight v + word_of_nat (length (n1 @ n2))\<rparr>) (snd s)"
    using n(3,6) by (cases "i < length (vd_vrings (vw_vdev (snd s)))")
      (simp_all add: upd_vring_def upd_vdev_def list_update_beyond add.assoc)
  with n show ?thesis by (auto simp: enqueued_def intro!: exI [of _ "n1 @ n2"])
qed

lemma handle_inout_step:
  assumes h: "handle_inout K dev req vq iov (m, s) = Some (m', s')"
  shows "s' = s \<or> (\<exists>bio r. vblk_dispatch dev bio s = (r, s'))"
proof -
  obtain m1 where 1: "assert_inout req m = Some m1" using h by (auto simp: handle_inout_def Let_def bind_eq_Some_conv)
  obtain den m2 where 2: "readonly_denied (bdi_readonly (vblk_bdev dev)) req m1 = (den, m2)" by fastforce
  let ?pdata = "take (length (iov_buffers iov) - 2) (drop 1 (iov_buffers iov))"
  obtain l m3 where 3: "sum_data_buffers req ?pdata 0 m2 = (l, m3)" by fastforce
  show ?thesis
  proof (cases "den \<or> length (iov_buffers iov) < 3 \<or> l = None")
    case True
    then show ?thesis using h 1 2 3 by (cases den) (auto simp: handle_inout_def Let_def split: if_splits)
  next
    case False
    then obtain len where 4: "l = Some len" "\<not> den" "\<not> length (iov_buffers iov) < 3" by blast
    obtain sector m4 t m5 fsec m6 where 5: "read_sector req m3 = (sector, m4)" "read_type req m4 = (t, m5)"
      "read_sector req m5 = (fsec, m6)" by fastforce
    show ?thesis using h 1 2 3 4 5
      by (simp add: handle_inout_def Let_def split: if_splits prod.splits sum.splits) blast+
  qed
qed

lemma blk_dispatch_step: "vblk_dispatch (bd_vblk (blk_device bdev i)) bio s = (r, s') \<Longrightarrow> enqueued i s s'"
  using enqueued_one [of i "fst s" "snd s" bio]
  by (auto simp: blk_device_def virtio_blk_init_dev_def vblk_handle_request_def vhd_enqueue_block_request_def Let_def
      split: prod.splits)

lemma blk_handler_step:
  assumes "blk_handle_buffers K (bd_vblk (blk_device bdev i)) iov (vq, m, s) = Some (vq', m', s')"
  shows "vq' = vq \<and> enqueued i s s'"
  using assms
  by (auto simp: blk_handle_buffers_def Let_def enqueued_refl dest!: handle_inout_step intro: blk_dispatch_step
      split: prod.splits if_splits)

lemma fs_handler_step:
  assumes "fs_handle_buffers K (fd_vfs (fs_device fsdev i)) iov (vq, m, s) = Some (vq', m', s')"
  shows "vq' = vq \<and> enqueued i s s'"
proof -
  have "vfs_dispatch (fd_vfs (fs_device fsdev i)) bio s = (r, t) \<Longrightarrow> enqueued i s t" for bio r t
    using enqueued_one [of i "fst s" "snd s" bio]
    by (auto simp: fs_device_def virtio_fs_init_dev_def vfs_handle_request_def vhd_enqueue_block_request_def Let_def
        split: prod.splits)
  then show ?thesis
    using assms
    by (auto simp: fs_handle_buffers_def Let_def enqueued_refl
        split: fs_parse.splits prod.splits sum.splits if_splits option.splits)
qed

interpretation blk_requests: request_handler "blk_handle_buffers K (bd_vblk (blk_device bdev i))" "enqueued i" for K bdev i
  by unfold_locales (auto simp: enqueued_refl intro: enqueued_trans dest: blk_handler_step)

interpretation fs_requests: request_handler "fs_handle_buffers K (fd_vfs (fs_device fsdev i))" "enqueued i" for K fsdev i
  by unfold_locales (auto simp: enqueued_refl intro: enqueued_trans dest: fs_handler_step)

definition dispatched_vring :: "virtio_virtq \<Rightarrow> nat \<Rightarrow> vhd_vring \<Rightarrow> vhd_vring" where
  "dispatched_vring vq k v = v\<lparr>vr_num_in_flight := vr_num_in_flight v + word_of_nat k, vr_vq := vq\<rparr>"

lemma dispatched_vring_fields [simp]:
  "vr_started_in_ctl (dispatched_vring vq k v) = vr_started_in_ctl v"
  "vr_started_in_rq (dispatched_vring vq k v) = vr_started_in_rq v"
  "vr_on_drain_cb (dispatched_vring vq k v) = vr_on_drain_cb v"
  by (simp_all add: dispatched_vring_def)

definition dispatched :: "nat \<Rightarrow> vworld \<Rightarrow> vworld \<Rightarrow> bool" where
  "dispatched i w w' \<longleftrightarrow> (\<exists>new vq m. (\<forall>b\<in>set new. bio_vring b = i) \<and>
     (vq_buffers vq = [] \<longleftrightarrow> vq_buffers (vr_vq (vring i w)) = []) \<and>
     w' = upd_vring i (dispatched_vring vq (length new)) (w\<lparr>vw_machine := m,
       vw_queue := (vw_queue w)\<lparr>rq_submission := rq_submission (vw_queue w) @ new\<rparr>\<rparr>))"

lemma dispatch_on_effect:
  assumes step: "\<And>vq m s r vq' m' s'. dispatch (vq, m, s) = Some (r, vq', m', s') \<Longrightarrow>
      length (vq_buffers vq') = length (vq_buffers vq) \<and> enqueued i s s'"
    and d: "dispatch_on dispatch i w = Some (ret, w')" and i: "i < length (vd_vrings (vw_vdev w))"
  shows "dispatched i w w'"
proof -
  obtain vq m rq w1 where x: "dispatch (vr_vq (vring i w), vw_machine w, vw_queue w, w) = Some (ret, vq, m, rq, w1)"
    "w' = upd_vring i (vr_vq_update (\<lambda>_. vq)) (w1\<lparr>vw_machine := m, vw_queue := rq\<rparr>)"
    using d by (auto simp: dispatch_on_def bind_eq_Some_conv)
  from step [OF x(1)] obtain new where new: "\<forall>b\<in>set new. bio_vring b = i"
    "length (vq_buffers vq) = length (vq_buffers (vr_vq (vring i w)))"
    "rq = (vw_queue w)\<lparr>rq_submission := rq_submission (vw_queue w) @ new\<rparr>"
    "w1 = upd_vring i (\<lambda>v. v\<lparr>vr_num_in_flight := vr_num_in_flight v + word_of_nat (length new)\<rparr>) w"
    by (auto simp: enqueued_def)
  have "w' = upd_vring i (dispatched_vring vq (length new)) (w\<lparr>vw_machine := m,
       vw_queue := (vw_queue w)\<lparr>rq_submission := rq_submission (vw_queue w) @ new\<rparr>\<rparr>)"
    using x(2) new(3,4) i by (simp add: upd_vring_def upd_vdev_def dispatched_vring_def)
  with new(1,2) show ?thesis unfolding dispatched_def by (metis length_0_conv)
qed

locale vdev_type =
  fixes ty :: vhd_vdev_type
  assumes dispatch_effect: "vt_dispatch_requests ty i w = Some (ret, w') \<Longrightarrow>
      i < length (vd_vrings (vw_vdev w)) \<Longrightarrow> dispatched i w w'"
    and features_known: "vt_get_features ty \<noteq> None"
begin

lemma dispatched_inv:
  assumes inv: "vdev_inv w" and i: "i < length (vd_vrings (vw_vdev w))" and rq: "vr_started_in_rq (vring i w)"
    and d: "dispatched i w w'" and few: "length (bios w') < 2 ^ 16"
  shows "vdev_inv w' \<and> vr_started_in_rq (vring i w') \<and> length (vd_vrings (vw_vdev w')) = length (vd_vrings (vw_vdev w))"
proof -
  obtain new vq m where n: "\<forall>b\<in>set new. bio_vring b = i" "vq_buffers vq = [] \<longleftrightarrow> vq_buffers (vr_vq (vring i w)) = []"
    and w': "w' = upd_vring i (dispatched_vring vq (length new)) (w\<lparr>vw_machine := m,
       vw_queue := (vw_queue w)\<lparr>rq_submission := rq_submission (vw_queue w) @ new\<rparr>\<rparr>)"
    using d by (auto simp: dispatched_def)
  let ?v = "dispatched_vring vq (length new) (vring i w)"
  have core: "core (bios w) 0 0 w" using inv by (simp add: vdev_inv_def)
  then have ok: "vring_ok (bios w) w i" using i by (simp add: core_def)
  have vs: "vd_vrings (vw_vdev w') = (vd_vrings (vw_vdev w))[i := ?v]" "dflags (vw_vdev w') = dflags (vw_vdev w)"
    and l: "vw_rq w' = vw_rq w" "vw_ctl w' = vw_ctl w"
    by (simp_all add: w' upd_vring_def upd_vdev_def dflags_def)
  have nb: "n_bios (bios w') j = n_bios (bios w) j + (if j = i then length new else 0)" for j
    using n(1) by (auto simp: w' bios_def upd_vring_def upd_vdev_def n_bios_def)
  have le: "n_bios (bios w') i < 2 ^ 16"
    unfolding n_bios_def by (rule le_less_trans [OF length_filter_le few])
  have u: "unat (vr_num_in_flight (vring i w)) = n_bios (bios w) i" using ok by (simp add: vring_ok_def Let_def)
  have "unat (word_of_nat (length new) :: u16) = length new" using le nb [of i] by (intro unat_of_nat_16) simp
  then have num: "unat (vr_num_in_flight (vring i w) + word_of_nat (length new)) = n_bios (bios w') i"
    using u le nb [of i] by (simp add: unat_add_16)
  have cnt: "count_if P ((vd_vrings (vw_vdev w))[i := ?v]) = count_if P (vd_vrings (vw_vdev w))"
    if "P ?v = P (vring i w)" for P
    using count_if_update [OF i, of P ?v] that by (simp split: if_splits)
  have ring: "vring_ok (bios w') w' i"
    using ok rq i vs l num n(2) by (auto simp: vring_ok_def starting_def dispatched_vring_def Let_def split: if_splits)
  have "counts_ok 0 0 w'"
    using core vs l i by (simp add: core_def counts_ok_def dflags_def cnt Let_def)
  then have "core (bios w') 0 0 w'"
    by (rule core_change [OF core i vs _ ring])
      (use ok rq l nb in \<open>auto simp: starting_def dispatched_vring_def vring_ok_def Let_def\<close>)
  moreover have "busy_ok w'" "work_ok w'"
    using inv vs cnt [of vr_on_drain_cb]
    by (simp_all add: vdev_inv_def busy_ok_def work_ok_def dflags_def Let_def)
  moreover have "flow {} w'"
  proof (rule flow_change [OF _ vs(1)])
    show "flow {} w" using inv by (simp add: vdev_inv_def)
    then have "due {} w i \<and> (vd_conn_handler (vw_vdev w) = None \<longrightarrow> parting w i)" using i by (simp add: flow_def)
    then show "due {} w' i \<and> (vd_conn_handler (vw_vdev w') = None \<longrightarrow> parting w' i)"
      using i rq vs l by (auto simp: due_def parting_def dflags_def dispatched_vring_def Let_def)
  qed (use vs(2) l in \<open>auto simp: starting_def dflags_def\<close>)
  moreover have "open_ok w'" using inv open_ok_dflags [OF vs(2)] by (simp add: vdev_inv_def)
  ultimately show ?thesis using vs i rq by (simp add: vdev_inv_def)
qed

lemma kick_inv:
  assumes inv: "vdev_inv w" and on: "enabled (Kick i) w" and k: "vring_kick ty i w = Some w'"
    and few: "length (bios w') < 2 ^ 16"
  shows "vdev_inv w'"
proof -
  have i: "i < length (vd_vrings (vw_vdev w))" and h: "vr_kick_handler (vring i w) = Some True" using on by simp_all
  define w0 where "w0 = upd_machine (\<lambda>m. m\<lparr>m_eventfd := (m_eventfd m)(vr_kickfd (vring i w) := 0)\<rparr>) w"
  have inv0: "vdev_inv w0" using inv vdev_inv_unseen [OF unseen_upd_machine] by (simp add: w0_def)
  have "vring_ok (bios w) w i" using inv i by (simp add: vdev_inv_def core_def)
  then have rq: "vr_started_in_rq (vring i w0)" using h by (auto simp: vring_ok_def w0_def upd_machine_def Let_def)
  obtain ret w1 where d: "vt_dispatch_requests ty i w0 = Some (ret, w1)"
    using k by (auto simp: vring_kick_def w0_def bind_eq_Some_conv)
  then have w': "w' = w1 \<or> w' = upd_vring i (vr_kick_handler_update (\<lambda>_. Some False)) w1 \<and> vr_kick_handler (vring i w1) \<noteq> None"
    using k by (cases ret) (auto simp: vring_kick_def w0_def split: if_splits)
  have i0: "i < length (vd_vrings (vw_vdev w0))" using i by (simp add: w0_def upd_machine_def)
  have "bios w' = bios w1" using w' by (auto simp: bios_def upd_vring_def upd_vdev_def)
  with few dispatched_inv [OF inv0 i0 rq dispatch_effect [OF d i0]] have w1: "vdev_inv w1" "i < length (vd_vrings (vw_vdev w1))"
    using i0 by simp_all
  have "unseen w1 (upd_vring i (vr_kick_handler_update (\<lambda>_. Some False)) w1)" if "vr_kick_handler (vring i w1) \<noteq> None"
    using that w1(2) by (simp add: unseen_def view_def upd_vring_def upd_vdev_def dflags_def map_update
        list_update_same_conv vflags_def)
  then show ?thesis using w' w1(1) vdev_inv_unseen by blast
qed

end

interpretation blk_type: vdev_type "g_virtio_blk_vdev_type K now bdev" for K now bdev
proof
  show "dispatched i w w'"
    if "vt_dispatch_requests (g_virtio_blk_vdev_type K now bdev) i w = Some (ret, w')" "i < length (vd_vrings (vw_vdev w))"
    for i w ret w'
    by (rule dispatch_on_effect [OF blk_requests.dequeue_many_step])
      (use that in \<open>simp_all add: g_virtio_blk_vdev_type_def vblk_dispatch_requests_def virtio_blk_dispatch_requests_def\<close>)
qed (simp add: g_virtio_blk_vdev_type_def vblk_get_features_def blk_device_def)

interpretation fs_type: vdev_type "g_virtio_fs_vdev_type K now fsdev" for K now fsdev
proof
  show "dispatched i w w'"
    if "vt_dispatch_requests (g_virtio_fs_vdev_type K now fsdev) i w = Some (ret, w')" "i < length (vd_vrings (vw_vdev w))"
    for i w ret w'
    by (rule dispatch_on_effect [OF fs_requests.dequeue_many_step])
      (use that in \<open>simp_all add: g_virtio_fs_vdev_type_def vfs_dispatch_requests_def virtio_fs_dispatch_requests_def\<close>)
qed (simp add: g_virtio_fs_vdev_type_def)

end
