(* ===== verification/Vdev_Handlers.thy ===== *)
theory Vdev_Handlers
  imports Vdev_Io
begin

text \<open>
  Every message handler keeps the invariant, whatever the message holds, and does not abort; the
  one exception is starting a vring, which needs a memory table and a consistent inflight region.
\<close>

section \<open>What a handler achieves\<close>

text \<open>The state in which a handler is called.\<close>

definition ready :: "vhd_bio list \<Rightarrow> vworld \<Rightarrow> bool" where
  "ready bs w \<longleftrightarrow> core bs 0 0 w \<and> idle w \<and> work_ok w \<and> flow {} w \<and> vd_conn_handler (vw_vdev w) \<noteq> None"

text \<open>
  After success the message is either finished or handed to vrings; after an error there is
  nothing left to do but to disconnect.
\<close>

definition handled :: "vhd_bio list \<Rightarrow> vworld \<Rightarrow> status \<Rightarrow> vworld \<Rightarrow> bool" where
  "handled bs w ret w' \<longleftrightarrow> core bs 0 0 w' \<and> work_ok w' \<and> flow {} w' \<and> vw_queue w' = vw_queue w \<and> vw_backend w' = vw_backend w \<and>
     vd_conn_handler (vw_vdev w') \<noteq> None \<and> (if ret = OK then busy_ok w' else idle w')"

lemma ready_unseen:
  assumes "unseen w x"
  shows "ready bs x = ready bs w"
proof -
  have "vd_conn_handler (vw_vdev x) = vd_conn_handler (vw_vdev w)"
    using assms by (simp add: unseen_def view_def dflags_def)
  then show ?thesis
    using assms core_view [of x w] work_ok_view [of x w] flow_view [of x w] idle_unseen [of w x] by (simp add: ready_def unseen_def)
qed

lemma handled_unseen: "unseen w x \<Longrightarrow> handled bs x ret w' = handled bs w ret w'"
  by (simp add: handled_def unseen_def)

lemma handled_refused:
  assumes "ready bs w"
  shows "handled bs w (Inl e) w"
  using assms by (simp add: ready_def handled_def)

lemma handled_answered:
  assumes r: "ready bs w" and a: "answered sy w ret w'"
  shows "handled bs w ret w'"
proof -
  have c: "core bs 0 0 w" "idle w" using r by (simp_all add: ready_def)
  have "vd_conn_handler (vw_vdev w') \<noteq> None"
    using a r by (auto simp: answered_def ready_def unseen_def view_def dflags_def split: sum.splits)
  then show ?thesis using answered_core [OF a c] same_vrings_flow [OF answered_same(1) [OF a]] r by (simp add: handled_def ready_def)
qed

lemma ack_handled:
  assumes r: "ready bs w" and u: "unseen w x"
  shows "\<exists>ret w'. vhost_ack sy n x = Some (ret, w') \<and> handled bs w ret w'"
proof -
  have x: "ready bs x" using r u ready_unseen by blast
  then have "idle x" by (simp add: ready_def)
  from ack_answers [OF this, of sy n] handled_answered [OF x] handled_unseen [OF u] show ?thesis by blast
qed

lemma reply_handled:
  assumes r: "ready bs w" and u: "unseen w x"
  shows "\<exists>ret w'. vhost_reply_fds sy p len fds x = Some (ret, w') \<and> handled bs w ret w'"
proof -
  have x: "ready bs x" using r u ready_unseen by blast
  then have "idle x" by (simp add: ready_def)
  from reply_fds_answers [OF this, of sy p len fds] handled_answered [OF x] handled_unseen [OF u] show ?thesis by blast
qed

lemma reply_u64_handled:
  "ready bs w \<Longrightarrow> unseen w x \<Longrightarrow> \<exists>ret w'. vhost_reply_u64 sy n x = Some (ret, w') \<and> handled bs w ret w'"
  by (simp add: vhost_reply_u64_def vhost_reply_def reply_handled)

text \<open>An error after a reply that could not be sent.\<close>

lemma handled_act:
  assumes "handled bs w ret w'"
  shows "handled bs w ret (act a w')"
proof -
  have u: "unseen w' (act a w')" by simp
  show ?thesis
    using assms core_view [of "act a w'" w'] work_ok_view [of "act a w'" w'] flow_view [of "act a w'" w'] busy_ok_view [of "act a w'" w'] idle_unseen [OF u] u
    by (simp add: handled_def unseen_def act_def)
qed

section \<open>Handing a message to vrings\<close>

text \<open>The started vrings among some.\<close>

definition started_of :: "nat list \<Rightarrow> vworld \<Rightarrow> nat list" where
  "started_of is w = filter (\<lambda>i. vr_started_in_ctl (vring i w)) is"

definition handing :: "rq_bh list \<Rightarrow> vworld \<Rightarrow> vworld" where
  "handing bhs w = upd_vdev (\<lambda>vd. vd\<lparr>vd_num_vrings_handling_msg :=
     vd_num_vrings_handling_msg vd + word_of_nat (length bhs)\<rparr>) (w\<lparr>vw_rq := bhs @ vw_rq w\<rparr>)"

lemma fold_handle_msg:
  "fold (\<lambda>i. vring_handle_msg i (VringSyncToVirtq i)) is w = handing (rev (map VringSyncToVirtq (started_of is w))) w"
proof (induction "is" arbitrary: w)
  case Nil
  then show ?case by (simp add: handing_def started_of_def upd_vdev_def)
next
  case (Cons i "is")
  have "started_of is (vring_handle_msg i (VringSyncToVirtq i) w) = started_of is w"
    by (simp add: started_of_def vring_handle_msg_def run_in_rq_def upd_vdev_def)
  then show ?case
    using Cons.IH [of "vring_handle_msg i (VringSyncToVirtq i) w"]
    by (auto simp: started_of_def vring_handle_msg_def handing_def run_in_rq_def upd_vdev_def add.assoc)
qed

lemma length_started_of:
  "length (started_of [0..<length (vd_vrings (vw_vdev w))] w) = count_if vr_started_in_ctl (vd_vrings (vw_vdev w))"
proof -
  have "count_if vr_started_in_ctl vs = length (filter (\<lambda>i. vr_started_in_ctl (vs ! i)) [0..<length vs])" for vs
    by (subst (1) map_nth [symmetric]) (simp only: filter_map length_map comp_def)
  from this [of "vd_vrings (vw_vdev w)"] show ?thesis unfolding started_of_def by (rule sym)
qed

text \<open>The world in which vrings have been told; \<open>c\<close> completes the message.\<close>

lemma handing_core:
  assumes core: "core bs 0 s (cleared w)" and idle: "idle w" and work: "work_ok w" and c: "completes c (vw_vdev w)"
    and bhs: "bhs \<noteq> []" "length bhs < 2 ^ 16" "\<forall>bh\<in>set bhs. is_msg_rq bh \<and> \<not> is_start_rq bh \<and> rq_vring bh < length (vd_vrings (vw_vdev w))"
    and "c \<noteq> SetVringKickComplete"
    and w': "w' = handing bhs (upd_vdev (vd_handle_complete_update (\<lambda>_. Some c)) w)"
  shows "core bs 0 s w' \<and> work_ok w' \<and> busy_ok w'"
proof -
  have z: "vd_num_vrings_handling_msg (vw_vdev w) = 0" using idle by (simp add: idle_def)
  have u: "unat (word_of_nat (length bhs) :: u16) = length bhs" using bhs(2) by (rule unat_of_nat_16)
  then have nz: "(word_of_nat (length bhs) :: u16) \<noteq> 0" using bhs(1) by auto
  have cw: "vw_rq (cleared w) = vw_rq w" "vw_ctl (cleared w) = vw_ctl w" "vd_vrings (vw_vdev (cleared w)) = vd_vrings (vw_vdev w)"
    "vring i (cleared w) = vring i w" for i
    by (simp_all add: cleared_def upd_vdev_def)
  have f: "vw_rq w' = bhs @ vw_rq w" "vw_ctl w' = vw_ctl w" "vd_vrings (vw_vdev w') = vd_vrings (vw_vdev w)"
    "vring i w' = vring i w" for i
    by (simp_all add: w' handing_def upd_vdev_def)
  have cb: "count_if is_msg_rq bhs = length bhs" "count_if is_start_rq bhs = 0"
    using bhs(3) by (simp_all add: filter_id_conv)
  have no: "count_if is_msg_rq (vw_rq w) = 0" "count_if is_msg_ctl (vw_ctl w) = 0"
    using core z by (simp_all add: core_def counts_ok_def cleared_def upd_vdev_def Let_def)
  then have ns: "\<not> starting i w" for i by (intro no_more_msgs) simp
  then have ns': "\<not> starting i w'" for i using bhs(3) f by (fastforce simp: starting_def)
  have cnt: "counts_ok 0 s w'"
    using core cb u z bhs(3) no
    by (auto simp: core_def counts_ok_def cleared_def w' handing_def upd_vdev_def Let_def)
  have v: "vring_ok bs w' i" if "i < length (vd_vrings (vw_vdev w))" for i
  proof -
    have "vring_ok bs (cleared w) i" using core that cw by (simp add: core_def)
    then show ?thesis by (rule vring_ok_other) (use ns ns' f cw in \<open>simp_all add: starting_def\<close>)
  qed
  have m: "msg_ok w'"
    using idle c ns' nz z assms(8) unfolding idle_def msg_ok_def no_drain_iff completes_def
    by (auto simp: w' handing_def upd_vdev_def Let_def)
  have n: "drain_ok w'" using core idle
    by (simp add: core_def idle_def drain_ok_def cleared_def w' handing_def upd_vdev_def Let_def)
  have k: "conn_ok w'" using core idle
    by (auto simp: core_def idle_def conn_ok_def cleared_def w' handing_def upd_vdev_def Let_def)
  have "work_ok w'" using work by (simp add: work_ok_def w' handing_def upd_vdev_def Let_def)
  moreover have "busy_ok w'" using nz z by (simp add: busy_ok_def w' handing_def upd_vdev_def Let_def)
  ultimately show ?thesis using cnt v m n k f by (simp add: core_def)
qed

lemma flow_handing: "flow X w \<Longrightarrow> flow X (handing bhs (upd_vdev (vd_handle_complete_update f) w))"
  by (auto simp: flow_def due_def parting_def starting_def handing_def upd_vdev_def Let_def)

lemma handing_handled:
  assumes core: "core bs 0 0 (cleared w)" and "idle w" and "work_ok w" and conn: "vd_conn_handler (vw_vdev w) \<noteq> None"
    and "completes c (vw_vdev w)" and "bhs \<noteq> []" and "length bhs < 2 ^ 16"
    and "\<forall>bh\<in>set bhs. is_msg_rq bh \<and> \<not> is_start_rq bh \<and> rq_vring bh < length (vd_vrings (vw_vdev w))"
    and "c \<noteq> SetVringKickComplete" and "flow {} w"
  shows "handled bs w OK (handing bhs (upd_vdev (vd_handle_complete_update (\<lambda>_. Some c)) w))"
  using handing_core [OF core assms(2,3,5-9) refl] conn flow_handing [OF assms(10)] by (simp add: handled_def handing_def upd_vdev_def)

lemma sync_vrings_handled:
  assumes core: "core bs 0 0 (cleared w)" and "idle w" and "work_ok w" and "vd_conn_handler (vw_vdev w) \<noteq> None"
    and "completes c (vw_vdev w)" and "c \<noteq> SetVringKickComplete" and nz: "vd_num_vrings_in_flight (vw_vdev w) \<noteq> 0"
    and "flow {} w"
  shows "handled bs w OK (sync_vrings c w)"
proof -
  let ?n = "length (vd_vrings (vw_vdev w))"
  let ?bhs = "rev (map VringSyncToVirtq (started_of [0..<?n] w))"
  have n: "unat (vd_num_queues (vw_vdev w)) = ?n"
    and c: "unat (vd_num_vrings_in_flight (vw_vdev w)) = count_if vr_started_in_ctl (vd_vrings (vw_vdev w))"
    using core by (simp_all add: core_def counts_ok_def cleared_def upd_vdev_def Let_def)
  have e: "sync_vrings c w = handing ?bhs (upd_vdev (vd_handle_complete_update (\<lambda>_. Some c)) w)"
    using n fold_handle_msg [of "[0..<?n]" "upd_vdev (vd_handle_complete_update (\<lambda>_. Some c)) w"]
    by (simp add: sync_vrings_def for_vrings_def started_of_def upd_vdev_def)
  have l: "length ?bhs = count_if vr_started_in_ctl (vd_vrings (vw_vdev w))" using length_started_of by simp
  have "unat (vd_num_vrings_in_flight (vw_vdev w)) \<noteq> 0" using nz by (simp add: unat_eq_0)
  with l c have "length ?bhs \<noteq> 0" "length ?bhs < 2 ^ 16"
    using unat_less_16 [of "vd_num_vrings_in_flight (vw_vdev w)"] by linarith+
  then show ?thesis unfolding e
    by (intro handing_handled [OF core assms(2-5)]) (use assms(6,8) in \<open>auto simp: started_of_def\<close>)
qed

lemma handle_one_handled:
  assumes core: "core bs 0 0 (cleared w)" and "idle w" and "work_ok w" and "vd_conn_handler (vw_vdev w) \<noteq> None"
    and "completes c (vw_vdev w)" and "c \<noteq> SetVringKickComplete"
    and "i < length (vd_vrings (vw_vdev w))" and "vr_started_in_ctl (vring i w)" and "flow {} w"
  shows "handled bs w OK (vring_handle_msg i (VringSyncToVirtq i) (upd_vdev (vd_handle_complete_update (\<lambda>_. Some c)) w))"
proof -
  have "vring_handle_msg i (VringSyncToVirtq i) (upd_vdev (vd_handle_complete_update (\<lambda>_. Some c)) w) =
    handing [VringSyncToVirtq i] (upd_vdev (vd_handle_complete_update (\<lambda>_. Some c)) w)"
    using assms(8) by (simp add: vring_handle_msg_def handing_def run_in_rq_def upd_vdev_def)
  then show ?thesis using handing_handled [OF core assms(2-5), of "[VringSyncToVirtq i]"] assms(6,7,9) by simp
qed

lemma ready_cleared:
  assumes "ready bs w"
  shows "unseen w (cleared w)"
  using assms by (simp add: ready_def core_def msg_ok_def idle_def unseen_def view_def dflags_def cleared_def upd_vdev_def Let_def)

lemma ready_core_cleared: "ready bs w \<Longrightarrow> core bs 0 0 (cleared w)"
  using ready_cleared [of bs w] core_view [of "cleared w" w] by (simp add: ready_def unseen_def)

section \<open>Features, memory, log\<close>

lemma get_protocol_features_handled:
  "ready bs w \<Longrightarrow> \<exists>ret w'. vhost_get_protocol_features sy p sz fds w = Some (ret, w') \<and> handled bs w ret w'"
  by (simp add: vhost_get_protocol_features_def handled_refused reply_u64_handled)

lemma set_protocol_features_handled:
  "ready bs w \<Longrightarrow> \<exists>ret w'. vhost_set_protocol_features sy p sz fds w = Some (ret, w') \<and> handled bs w ret w'"
  by (simp add: vhost_set_protocol_features_def handled_refused Let_def)
    (auto intro!: ack_handled unseen_upd_vdev simp: dflags_def)

lemma get_features_handled:
  assumes r: "ready bs w" and "vt_get_features ty \<noteq> None"
  shows "\<exists>ret w'. vhost_get_features sy ty p sz fds w = Some (ret, w') \<and> handled bs w ret w'"
proof -
  obtain f where f: "vt_get_features ty = Some f" using assms(2) by blast
  have "unseen w (upd_vdev (vd_supported_features_update (\<lambda>_. x)) w)" for x
    by (rule unseen_upd_vdev) (simp_all add: dflags_def)
  from reply_u64_handled [OF r this] f handled_refused [OF r] show ?thesis
    by (simp add: vhost_get_features_def)
qed

lemma set_owner_handled:
  "ready bs w \<Longrightarrow> \<exists>ret w'. vhost_set_owner sy p sz fds w = Some (ret, w') \<and> handled bs w ret w'"
  by (simp add: vhost_set_owner_def handled_refused ack_handled)

lemma get_config_handled:
  "ready bs w \<Longrightarrow> \<exists>ret w'. vhost_get_config sy ty p sz fds w = Some (ret, w') \<and> handled bs w ret w'"
  by (simp add: vhost_get_config_def vhost_reply_def handled_refused reply_handled Let_def)

lemma get_queue_num_handled:
  "ready bs w \<Longrightarrow> \<exists>ret w'. vhost_get_queue_num sy p sz fds w = Some (ret, w') \<and> handled bs w ret w'"
  by (simp add: vhost_get_queue_num_def handled_refused reply_u64_handled)

lemma unseen_update_shadow: "unseen w (update_shadow_vq_memlog w)"
  unfolding update_shadow_vq_memlog_def Let_def
  by (rule unseen_for_vrings, rule unseen_upd_vring) (simp add: vflags_def)

lemma ready_sync:
  assumes r: "ready bs w" and u: "unseen w x" and "c \<noteq> SetVringKickComplete" and "vd_num_vrings_in_flight (vw_vdev w) \<noteq> 0"
  shows "handled bs w OK (sync_vrings c x)"
proof -
  have x: "ready bs x" using r u ready_unseen by blast
  then have m: "msg_ok x" "idle x" by (simp_all add: ready_def core_def)
  then have "completes c (vw_vdev x)" by (simp add: msg_ok_def idle_def completes_def Let_def)
  moreover have "vd_num_vrings_in_flight (vw_vdev x) \<noteq> 0"
    using u assms(4) by (simp add: unseen_def view_def dflags_def)
  ultimately have "handled bs x OK (sync_vrings c x)"
    using sync_vrings_handled [OF ready_core_cleared [OF x]] x assms(3) by (simp add: ready_def)
  then show ?thesis using handled_unseen [OF u] by blast
qed

lemma set_features_handled:
  assumes r: "ready bs w"
  shows "\<exists>ret w'. vhost_set_features sy p sz fds w = Some (ret, w') \<and> handled bs w ret w'"
proof -
  let ?w1 = "upd_vdev (vd_negotiated_features_update (\<lambda>_. mp_u64 p)) w"
  have u1: "unseen w ?w1" by (rule unseen_upd_vdev) (simp_all add: dflags_def)
  have "unseen ?w1 (for_vrings (\<lambda>i. upd_vring i (vr_vq_update (vq_has_event_idx_update (\<lambda>_. b)))) ?w1)" for b
    by (rule unseen_for_vrings, rule unseen_upd_vring) (simp add: vflags_def)
  from ack_handled [OF r unseen_trans [OF u1 this], of sy 0] ready_sync [OF r unseen_trans [OF u1 unseen_update_shadow]]
    handled_refused [OF r]
  show ?thesis by (simp add: vhost_set_features_def Let_def)
qed

text \<open>A message that replaces something that the vrings still use.\<close>

lemma replaced_facts:
  assumes r: "ready bs w" and u: "unseen w (cleared x)"
  shows "core bs 0 0 (cleared x)" and "idle x" and "work_ok x" and "vd_conn_handler (vw_vdev x) \<noteq> None"
    and "vd_num_vrings_in_flight (vw_vdev x) = vd_num_vrings_in_flight (vw_vdev w)"
    and "map vflags (vd_vrings (vw_vdev x)) = map vflags (vd_vrings (vw_vdev w))"
    and "vw_queue x = vw_queue w" and "vw_backend x = vw_backend w" and "flow {} x"
proof -
  have c: "ready bs (cleared x)" using r u ready_unseen by blast
  then show "core bs 0 0 (cleared x)" "idle x" by (simp_all add: ready_def)
  show "work_ok x" "vd_conn_handler (vw_vdev x) \<noteq> None"
    using c by (simp_all add: ready_def work_ok_def cleared_def upd_vdev_def Let_def)
  show "vd_num_vrings_in_flight (vw_vdev x) = vd_num_vrings_in_flight (vw_vdev w)"
    "map vflags (vd_vrings (vw_vdev x)) = map vflags (vd_vrings (vw_vdev w))" "vw_queue x = vw_queue w" "vw_backend x = vw_backend w"
    using u by (simp_all add: unseen_def view_def dflags_def cleared_def upd_vdev_def)
  have "same_vrings (cleared x) x" by (simp add: same_vrings_def cleared_def upd_vdev_def)
  then show "flow {} x" using c same_vrings_flow by (simp add: ready_def)
qed

lemma handled_same_queue:
  "vw_queue x = vw_queue w \<Longrightarrow> vw_backend x = vw_backend w \<Longrightarrow> handled bs x ret w' = handled bs w ret w'"
  by (simp add: handled_def)

lemma replaced_sync:
  assumes r: "ready bs w" and u: "unseen w (cleared x)" and c: "completes c (vw_vdev x)" and "c \<noteq> SetVringKickComplete"
    and "vd_num_vrings_in_flight (vw_vdev x) \<noteq> 0"
  shows "handled bs w OK (sync_vrings c x)"
  using sync_vrings_handled [OF replaced_facts(1-4) [OF r u] c assms(4,5) replaced_facts(9) [OF r u]] handled_same_queue [OF replaced_facts(7,8) [OF r u]]
  by simp

lemma replaced_one:
  assumes r: "ready bs w" and u: "unseen w (cleared x)" and c: "completes c (vw_vdev x)" and "c \<noteq> SetVringKickComplete"
    and i: "i < length (vd_vrings (vw_vdev x))" "vr_started_in_ctl (vring i x)"
  shows "handled bs w OK (vring_handle_msg i (VringSyncToVirtq i) (upd_vdev (vd_handle_complete_update (\<lambda>_. Some c)) x))"
  using handle_one_handled [OF replaced_facts(1-4) [OF r u] c assms(4) i replaced_facts(9) [OF r u]] handled_same_queue [OF replaced_facts(7,8) [OF r u]]
  by simp

text \<open>Building a memory map does not fail in other ways than by an error.\<close>

lemma add_slots_total:
  "ms_maps S mid \<noteq> None \<Longrightarrow> \<exists>ret S'. add_slots K mid desc fds is S = Some (ret, S') \<and> ms_maps S' mid \<noteq> None"
proof (induction "is" arbitrary: S)
  case (Cons i "is")
  then obtain mm where mm: "ms_maps S mid = Some mm" by blast
  let ?r = "md_regions desc i"
  obtain ret A mm1 where a: "vhd_memmap_add_slot K (ms_as S) mm (mreg_guest_addr ?r) (mreg_user_addr ?r) (mreg_size ?r)
      (fds ! i) (mreg_mmap_offset ?r) = (ret, A, mm1)" using prod_cases3 by blast
  show ?case
    using mm a Cons.IH [of "S\<lparr>ms_as := A, ms_maps := (ms_maps S)(mid := Some mm1)\<rparr>"]
    by (cases ret) (simp_all add: Let_def)
qed simp

lemma unseen_update_addrs:
  assumes "vring_update_shadow_vq_addrs i mid w = Some (ret, w')"
  shows "unseen w w'"
proof -
  obtain mm where mm: "ms_maps (m_mms (vw_machine w)) mid = Some mm"
    using assms by (auto simp: vring_update_shadow_vq_addrs_def bind_eq_Some_conv)
  have "unseen w (upd_vring i (\<lambda>v. v\<lparr>vr_shadow_vq := f (vr_shadow_vq v)\<rparr>) w)" for f
    by (rule unseen_upd_vring) (simp add: vflags_def)
  then show ?thesis
    using assms mm
    by (cases "uva_to_ptr mm (ac_desc (vr_addr_cache (vring i w)))"; cases "uva_to_ptr mm (ac_used (vr_addr_cache (vring i w)))";
        cases "uva_to_ptr mm (ac_avail (vr_addr_cache (vring i w)))")
      (auto simp: vring_update_shadow_vq_addrs_def Let_def)
qed

lemma update_addrs_total:
  assumes "ms_maps (m_mms (vw_machine w)) mid \<noteq> None"
  shows "\<exists>ret w'. vring_update_shadow_vq_addrs i mid w = Some (ret, w') \<and> vw_machine w' = vw_machine w"
  using assms by (auto simp: vring_update_shadow_vq_addrs_def upd_vring_def upd_vdev_def Let_def split: option.split)

lemma update_shadow_addrs_total:
  "ms_maps (m_mms (vw_machine w)) mid \<noteq> None \<Longrightarrow> \<exists>ret w'. update_shadow_addrs mid is w = Some (ret, w') \<and> unseen w w'"
proof (induction "is" arbitrary: w)
  case (Cons i "is")
  obtain ret w1 where w1: "vring_update_shadow_vq_addrs i mid w = Some (ret, w1)" "vw_machine w1 = vw_machine w"
    using update_addrs_total [OF Cons.prems] by blast
  have u: "unseen w w1" by (rule unseen_update_addrs [OF w1(1)])
  from Cons.IH [of w] Cons.IH [of w1] Cons.prems w1 u unseen_trans [OF u] show ?case by (cases ret) auto
qed simp

lemma new_memmap_total: "\<exists>ret w'. new_memmap K desc fds w = Some (ret, w') \<and> unseen w w'"
proof -
  let ?vd = "vw_vdev w"
  obtain mid S where S: "vhd_memmap_new (vd_map_cb ?vd) (vd_unmap_cb ?vd) (m_mms (vw_machine w)) = (mid, S)" by fastforce
  then have "ms_maps S mid \<noteq> None" by (auto simp: vhd_memmap_new_def Let_def)
  from add_slots_total [OF this, of K desc fds "[0..<unat (md_nregions desc)]"] obtain ret S1 where
    S1: "add_slots K mid desc fds [0..<unat (md_nregions desc)] S = Some (ret, S1)" "ms_maps S1 mid \<noteq> None" by blast
  let ?w1 = "upd_machine (\<lambda>m. m\<lparr>m_mms := S1\<rparr>) w"
  have u: "unseen w ?w1" by simp
  have "ms_maps (m_mms (vw_machine ?w1)) mid \<noteq> None" using S1(2) by (simp add: upd_machine_def)
  from update_shadow_addrs_total [OF this, of "[0..<unat (vd_num_queues ?vd)]"] obtain ret2 w2 where
    w2: "update_shadow_addrs mid [0..<unat (vd_num_queues ?vd)] ?w1 = Some (ret2, w2)" "unseen ?w1 w2" by blast
  note t = unseen_trans [OF u w2(2)]
  show ?thesis
    using S S1(1) w2(1) t unseen_trans [OF t unseen_memmap_put] unseen_trans [OF u unseen_memmap_put]
    by (cases ret; cases ret2) (auto simp: new_memmap_def)
qed

lemma set_mem_table_handled:
  assumes r: "ready bs w"
  shows "\<exists>ret w'. vhost_set_mem_table K sy p sz fds w = Some (ret, w') \<and> handled bs w ret w'"
proof -
  obtain res w1 where w1: "new_memmap K (mp_mem_desc p) fds w = Some (res, w1)" "unseen w w1"
    using new_memmap_total by blast
  have r1: "ready bs w1" using r w1(2) ready_unseen by blast
  have e: "handled bs w1 ret w' = handled bs w ret w'" for ret w' by (rule handled_unseen [OF w1(2)])
  have cont: "\<exists>ret w'. (if vd_num_vrings_in_flight (vw_vdev w2) = 0 then set_mem_table_complete K sy w2
      else Some (OK, sync_vrings SetMemTableComplete w2)) = Some (ret, w') \<and> handled bs w ret w'"
    if w2: "w2 = upd_vdev (\<lambda>vd. vd\<lparr>vd_old_memmap := vd_memmap vd, vd_memmap := Some mid\<rparr>) w1" for mid w2
  proof (cases "vd_num_vrings_in_flight (vw_vdev w2) = 0")
    case True
    have "unseen w1 (upd_vdev (vd_old_memmap_update (\<lambda>_. None)) (memmap_put K (vd_old_memmap (vw_vdev w2)) w2))"
      using r1 by (simp add: w2 ready_def core_def msg_ok_def idle_def unseen_def view_def dflags_def upd_vdev_def
          memmap_put_def upd_machine_def Let_def split: option.split)
    from ack_handled [OF r1 this, of sy 0] True e show ?thesis by (simp add: set_mem_table_complete_def)
  next
    case False
    have "unseen w1 (cleared w2)" "completes SetMemTableComplete (vw_vdev w2)"
      using r1 by (simp_all add: w2 ready_def core_def msg_ok_def idle_def unseen_def view_def dflags_def upd_vdev_def
          cleared_def completes_def Let_def)
    from replaced_sync [OF r1 this _ False] False e show ?thesis by simp
  qed
  show ?thesis
  proof (cases res)
    case (Inl err)
    then show ?thesis
      using w1(1) handled_refused [OF r] handled_refused [OF r1] e by (simp add: vhost_set_mem_table_def Let_def)
  next
    case (Inr mid)
    then show ?thesis
      using w1(1) handled_refused [OF r] cont [OF refl] by (simp add: vhost_set_mem_table_def Let_def)
  qed
qed

lemma set_log_base_handled:
  assumes r: "ready bs w"
  shows "\<exists>ret w'. vhost_set_log_base sy p sz fds w = Some (ret, w') \<and> handled bs w ret w'"
proof -
  have cont: "\<exists>ret w'. (if vd_num_vrings_in_flight (vw_vdev w2) = 0 then set_log_base_complete sy w2
      else Some (OK, sync_vrings SetLogBaseComplete w2)) = Some (ret, w') \<and> handled bs w ret w'"
    if u: "unseen w (cleared w2)" and c: "completes SetLogBaseComplete (vw_vdev w2)" for w2
  proof (cases "vd_num_vrings_in_flight (vw_vdev w2) = 0")
    case True
    let ?x = "case vd_old_memlog (vw_vdev w2) of None \<Rightarrow> w2
      | Some l \<Rightarrow> upd_vdev (vd_old_memlog_update (\<lambda>_. None))
          (upd_machine (\<lambda>m. m\<lparr>m_logs := (m_logs m)(l := None)\<rparr>) (act (LogFreed l) w2))"
    have "unseen (cleared w2) ?x"
      by (rule cleared_unseen) (use c in \<open>auto simp: dflags_def completes_def upd_vdev_def act_def
        upd_machine_def split: option.split\<close>)
    from reply_u64_handled [OF r unseen_trans [OF u this], of sy 0] True show ?thesis
      by (simp add: set_log_base_complete_def)
  next
    case False
    from replaced_sync [OF r u c _ False] False show ?thesis by simp
  qed
  have "\<exists>ret w'. (if vd_num_vrings_in_flight (vw_vdev w2) = 0 then set_log_base_complete sy w2
      else Some (OK, sync_vrings SetLogBaseComplete w2)) = Some (ret, w') \<and> handled bs w ret w'"
    if w1: "unseen w w1" and
      w2: "w2 = update_shadow_vq_memlog (upd_vdev (\<lambda>vd. vd\<lparr>vd_old_memlog := vd_memlog vd, vd_memlog := Some l\<rparr>) w1)"
    for l w1 w2
  proof (rule cont)
    let ?x = "upd_vdev (\<lambda>vd. vd\<lparr>vd_old_memlog := vd_memlog vd, vd_memlog := Some l\<rparr>) w1"
    have r1: "ready bs w1" using r w1 ready_unseen by blast
    then have "unseen w1 (cleared ?x)" "completes SetLogBaseComplete (vw_vdev ?x)"
      by (simp_all add: ready_def core_def msg_ok_def idle_def unseen_def view_def dflags_def upd_vdev_def
          cleared_def completes_def Let_def)
    moreover have us: "unseen ?x w2" by (simp add: w2 unseen_update_shadow)
    then have "unseen (cleared ?x) (cleared w2)"
      by (simp add: unseen_def view_def dflags_def cleared_def upd_vdev_def)
    ultimately show "unseen w (cleared w2)" "completes SetLogBaseComplete (vw_vdev w2)"
      using w1 us unseen_trans by (blast, simp add: completes_def unseen_def view_def dflags_def)
  qed
  moreover have "unseen w (upd_machine f (w\<lparr>vw_next_log := n\<rparr>))" for f n
    using unseen_trans [OF unseen_next_log unseen_upd_machine] .
  ultimately show ?thesis
    using handled_refused [OF r] by (simp add: vhost_set_log_base_def Let_def split: option.split)
qed

section \<open>Descriptors of a vring\<close>

lemma get_vring_bound:
  "ready bs w \<Longrightarrow> get_vring (vw_vdev w) idx = Some i \<Longrightarrow> i < length (vd_vrings (vw_vdev w))"
  by (auto simp: get_vring_def ready_def core_def counts_ok_def Let_def word_le_nat_alt split: if_splits)

lemma msg_u64_get_vring_bound:
  "ready bs w \<Longrightarrow> msg_u64_get_vring (vw_vdev w) p sz n = Some i \<Longrightarrow> i < length (vd_vrings (vw_vdev w))"
  by (auto simp: msg_u64_get_vring_def Let_def dest: get_vring_bound split: if_splits)

lemma handled_upd_vring:
  assumes "handled bs w ret w'" and "\<And>v. vflags (f v) = vflags v"
  shows "handled bs w ret (upd_vring i f w')"
proof -
  have u: "unseen w' (upd_vring i f w')" by (rule unseen_upd_vring [OF assms(2)])
  then have "vd_conn_handler (vw_vdev (upd_vring i f w')) = vd_conn_handler (vw_vdev w')"
    by (simp add: unseen_def view_def dflags_def)
  then show ?thesis
    using assms(1) core_view [of "upd_vring i f w'" w'] work_ok_view [of "upd_vring i f w'" w'] flow_view [of "upd_vring i f w'" w']
      busy_ok_view [of "upd_vring i f w'" w'] idle_unseen [OF u] u
    by (simp add: handled_def unseen_def)
qed

lemma handled_replace_fd: "handled bs w ret w' \<Longrightarrow> handled bs w ret (replace_fd fd w')"
  by (simp add: replace_fd_def handled_act)

lemma new_fd_facts:
  assumes r: "ready bs w" and i: "i < length (vd_vrings (vw_vdev w))" and f: "\<And>v. vflags (f v) = vflags v"
    and x: "x = upd_vring i f (upd_vdev (vd_keep_fd_update (\<lambda>_. old)) w)"
  shows "vd_keep_fd (vw_vdev w) = - 1" and "unseen w (cleared x)"
    and "unseen w (upd_vdev (vd_keep_fd_update (\<lambda>_. - 1)) (replace_fd (vd_keep_fd (vw_vdev x)) x))"
    and "completes SetVringCallComplete (vw_vdev x)" and "completes SetVringErrComplete (vw_vdev x)"
    and "length (vd_vrings (vw_vdev x)) = length (vd_vrings (vw_vdev w))"
proof -
  have m: "vd_keep_fd (vw_vdev w) = - 1" "vd_old_memmap (vw_vdev w) = None" "vd_old_memlog (vw_vdev w) = None"
    using r by (simp_all add: ready_def core_def msg_ok_def idle_def Let_def)
  then show "vd_keep_fd (vw_vdev w) = - 1" by simp
  have fl: "map vflags ((vd_vrings (vw_vdev w))[i := f (vring i w)]) = map vflags (vd_vrings (vw_vdev w))"
    using f i by (simp add: map_update list_update_same_conv)
  show "unseen w (cleared x)" "completes SetVringCallComplete (vw_vdev x)" "completes SetVringErrComplete (vw_vdev x)"
    "unseen w (upd_vdev (vd_keep_fd_update (\<lambda>_. - 1)) (replace_fd (vd_keep_fd (vw_vdev x)) x))"
    "length (vd_vrings (vw_vdev x)) = length (vd_vrings (vw_vdev w))"
    using m fl by (simp_all add: x unseen_def view_def dflags_def cleared_def completes_def upd_vring_def upd_vdev_def
        replace_fd_def act_def)
qed

lemma set_vring_call_handled:
  assumes r: "ready bs w"
  shows "\<exists>ret w'. vhost_set_vring_call sy p sz fds w = Some (ret, w') \<and> handled bs w ret w'"
proof (cases "msg_u64_get_vring (vw_vdev w) p sz (length fds)")
  case None
  then show ?thesis using handled_refused [OF r] by (simp add: vhost_set_vring_call_def)
next
  case (Some i)
  have i: "i < length (vd_vrings (vw_vdev w))" using msg_u64_get_vring_bound [OF r Some] .
  show ?thesis
  proof (cases "dup_fd sy fds")
    case (Inl e)
    then show ?thesis using Some handled_refused [OF r] by (simp add: vhost_set_vring_call_def)
  next
    case (Inr fd)
    define x where "x = upd_vring i (vr_callfd_update (\<lambda>_. fd))
      (upd_vdev (vd_keep_fd_update (\<lambda>_. vr_callfd (vring i w))) w)"
    note n = new_fd_facts [OF r i _ x_def, unfolded vflags_def, simplified]
    show ?thesis
    proof (cases "vr_started_in_ctl (vring i x)")
      case True
      from replaced_one [OF r n(2,4) _ _ True] n(6) i have
        "handled bs w OK (vring_handle_msg i (VringSyncToVirtq i)
          (upd_vdev (vd_handle_complete_update (\<lambda>_. Some SetVringCallComplete)) x))" by simp
      then show ?thesis using Some Inr n(1) True by (simp add: vhost_set_vring_call_def x_def [symmetric] Let_def)
    next
      case False
      from ack_handled [OF r n(3), of sy 0] obtain ret w2 where
        w2: "set_vring_call_complete sy x = Some (ret, w2)" "handled bs w ret w2" by (auto simp: set_vring_call_complete_def)
      have "handled bs w ret (upd_vring i (vr_callfd_update (\<lambda>_. - 1)) (replace_fd (vr_callfd (vring i w2)) w2))"
        by (intro handled_upd_vring handled_replace_fd w2(2)) (simp add: vflags_def)
      then show ?thesis
        using Some Inr n(1) False w2 by (cases ret) (simp_all add: vhost_set_vring_call_def x_def [symmetric] Let_def)
    qed
  qed
qed

lemma set_vring_err_handled:
  assumes r: "ready bs w"
  shows "\<exists>ret w'. vhost_set_vring_err sy p sz fds w = Some (ret, w') \<and> handled bs w ret w'"
proof (cases "msg_u64_get_vring (vw_vdev w) p sz (length fds)")
  case None
  then show ?thesis using handled_refused [OF r] by (simp add: vhost_set_vring_err_def)
next
  case (Some i)
  have i: "i < length (vd_vrings (vw_vdev w))" using msg_u64_get_vring_bound [OF r Some] .
  show ?thesis
  proof (cases "dup_fd sy fds")
    case (Inl e)
    then show ?thesis using Some handled_refused [OF r] by (simp add: vhost_set_vring_err_def)
  next
    case (Inr fd)
    define x where "x = upd_vring i (vr_errfd_update (\<lambda>_. fd))
      (upd_vdev (vd_keep_fd_update (\<lambda>_. vr_errfd (vring i w))) w)"
    note n = new_fd_facts [OF r i _ x_def, unfolded vflags_def, simplified]
    show ?thesis
    proof (cases "vr_started_in_ctl (vring i x)")
      case True
      from replaced_one [OF r n(2,5) _ _ True] n(6) i have
        "handled bs w OK (vring_handle_msg i (VringSyncToVirtq i)
          (upd_vdev (vd_handle_complete_update (\<lambda>_. Some SetVringErrComplete)) x))" by simp
      then show ?thesis using Some Inr n(1) True by (simp add: vhost_set_vring_err_def x_def [symmetric] Let_def)
    next
      case False
      from ack_handled [OF r n(3), of sy 0] obtain ret w2 where
        w2: "set_vring_err_complete sy x = Some (ret, w2)" "handled bs w ret w2" by (auto simp: set_vring_err_complete_def)
      have "handled bs w ret (upd_vring i (vr_errfd_update (\<lambda>_. - 1)) (replace_fd (vr_errfd (vring i w2)) w2))"
        by (intro handled_upd_vring handled_replace_fd w2(2)) (simp add: vflags_def)
      then show ?thesis
        using Some Inr n(1) False w2 by (cases ret) (simp_all add: vhost_set_vring_err_def x_def [symmetric] Let_def)
    qed
  qed
qed

section \<open>Configuration of a vring\<close>

lemma set_vring_num_handled:
  assumes r: "ready bs w"
  shows "\<exists>ret w'. vhost_set_vring_num sy p sz fds w = Some (ret, w') \<and> handled bs w ret w'"
proof -
  have "unseen w (upd_vring i (vr_vq_update (vq_qsz_update f)) w)" for i f
    by (rule unseen_upd_vring) (simp add: vflags_def)
  from ack_handled [OF r this] handled_refused [OF r] show ?thesis
    by (simp add: vhost_set_vring_num_def Let_def split: option.split)
qed

lemma set_vring_base_handled:
  assumes r: "ready bs w"
  shows "\<exists>ret w'. vhost_set_vring_base sy p sz fds w = Some (ret, w') \<and> handled bs w ret w'"
proof -
  have "unseen w (upd_vring i (vr_vq_update (vq_last_avail_update f)) w)" for i f
    by (rule unseen_upd_vring) (simp add: vflags_def)
  from ack_handled [OF r this] handled_refused [OF r] show ?thesis
    by (simp add: vhost_set_vring_base_def Let_def split: option.split)
qed

lemma set_vring_addr_handled:
  assumes r: "ready bs w"
  shows "\<exists>ret w'. vhost_set_vring_addr sy p sz fds w = Some (ret, w') \<and> handled bs w ret w'"
proof (cases "fds \<noteq> [] \<or> sz < 40")
  case True
  then show ?thesis using handled_refused [OF r] by (simp add: vhost_set_vring_addr_def Let_def)
next
  case False
  define a where "a = mp_vring_addr p"
  define cache where "cache = \<lparr>ac_avail = va_avail_addr a, ac_desc = va_desc_addr a, ac_used = va_used_addr a\<rparr>"
  define start where "start = (\<lambda>v :: vhd_vring. v\<lparr>vr_addr_cache := cache, vr_shadow_vq := (vr_shadow_vq v)\<lparr>sh_flags := va_flags a\<rparr>,
      vr_vq := (vr_vq v)\<lparr>vq_used_gpa_base := va_used_gpa_base a\<rparr>\<rparr>)"
  define flags :: "vhd_vring \<Rightarrow> vhd_vring" where "flags = vr_shadow_vq_update (sh_flags_update (\<lambda>_. va_flags a))"
  have u: "unseen w (upd_vring i start w)" "unseen w (upd_vring i flags w)" for i
    by (rule unseen_upd_vring, simp add: vflags_def start_def flags_def)+
  show ?thesis
  proof (cases "get_vring (vw_vdev w) (ucast (va_index a))")
    case None
    then show ?thesis using False handled_refused [OF r] by (simp add: vhost_set_vring_addr_def Let_def a_def)
  next
    case (Some i)
    let ?x = "upd_vring i flags w"
    have i: "i < length (vd_vrings (vw_vdev w))" using get_vring_bound [OF r Some] .
    have x: "ready bs ?x" using r u(2) ready_unseen by blast
    then have c: "completes SetVringAddrComplete (vw_vdev ?x)" "unseen w (cleared ?x)"
      using unseen_trans [OF u(2) ready_cleared [OF x]]
      by (simp_all add: ready_def core_def msg_ok_def idle_def completes_def Let_def)
    have "handled bs w OK (vring_handle_msg i (VringSyncToVirtq i)
        (upd_vdev (vd_handle_complete_update (\<lambda>_. Some SetVringAddrComplete)) ?x))" if "vr_started_in_ctl (vring i w)"
      using replaced_one [OF r c(2,1)] i that by (simp add: upd_vring_def upd_vdev_def flags_def)
    with False Some ack_handled [OF r u(1)] handled_refused [OF r] show ?thesis
      unfolding vhost_set_vring_addr_def Let_def a_def [symmetric] cache_def [symmetric] start_def [symmetric]
        flags_def [symmetric]
      by simp
  qed
qed

section \<open>The inflight region\<close>

lemma mmap_region_unseen: "inflight_mmap_region sy n q w = (ret, w') \<Longrightarrow> unseen w w'"
proof -
  assume a: "inflight_mmap_region sy n q w = (ret, w')"
  have f: "unseen x (fold (\<lambda>i. upd_vring i (vr_vq_update (vq_inflight_region_update (g i)))) is x)" for g "is" x
    by (rule unseen_fold, rule unseen_upd_vring) (simp add: vflags_def)
  have d: "unseen x (upd_vdev (\<lambda>vd. vd\<lparr>vd_inflight_mem := b, vd_inflight_size := z\<rparr>) x)" for b z x
    by (rule unseen_upd_vdev) (simp_all add: dflags_def)
  have "unseen w (upd_vdev (\<lambda>vd. vd\<lparr>vd_inflight_mem := b, vd_inflight_size := z\<rparr>)
      (fold (\<lambda>i. upd_vring i (vr_vq_update (vq_inflight_region_update (g i)))) is (upd_machine h (inflight_mem_cleanup w))))"
    for b z g "is" h
    by (rule unseen_trans [OF unseen_trans [OF unseen_inflight_cleanup unseen_upd_machine] unseen_trans [OF f d]])
  with a show ?thesis by (auto simp: inflight_mmap_region_def Let_def split: sum.splits)
qed

lemma get_inflight_fd_handled:
  assumes r: "ready bs w"
  shows "\<exists>ret w'. vhost_get_inflight_fd sy p sz fds w = Some (ret, w') \<and> handled bs w ret w'"
proof -
  let ?d = "mp_inflight_desc p"
  let ?n = "vring_inflight_buf_size (id_queue_size ?d)"
  obtain ret w1 where m: "inflight_mmap_region sy ?n (id_num_queues ?d) w = (ret, w1)" by fastforce
  have u: "unseen w w1" using mmap_region_unseen [OF m] .
  then have "handled bs w (Inl e) w1" for e
    using r ready_unseen [OF u] handled_refused [of bs w1] handled_unseen [OF u] by blast
  then have e: "handled bs w (Inl e) (act (Closed fd) w1)" for e fd by (rule handled_act)
  have ok: "\<exists>ret w'. vhost_reply_fds sy pl len [fd] (upd_machine f w1) = Some (ret, w') \<and> handled bs w ret (act (Closed fd) w')"
    for pl len fd f
    using reply_handled [OF r unseen_trans [OF u unseen_upd_machine]] handled_act by blast
  have "\<exists>ret w'. do { (ret, w1) \<leftarrow> vhost_reply_fds sy pl len [fd] (upd_machine f w1); Some (ret, act (Closed fd) w1) } = Some (ret, w') \<and>
      handled bs w ret w'" for pl len fd f
    using ok [of pl len fd f] by auto
  with e m handled_refused [OF r] handled_act [OF handled_refused [OF r]] show ?thesis
    by (cases ret; cases "sy_memfd_create sy"; cases "sy_ftruncate sy") (simp_all add: vhost_get_inflight_fd_def Let_def)
qed

lemma set_inflight_fd_handled:
  assumes r: "ready bs w"
  shows "\<exists>ret w'. vhost_set_inflight_fd sy p sz fds w = Some (ret, w') \<and> handled bs w ret w'"
proof -
  let ?d = "mp_inflight_desc p"
  obtain ret w1 where m: "inflight_mmap_region sy (vring_inflight_buf_size (id_queue_size ?d)) (id_num_queues ?d) w = (ret, w1)"
    by fastforce
  have u: "unseen w w1" using mmap_region_unseen [OF m] .
  then have "handled bs w (Inl e) w1" for e
    using r ready_unseen [OF u] handled_refused [of bs w1] handled_unseen [OF u] by blast
  with m ack_handled [OF r u] handled_refused [OF r] show ?thesis
    by (cases ret) (simp_all add: vhost_set_inflight_fd_def Let_def)
qed

section \<open>Stopping and starting a vring\<close>

lemma stop_vring_handled:
  assumes r: "ready bs w" and i: "i < length (vd_vrings (vw_vdev w))" and s: "vr_started_in_ctl (vring i w)"
  shows "handled bs w OK (run_in_rq (VringStop i) (upd_vring i (vr_on_drain_cb_update (\<lambda>_. True)) w))"
proof -
  let ?w = "run_in_rq (VringStop i) (upd_vring i (vr_on_drain_cb_update (\<lambda>_. True)) w)"
  let ?vs = "vd_vrings (vw_vdev w)"
  have core: "core bs 0 0 w" and idle: "idle w" and work: "work_ok w" and conn: "vd_conn_handler (vw_vdev w) \<noteq> None"
    using r by (simp_all add: ready_def)
  have d: "count_if vr_on_drain_cb ?vs = 0" "\<not> vr_on_drain_cb (?vs ! i)"
    using idle i unfolding idle_def count_if_0 by auto
  let ?vs' = "?vs[i := (?vs ! i)\<lparr>vr_on_drain_cb := True\<rparr>]"
  have n: "count_if vr_on_drain_cb ?vs' = 1" "count_if vr_started_in_ctl ?vs' = count_if vr_started_in_ctl ?vs"
    "count_if vr_started_in_rq ?vs' = count_if vr_started_in_rq ?vs"
    using count_if_update [OF i, of vr_on_drain_cb "(?vs ! i)\<lparr>vr_on_drain_cb := True\<rparr>"]
      count_if_update [OF i, of vr_started_in_ctl "(?vs ! i)\<lparr>vr_on_drain_cb := True\<rparr>"]
      count_if_update [OF i, of vr_started_in_rq "(?vs ! i)\<lparr>vr_on_drain_cb := True\<rparr>"] d
    by (simp_all split: if_splits)
  have f: "vw_rq ?w = VringStop i # vw_rq w" "vw_ctl ?w = vw_ctl w" "vd_vrings (vw_vdev ?w) = ?vs'"
    "vw_queue ?w = vw_queue w" "vw_backend ?w = vw_backend w"
    by (simp_all add: run_in_rq_def upd_vring_def upd_vdev_def)
  have st: "starting j ?w = starting j w" for j by (simp add: starting_def f)
  have "counts_ok 0 0 ?w" using core n i by (simp add: core_def counts_ok_def Let_def run_in_rq_def upd_vring_def upd_vdev_def)
  moreover have "vring_ok bs ?w j" if j: "j < length ?vs" for j
  proof (cases "j = i")
    case True
    have "vring_ok bs w i" using core i by (simp add: core_def)
    with s i show ?thesis by (auto simp: vring_ok_def st f True Let_def)
  next
    case False
    have "vring_ok bs w j" using core j by (simp add: core_def)
    then show ?thesis by (rule vring_ok_other) (use False in \<open>simp_all add: st f\<close>)
  qed
  moreover have "msg_ok ?w" "drain_ok ?w" "conn_ok ?w"
    using core idle n by (auto simp: core_def idle_def msg_ok_def drain_ok_def conn_ok_def Let_def run_in_rq_def upd_vring_def upd_vdev_def)
  moreover have "busy_ok ?w" "work_ok ?w" "vd_conn_handler (vw_vdev ?w) \<noteq> None"
    using n work conn by (auto simp: busy_ok_def work_ok_def Let_def run_in_rq_def upd_vring_def upd_vdev_def)
  moreover have "flow {} ?w"
  proof (rule flow_change [OF _ f(3)])
    show "flow {} w" using r by (simp add: ready_def)
    then have "due {} w i" using i by (simp add: flow_def)
    then show "due {} ?w i \<and> (vd_conn_handler (vw_vdev ?w) = None \<longrightarrow> parting ?w i)"
      using i f st calculation by (auto simp: due_def Let_def)
  qed (use f st calculation in auto)
  ultimately show ?thesis using f by (simp add: handled_def core_def)
qed

lemma get_vring_base_handled:
  assumes r: "ready bs w"
  shows "\<exists>ret w'. vhost_get_vring_base sy p sz fds w = Some (ret, w') \<and> handled bs w ret w'"
  using handled_refused [OF r] stop_vring_handled [OF r get_vring_bound [OF r]] reply_handled [OF r unseen_refl]
  by (simp add: vhost_get_vring_base_def vhost_send_vring_base_def vhost_reply_def Let_def split: option.split)

text \<open>The state in which a vring has been told to start.\<close>

definition launched :: "nat \<Rightarrow> vhd_vring \<Rightarrow> vworld \<Rightarrow> vworld" where
  "launched i v w = upd_vdev (\<lambda>vd. vd\<lparr>vd_vrings := (vd_vrings vd)[i := v], vd_handle_complete := Some SetVringKickComplete,
     vd_num_vrings_handling_msg := vd_num_vrings_handling_msg vd + 1, vd_num_vrings_started := vd_num_vrings_started vd + 1,
     vd_num_vrings_in_flight := vd_num_vrings_in_flight vd + 1\<rparr>) (w\<lparr>vw_rq := VringStart i # vw_rq w\<rparr>)"

lemma launched_fields [simp]:
  "vw_rq (launched i v w) = VringStart i # vw_rq w" "vw_ctl (launched i v w) = vw_ctl w"
  "vd_vrings (vw_vdev (launched i v w)) = (vd_vrings (vw_vdev w))[i := v]"
  "vw_queue (launched i v w) = vw_queue w" "vw_backend (launched i v w) = vw_backend w"
  "vd_num_queues (vw_vdev (launched i v w)) = vd_num_queues (vw_vdev w)"
  "vd_num_vrings_handling_msg (vw_vdev (launched i v w)) = vd_num_vrings_handling_msg (vw_vdev w) + 1"
  "vd_num_vrings_started (vw_vdev (launched i v w)) = vd_num_vrings_started (vw_vdev w) + 1"
  "vd_num_vrings_in_flight (vw_vdev (launched i v w)) = vd_num_vrings_in_flight (vw_vdev w) + 1"
  "vd_handle_complete (vw_vdev (launched i v w)) = Some SetVringKickComplete"
  "vd_conn_handler (vw_vdev (launched i v w)) = vd_conn_handler (vw_vdev w)"
  "vd_timer_handler (vw_vdev (launched i v w)) = vd_timer_handler (vw_vdev w)"
  "vd_listen_handler (vw_vdev (launched i v w)) = vd_listen_handler (vw_vdev w)"
  "vd_connfd (vw_vdev (launched i v w)) = vd_connfd (vw_vdev w)" "vd_req (vw_vdev (launched i v w)) = vd_req (vw_vdev w)"
  "vd_old_memmap (vw_vdev (launched i v w)) = vd_old_memmap (vw_vdev w)"
  "vd_old_memlog (vw_vdev (launched i v w)) = vd_old_memlog (vw_vdev w)"
  "vd_keep_fd (vw_vdev (launched i v w)) = vd_keep_fd (vw_vdev w)" "vd_work (vw_vdev (launched i v w)) = vd_work (vw_vdev w)"
  by (simp_all add: launched_def upd_vdev_def)

lemma launched_handled:
  assumes r: "ready bs w" and i: "i < length (vd_vrings (vw_vdev w))" and s: "\<not> vr_started_in_ctl (vring i w)"
    and v: "vr_started_in_ctl v" "\<not> vr_started_in_rq v" "vr_kick_handler v = None" "\<not> vr_on_drain_cb v" "vq_buffers (vr_vq v) \<noteq> []"
      "vr_num_in_flight v = vr_num_in_flight (vring i w)"
    and room: "vd_num_vrings_started (vw_vdev w) \<noteq> - 1"
  shows "handled bs w OK (launched i v w)"
proof -
  let ?w = "launched i v w" and ?vs = "vd_vrings (vw_vdev w)" and ?vd = "vw_vdev w"
  have core: "core bs 0 0 w" and idle: "idle w" and work: "work_ok w" and conn: "vd_conn_handler ?vd \<noteq> None"
    using r by (simp_all add: ready_def)
  have vi: "vring_ok bs w i" using core i by (simp add: core_def)
  then have fi: "\<not> vr_started_in_rq (vring i w)" "\<not> vr_on_drain_cb (vring i w)" "n_bios bs i = 0" "VringMarkDrained i \<notin> set (vw_ctl w)"
    using s by (simp_all add: vring_ok_def Let_def)
  have z: "vd_num_vrings_handling_msg ?vd = 0" using idle by (simp add: idle_def)
  have n: "count_if vr_started_in_ctl (?vs[i := v]) = Suc (count_if vr_started_in_ctl ?vs)"
    "count_if vr_started_in_rq (?vs[i := v]) = count_if vr_started_in_rq ?vs"
    "count_if vr_on_drain_cb (?vs[i := v]) = count_if vr_on_drain_cb ?vs"
    using count_if_update [OF i, of vr_started_in_ctl v] count_if_update [OF i, of vr_started_in_rq v]
      count_if_update [OF i, of vr_on_drain_cb v] v s fi by simp_all
  have c: "counts_ok 0 0 w" using core by (simp add: core_def)
  then have l: "count_if vr_started_in_ctl ?vs = unat (vd_num_vrings_in_flight ?vd)" "length ?vs = unat (vd_num_queues ?vd)"
    by (simp_all add: counts_ok_def Let_def)
  have "Suc (count_if vr_started_in_ctl ?vs) \<le> length ?vs"
    using length_filter_le [of vr_started_in_ctl "?vs[i := v]"] n(1) by simp
  then have "unat (vd_num_vrings_in_flight ?vd) + 1 < 2 ^ 16" using l unat_less_16 [of "vd_num_queues ?vd"] by linarith
  then have "unat (vd_num_vrings_in_flight ?vd + 1) = Suc (unat (vd_num_vrings_in_flight ?vd))"
    using unat_add_16 [of "vd_num_vrings_in_flight ?vd" 1] by simp
  moreover have "unat (vd_num_vrings_started ?vd + 1) = Suc (unat (vd_num_vrings_started ?vd))"
    using room unatSuc [of "vd_num_vrings_started ?vd"] by (simp add: eq_neg_iff_add_eq_0 add.commute)
  ultimately have u: "unat (vd_num_vrings_in_flight ?vd + 1) = Suc (unat (vd_num_vrings_in_flight ?vd))"
    "unat (vd_num_vrings_started ?vd + 1) = Suc (unat (vd_num_vrings_started ?vd))" by simp_all
  have no: "count_if is_msg_rq (vw_rq w) = 0" "count_if is_msg_ctl (vw_ctl w) = 0"
    using c z by (simp_all add: counts_ok_def Let_def)
  then have ns: "\<not> starting j w" for j by (intro no_more_msgs) simp
  then have st: "starting j ?w \<longleftrightarrow> j = i" for j by (auto simp: starting_def)
  have "counts_ok 0 0 ?w" using c n u i z by (simp add: counts_ok_def Let_def)
  moreover have "vring_ok bs ?w j" if j: "j < length ?vs" for j
  proof (cases "j = i")
    case True
    with vi v fi i show ?thesis by (simp add: vring_ok_def st Let_def)
  next
    case False
    have "vring_ok bs w j" using core j by (simp add: core_def)
    then show ?thesis by (rule vring_ok_other) (use False ns st in simp_all)
  qed
  moreover have "msg_ok ?w" using core idle n(3) z st unfolding msg_ok_def no_drain_iff by (simp add: core_def msg_ok_def idle_def Let_def)
  moreover have "drain_ok ?w" "conn_ok ?w"
    using core idle n by (auto simp: core_def idle_def drain_ok_def conn_ok_def Let_def)
  moreover have "busy_ok ?w" using z by (simp add: busy_ok_def)
  moreover have "work_ok ?w" using work core conn by (auto simp: work_ok_def core_def conn_ok_def Let_def)
  moreover have "flow {} ?w"
    by (rule flow_change [of "{}" w ?w i v]) (use r v ns st i conn in \<open>auto simp: ready_def due_def Let_def\<close>)
  ultimately show ?thesis using conn by (simp add: handled_def core_def)
qed

lemma virtq_init_buffers:
  assumes "virtio_virtq_init vq m = Some (vq', m')"
  shows "vq_buffers vq' \<noteq> []"
proof -
  have "max (vq_qsz vq) WINDOWS_CHAIN_LEN_MAX \<noteq> 0"
    by (simp add: max_def WINDOWS_CHAIN_LEN_MAX_def) (auto simp: word_le_nat_alt)
  then have "unat (max (vq_qsz vq) WINDOWS_CHAIN_LEN_MAX) \<noteq> 0" by (simp add: unat_eq_0)
  with assms show ?thesis
    by (auto simp: virtio_virtq_init_def virtq_inflight_reconnect_update_def Let_def split: if_splits bind_splits)
qed

lemma start_in_ctl_launched:
  assumes r: "ready bs w" and i: "i < length (vd_vrings (vw_vdev w))" and s: "\<not> vr_started_in_ctl (vring i w)"
    and w2: "vring_start_in_ctl i kickfd w = Some w2"
    and room: "vd_num_vrings_started (vw_vdev w) \<noteq> - 1"
  shows "handled bs w OK (vring_handle_msg i (VringStart i)
    (upd_vdev (vd_handle_complete_update (\<lambda>_. Some SetVringKickComplete)) w2))"
proof -
  let ?w1 = "vring_sync_to_virtq i (upd_vring i (vr_kickfd_update (\<lambda>_. kickfd)) w)"
  obtain vq m where vq: "virtio_virtq_init (vr_vq (vring i ?w1)) (vw_machine ?w1) = Some (vq, m)"
    and w2: "w2 = upd_vdev (\<lambda>vd. vd\<lparr>vd_num_vrings_started := vd_num_vrings_started vd + 1,
          vd_num_vrings_in_flight := vd_num_vrings_in_flight vd + 1\<rparr>)
        (upd_vring i (\<lambda>v. v\<lparr>vr_vq := vq, vr_started_in_ctl := True\<rparr>) (?w1\<lparr>vw_machine := m\<rparr>))"
    using w2 by (auto simp: vring_start_in_ctl_def split: if_splits bind_splits)
  define v where "v = (vring i w)\<lparr>vr_kickfd := kickfd, vr_vq := vq, vr_started_in_ctl := True\<rparr>"
  let ?w' = "vring_handle_msg i (VringStart i) (upd_vdev (vd_handle_complete_update (\<lambda>_. Some SetVringKickComplete)) w2)"
  have "vring_ok bs w i" using r i by (simp add: ready_def core_def)
  then have "\<not> vr_started_in_rq (vring i w) \<and> vr_kick_handler (vring i w) = None \<and> \<not> vr_on_drain_cb (vring i w)"
    using s by (auto simp: vring_ok_def Let_def)
  then have "handled bs w OK (launched i v w)"
    by (intro launched_handled [OF r i s _ _ _ _ _ _ room]) (use virtq_init_buffers [OF vq] in \<open>simp_all add: v_def\<close>)
  moreover have "unseen (launched i v w) ?w'"
    using i by (simp add: w2 unseen_def view_def dflags_def launched_def vring_handle_msg_def run_in_rq_def
        upd_vring_def upd_vdev_def v_def vring_sync_to_virtq_def virtq_set_notify_fd_def Let_def)
  ultimately show ?thesis
    using core_view [of ?w' "launched i v w"] work_ok_view [of ?w' "launched i v w"] busy_ok_view [of ?w' "launched i v w"]
      flow_view [of ?w' "launched i v w"]
    by (simp add: handled_def unseen_def view_def dflags_def)
qed

lemma set_vring_kick_cases:
  assumes h: "vhost_set_vring_kick sy p sz fds w = Some (ret, w')"
  obtains (refused) e where "ret = Inl e" "unseen w w'"
  | (started) i w1 kickfd w2 where "msg_u64_get_vring (vw_vdev w) p sz (length fds) = Some i"
    "\<not> vr_started_in_ctl (vring i w)" "unseen w w1" "vring_start_in_ctl i kickfd w1 = Some w2" "ret = OK"
    "w' = vring_handle_msg i (VringStart i) (upd_vdev (vd_handle_complete_update (\<lambda>_. Some SetVringKickComplete)) w2)"
proof (cases "msg_u64_get_vring (vw_vdev w) p sz (length fds)")
  case None
  then show ?thesis using h refused [of EINVAL] by (simp add: vhost_set_vring_kick_def)
next
  case (Some i)
  show ?thesis
  proof (cases "fds = [] \<or> vr_started_in_ctl (vring i w)")
    case True
    then show ?thesis using h Some refused by (auto simp: vhost_set_vring_kick_def split: if_splits)
  next
    case False
    with h Some obtain mid r1 w1 where a: "vring_update_shadow_vq_addrs i mid w = Some (r1, w1)"
      "(case r1 of Inl e \<Rightarrow> Some (Inl e, w1) | Inr _ \<Rightarrow> (case sy_dup sy of Inl e \<Rightarrow> Some (Inl e, w1)
        | Inr kickfd \<Rightarrow> do { w2 \<leftarrow> vring_start_in_ctl i kickfd w1; Some (OK, vring_handle_msg i (VringStart i)
            (upd_vdev (vd_handle_complete_update (\<lambda>_. Some SetVringKickComplete)) w2)) })) = Some (ret, w')"
      by (auto simp: vhost_set_vring_kick_def split: bind_splits)
    have u: "unseen w w1" by (rule unseen_update_addrs [OF a(1)])
    show ?thesis using a(2) False Some u refused started [OF Some _ u]
      by (auto split: sum.splits bind_splits)
  qed
qed

lemma set_vring_kick_handled:
  assumes r: "ready bs w" and h: "vhost_set_vring_kick sy p sz fds w = Some (ret, w')"
    and room: "vd_num_vrings_started (vw_vdev w) \<noteq> - 1"
  shows "handled bs w ret w'"
  using h
proof (cases rule: set_vring_kick_cases)
  case (refused e)
  then have "ready bs w'" using r ready_unseen by blast
  from handled_refused [OF this] refused handled_unseen show ?thesis by blast
next
  case (started i w1 kickfd w2)
  note u = started(3)
  have vw: "view w1 = view w" using u by (simp add: unseen_def)
  have i: "i < length (vd_vrings (vw_vdev w))" using msg_u64_get_vring_bound [OF r started(1)] .
  have w1: "ready bs w1" "i < length (vd_vrings (vw_vdev w1))" "\<not> vr_started_in_ctl (vring i w1)"
    "vd_num_vrings_started (vw_vdev w1) \<noteq> - 1"
    using r ready_unseen [OF u] i started(2) room view_length [OF vw] view_nth [OF vw i] view_dflags [OF vw]
    by (simp_all add: vflags_def dflags_def)
  from start_in_ctl_launched [OF w1(1-3) started(4) w1(4)] started handled_unseen [OF u] show ?thesis by simp
qed

text \<open>
  Starting a vring does not abort if there is a live memory map and the vring has no inflight
  region, or one that differs from the used ring by at most one request.
\<close>

definition startable :: "nat \<Rightarrow> vworld \<Rightarrow> bool" where
  "startable i w \<longleftrightarrow>
     (case Option.bind (vd_memmap (vw_vdev w)) (ms_maps (m_mms (vw_machine w))) of
        None \<Rightarrow> False
      | Some mm \<Rightarrow>
          (let v = vring i w; region = vq_inflight_region (vr_vq v); r = m_inflight (vw_machine w) region
           in region = 0 \<or> max_counter r = 0 \<or>
              (case uva_to_ptr mm (ac_used (vr_addr_cache v)) of
                 None \<Rightarrow> True
               | Some used \<Rightarrow> us_idx (m_used (vw_machine w) used) - isr_used_idx r \<le> 1)))"

lemma do_notify_same [simp]:
  "m_inflight (virtq_do_notify vq m) = m_inflight m" "m_used (virtq_do_notify vq m) = m_used m"
  by (simp_all add: virtq_do_notify_def)

lemma le_1_cases: "x \<le> 1 \<longleftrightarrow> x = 0 \<or> x = 1" for x :: u16
proof -
  have "x \<le> 1 \<longleftrightarrow> unat x = unat (0 :: u16) \<or> unat x = unat (1 :: u16)" by (auto simp: word_le_nat_alt)
  then show ?thesis unfolding word_unat_eq_iff .
qed

lemma start_in_ctl_total:
  assumes i: "i < length (vd_vrings (vw_vdev w))" and v: "vr_kickfd (vring i w) < 0" "vq_buffers (vr_vq (vring i w)) = []"
    and st: "startable i w" and mid: "vd_memmap (vw_vdev w) = Some mid" and a: "vring_update_shadow_vq_addrs i mid w = Some (OK, w1)"
  shows "\<exists>w2. vring_start_in_ctl i kickfd w1 = Some w2"
proof -
  obtain mm where mm: "ms_maps (m_mms (vw_machine w)) mid = Some mm" using st mid by (auto simp: startable_def split: option.splits)
  let ?c = "vr_addr_cache (vring i w)"
  obtain desc used avail where u: "uva_to_ptr mm (ac_used ?c) = Some used"
    and w1: "w1 = upd_vring i (\<lambda>v. v\<lparr>vr_shadow_vq := (vr_shadow_vq v)
      \<lparr>sh_desc := desc, sh_used := used, sh_avail := avail, sh_mm := mid\<rparr>\<rparr>) w"
    using a mm by (auto simp: vring_update_shadow_vq_addrs_def Let_def split: option.splits)
  from st mid mm u show ?thesis
    using i v
    by (auto simp: startable_def vring_start_in_ctl_def w1 upd_vring_def upd_vdev_def vring_sync_to_virtq_def
        virtq_set_notify_fd_def virtio_virtq_init_def virtq_inflight_reconnect_update_def le_1_cases Let_def)
qed

lemma set_vring_kick_total:
  assumes r: "ready bs w" and st: "\<And>i. msg_u64_get_vring (vw_vdev w) p sz (length fds) = Some i \<Longrightarrow> startable i w"
  shows "\<exists>ret w'. vhost_set_vring_kick sy p sz fds w = Some (ret, w')"
proof (cases "msg_u64_get_vring (vw_vdev w) p sz (length fds)")
  case (Some i)
  have i: "i < length (vd_vrings (vw_vdev w))" using msg_u64_get_vring_bound [OF r Some] .
  obtain mid where mid: "vd_memmap (vw_vdev w) = Some mid" "ms_maps (m_mms (vw_machine w)) mid \<noteq> None"
    using st [OF Some] by (auto simp: startable_def split: option.splits bind_splits)
  obtain ret w1 where a: "vring_update_shadow_vq_addrs i mid w = Some (ret, w1)" using update_addrs_total [OF mid(2)] by blast
  have "vring_start_in_ctl i kickfd w1 \<noteq> None" if "\<not> vr_started_in_ctl (vring i w)" "ret = OK" for kickfd
  proof -
    have "vring_ok bs w i" using r i by (simp add: ready_def core_def)
    then show ?thesis
      using start_in_ctl_total [OF i _ _ st [OF Some] mid(1)] a that by (simp add: vring_ok_def Let_def)
  qed
  with Some mid a show ?thesis
    by (cases ret; cases "sy_dup sy") (auto simp: vhost_set_vring_kick_def bind_eq_Some_conv)
qed (simp add: vhost_set_vring_kick_def)

end
