(* ===== verification/Vdev_Safe.thy ===== *)
theory Vdev_Safe
  imports Vdev_Handlers
begin

text \<open>
  The protocol between the control thread and the request queue's thread is safe: the invariant
  of \<open>Vdev_Inv\<close> holds in every execution, nothing but a kick or a completion can abort, and the counters
  that decide when a device is drained are exact. The executions are those in which the socket
  takes the replies that are sent after the message was read, a vring that is torn down has no
  requests waiting, and fewer than \<open>2 ^ 16\<close> requests are in flight; without each of these the
  code can abort, as \<open>Vdev_Faults\<close> shows for the first two.
\<close>

section \<open>Messages\<close>

lemma handle_start_ready:
  assumes inv: "vdev_inv w" and conn: "vd_conn_handler (vw_vdev w) = Some True"
  shows "\<exists>w1. vdev_handle_start sy req ack w = Some w1 \<and> ready (bios w) w1 \<and> vw_queue w1 = vw_queue w \<and>
    vw_backend w1 = vw_backend w \<and> vw_machine w1 = vw_machine w \<and> vd_memmap (vw_vdev w1) = vd_memmap (vw_vdev w) \<and>
    vd_vrings (vw_vdev w1) = vd_vrings (vw_vdev w) \<and> vd_num_queues (vw_vdev w1) = vd_num_queues (vw_vdev w) \<and>
    vd_num_vrings_started (vw_vdev w1) = vd_num_vrings_started (vw_vdev w)"
proof -
  have core: "core (bios w) 0 0 w" and work: "work_ok w" using inv by (simp_all add: vdev_inv_def)
  have t: "vd_timer_handler (vw_vdev w) = Some False" using core conn by (simp add: core_def conn_ok_def Let_def)
  have z: "vd_num_vrings_handling_msg (vw_vdev w) = 0" using core conn by (auto simp: core_def msg_ok_def Let_def split: if_splits)
  have "count_if vr_on_drain_cb (vd_vrings (vw_vdev w)) \<le> 1" "count_if vr_on_drain_cb (vd_vrings (vw_vdev w)) \<noteq> 1"
    using core conn by (simp_all add: core_def drain_ok_def Let_def)
  then have d: "count_if vr_on_drain_cb (vd_vrings (vw_vdev w)) = 0" by linarith
  let ?w1 = "upd_vdev (\<lambda>vd. vd\<lparr>vd_conn_handler := Some False, vd_req := req, vd_ack_pending := ack,
    vd_timer_handler := Some (sy_epoll_add sy (vd_timerfd (vw_vdev w)))\<rparr>) w"
  have "counts_ok 0 0 ?w1" "msg_ok ?w1" "drain_ok ?w1" "conn_ok ?w1"
    using core conn t z by (auto simp: core_def counts_ok_def msg_ok_def drain_ok_def conn_ok_def upd_vdev_def Let_def)
  moreover have "vring_ok (bios w) ?w1 i = vring_ok (bios w) w i" for i by (rule vring_ok_upd_vdev) simp
  ultimately have "core (bios w) 0 0 ?w1" using core by (simp add: core_def upd_vdev_def)
  moreover have "idle ?w1" using z d by (simp add: idle_def upd_vdev_def)
  moreover have "work_ok ?w1" using work by (simp add: work_ok_def upd_vdev_def Let_def)
  moreover have "flow {} ?w1" using inv conn same_vrings_flow [of w ?w1] by (simp add: vdev_inv_def same_vrings_def upd_vdev_def)
  ultimately have "ready (bios w) ?w1" by (simp add: ready_def upd_vdev_def)
  moreover have "vdev_handle_start sy req ack w = Some ?w1"
    using t conn by (simp add: vdev_handle_start_def attach_handler_def)
  ultimately show ?thesis by (simp add: upd_vdev_def)
qed

lemma startable_cong:
  "vw_machine w1 = vw_machine w \<Longrightarrow> vd_memmap (vw_vdev w1) = vd_memmap (vw_vdev w) \<Longrightarrow>
    vd_vrings (vw_vdev w1) = vd_vrings (vw_vdev w) \<Longrightarrow> startable i w1 = startable i w"
  by (simp add: startable_def Let_def split: option.split)

lemma lost_connection:
  assumes inv: "vdev_inv w" and conn: "vd_conn_handler (vw_vdev w) = Some True"
  shows "\<exists>w'. vdev_disconnect K sy w = Some w' \<and> vdev_inv w' \<and> bios w' = bios w"
proof -
  have i: "core (bios w) 0 0 w" "busy_ok w" "work_ok w" "flow {} w" "vd_conn_handler (vw_vdev w) \<noteq> None"
    using inv conn by (simp_all add: vdev_inv_def)
  have z: "vd_num_vrings_handling_msg (vw_vdev w) = 0" using i(1) conn by (auto simp: core_def msg_ok_def Let_def split: if_splits)
  from disconnect_inv [OF i(1-3,5,4) z] obtain w' where w': "vdev_disconnect K sy w = Some w'" "core (bios w) 0 0 w'"
    "busy_ok w'" "work_ok w'" "open_ok w'" "flow {} w'" "vw_queue w' = vw_queue w" "vw_backend w' = vw_backend w" by blast
  then have "bios w' = bios w" by (simp add: bios_def)
  with w' show ?thesis by (simp add: vdev_inv_def)
qed

lemma open_ok_connected: "vd_conn_handler (vw_vdev w) \<noteq> None \<Longrightarrow> open_ok w"
  by (auto simp: open_ok_def unmessaged_def Let_def)

text \<open>After a message has been handled or refused.\<close>

lemma after_message:
  assumes r: "ready bs w1" and h: "handled bs w1 ret w2" and bs: "bs = bios w1" and w3: "unseen w2 w3"
  shows "\<exists>w'. (case ret of Inr _ \<Rightarrow> Some w3 | Inl _ \<Rightarrow> do { w4 \<leftarrow> vdev_handle_finish sy w3; vdev_disconnect K sy w4 }) = Some w' \<and>
    vdev_inv w' \<and> bios w' = bs"
proof -
  have b: "bios w2 = bs" using h bs by (simp add: handled_def bios_def)
  have vw: "view w3 = view w2" and q: "vw_queue w3 = vw_queue w2" "vw_backend w3 = vw_backend w2"
    using w3 by (simp_all add: unseen_def)
  have core: "core bs 0 0 w3" and work: "work_ok w3" and flow: "flow {} w3" and conn: "vd_conn_handler (vw_vdev w3) \<noteq> None"
    using h core_view [OF vw] work_ok_view [OF vw] flow_view [OF vw] view_dflags [OF vw] by (simp_all add: handled_def dflags_def)
  show ?thesis
  proof (cases ret)
    case (Inl e)
    have idle: "idle w3" using h Inl idle_unseen [OF w3] by (simp add: handled_def)
    have f: "vd_conn_handler (vw_vdev (finished sy w3)) \<noteq> None" using conn by simp
    have "work_ok (finished sy w3)" using work by simp
    moreover have "flow {} (finished sy w3)" by (rule same_vrings_flow [OF _ flow]) (simp add: same_vrings_def)
    moreover have "vd_num_vrings_handling_msg (vw_vdev (finished sy w3)) = 0" using idle by (simp add: idle_def)
    ultimately obtain w' where
      w': "vdev_disconnect K sy (finished sy w3) = Some w'" "core bs 0 0 w'" "busy_ok w'" "work_ok w'" "open_ok w'" "flow {} w'"
        "vw_queue w' = vw_queue w3" "vw_backend w' = vw_backend w3"
      using disconnect_inv [OF core_finished [OF core idle] _ f, of K sy] by auto
    then have "vdev_inv w' \<and> bios w' = bs" using b q by (simp add: vdev_inv_def bios_def)
    then show ?thesis using Inl finish_eq [OF idle] w'(1) by simp
  next
    case (Inr u)
    then have "busy_ok w3" using h busy_ok_view [OF vw] by (simp add: handled_def)
    then have "vdev_inv w3 \<and> bios w3 = bs" using core work flow open_ok_connected [OF conn] b q by (simp add: vdev_inv_def bios_def)
    then show ?thesis using Inr by simp
  qed
qed

lemma close_fds_same [simp]: "vw_machine (close_fds fds w) = vw_machine w" "vw_vdev (close_fds fds w) = vw_vdev w"
  unfolding close_fds_def by (induction fds arbitrary: w) (simp_all add: act_def)

lemma recv_header:
  assumes "net_recv_msg len num rm rd = (res, fds, closed)" and "res = Inr (n, Some hdr, p)"
  obtains m rfds where "rm = Inr (m, hdr, rfds)"
  using assms by (auto simp: net_recv_msg_def Let_def split: sum.splits prod.splits if_splits)

context vdev_type
begin

lemma handle_msg_total:
  assumes r: "ready bs w" and req: "req \<noteq> VHOST_USER_SET_VRING_KICK"
  shows "\<exists>ret w'. vhost_handle_msg K sy ty req p sz fds w = Some (ret, w') \<and> handled bs w ret w'"
  using req get_features_handled [OF r features_known] set_features_handled [OF r] set_owner_handled [OF r]
    get_protocol_features_handled [OF r] set_protocol_features_handled [OF r] get_config_handled [OF r]
    set_mem_table_handled [OF r] get_queue_num_handled [OF r] set_log_base_handled [OF r] set_vring_call_handled [OF r]
    set_vring_err_handled [OF r] set_vring_num_handled [OF r] set_vring_base_handled [OF r] get_vring_base_handled [OF r]
    set_vring_addr_handled [OF r] get_inflight_fd_handled [OF r] set_inflight_fd_handled [OF r] handled_refused [OF r]
  unfolding vhost_handle_msg_def by simp

lemma handle_msg_kick: "vhost_handle_msg K sy ty VHOST_USER_SET_VRING_KICK = vhost_set_vring_kick sy"
  by (simp add: vhost_handle_msg_def vhost_reqs)

lemma handle_msg_handled:
  assumes r: "ready bs w" and h: "vhost_handle_msg K sy ty req p sz fds w = Some (ret, w')"
    and room: "vd_num_vrings_started (vw_vdev w) \<noteq> - 1"
  shows "handled bs w ret w'"
proof (cases "req = VHOST_USER_SET_VRING_KICK")
  case True
  then show ?thesis using h set_vring_kick_handled [OF r _ room] by (simp add: handle_msg_kick)
next
  case False
  from handle_msg_total [OF r this, of K sy p sz fds] h show ?thesis by auto
qed

lemma conn_read_inv:
  assumes inv: "vdev_inv w" and conn: "vd_conn_handler (vw_vdev w) = Some True"
    and room: "vd_num_vrings_started (vw_vdev w) \<noteq> - 1" and c: "conn_read K sy ty rm rd w = Some w'"
  shows "vdev_inv w' \<and> bios w' = bios w"
proof -
  obtain res fds closed where n: "net_recv_msg 272 VHOST_USER_MAX_FDS rm rd = (res, fds, closed)" using prod_cases3 by blast
  let ?w0 = "close_fds closed w"
  have u: "unseen w ?w0" by simp
  have inv0: "vdev_inv ?w0" using inv vdev_inv_unseen [OF u] by simp
  have b0: "bios ?w0 = bios w" using u by (simp add: unseen_def bios_def)
  have w0: "vd_conn_handler (vw_vdev ?w0) = Some True" "vd_num_vrings_started (vw_vdev ?w0) \<noteq> - 1"
    using u conn room by (simp_all add: unseen_def view_def dflags_def)
  show ?thesis
  proof (cases "\<exists>len hdr payload. res = Inr (len, Some hdr, Some payload)")
    case False
    then have "vdev_disconnect K sy ?w0 = Some w'"
      using c n by (auto simp: conn_read_def Let_def split: sum.splits option.splits)
    then show ?thesis
      using lost_connection [OF inv0, of K sy] w0 b0 by auto
  next
    case True
    then obtain len hdr payload where res: "res = Inr (len, Some hdr, Some payload)" by blast
    obtain w1 where w1: "vdev_handle_start sy (mh_req hdr) (msg_ack_needed (vw_vdev ?w0) (mh_flags hdr)) ?w0 = Some w1"
      "ready (bios ?w0) w1" "vw_queue w1 = vw_queue ?w0" "vw_backend w1 = vw_backend ?w0"
      "vd_num_vrings_started (vw_vdev w1) = vd_num_vrings_started (vw_vdev ?w0)"
      using handle_start_ready [OF inv0 w0(1)] by blast
    then have b: "bios ?w0 = bios w1" by (simp add: bios_def)
    from c n res w1 obtain ret w2 where
      w2: "vhost_handle_msg K sy ty (mh_req hdr) payload (mh_size hdr) fds w1 = Some (ret, w2)"
        "(case ret of Inr _ \<Rightarrow> Some (close_fds (rev fds) w2) | Inl _ \<Rightarrow> do { w4 \<leftarrow> vdev_handle_finish sy (close_fds (rev fds) w2);
          vdev_disconnect K sy w4 }) = Some w'"
      by (auto simp: conn_read_def Let_def bind_eq_Some_conv)
    have "handled (bios ?w0) w1 ret w2" using handle_msg_handled [OF w1(2) w2(1)] w1(5) w0(2) by simp
    from after_message [OF w1(2) this b unseen_close_fds [of _ "rev fds"], of sy K] w2(2) b0 show ?thesis by auto
  qed
qed

lemma conn_read_total:
  assumes inv: "vdev_inv w" and conn: "vd_conn_handler (vw_vdev w) = Some True"
    and room: "vd_num_vrings_started (vw_vdev w) \<noteq> - 1"
    and st: "\<And>n hdr fds i. rm = Inr (n, hdr, fds) \<Longrightarrow> mh_req hdr = VHOST_USER_SET_VRING_KICK \<Longrightarrow>
      i < length (vd_vrings (vw_vdev w)) \<Longrightarrow> startable i w"
  shows "\<exists>w'. conn_read K sy ty rm rd w = Some w'"
proof -
  obtain res fds closed where n: "net_recv_msg 272 VHOST_USER_MAX_FDS rm rd = (res, fds, closed)" using prod_cases3 by blast
  let ?w0 = "close_fds closed w"
  have u: "unseen w ?w0" by simp
  have inv0: "vdev_inv ?w0" using inv vdev_inv_unseen [OF u] by simp
  have w0: "vd_conn_handler (vw_vdev ?w0) = Some True" using u conn by (simp add: unseen_def view_def dflags_def)
  show ?thesis
  proof (cases "\<exists>len hdr payload. res = Inr (len, Some hdr, Some payload)")
    case False
    then have "conn_read K sy ty rm rd w = vdev_disconnect K sy ?w0"
      using n by (auto simp: conn_read_def Let_def split: sum.splits option.splits)
    then show ?thesis using lost_connection [OF inv0, of K sy] w0 by auto
  next
    case True
    then obtain len hdr payload where res: "res = Inr (len, Some hdr, Some payload)" by blast
    obtain w1 where w1: "vdev_handle_start sy (mh_req hdr) (msg_ack_needed (vw_vdev ?w0) (mh_flags hdr)) ?w0 = Some w1"
      "ready (bios ?w0) w1" "vw_queue w1 = vw_queue ?w0" "vw_backend w1 = vw_backend ?w0" "vw_machine w1 = vw_machine ?w0"
      "vd_memmap (vw_vdev w1) = vd_memmap (vw_vdev ?w0)" "vd_vrings (vw_vdev w1) = vd_vrings (vw_vdev ?w0)"
      "vd_num_vrings_started (vw_vdev w1) = vd_num_vrings_started (vw_vdev ?w0)"
      using handle_start_ready [OF inv0 w0] by blast
    have "startable i w1" if k: "mh_req hdr = VHOST_USER_SET_VRING_KICK" and
      i: "msg_u64_get_vring (vw_vdev w1) payload (mh_size hdr) (length fds) = Some i" for i
    proof -
      have s: "vw_machine ?w0 = vw_machine w" "vw_vdev ?w0 = vw_vdev w" by simp_all
      obtain m rfds where rm: "rm = Inr (m, hdr, rfds)" using n res by (rule recv_header)
      have "i < length (vd_vrings (vw_vdev w))" using msg_u64_get_vring_bound [OF w1(2) i] w1(7) s by simp
      from st [OF rm k this] show ?thesis using startable_cong [of w1 w] w1(5-7) s by simp
    qed
    then obtain ret w2 where w2: "vhost_handle_msg K sy ty (mh_req hdr) payload (mh_size hdr) fds w1 = Some (ret, w2)"
      using handle_msg_total [OF w1(2)] set_vring_kick_total [OF w1(2)] handle_msg_kick by metis
    have b: "bios ?w0 = bios w1" using w1 by (simp add: bios_def)
    have "handled (bios ?w0) w1 ret w2" using handle_msg_handled [OF w1(2) w2] w1(8) room by simp
    from after_message [OF w1(2) this b unseen_close_fds [of _ "rev fds"], of sy K] n res w1(1) w2 show ?thesis
      by (auto simp: conn_read_def Let_def)
  qed
qed

end

section \<open>Executions\<close>

datatype device = Blk vhd_bdev_info | Fs vhd_fsdev_info

fun device_type :: "kernel \<Rightarrow> int \<Rightarrow> device \<Rightarrow> vhd_vdev_type" where
  "device_type K now (Blk bdev) = g_virtio_blk_vdev_type K now bdev"
| "device_type K now (Fs fsdev) = g_virtio_fs_vdev_type K now fsdev"

interpretation device: vdev_type "device_type K now dev" for K now dev
  by (cases dev) (simp_all add: blk_type.vdev_type_axioms fs_type.vdev_type_axioms)

text \<open>What the environment and the other thread are assumed to do in an event.\<close>

fun calm :: "sys \<Rightarrow> vdev_event \<Rightarrow> vworld \<Rightarrow> bool" where
  "calm sy Accept w = (case sy_accept sy of Inl _ \<Rightarrow> True | Inr fd \<Rightarrow> 0 \<le> fd)"
| "calm sy (Message rm rd) w = (vd_num_vrings_started (vw_vdev w) \<noteq> - 1)"
| "calm sy (RqBh (VringStop i)) w = calm_stop i w"
| "calm sy (CtlBh bh) w = send_ok sy"
| "calm sy _ w = True"

text \<open>
  A step of a device. Each event has its own results of system calls and its own time.
\<close>

inductive vdev_step :: "kernel \<Rightarrow> device \<Rightarrow> vworld \<Rightarrow> vworld \<Rightarrow> bool" for K :: kernel and dev :: device where
  vdev_step: "vdev_step K dev w w'"
    if "enabled ev w" and "calm sy ev w" and "perform K (device_type K now dev) sy ev w = Some w'"
      and "length (bios w') < 2 ^ 16"

text \<open>The requests of other devices may be in the request queue already.\<close>

inductive vdev_initial :: "vworld \<Rightarrow> bool" where
  vdev_initial: "vdev_initial w"
    if "vhd_vdev_init_server sy sock max_queues map_cb unmap_cb m rq = Some (OK, Some w)"
      and "\<forall>b\<in>set (rq_submission rq @ rq_completion rq). unat (word_of_int max_queues :: u16) \<le> bio_vring b"

lemma n_bios_none: "\<forall>b\<in>set bs. k \<le> bio_vring b \<Longrightarrow> i < k \<Longrightarrow> n_bios bs i = 0"
  by (auto simp: n_bios_def filter_empty_conv)

lemma init_server_world:
  assumes "vhd_vdev_init_server sy sock max_queues map_cb unmap_cb m rq = Some (OK, Some w)"
  shows "\<exists>fd. sock = Inr fd \<and> w = \<lparr>vw_vdev = (init_vdev fd max_queues map_cb unmap_cb)\<lparr>vd_listen_handler := Some True\<rparr>,
    vw_machine = m, vw_queue = rq, vw_backend = [], vw_rq = [], vw_ctl = [], vw_out = [WorkDone OK], vw_next_log = 0\<rparr>"
  using assms
  by (auto simp: vhd_vdev_init_server_def vhd_calloc_def VHOST_VRING_IDX_MASK_def vdev_work_fn_def vdev_start_def vdev_start_listening_def
      vdev_complete_work_def init_vdev_def act_def upd_vdev_def bind_eq_Some_conv split: if_splits sum.splits prod.splits)

lemma initial_inv:
  assumes "vdev_initial w"
  shows "vdev_inv w"
  using assms
proof cases
  case (vdev_initial sy sock n map_cb unmap_cb m rq)
  from init_server_world [OF vdev_initial(1)] obtain fd where w: "w = \<lparr>vw_vdev = (init_vdev fd n map_cb unmap_cb)\<lparr>vd_listen_handler := Some True\<rparr>,
      vw_machine = m, vw_queue = rq, vw_backend = [], vw_rq = [], vw_ctl = [], vw_out = [WorkDone OK], vw_next_log = 0\<rparr>"
    by blast
  let ?n = "unat (word_of_int n :: u16)"
  have b: "n_bios (bios w) i = 0" if "i < ?n" for i
    using n_bios_none [OF vdev_initial(2) that] by (simp add: w bios_def)
  have "vring_ok (bios w) w i" if "i < ?n" for i
    using that b [OF that] by (simp add: vring_ok_def w init_vdev_def init_vring_def starting_def zero_virtq_def Let_def)
  moreover have "counts_ok 0 0 w" by (simp add: counts_ok_def w init_vdev_def init_vring_def)
  moreover have "msg_ok w" "drain_ok w" "conn_ok w" "busy_ok w" "work_ok w"
    by (simp_all add: w init_vdev_def init_vring_def msg_ok_def drain_ok_def conn_ok_def busy_ok_def work_ok_def)
  moreover have "length (vd_vrings (vw_vdev w)) = ?n" by (simp add: w init_vdev_def)
  moreover have "flow {} w" "open_ok w"
    by (simp_all add: w init_vdev_def init_vring_def flow_def due_def parting_def open_ok_def unmessaged_def)
  ultimately show ?thesis by (simp add: vdev_inv_def core_def)
qed

lemma vdev_inv_queue:
  assumes "vdev_inv w" and "w' = w\<lparr>vw_queue := rq, vw_backend := bs\<rparr>"
    and "\<And>i. i < length (vd_vrings (vw_vdev w)) \<Longrightarrow> n_bios (bios w') i = n_bios (bios w) i"
  shows "vdev_inv w'"
proof -
  have "view w' = view w" by (simp add: assms(2) view_def)
  then show ?thesis
    using assms(1) core_view [of w' w] busy_ok_view [of w' w] work_ok_view [of w' w] flow_view [of w' w] open_ok_view [of w' w] core_bios_cong [of w "bios w'" "bios w"] assms(3)
    by (simp add: vdev_inv_def)
qed

lemma step_inv:
  assumes inv: "vdev_inv w" and on: "enabled ev w" and calm: "calm sy ev w"
    and p: "perform K (device_type K now dev) sy ev w = Some w'" and few: "length (bios w') < 2 ^ 16"
  shows "vdev_inv w'"
proof (cases ev)
  case Accept
  then show ?thesis using server_read_ok [OF inv, of sy] on calm p by (auto split: sum.splits)
next
  case (Message rm rd)
  then show ?thesis using device.conn_read_inv [OF inv] on calm p by auto
next
  case (Kick i)
  then show ?thesis using device.kick_inv [OF inv _ _ few] on p by auto
next
  case (RqBh bh)
  then show ?thesis using run_rq_bh_ok [OF inv, of bh K sy] on calm p by (cases bh) auto
next
  case (CtlBh bh)
  then show ?thesis using run_ctl_bh_ok [OF inv, of bh sy K] on calm p by auto
next
  case Fetch
  then obtain bio rest where "rq_submission (vw_queue w) = bio # rest"
    "w' = w\<lparr>vw_queue := (vw_queue w)\<lparr>rq_submission := rest\<rparr>, vw_backend := bio # vw_backend w\<rparr>"
    using on p by (auto simp: vhd_dequeue_request_def split: list.splits)
  then show ?thesis by (intro vdev_inv_queue [OF inv]) (auto simp: bios_def)
next
  case (Complete bio status)
  let ?b = "bio\<lparr>bio_status := status\<rparr>"
  have b: "bio \<in> set (vw_backend w)" using on Complete by simp
  show ?thesis
  proof (rule vdev_inv_queue [OF inv])
    show w': "w' = w\<lparr>vw_queue := backend_done bio status (vw_queue w), vw_backend := remove1 bio (vw_backend w)\<rparr>"
      using p Complete by simp
    show "n_bios (bios w') i = n_bios (bios w) i" for i
      using count_if_remove1 [OF b, of "\<lambda>b. bio_vring b = i"] by (simp add: w' bios_def backend_done_def n_bios_def split: if_splits)
  qed
next
  case Reap
  then show ?thesis using reap_ok [OF inv] p by auto
next
  case Stop
  then show ?thesis using stop_ok [OF inv, of K sy] on p by auto
next
  case (OtherRequest bio)
  let ?rq = "(vw_queue w)\<lparr>rq_submission := rq_submission (vw_queue w) @ [bio]\<rparr>"
  have "w' = w\<lparr>vw_queue := ?rq, vw_backend := vw_backend w\<rparr>" using p OtherRequest by auto
  then show ?thesis by (rule vdev_inv_queue [OF inv]) (use on p OtherRequest in \<open>auto simp: bios_def n_bios_def\<close>)
qed

interpretation executions: inductive_invariant vdev_initial "vdev_step K dev" vdev_inv for K dev
  by unfold_locales (auto simp: initial_inv step_inv elim: vdev_step.cases)

text \<open>What the code needs in order not to abort.\<close>

fun safe :: "vdev_event \<Rightarrow> vworld \<Rightarrow> bool" where
  "safe (Message rm rd) w =
     (case rm of
        Inl _ \<Rightarrow> True
      | Inr (n, hdr, fds) \<Rightarrow> mh_req hdr = VHOST_USER_SET_VRING_KICK \<longrightarrow> list_all (\<lambda>i. startable i w) [0..<length (vd_vrings (vw_vdev w))])"
| "safe (Kick i) w = False"
| "safe Reap w = False"
| "safe _ w = True"

lemma safe_total:
  assumes inv: "vdev_inv w" and on: "enabled ev w" and calm: "calm sy ev w" and safe: "safe ev w"
  shows "\<exists>w'. perform K (device_type K now dev) sy ev w = Some w'"
proof (cases ev)
  case Accept
  then show ?thesis using server_read_ok [OF inv, of sy] on calm by (auto split: sum.splits)
next
  case (Message rm rd)
  have "startable i w" if "rm = Inr (n, hdr, fds)" "mh_req hdr = VHOST_USER_SET_VRING_KICK" "i < length (vd_vrings (vw_vdev w))"
    for n hdr fds i using safe that Message by (simp add: list_all_iff)
  then show ?thesis using device.conn_read_total [OF inv] on calm Message by simp
next
  case (RqBh bh)
  then show ?thesis using run_rq_bh_ok [OF inv, of bh K sy] on calm by (cases bh) auto
next
  case (CtlBh bh)
  then show ?thesis using run_ctl_bh_ok [OF inv, of bh sy K] on calm by auto
next
  case Fetch
  then show ?thesis using on by (auto simp: vhd_dequeue_request_def split: list.splits)
next
  case Stop
  then show ?thesis using stop_ok [OF inv, of K sy] on by auto
qed (use safe in simp_all)

section \<open>What the invariant gives\<close>

lemma counts_exact:
  assumes "vdev_inv w"
  shows "unat (vd_num_vrings_in_flight (vw_vdev w)) = count_if vr_started_in_ctl (vd_vrings (vw_vdev w))"
    and "unat (vd_num_vrings_handling_msg (vw_vdev w)) = count_if is_msg_rq (vw_rq w) + count_if is_msg_ctl (vw_ctl w)"
    and "unat (vd_num_vrings_started (vw_vdev w)) =
      count_if vr_started_in_rq (vd_vrings (vw_vdev w)) + count_if is_start_rq (vw_rq w) + count_if is_stop_ctl (vw_ctl w)"
    and "i < length (vd_vrings (vw_vdev w)) \<Longrightarrow> unat (vr_num_in_flight (vring i w)) = n_bios (bios w) i"
  using assms by (simp_all add: vdev_inv_def core_def counts_ok_def vring_ok_def Let_def)

lemma no_msg_bhs:
  assumes inv: "vdev_inv w" and z: "vd_num_vrings_handling_msg (vw_vdev w) = 0"
  shows "\<forall>bh\<in>set (vw_rq w). \<not> is_msg_rq bh" and "\<forall>bh\<in>set (vw_ctl w). \<not> is_msg_ctl bh"
  using counts_exact(2) [OF inv] z unfolding count_if_0 [symmetric] by simp_all

lemma idle_vring:
  assumes "vdev_inv w" and "i < length (vd_vrings (vw_vdev w))" and "\<not> vr_started_in_ctl (vring i w)"
  shows "\<not> vr_started_in_rq (vring i w)" and "vr_kick_handler (vring i w) = None" and "n_bios (bios w) i = 0"
    and "VringMarkDrained i \<notin> set (vw_ctl w)"
  using assms by (auto simp: vdev_inv_def core_def vring_ok_def Let_def)

text \<open>When all three counters are zero nothing is left to do for the vrings.\<close>

lemma drained_quiet:
  assumes inv: "vdev_inv w" and z: "vd_num_vrings_in_flight (vw_vdev w) = 0" "vd_num_vrings_handling_msg (vw_vdev w) = 0"
    "vd_num_vrings_started (vw_vdev w) = 0"
  shows "\<forall>v\<in>set (vd_vrings (vw_vdev w)). \<not> vr_started_in_ctl v \<and> \<not> vr_started_in_rq v \<and> vr_kick_handler v = None"
    and "\<forall>b\<in>set (bios w). bio_vring b \<ge> length (vd_vrings (vw_vdev w))"
    and "vw_ctl w = []" and "\<forall>bh\<in>set (vw_rq w). \<exists>i. bh = VringStop i"
proof -
  have "count_if vr_started_in_ctl (vd_vrings (vw_vdev w)) = 0" using counts_exact(1) [OF inv] z(1) by simp
  then have c: "\<forall>v\<in>set (vd_vrings (vw_vdev w)). \<not> vr_started_in_ctl v" unfolding count_if_0 .
  then show "\<forall>v\<in>set (vd_vrings (vw_vdev w)). \<not> vr_started_in_ctl v \<and> \<not> vr_started_in_rq v \<and> vr_kick_handler v = None"
    using idle_vring [OF inv] by (metis in_set_conv_nth)
  show "\<forall>b\<in>set (bios w). bio_vring b \<ge> length (vd_vrings (vw_vdev w))"
  proof (intro ballI leI notI)
    fix b assume b: "b \<in> set (bios w)" "bio_vring b < length (vd_vrings (vw_vdev w))"
    then have "n_bios (bios w) (bio_vring b) = 0" using idle_vring(3) [OF inv b(2)] c by simp
    then show False using b(1) by (auto simp: n_bios_def filter_empty_conv)
  qed
  have "count_if is_stop_ctl (vw_ctl w) = 0" using counts_exact(3) [OF inv] z(3) by simp
  then have st: "\<forall>bh\<in>set (vw_ctl w). \<not> is_stop_ctl bh" unfolding count_if_0 .
  have "bh \<notin> set (vw_ctl w)" for bh
  proof (cases bh)
    case (VringMarkDrained i)
    show ?thesis
    proof
      assume bh: "bh \<in> set (vw_ctl w)"
      then have "i < length (vd_vrings (vw_vdev w))"
        using inv VringMarkDrained by (auto simp: vdev_inv_def core_def counts_ok_def Let_def)
      then show False using idle_vring(4) [OF inv, of i] c bh VringMarkDrained by simp
    qed
  qed (use no_msg_bhs(2) [OF inv z(2)] st in auto)
  then show "vw_ctl w = []" by (metis list.set_intros(1) neq_Nil_conv)
  show "\<forall>bh\<in>set (vw_rq w). \<exists>i. bh = VringStop i"
    using no_msg_bhs(1) [OF inv z(2)] by (metis is_msg_rq.elims(3))
qed

lemma closed_connection:
  assumes "vdev_inv w" and "vd_connfd (vw_vdev w) < 0"
  shows "vd_num_vrings_in_flight (vw_vdev w) = 0" and "vd_num_vrings_handling_msg (vw_vdev w) = 0"
    and "vd_num_vrings_started (vw_vdev w) = 0" and "vd_req (vw_vdev w) = VHOST_USER_NONE"
  using assms by (simp_all add: vdev_inv_def core_def conn_ok_def Let_def)

section \<open>A device to evaluate\<close>

text \<open>System calls that succeed, a device with two queues, and the same device with a client.\<close>

definition demo_sys :: sys where
  "demo_sys = \<lparr>sy_epoll_add = (\<lambda>_. True), sy_dup = Inr 9, sy_sendmsg = Inr, sy_memfd_create = Inr 10,
     sy_ftruncate = OK, sy_mmap = Inr 65536, sy_regions = (\<lambda>_. \<lparr>isr_features = 0, isr_version = 1, isr_desc_num = 4,
       isr_last_batch_head = 0, isr_used_idx = 0, isr_desc = (\<lambda>_. \<lparr>isd_inflight = 0, isd_next = 0, isd_counter = 0\<rparr>)\<rparr>),
     sy_log = Inr (\<lambda>_. 0), sy_accept = Inr 7, sy_timerfd = Inr 8\<rparr>"

definition demo_listening :: vworld where
  "demo_listening = \<lparr>vw_vdev = (init_vdev 6 2 None None)\<lparr>vd_listen_handler := Some True\<rparr>, vw_machine = demo_machine demo_guest,
     vw_queue = \<lparr>rq_submission = [], rq_completion = [], rq_completion_bh = 0\<rparr>, vw_backend = [], vw_rq = [], vw_ctl = [],
     vw_out = [WorkDone OK], vw_next_log = 0\<rparr>"

definition demo_connected :: vworld where
  "demo_connected = demo_listening\<lparr>vw_vdev := (init_vdev 6 2 None None)\<lparr>vd_listen_handler := Some False, vd_connfd := 7,
     vd_conn_handler := Some True, vd_timerfd := 8, vd_timer_handler := Some False\<rparr>\<rparr>"

lemma demo_initial: "vdev_initial demo_listening"
proof
  show "vhd_vdev_init_server demo_sys (Inr 6) 2 None None (demo_machine demo_guest)
      \<lparr>rq_submission = [], rq_completion = [], rq_completion_bh = 0\<rparr> = Some (OK, Some demo_listening)"
    by (simp add: vhd_vdev_init_server_def vhd_calloc_def VHOST_VRING_IDX_MASK_def vdev_work_fn_def vdev_start_def vdev_start_listening_def
        vdev_complete_work_def init_vdev_def act_def upd_vdev_def demo_sys_def demo_listening_def)
qed simp

lemma demo_accept: "server_read demo_sys demo_listening = Some demo_connected"
  by (simp add: server_read_def demo_sys_def demo_listening_def demo_connected_def init_vdev_def upd_vdev_def)

lemma demo_reach: "reach vdev_initial (vdev_step K dev) demo_listening" "reach vdev_initial (vdev_step K dev) demo_connected"
proof -
  show s: "reach vdev_initial (vdev_step K dev) demo_listening" by (rule reach_start [of vdev_initial, OF demo_initial])
  show "reach vdev_initial (vdev_step K dev) demo_connected"
  proof (rule reach_step [OF s], rule vdev_step)
    show "enabled Accept demo_listening" by (simp add: demo_listening_def)
    show "calm demo_sys Accept demo_listening" by (simp add: demo_sys_def)
    show "perform K (device_type K 0 dev) demo_sys Accept demo_listening = Some demo_connected" by (simp add: demo_accept)
    show "length (bios demo_connected) < 2 ^ 16" by (simp add: demo_connected_def demo_listening_def bios_def)
  qed
qed

section \<open>Properties\<close>

text \<open>
  C6: in every execution of a device the counters on which the control thread bases its decisions
  are exact, although they are updated by bottom halves that run in any order in two threads.
  A vring's count of requests in flight is the number of its requests that are queued, with the
  backend or completed and not yet reaped; the device's counts are those of the vrings that are
  not drained, of the bottom halves that still have to report about the message at hand, and of
  the vrings that run, are about to start or have not reported their stop.
\<close>

theorem vdev_counters_exact:
  assumes "reach vdev_initial (vdev_step K dev) w"
  shows "(\<forall>i<length (vd_vrings (vw_vdev w)). unat (vr_num_in_flight (vring i w)) = n_bios (bios w) i) \<and>
    unat (vd_num_vrings_in_flight (vw_vdev w)) = count_if vr_started_in_ctl (vd_vrings (vw_vdev w)) \<and>
    unat (vd_num_vrings_handling_msg (vw_vdev w)) = count_if is_msg_rq (vw_rq w) + count_if is_msg_ctl (vw_ctl w) \<and>
    unat (vd_num_vrings_started (vw_vdev w)) =
      count_if vr_started_in_rq (vd_vrings (vw_vdev w)) + count_if is_start_rq (vw_rq w) + count_if is_stop_ctl (vw_ctl w)"
  using counts_exact [OF executions.reach_inv [OF assms]] by simp

theorem vdev_counters_exact_witness:
  "unat (vd_num_vrings_in_flight (vw_vdev demo_connected)) = 0 \<and> unat (vr_num_in_flight (vring 1 demo_connected)) = 0"
  using vdev_counters_exact [OF demo_reach(2) [of two_slot_kernel "Blk demo_bdev"]]
  by (simp add: demo_connected_def demo_listening_def init_vdev_def init_vring_def)

text \<open>
  C15: messages are handled one at a time. While the connection is polled no message is under way:
  no bottom half has to report about one, no vring owes a reply for its drain, and nothing is
  kept for a message to release. While a message is under way the connection is not polled, and
  there is a bottom half or a draining vring from which its reply will come.
\<close>

theorem vdev_one_message:
  assumes "reach vdev_initial (vdev_step K dev) w"
  shows "if vd_conn_handler (vw_vdev w) = Some True
    then vd_req (vw_vdev w) = VHOST_USER_NONE \<and> (\<forall>bh\<in>set (vw_rq w). \<not> is_msg_rq bh) \<and> (\<forall>bh\<in>set (vw_ctl w). \<not> is_msg_ctl bh) \<and>
      (\<forall>v\<in>set (vd_vrings (vw_vdev w)). \<not> vr_on_drain_cb v) \<and> vd_old_memmap (vw_vdev w) = None \<and> vd_old_memlog (vw_vdev w) = None
    else vd_req (vw_vdev w) = VHOST_USER_NONE \<or> (\<exists>bh\<in>set (vw_rq w). is_msg_rq bh) \<or> (\<exists>bh\<in>set (vw_ctl w). is_msg_ctl bh) \<or>
      (\<exists>v\<in>set (vd_vrings (vw_vdev w)). vr_on_drain_cb v)"
proof -
  have inv: "vdev_inv w" using executions.reach_inv [OF assms] .
  show ?thesis
  proof (cases "vd_conn_handler (vw_vdev w) = Some True")
    case True
    from handle_start_ready [OF inv True] obtain w1 where r: "ready (bios w) w1" "vd_vrings (vw_vdev w1) = vd_vrings (vw_vdev w)" by blast
    have z: "vd_num_vrings_handling_msg (vw_vdev w) = 0" "vd_req (vw_vdev w) = VHOST_USER_NONE"
      using inv True by (auto simp: vdev_inv_def core_def msg_ok_def conn_ok_def Let_def split: if_splits)
    have "vd_old_memmap (vw_vdev w) = None" "vd_old_memlog (vw_vdev w) = None"
      using inv z by (simp_all add: vdev_inv_def core_def msg_ok_def Let_def)
    moreover have "\<forall>v\<in>set (vd_vrings (vw_vdev w)). \<not> vr_on_drain_cb v"
      using r unfolding no_drain_iff by (simp add: ready_def idle_def)
    ultimately show ?thesis using True z no_msg_bhs [OF inv] by simp
  next
    case False
    show ?thesis
    proof (rule ccontr)
      assume "\<not> ?thesis"
      then have n: "vd_req (vw_vdev w) \<noteq> VHOST_USER_NONE" "count_if is_msg_rq (vw_rq w) = 0" "count_if is_msg_ctl (vw_ctl w) = 0"
        "count_if vr_on_drain_cb (vd_vrings (vw_vdev w)) = 0" using False unfolding count_if_0 by simp_all
      have "unat (vd_num_vrings_handling_msg (vw_vdev w)) = 0" using counts_exact(2) [OF inv] n by simp
      then have "vd_num_vrings_handling_msg (vw_vdev w) = 0" by (simp add: unat_eq_0)
      with inv n(1,4) show False by (simp add: vdev_inv_def busy_ok_def Let_def)
    qed
  qed
qed

theorem vdev_one_message_witness:
  "vd_conn_handler (vw_vdev demo_connected) = Some True \<and> vd_req (vw_vdev demo_connected) = VHOST_USER_NONE"
proof -
  have "vd_conn_handler (vw_vdev demo_connected) = Some True" by (simp add: demo_connected_def)
  then show ?thesis using vdev_one_message [OF demo_reach(2) [of two_slot_kernel "Blk demo_bdev"]] by simp
qed

text \<open>
  C10: once a connection is cleaned up, with its memory map, log and inflight region released,
  nothing is left that could use them: no vring is set up, runs or is polled, no request of the
  device is queued, with the backend or completed, no bottom half is due in the control thread,
  and none but requests to stop a vring, which find it stopped, in the request queue's thread.
\<close>

theorem vdev_cleaned_up_quiet:
  assumes "reach vdev_initial (vdev_step K dev) w" and "vd_connfd (vw_vdev w) < 0"
  shows "(\<forall>v\<in>set (vd_vrings (vw_vdev w)). \<not> vr_started_in_ctl v \<and> \<not> vr_started_in_rq v \<and> vr_kick_handler v = None) \<and>
    (\<forall>b\<in>set (bios w). bio_vring b \<ge> length (vd_vrings (vw_vdev w))) \<and> vw_ctl w = [] \<and> (\<forall>bh\<in>set (vw_rq w). \<exists>i. bh = VringStop i)"
proof -
  have inv: "vdev_inv w" using executions.reach_inv [OF assms(1)] .
  show ?thesis using drained_quiet [OF inv closed_connection(1-3) [OF inv assms(2)]] by simp
qed

theorem vdev_cleaned_up_quiet_witness:
  "vd_connfd (vw_vdev demo_listening) < 0 \<and> vw_ctl demo_listening = []"
proof -
  have c: "vd_connfd (vw_vdev demo_listening) < 0" by (simp add: demo_listening_def init_vdev_def)
  then show ?thesis using vdev_cleaned_up_quiet [OF demo_reach(1) [of two_slot_kernel "Blk demo_bdev"] c] by simp
qed

end
