(* ===== verification/Vdev_Faults.thy ===== *)
theory Vdev_Faults
  imports Vdev_Safe
begin

text \<open>
  The reply to the message that stops a vring, and three ways in which the control protocol
  aborts: each breaks one of the conditions under which \<open>Vdev_Safe\<close> shows that it does not.
\<close>

section \<open>Helpers\<close>

lemma disconnect_dflags: "dflags (vw_vdev (vring_disconnect i w)) = dflags (vw_vdev w)"
  by (simp add: vring_disconnect_def vring_reset_def run_in_rq_def upd_vring_def upd_vdev_def replace_fd_def act_def
      dflags_def Let_def)

lemma fold_disconnect_dflags: "dflags (vw_vdev (fold vring_disconnect is w)) = dflags (vw_vdev w)"
  by (induction "is" arbitrary: w) (simp_all add: disconnect_dflags)

lemma dflags_after_disconnect:
  assumes "vd_num_vrings_in_flight (vw_vdev w) \<noteq> 0" and "vd_listen_handler (vw_vdev w) \<noteq> None"
    and "vd_conn_handler (vw_vdev w) \<noteq> None" and "vdev_disconnect K sy w = Some w'"
  shows "dflags (vw_vdev w') = dflags ((vw_vdev w)\<lparr>vd_conn_handler := None\<rparr>)"
proof -
  let ?w = "for_vrings vring_disconnect (upd_vdev (vd_conn_handler_update (\<lambda>_. None)) w)"
  have d: "dflags (vw_vdev ?w) = dflags ((vw_vdev w)\<lparr>vd_conn_handler := None\<rparr>)"
    by (simp add: for_vrings_def fold_disconnect_dflags upd_vdev_def)
  then have f: "vd_num_vrings_in_flight (vw_vdev ?w) \<noteq> 0" "vd_listen_handler (vw_vdev ?w) \<noteq> None"
    using assms(1,2) by (simp_all add: dflags_def)
  have "vdev_maybe_vrings_stopped ?w = Some ?w"
    using f(2) by (auto simp: vdev_maybe_vrings_stopped_def vdev_vrings_stopped_def)
  moreover have "vdev_maybe_drained K sy ?w = Some ?w"
    using f(1) by (simp add: vdev_maybe_drained_def vdev_in_use_def)
  ultimately have "w' = ?w" using assms(3,4) by (auto simp: vdev_disconnect_def)
  then show ?thesis using d by simp
qed

lemma vrings_frame:
  "vd_vrings (vw_vdev (inflight_mem_cleanup w)) = vd_vrings (vw_vdev w)"
  "vd_vrings (vw_vdev (memmap_put K mm w)) = vd_vrings (vw_vdev w)"
  "vd_vrings (vw_vdev (vhd_memlog_free l w)) = vd_vrings (vw_vdev w)"
  "vd_vrings (vw_vdev (replace_fd fd w)) = vd_vrings (vw_vdev w)"
  by (simp_all add: inflight_mem_cleanup_def memmap_put_def vhd_memlog_free_def replace_fd_def upd_vdev_def upd_machine_def
      act_def split: option.split)

lemma cleanup_vrings: "vdev_cleanup K w = Some w' \<Longrightarrow> vd_vrings (vw_vdev w') = vd_vrings (vw_vdev w)"
  by (cases "vd_memlog (vw_vdev w)") (auto simp: vdev_cleanup_def Let_def vrings_upd_vdev vrings_frame split: if_splits)

lemma maybe_drained_vrings:
  "vdev_maybe_drained K sy w = Some w' \<Longrightarrow> vd_vrings (vw_vdev w') = vd_vrings (vw_vdev w)"
  by (auto simp: vdev_maybe_drained_def vdev_drained_def vhd_vdev_release_def act_def bind_eq_Some_conv vrings_upd_vdev
      dest!: cleanup_vrings split: if_splits)

lemma drained_once:
  assumes "i < length (vd_vrings (vw_vdev w))" and "\<not> vr_on_drain_cb (vring i w)" and "vring_mark_drained K sy i w = Some w'"
  shows "vring_mark_drained K sy' i w' = None"
proof -
  let ?x = "upd_vring i (vr_vq_update (\<lambda>_. zero_virtq)) (upd_vring i (vr_started_in_ctl_update (\<lambda>_. False)) w)"
  have "vring_on_drain K sy i (upd_vring i (vr_started_in_ctl_update (\<lambda>_. False)) w) =
      Some (upd_vring i (vr_started_in_ctl_update (\<lambda>_. False)) w)"
    using assms(1,2) by (simp add: vring_on_drain_def upd_vring_def upd_vdev_def)
  then have "vdev_maybe_drained K sy (upd_vdev (\<lambda>vd. vd\<lparr>vd_num_vrings_in_flight := vd_num_vrings_in_flight vd - 1\<rparr>) (vring_reset i ?x)) = Some w'"
    using assms(3) by (auto simp: vring_mark_drained_def virtio_virtq_release_def split: if_splits)
  from maybe_drained_vrings [OF this] have "\<not> vr_started_in_ctl (vring i w')"
    using assms(1) by (simp add: vring_reset_def upd_vring_def upd_vdev_def replace_fd_def act_def Let_def)
  then show ?thesis by (simp add: vring_mark_drained_def)
qed

text \<open>A device with a single vring that has been stopped and has nothing left in flight.\<close>

definition demo_draining :: vworld where
  "demo_draining = demo_listening\<lparr>vw_vdev := (init_vdev 6 1 None None)\<lparr>vd_listen_handler := Some False, vd_connfd := 7,
     vd_conn_handler := Some False, vd_timerfd := 8, vd_timer_handler := Some True, vd_req := VHOST_USER_GET_VRING_BASE,
     vd_num_vrings_in_flight := 1, vd_vrings := [init_vring\<lparr>vr_started_in_ctl := True, vr_kickfd := 9, vr_on_drain_cb := True,
       vr_vq := demo_vq\<rparr>]\<rparr>, vw_ctl := [VringMarkDrained 0]\<rparr>"

text \<open>A payload that names the second vring.\<close>

definition demo_payload :: vhost_user_msg_payload where
  "demo_payload = \<lparr>mp_u64 = 1, mp_config = \<lparr>cs_offset = 0, cs_size = 0, cs_flags = 0, cs_payload = []\<rparr>,
     mp_mem_desc = \<lparr>md_nregions = 0, md_regions = (\<lambda>_. \<lparr>mreg_guest_addr = 0, mreg_size = 0, mreg_user_addr = 0, mreg_mmap_offset = 0\<rparr>)\<rparr>,
     mp_vring_state = \<lparr>vs_index = 1, vs_num = 0\<rparr>,
     mp_vring_addr = \<lparr>va_index = 1, va_flags = 0, va_desc_addr = 0, va_used_addr = 0, va_avail_addr = 0, va_used_gpa_base = 0\<rparr>,
     mp_inflight_desc = \<lparr>id_mmap_size = 0, id_mmap_offset = 0, id_num_queues = 0, id_queue_size = 0\<rparr>,
     mp_log = \<lparr>lg_size = 0, lg_offset = 0\<rparr>\<rparr>"

lemma demo_draining_inv: "vdev_inv demo_draining"
  by (simp add: vdev_inv_def core_def counts_ok_def vring_ok_def msg_ok_def drain_ok_def conn_ok_def busy_ok_def work_ok_def
      flow_def due_def parting_def open_ok_def unmessaged_def
      demo_draining_def demo_listening_def init_vdev_def init_vring_def starting_def n_bios_def bios_def demo_vq_def
      vhost_reqs Let_def)

section \<open>Properties\<close>

text \<open>
  C22: the reply to the message that stops a vring is sent when the vring has been drained: none
  of its requests is queued, with the backend or completed, and the reply has the position in
  the available ring behind the last request that was taken. The vring can then be set up anew,
  and the connection is polled again for the next message.
\<close>

theorem get_vring_base_reply:
  assumes "vdev_inv w" and "VringMarkDrained i \<in> set (vw_ctl w)" and "vr_on_drain_cb (vring i w)"
    and "vd_conn_handler (vw_vdev w) \<noteq> None" and "send_ok sy" and "sy_epoll_add sy (vd_connfd (vw_vdev w))"
  shows "\<exists>w'. perform K ty sy (CtlBh (VringMarkDrained i)) w = Some w' \<and> n_bios (bios w) i = 0 \<and>
    base_reply i w \<in> set (vw_out w') \<and> \<not> vr_started_in_ctl (vring i w') \<and> vq_buffers (vr_vq (vring i w')) = [] \<and>
    vd_req (vw_vdev w') = VHOST_USER_NONE \<and> vd_conn_handler (vw_vdev w') = Some True"
proof -
  let ?w = "w\<lparr>vw_ctl := remove1 (VringMarkDrained i) (vw_ctl w)\<rparr>"
  have core: "core (bios w) 0 0 w" using assms(1) by (simp add: vdev_inv_def)
  have i: "i < length (vd_vrings (vw_vdev w))" using core assms(2) by (auto simp: core_def counts_ok_def Let_def)
  have v: "vring_ok (bios w) w i" using core i by (simp add: core_def)
  then have s: "vr_started_in_ctl (vring i w)" "n_bios (bios w) i = 0" "vq_buffers (vr_vq (vring i w)) \<noteq> []"
    using assms(2) by (auto simp: vring_ok_def Let_def split: if_splits)
  have nz: "vd_num_vrings_in_flight (vw_vdev w) \<noteq> 0" using in_flight_0 [of 0 0 w i] core i s(1) by (auto simp: core_def)
  have q: "vd_conn_handler (vw_vdev w) = Some False" "vd_timer_handler (vw_vdev w) \<noteq> None"
  proof -
    have d: "drain_ok w" "conn_ok w" using core by (simp_all add: core_def)
    have "count_if vr_on_drain_cb (vd_vrings (vw_vdev w)) = 1" by (rule drain_count [OF d(1) i assms(3)])
    then have "vd_conn_handler (vw_vdev w) \<noteq> Some True" using d(1) by (simp add: drain_ok_def Let_def)
    then show "vd_conn_handler (vw_vdev w) = Some False" using assms(4) by auto
    show "vd_timer_handler (vw_vdev w) \<noteq> None" using d(2) assms(4) by (auto simp: conn_ok_def Let_def)
  qed
  let ?wa = "upd_vring i (vr_started_in_ctl_update (\<lambda>_. False)) ?w"
  let ?u = "upd_vring i (vr_on_drain_cb_update (\<lambda>_. False)) (finished sy (act (base_reply i ?wa) ?wa))"
  have "vhost_send_vring_base sy i ?wa = Some (OK, finished sy (act (base_reply i ?wa) ?wa))"
    by (rule send_base_ok [OF _ _ assms(5)]) (use q in \<open>simp_all add: upd_vring_def upd_vdev_def\<close>)
  then have "vring_on_drain K sy i ?wa = Some ?u"
    using assms(3) i by (simp add: vring_on_drain_def upd_vring_def upd_vdev_def Let_def)
  moreover have "base_reply i ?wa = base_reply i w" using i by (simp add: base_reply_def upd_vring_def upd_vdev_def)
  ultimately show ?thesis
    using i s nz q assms(6)
    by (simp add: run_ctl_bh_def vring_mark_drained_def virtio_virtq_release_def vring_reset_def replace_fd_def
        finished_def upd_vring_def upd_vdev_def act_def vdev_maybe_drained_def vdev_in_use_def zero_virtq_def Let_def)
qed

theorem get_vring_base_reply_witness:
  "\<exists>w'. perform two_slot_kernel (device_type two_slot_kernel 0 (Blk demo_bdev)) demo_sys (CtlBh (VringMarkDrained 0)) demo_draining = Some w' \<and>
     base_reply 0 demo_draining \<in> set (vw_out w') \<and> vd_conn_handler (vw_vdev w') = Some True"
proof -
  have "VringMarkDrained 0 \<in> set (vw_ctl demo_draining)" "vr_on_drain_cb (vring 0 demo_draining)"
    "vd_conn_handler (vw_vdev demo_draining) \<noteq> None" "send_ok demo_sys" "sy_epoll_add demo_sys (vd_connfd (vw_vdev demo_draining))"
    by (simp_all add: demo_draining_def demo_sys_def send_ok_def)
  from get_vring_base_reply [OF demo_draining_inv this] show ?thesis by blast
qed

text \<open>
  C39: if the reply to the message that stops a vring cannot be sent, the process aborts. The error
  path disconnects without finishing the message, so when the connection is cleaned up, at once
  if this was the last vring, the assertion that no message is being handled fails.
\<close>

theorem failed_drain_reply_aborts:
  assumes "VringMarkDrained i \<in> set (vw_ctl w)" and "i < length (vd_vrings (vw_vdev w))" and "vr_on_drain_cb (vring i w)"
    and "vd_num_vrings_in_flight (vw_vdev w) = 1" and "vd_num_vrings_started (vw_vdev w) = 0"
    and "vd_num_vrings_handling_msg (vw_vdev w) = 0" and "vd_conn_handler (vw_vdev w) \<noteq> None"
    and "vd_listen_handler (vw_vdev w) \<noteq> None" and "vd_req (vw_vdev w) = VHOST_USER_GET_VRING_BASE"
    and "sy_sendmsg sy 20 = Inl e"
  shows "perform K ty sy (CtlBh (VringMarkDrained i)) w = None"
proof -
  let ?w = "w\<lparr>vw_ctl := remove1 (VringMarkDrained i) (vw_ctl w)\<rparr>"
  let ?wa = "upd_vring i (vr_started_in_ctl_update (\<lambda>_. False)) ?w"
  let ?wb = "upd_vring i (vr_on_drain_cb_update (\<lambda>_. False)) ?wa"
  have wb: "dflags (vw_vdev ?wb) = dflags (vw_vdev w)" by (simp add: upd_vring_def upd_vdev_def dflags_def)
  have d: "vring_on_drain K sy i ?wa = vdev_disconnect K sy ?wb"
    using assms(2,3,10) by (simp add: vring_on_drain_def vhost_send_vring_base_def vhost_reply_def vhost_reply_fds_def
        vhost_send_fds_def net_send_msg_def upd_vring_def upd_vdev_def Let_def)
  have last: "vdev_maybe_drained K sy x = None"
    if "dflags (vw_vdev x) = dflags ((vw_vdev w)\<lparr>vd_conn_handler := None, vd_num_vrings_in_flight := 0\<rparr>)" for x
    using that assms(5,6,9)
    by (simp add: vdev_maybe_drained_def vdev_in_use_def vdev_drained_def vdev_cleanup_def dflags_def vhost_reqs Let_def)
  have "vring_mark_drained K sy i ?w = None"
  proof (cases "vdev_disconnect K sy ?wb")
    case None
    then show ?thesis using d by (simp add: vring_mark_drained_def)
  next
    case (Some w1)
    have w1: "dflags (vw_vdev w1) = dflags ((vw_vdev w)\<lparr>vd_conn_handler := None\<rparr>)"
      using dflags_after_disconnect [OF _ _ _ Some] wb assms(4,7,8) by (simp add: dflags_def)
    let ?w2 = "\<lambda>vq. vring_reset i (upd_vring i (vr_vq_update (\<lambda>_. vq)) w1)"
    have w2: "dflags (vw_vdev (?w2 vq)) = dflags (vw_vdev w1)" for vq
      by (simp add: vring_reset_def replace_fd_def upd_vring_def upd_vdev_def act_def dflags_def Let_def)
    have "vdev_maybe_drained K sy (upd_vdev (\<lambda>vd. vd\<lparr>vd_num_vrings_in_flight := vd_num_vrings_in_flight vd - 1\<rparr>) (?w2 vq)) = None" for vq
      by (rule last) (use w2 [of vq] w1 assms(4) in \<open>simp add: dflags_def upd_vdev_def\<close>)
    then show ?thesis using d Some
      by (cases "virtio_virtq_release (vr_vq (vring i w1))") (simp_all add: vring_mark_drained_def)
  qed
  then show ?thesis by (simp add: run_ctl_bh_def)
qed

theorem failed_drain_reply_aborts_witness:
  "perform two_slot_kernel (device_type two_slot_kernel 0 (Blk demo_bdev)) (demo_sys\<lparr>sy_sendmsg := (\<lambda>_. Inl EIO)\<rparr>)
     (CtlBh (VringMarkDrained 0)) demo_draining = None"
  by (rule failed_drain_reply_aborts) (simp_all add: demo_draining_def demo_listening_def init_vdev_def demo_sys_def)


definition demo_cancelled :: vworld where
  "demo_cancelled = demo_draining\<lparr>vw_vdev := (vw_vdev demo_draining)\<lparr>vd_vrings := [init_vring\<lparr>vr_started_in_ctl := True,
       vr_started_in_rq := True, vr_kick_handler := Some True, vr_disconnecting := True, vr_num_in_flight := 1, vr_vq := demo_vq\<rparr>]\<rparr>,
     vw_queue := \<lparr>rq_submission = [(demo_bio 0 8)\<lparr>bio_owner := BlkIo (demo_blk_iov True)\<rparr>, demo_bio 5 0], rq_completion = [],
       rq_completion_bh = 0\<rparr>, vw_ctl := []\<rparr>"


text \<open>
  A client that starts a vring before it has sent a memory table crashes the device: the
  addresses of the vring are translated through a NULL pointer, before anything else is checked
  but the index of the vring and that it is not started.
\<close>

lemma kick_without_memory_aborts:
  assumes "vd_conn_handler (vw_vdev w) = Some True" and "vd_timer_handler (vw_vdev w) = Some False" and "vd_memmap (vw_vdev w) = None"
    and "msg_u64_get_vring (vw_vdev w) payload 8 1 = Some i" and "\<not> vr_started_in_ctl (vring i w)"
  shows "perform K (device_type K now dev) sy
    (Message (Inr (12, \<lparr>mh_req = VHOST_USER_SET_VRING_KICK, mh_flags = flags, mh_size = 8\<rparr>, [fd])) (Inr (8, payload))) w = None"
proof -
  have k: "vhost_handle_msg K sy (device_type K now dev) VHOST_USER_SET_VRING_KICK = vhost_set_vring_kick sy"
    by (rule device.handle_msg_kick)
  have "vd_num_queues vd = vd_num_queues (vw_vdev w) \<Longrightarrow> msg_u64_get_vring vd payload 8 1 = Some i" for vd :: vhd_vdev
    using assms(4) by (auto simp: msg_u64_get_vring_def get_vring_def Let_def split: if_splits)
  then show ?thesis
    using assms(1-3,5)
    by (simp add: conn_read_def net_recv_msg_def recv_payload_def close_fds_def vdev_handle_start_def attach_handler_def
        VHOST_USER_MAX_FDS_def k vhost_set_vring_kick_def upd_vdev_def Let_def)
qed

lemma kick_without_memory_example:
  "perform two_slot_kernel (device_type two_slot_kernel 0 (Blk demo_bdev)) demo_sys
     (Message (Inr (12, \<lparr>mh_req = VHOST_USER_SET_VRING_KICK, mh_flags = 1, mh_size = 8\<rparr>, [11])) (Inr (8, demo_payload))) demo_connected = None"
  by (rule kick_without_memory_aborts [where i = 1])
    (simp_all add: demo_connected_def demo_listening_def init_vdev_def init_vring_def demo_payload_def msg_u64_get_vring_def get_vring_def
      VHOST_VRING_INVALID_FD_def VHOST_VRING_IDX_MASK_def word_le_nat_alt)

section \<open>Smaller faults\<close>

text \<open>
  Replacing a dirty log frees its descriptor but does not unmap the log, unlike the cleanup of the
  connection.
\<close>

lemma replaced_log_stays_mapped:
  assumes "vd_old_memlog (vw_vdev w) = Some l" and "set_log_base_complete sy w = Some (ret, w')" and "LogUnmapped l \<notin> set (vw_out w)"
  shows "vd_old_memlog (vw_vdev w') = None" and "LogFreed l \<in> set (vw_out w')" and "LogUnmapped l \<notin> set (vw_out w')"
  using assms
  by (auto simp: set_log_base_complete_def vhost_reply_u64_def vhost_reply_def vhost_reply_fds_def vhost_send_fds_def
      vdev_handle_finish_def act_def upd_vdev_def upd_machine_def bind_eq_Some_conv Let_def split: sum.splits if_splits)

text \<open>
  The number of a vring in a message has 32 bits, of which the lookup sees 16: any multiple of
  \<open>0x10000\<close> is the first vring.
\<close>

lemma vring_index_truncated: "vd_num_queues vd \<noteq> 0 \<Longrightarrow> get_vring vd (ucast (0x10000 :: u32)) = Some 0"
  by (simp add: get_vring_def word_le_nat_alt unat_eq_0)

text \<open>
  The cleanup of a connection unmaps the inflight region of the client but leaves the addresses
  that the vrings have in it, so the next client's vrings start with them.
\<close>

lemma inflight_region_dangles:
  assumes "vd_inflight_mem (vw_vdev w) \<noteq> 0"
  shows "InflightUnmapped (vd_inflight_mem (vw_vdev w)) \<in> set (vw_out (inflight_mem_cleanup w))"
    and "vq_inflight_region (vr_vq (vring i (inflight_mem_cleanup w))) = vq_inflight_region (vr_vq (vring i w))"
  using assms by (simp_all add: inflight_mem_cleanup_def act_def upd_vdev_def)

end
