(* ===== verification/Registration.thy ===== *)
theory Registration
  imports Vdev_Faults
begin

text \<open>
  Registering and unregistering a device (\<open>vhd_register_blockdev\<close>, \<open>vhd_register_fs\<close> and their
  counterparts): the composition of the checks of \<open>Blockdev\<close>, the server of \<open>Vdev_Msg\<close> and the
  global list of devices, with who owns the device on each path.
\<close>

section \<open>Devices and their list\<close>

text \<open>The devices that are allocated and the list they are on, \<open>g_bdev_list\<close> or \<open>g_fsdev_list\<close>.\<close>

record registry =
  rg_allocated :: "nat set"
  rg_list :: "nat list"

text \<open>Freeing a device twice is an error.\<close>

definition vhd_free_dev :: "nat \<Rightarrow> registry \<Rightarrow> registry option" where
  "vhd_free_dev d r = (if d \<in> rg_allocated r then Some (r\<lparr>rg_allocated := rg_allocated r - {d}\<rparr>) else None)"

text \<open>
  \<open>LIST_REMOVE\<close> writes through the back pointer of the element, which is NULL in a device that
  was allocated with zeroes and never inserted.
\<close>

definition LIST_REMOVE :: "nat \<Rightarrow> registry \<Rightarrow> registry option" where
  "LIST_REMOVE d r = (if d \<in> set (rg_list r) then Some (r\<lparr>rg_list := remove1 d (rg_list r)\<rparr>) else None)"

definition vblk_free :: "nat \<Rightarrow> registry \<Rightarrow> registry option" where
  "vblk_free d r = do { r1 \<leftarrow> LIST_REMOVE d r; vhd_free_dev d r1 }"

definition vfs_free :: "nat \<Rightarrow> registry \<Rightarrow> registry option" where
  "vfs_free d r = do { r1 \<leftarrow> LIST_REMOVE d r; vhd_free_dev d r1 }"

text \<open>
  \<open>vhd_vdev_init_server\<close> releases the device if the control thread cannot start it, which is
  when it returns an error together with a world; the last thing a release does is to call the
  \<open>free\<close> of the type.
\<close>

definition init_server_of_type ::
  "(nat \<Rightarrow> registry \<Rightarrow> registry option) \<Rightarrow> sys \<Rightarrow> int res \<Rightarrow> int \<Rightarrow> mem_cb option \<Rightarrow> mem_cb option \<Rightarrow> machine \<Rightarrow>
    vhd_request_queue \<Rightarrow> nat \<Rightarrow> registry \<Rightarrow> (status \<times> vworld option \<times> registry) option" where
  "init_server_of_type free_dev sy sock max_queues map_cb unmap_cb m rq d r = do {
     (ret, w) \<leftarrow> vhd_vdev_init_server sy sock max_queues map_cb unmap_cb m rq;
     r1 \<leftarrow> (if ret \<noteq> OK \<and> w \<noteq> None then free_dev d r else Some r);
     Some (ret, w, r1)
   }"

text \<open>Registration, with the address of the new device; the result is the device, if there is one.\<close>

definition register_blockdev ::
  "sys \<Rightarrow> int res \<Rightarrow> vhd_bdev_info \<Rightarrow> mem_cb option \<Rightarrow> mem_cb option \<Rightarrow> machine \<Rightarrow> vhd_request_queue \<Rightarrow> nat \<Rightarrow> registry
    \<Rightarrow> (vworld option \<times> registry) option" where
  "register_blockdev sy sock bdev map_cb unmap_cb m rq d r =
     (if bdi_total_blocks bdev = 0 \<or> bdi_block_size bdev = 0 then Some (None, r)
      else if bdi_block_size bdev AND (bdi_block_size bdev - 1) \<noteq> 0 \<or>
              bdi_block_size bdev mod VHD_SECTOR_SIZE \<noteq> 0 then Some (None, r)
      else do {
        (res, w, r1) \<leftarrow> init_server_of_type vblk_free sy sock (sint (bdi_num_queues bdev)) map_cb unmap_cb m rq d
          (r\<lparr>rg_allocated := insert d (rg_allocated r)\<rparr>);
        (case res of
           Inl _ \<Rightarrow> map_option (Pair None) (vhd_free_dev d r1)
         | Inr _ \<Rightarrow> Some (w, r1\<lparr>rg_list := d # rg_list r1\<rparr>))
      })"

definition register_fs ::
  "sys \<Rightarrow> int res \<Rightarrow> vhd_fsdev_info \<Rightarrow> machine \<Rightarrow> vhd_request_queue \<Rightarrow> nat \<Rightarrow> registry \<Rightarrow> (vworld option \<times> registry) option" where
  "register_fs sy sock fsdev m rq d r = do {
     (res, w, r1) \<leftarrow> init_server_of_type vfs_free sy sock (sint (fsi_num_queues fsdev)) None None m rq d
       (r\<lparr>rg_allocated := insert d (rg_allocated r)\<rparr>);
     (case res of
        Inl _ \<Rightarrow> map_option (Pair None) (vhd_free_dev d r1)
      | Inr _ \<Rightarrow> Some (w, r1\<lparr>rg_list := d # rg_list r1\<rparr>))
   }"

text \<open>
  Unregistering stops the server; the device goes when the release that follows, at once or when
  the last vring is drained, calls the \<open>free\<close> of its type.
\<close>

definition vhd_unregister_blockdev :: "kernel \<Rightarrow> sys \<Rightarrow> vworld \<Rightarrow> vworld option" where
  "vhd_unregister_blockdev = vhd_vdev_stop_server"

definition vhd_unregister_fs :: "kernel \<Rightarrow> sys \<Rightarrow> vworld \<Rightarrow> vworld option" where
  "vhd_unregister_fs = vhd_vdev_stop_server"

section \<open>Properties\<close>

lemma stop_listening_device:
  assumes "w = \<lparr>vw_vdev = (init_vdev fd n map_cb unmap_cb)\<lparr>vd_listen_handler := Some True\<rparr>, vw_machine = m, vw_queue = rq,
    vw_backend = [], vw_rq = [], vw_ctl = [], vw_out = out, vw_next_log = l\<rparr>" and "0 \<le> fd"
  shows "\<exists>w'. vhd_vdev_stop_server K sy w = Some w' \<and> Released \<in> set (vw_out w') \<and> WorkDone OK \<in> set (vw_out w') \<and> Closed fd \<in> set (vw_out w')"
  using assms(2)
  by (simp add: assms(1) vhd_vdev_stop_server_def vdev_work_fn_def vdev_stop_def vdev_stop_listening_def init_vdev_def upd_vdev_def
      vdev_maybe_vrings_stopped_def vdev_vrings_stopped_def vdev_complete_work_def vdev_maybe_drained_def vdev_in_use_def
      vdev_drained_def vdev_cleanup_def inflight_mem_cleanup_def memmap_put_def replace_fd_def vhd_vdev_release_def act_def Let_def)

lemma register_blockdev_success:
  assumes "register_blockdev sy sock bdev map_cb unmap_cb m rq d r = Some (Some w, r')"
  shows "vhd_vdev_init_server sy sock (sint (bdi_num_queues bdev)) map_cb unmap_cb m rq = Some (OK, Some w)"
    and "r' = \<lparr>rg_allocated = insert d (rg_allocated r), rg_list = d # rg_list r\<rparr>"
  using assms
  by (auto simp: register_blockdev_def init_server_of_type_def bind_eq_Some_conv split: if_splits sum.splits)


definition demo_registry :: registry where
  "demo_registry = \<lparr>rg_allocated = {1}, rg_list = [1]\<rparr>"

lemma demo_register:
  "register_blockdev demo_sys (Inr 6) (demo_bdev\<lparr>bdi_num_queues := 2\<rparr>) None None (demo_machine demo_guest)
     \<lparr>rq_submission = [], rq_completion = [], rq_completion_bh = 0\<rparr> 2 demo_registry =
   Some (Some demo_listening, \<lparr>rg_allocated = {1, 2}, rg_list = [2, 1]\<rparr>)"
  by (auto simp: register_blockdev_def init_server_of_type_def vhd_vdev_init_server_def vhd_calloc_def VHOST_VRING_IDX_MASK_def VHD_SECTOR_SIZE_def
      vdev_work_fn_def vdev_start_def vdev_start_listening_def vdev_complete_work_def init_vdev_def act_def upd_vdev_def
      demo_sys_def demo_listening_def demo_bdev_def demo_registry_def)


text \<open>
  Registering a block device crashes when the control thread cannot poll its socket. The
  server then releases the device, which takes it off the list of devices that it was never on,
  through a NULL pointer; were it on the list, it would be freed a second time on return.
\<close>

lemma failed_registration_aborts:
  assumes "bdi_total_blocks bdev \<noteq> 0" and "bdi_block_size bdev \<noteq> 0" and "bdi_block_size bdev AND (bdi_block_size bdev - 1) = 0"
    and "bdi_block_size bdev mod VHD_SECTOR_SIZE = 0" and "sint (bdi_num_queues bdev) \<le> 256" and "\<not> sy_epoll_add sy fd"
  shows "register_blockdev sy (Inr fd) bdev map_cb unmap_cb m rq d r = None"
  using assms
  by (auto simp: register_blockdev_def init_server_of_type_def vhd_vdev_init_server_def vhd_calloc_def VHOST_VRING_IDX_MASK_def
      vdev_work_fn_def vdev_start_def vdev_start_listening_def vdev_complete_work_def init_vdev_def act_def upd_vdev_def
      vhd_vdev_release_def vblk_free_def LIST_REMOVE_def vhd_free_dev_def)

lemma failed_registration_aborts_demo:
  "register_blockdev (demo_sys\<lparr>sy_epoll_add := (\<lambda>_. False)\<rparr>) (Inr 6) demo_bdev None None (demo_machine demo_guest)
     \<lparr>rq_submission = [], rq_completion = [], rq_completion_bh = 0\<rparr> 2 demo_registry = None"
  by (rule failed_registration_aborts) (simp_all add: demo_bdev_def VHD_SECTOR_SIZE_def)

text \<open>
  The check of the number of queues compares signed numbers: the largest number of queues passes
  it, and the device gets as many as fit its counter.
\<close>

lemma too_many_queues_accepted:
  "\<exists>w. vhd_vdev_init_server demo_sys (Inr 6) (sint (0xFFFFFFFF :: u32)) None None m rq = Some (OK, Some w) \<and>
     unat (vd_num_queues (vw_vdev w)) = 65535"
  by (simp add: vhd_vdev_init_server_def vhd_calloc_def VHOST_VRING_IDX_MASK_def vdev_work_fn_def vdev_start_def vdev_start_listening_def
      vdev_complete_work_def init_vdev_def act_def upd_vdev_def demo_sys_def unsigned_minus_1_eq_mask mask_eq_exp_minus_1)

text \<open>A device without queues is not refused with an error, but fails the assertion of \<open>vhd_calloc\<close>.\<close>

lemma no_queues_aborts:
  assumes "bdi_total_blocks bdev \<noteq> 0" and "bdi_block_size bdev \<noteq> 0" and "bdi_block_size bdev AND (bdi_block_size bdev - 1) = 0"
    and "bdi_block_size bdev mod VHD_SECTOR_SIZE = 0" and "bdi_num_queues bdev = 0"
  shows "register_blockdev sy (Inr fd) bdev map_cb unmap_cb m rq d r = None"
  using assms by (simp add: register_blockdev_def init_server_of_type_def vhd_vdev_init_server_def vhd_calloc_def VHOST_VRING_IDX_MASK_def)

end
