(* ===== verification/Vdev_Mem.thy ===== *)
theory Vdev_Mem
  imports Vdev_Safe
begin

text \<open>
  Memory maps and dirty logs are not used after they are freed, and maps are not leaked. A map is
  shared by the device, by the message that replaces it, by the queues that translate with it and
  by the requests in flight; the first, second and last hold references. This theory has the
  invariant, the operations that it does not see, and the release of a connection.
\<close>

section \<open>Reference counts\<close>

text \<open>The store has exactly the maps that are held, each with the count of its holders.\<close>

definition map_ok :: "nat \<Rightarrow> vhd_memory_map option \<Rightarrow> bool" where
  "map_ok k e \<longleftrightarrow> (case e of None \<Rightarrow> k = 0 | Some mm \<Rightarrow> k \<noteq> 0 \<and> mm_ref mm = word_of_nat k)"

definition maps_ok :: "(nat \<Rightarrow> nat) \<Rightarrow> mm_store \<Rightarrow> bool" where
  "maps_ok n S \<longleftrightarrow> (\<forall>mid. map_ok (n mid) (ms_maps S mid)) \<and> (\<forall>mid \<ge> ms_next S. ms_maps S mid = None)"

lemma maps_ok_live:
  assumes "maps_ok n S" and "n mid \<noteq> 0"
  obtains mm where "ms_maps S mid = Some mm" and "mm_ref mm = word_of_nat (n mid)" and "mid < ms_next S"
proof -
  have m: "map_ok (n mid) (ms_maps S mid)" using assms(1) by (simp add: maps_ok_def)
  then obtain mm where "ms_maps S mid = Some mm" "mm_ref mm = word_of_nat (n mid)"
    using assms(2) by (auto simp: map_ok_def split: option.splits)
  moreover from this have "mid < ms_next S" using assms(1) by (metis maps_ok_def not_le option.distinct(1))
  ultimately show thesis by (rule that)
qed

lemma maps_ok_update:
  assumes "maps_ok n S" and "ms_maps S' = (ms_maps S)(mid := e)" and "map_ok k e"
    and "mid < ms_next S'" and "ms_next S \<le> ms_next S'"
  shows "maps_ok (n(mid := k)) S'"
  using assms by (simp add: maps_ok_def)

lemma maps_ok_new:
  assumes "maps_ok n S" and "vhd_memmap_new a b S = (mid, S')"
  shows "n mid = 0" and "maps_ok (n(mid := 1)) S'"
proof -
  have mid: "mid = ms_next S" using assms(2) by (simp add: vhd_memmap_new_def Let_def)
  then show "n mid = 0" using assms(1) maps_ok_live [OF assms(1), of mid] by (metis less_irrefl)
  show "maps_ok (n(mid := 1)) S'"
    by (rule maps_ok_update [OF assms(1)])
      (use assms(2) mid in \<open>auto simp: vhd_memmap_new_def Let_def map_ok_def objref_init_def\<close>)
qed

lemma maps_ok_ref:
  assumes "maps_ok n S" and "n mid \<noteq> 0"
  shows "maps_ok (n(mid := Suc (n mid))) (vhd_memmap_ref mid S)"
proof -
  obtain mm where mm: "ms_maps S mid = Some mm" "mm_ref mm = word_of_nat (n mid)" "mid < ms_next S"
    using maps_ok_live [OF assms] .
  show ?thesis
    by (rule maps_ok_update [OF assms(1), of _ _ "Some (mm\<lparr>mm_ref := mm_ref mm + 1\<rparr>)"]) (use mm in \<open>simp_all add: vhd_memmap_ref_def map_ok_def refcount_inc_def add.commute\<close>)
qed

lemma maps_ok_unref:
  assumes ok: "maps_ok n S" and pos: "n mid \<noteq> 0" and few: "n mid < 2 ^ 64"
  shows "maps_ok (n(mid := n mid - 1)) (vhd_memmap_unref K mid S)"
proof -
  obtain mm where mm: "ms_maps S mid = Some mm" "mm_ref mm = word_of_nat (n mid)" "mid < ms_next S"
    using maps_ok_live [OF ok pos] .
  have "unat (word_of_nat (n mid) :: u64) = n mid" using few by (simp add: unat_of_nat)
  then have one: "(word_of_nat (n mid) :: u64) = 1 \<longleftrightarrow> n mid = 1" by (metis unat_1 of_nat_1)
  have "(word_of_nat (n mid) :: u64) - 1 = word_of_nat (n mid - 1)" using pos by (simp add: of_nat_diff)
  moreover define e where "e = (if n mid = 1 then None else Some (mm\<lparr>mm_ref := word_of_nat (n mid) - 1\<rparr>))"
  ultimately have "map_ok (n mid - 1) e" using pos by (auto simp: map_ok_def)
  moreover have "ms_maps (vhd_memmap_unref K mid S) = (ms_maps S)(mid := e)" "ms_next (vhd_memmap_unref K mid S) = ms_next S"
    using mm one by (simp_all add: e_def vhd_memmap_unref_def refcount_dec_and_test_def memmap_release_def Let_def)
  ultimately show ?thesis using mm(3) by (intro maps_ok_update [OF ok]) simp_all
qed

lemma maps_ok_slot:
  assumes "maps_ok n S" and "ms_maps S mid = Some mm" and "mm_ref mm' = mm_ref mm"
  shows "maps_ok n (S\<lparr>ms_as := A, ms_maps := (ms_maps S)(mid := Some mm')\<rparr>)"
proof -
  have m: "map_ok (n mid) (Some mm)" using assms(1,2) by (metis maps_ok_def)
  then have "n mid \<noteq> 0" by (simp add: map_ok_def)
  then have "mid < ms_next S" using maps_ok_live [OF assms(1)] by metis
  then have "maps_ok (n(mid := n mid)) (S\<lparr>ms_as := A, ms_maps := (ms_maps S)(mid := Some mm')\<rparr>)"
    by (intro maps_ok_update [OF assms(1), of _ _ "Some mm'"]) (use m assms(3) in \<open>simp_all add: map_ok_def\<close>)
  then show ?thesis by simp
qed

lemma add_slot_ref: "vhd_memmap_add_slot K A mm g u sz fd off = (ret, A', mm') \<Longrightarrow> mm_ref mm' = mm_ref mm"
  by (auto simp: vhd_memmap_add_slot_def Let_def split: if_splits prod.splits sum.splits)

lemma maps_ok_add_slots:
  "maps_ok n S \<Longrightarrow> add_slots K mid desc fds is S = Some (ret, S') \<Longrightarrow> maps_ok n S'"
proof (induction "is" arbitrary: S)
  case (Cons i "is")
  obtain mm where mm: "ms_maps S mid = Some mm" using Cons.prems(2) by (auto simp: bind_eq_Some_conv)
  obtain r A mm1 where a: "vhd_memmap_add_slot K (ms_as S) mm (mreg_guest_addr (md_regions desc i))
      (mreg_user_addr (md_regions desc i)) (mreg_size (md_regions desc i)) (fds ! i) (mreg_mmap_offset (md_regions desc i)) = (r, A, mm1)"
    using prod_cases3 by blast
  note ok = maps_ok_slot [OF Cons.prems(1) mm add_slot_ref [OF a], of A]
  show ?case
  proof (cases r)
    case (Inl e)
    then show ?thesis using Cons.prems mm a ok by simp
  next
    case (Inr x)
    then show ?thesis using Cons.prems(2) mm a Cons.IH [OF ok] by simp
  qed
qed simp

section \<open>The invariant\<close>

definition bio_iov :: "vhd_bio \<Rightarrow> virtq_iov_private" where
  "bio_iov b = (case bio_owner b of BlkIo iov \<Rightarrow> iov | FsIo iov _ \<Rightarrow> iov)"

text \<open>The references to a map: the device, the message that replaces it, and its requests.\<close>

abbreviation held :: "nat option \<Rightarrow> nat \<Rightarrow> nat" where
  "held x mid \<equiv> (if x = Some mid then 1 else 0)"

definition refs :: "vhd_bio list \<Rightarrow> vhd_vdev \<Rightarrow> nat \<Rightarrow> nat" where
  "refs bs vd mid = held (vd_memmap vd) mid + held (vd_old_memmap vd) mid +
     count_if (\<lambda>b. bio_vring b < length (vd_vrings vd) \<and> iov_mm (bio_iov b) = mid) bs"

lemma refs_cong:
  "vd_memmap vd' = vd_memmap vd \<Longrightarrow> vd_old_memmap vd' = vd_old_memmap vd \<Longrightarrow>
    length (vd_vrings vd') = length (vd_vrings vd) \<Longrightarrow> refs bs vd' = refs bs vd"
  by (simp add: refs_def fun_eq_iff)

definition logs_ok :: "vworld \<Rightarrow> bool" where
  "logs_ok w \<longleftrightarrow>
     (\<forall>l. vd_memlog (vw_vdev w) = Some l \<or> vd_old_memlog (vw_vdev w) = Some l \<longrightarrow>
        m_logs (vw_machine w) l \<noteq> None \<and> l < vw_next_log w) \<and>
     (vd_old_memlog (vw_vdev w) \<noteq> None \<longrightarrow> vd_old_memlog (vw_vdev w) \<noteq> vd_memlog (vw_vdev w))"

abbreviation syncing :: "nat \<Rightarrow> vworld \<Rightarrow> bool" where
  "syncing i w \<equiv> VringSyncToVirtq i \<in> set (vw_rq w)"

abbreviation launching :: "nat \<Rightarrow> vworld \<Rightarrow> bool" where
  "launching i w \<equiv> VringStart i \<in> set (vw_rq w)"

text \<open>
  A queue that was started translates with the map of the device, or with the one that is being
  replaced if it has yet to be told; the same with its log.
\<close>

definition queue_ok :: "vworld \<Rightarrow> nat \<Rightarrow> bool" where
  "queue_ok w i \<longleftrightarrow>
     (let vd = vw_vdev w; vq = vr_vq (vring i w) in
      vr_started_in_ctl (vring i w) \<and> \<not> starting i w \<longrightarrow>
        (vd_memmap vd = Some (vq_mm vq) \<or> syncing i w \<and> vd_old_memmap vd = Some (vq_mm vq)) \<and>
        (vq_log vq = None \<or> vq_log vq = vd_memlog vd \<or> syncing i w \<and> vq_log vq = vd_old_memlog vd))"

text \<open>What a vring is going to take over, as long as it may do so.\<close>

definition shadow_ok :: "vworld \<Rightarrow> nat \<Rightarrow> bool" where
  "shadow_ok w i \<longleftrightarrow>
     (let vd = vw_vdev w; v = vring i w; sh = vr_shadow_vq v in
      (vr_started_in_ctl v \<and> (vd_conn_handler vd \<noteq> None \<or> syncing i w \<or> launching i w) \<longrightarrow> vd_memmap vd = Some (sh_mm sh)) \<and>
      (vd_conn_handler vd \<noteq> None \<or> vr_started_in_ctl v \<and> (syncing i w \<or> launching i w) \<longrightarrow>
         sh_log sh = None \<or> sh_log sh = vd_memlog vd) \<and>
      (vd_conn_handler vd = None \<and> \<not> vr_started_in_ctl v \<longrightarrow> sh_log sh = None))"

text \<open>The requests of a vring have buffers, and were taken from a ring that is not empty.\<close>

definition framed :: "vhd_bio list \<Rightarrow> nat \<Rightarrow> bool" where
  "framed bs i \<longleftrightarrow> (\<forall>b\<in>set bs. bio_vring b = i \<longrightarrow> iov_buffers (bio_iov b) \<noteq> [])"

lemma framed_none: "n_bios bs i = 0 \<Longrightarrow> framed bs i"
  by (auto simp: n_bios_def framed_def filter_empty_conv)

definition buffers_ok :: "vhd_bio list \<Rightarrow> vworld \<Rightarrow> nat \<Rightarrow> bool" where
  "buffers_ok bs w i \<longleftrightarrow>
     (let v = vring i w; vq = vr_vq v in
      (vr_started_in_ctl v \<longrightarrow> length (vq_buffers vq) = unat (vq_max_chain_len vq)) \<and>
      (n_bios bs i \<noteq> 0 \<longrightarrow> vq_qsz vq \<noteq> 0) \<and> framed bs i)"

definition live_vring :: "vhd_bio list \<Rightarrow> vworld \<Rightarrow> nat \<Rightarrow> bool" where
  "live_vring bs w i \<longleftrightarrow> queue_ok w i \<and> shadow_ok w i \<and> buffers_ok bs w i"

text \<open>Of the counters only this is needed: without vrings in flight none is started.\<close>

definition counted :: "vworld \<Rightarrow> bool" where
  "counted w \<longleftrightarrow> unat (vd_num_queues (vw_vdev w)) = length (vd_vrings (vw_vdev w)) \<and>
     (vd_num_vrings_in_flight (vw_vdev w) = 0 \<longrightarrow>
        (\<forall>i<length (vd_vrings (vw_vdev w)). \<not> vr_started_in_ctl (vring i w)))"

definition mem_ok :: "vhd_bio list \<Rightarrow> vworld \<Rightarrow> bool" where
  "mem_ok bs w \<longleftrightarrow> maps_ok (refs bs (vw_vdev w)) (m_mms (vw_machine w)) \<and> logs_ok w \<and> counted w \<and>
     (\<forall>i<length (vd_vrings (vw_vdev w)). live_vring bs w i)"

section \<open>What the invariant looks at\<close>

definition mflags where
  "mflags v = (vr_started_in_ctl v, vq_mm (vr_vq v), vq_log (vr_vq v), vq_qsz (vr_vq v), vq_max_chain_len (vr_vq v),
     length (vq_buffers (vr_vq v)), sh_mm (vr_shadow_vq v), sh_log (vr_shadow_vq v))"

definition mdev where
  "mdev vd = (vd_memmap vd, vd_old_memmap vd, vd_memlog vd, vd_old_memlog vd, vd_conn_handler vd = None,
     vd_num_queues vd, vd_num_vrings_in_flight vd, map mflags (vd_vrings vd))"

text \<open>All but the bottom halves that tell a vring of a change.\<close>

definition mview0 where
  "mview0 w = (mdev (vw_vdev w), m_mms (vw_machine w), \<lambda>l. m_logs (vw_machine w) l = None, vw_next_log w,
     \<lambda>i. launching i w, \<lambda>i. VringStartFailed i \<in> set (vw_ctl w))"

definition mview where
  "mview w = (mview0 w, \<lambda>i. syncing i w)"

lemma mview0_nth:
  assumes "mview0 w' = mview0 w"
  shows "length (vd_vrings (vw_vdev w')) = length (vd_vrings (vw_vdev w))"
    and "i < length (vd_vrings (vw_vdev w)) \<Longrightarrow> mflags (vring i w') = mflags (vring i w)"
proof -
  have m: "map mflags (vd_vrings (vw_vdev w')) = map mflags (vd_vrings (vw_vdev w))"
    using assms by (simp add: mview0_def mdev_def)
  then show l: "length (vd_vrings (vw_vdev w')) = length (vd_vrings (vw_vdev w))" by (rule map_eq_imp_length_eq)
  show "mflags (vring i w') = mflags (vring i w)" if "i < length (vd_vrings (vw_vdev w))"
    using m l that by (metis nth_map)
qed

lemma mview0_fields:
  assumes "mview0 w' = mview0 w"
  shows "refs bs (vw_vdev w') = refs bs (vw_vdev w)" and "m_mms (vw_machine w') = m_mms (vw_machine w)" and "logs_ok w' = logs_ok w"
    and "launching i w' = launching i w" and "VringStartFailed i \<in> set (vw_ctl w') \<longleftrightarrow> VringStartFailed i \<in> set (vw_ctl w)"
    and "vd_memmap (vw_vdev w') = vd_memmap (vw_vdev w)" and "vd_old_memmap (vw_vdev w') = vd_old_memmap (vw_vdev w)"
    and "vd_memlog (vw_vdev w') = vd_memlog (vw_vdev w)" and "vd_old_memlog (vw_vdev w') = vd_old_memlog (vw_vdev w)"
    and "(vd_conn_handler (vw_vdev w') = None) = (vd_conn_handler (vw_vdev w) = None)"
  using assms mview0_nth(1) [OF assms]
  by (auto simp: mview0_def mdev_def refs_def logs_ok_def fun_eq_iff)

lemma mview0_counted:
  assumes "mview0 w' = mview0 w"
  shows "counted w' = counted w"
proof -
  have "vr_started_in_ctl (vring i w') = vr_started_in_ctl (vring i w)" if "i < length (vd_vrings (vw_vdev w))" for i
    using mview0_nth(2) [OF assms that] by (simp add: mflags_def)
  then show ?thesis using assms mview0_nth(1) [OF assms] by (auto simp: counted_def mview0_def mdev_def)
qed

text \<open>More vrings may have to be told as long as the connection lasts.\<close>

lemma live_vring_syncs:
  assumes ok: "live_vring bs w i" and i: "i < length (vd_vrings (vw_vdev w))" and m: "mview0 w' = mview0 w"
    and s: "syncing i w \<longrightarrow> syncing i w'" "syncing i w' \<longrightarrow> syncing i w \<or> vd_conn_handler (vw_vdev w) \<noteq> None"
  shows "live_vring bs w' i"
proof -
  note f = mview0_fields [OF m] and v = mview0_nth(2) [OF m i]
  have st: "starting i w' = starting i w" using f(4,5) by (simp add: starting_def)
  have "queue_ok w' i" using ok v f(6-9) st s(1) by (auto simp: live_vring_def queue_ok_def mflags_def Let_def)
  moreover have "shadow_ok w' i" using ok v f(4,6-10) s by (auto simp: live_vring_def shadow_ok_def mflags_def Let_def)
  moreover have "buffers_ok bs w' i" using ok v by (simp add: live_vring_def buffers_ok_def mflags_def Let_def)
  ultimately show ?thesis by (simp add: live_vring_def)
qed

lemma mem_ok_syncs:
  assumes "mem_ok bs w" and "mview0 w' = mview0 w" and "\<And>i. syncing i w \<Longrightarrow> syncing i w'"
    and "vd_conn_handler (vw_vdev w) \<noteq> None"
  shows "mem_ok bs w'"
  using assms live_vring_syncs [of bs w _ w'] mview0_fields(1-3) [OF assms(2)] mview0_nth(1) [OF assms(2)]
    mview0_counted [OF assms(2)]
  by (simp add: mem_ok_def)

lemma mem_ok_mview:
  assumes "mview w' = mview w" and "mem_ok bs w"
  shows "mem_ok bs w'"
proof -
  have m: "mview0 w' = mview0 w" and s: "\<And>i. syncing i w' = syncing i w"
    using assms(1) by (simp_all add: mview_def fun_eq_iff)
  show ?thesis
    using assms(2) live_vring_syncs [of bs w _ w'] m s mview0_fields(1-3) [OF m] mview0_nth(1) [OF m] mview0_counted [OF m]
    by (simp add: mem_ok_def)
qed

section \<open>Operations that it does not see\<close>

lemma mview_upd_vdev: "mdev (f (vw_vdev w)) = mdev (vw_vdev w) \<Longrightarrow> mview (upd_vdev f w) = mview w"
  by (simp add: mview_def mview0_def upd_vdev_def)

lemma mflags_update:
  assumes "i < length vs \<Longrightarrow> mflags v = mflags (vs ! i)"
  shows "map mflags (vs[i := v]) = map mflags vs"
  using assms by (cases "i < length vs") (simp_all add: map_update list_update_same_conv list_update_beyond)

lemma mview_upd_vring:
  assumes "i < length (vd_vrings (vw_vdev w)) \<Longrightarrow> mflags (f (vring i w)) = mflags (vring i w)"
  shows "mview (upd_vring i f w) = mview w"
  using mflags_update [OF assms] by (simp add: upd_vring_def mview_upd_vdev mdev_def)

lemma mview_act [simp]: "mview (act a w) = mview w"
  by (simp add: mview_def mview0_def act_def)

lemma mview_replace_fd [simp]: "mview (replace_fd fd w) = mview w"
  by (simp add: replace_fd_def)

lemma mview_close_fds [simp]: "mview (close_fds fds w) = mview w"
  unfolding close_fds_def by (induction fds arbitrary: w) simp_all

lemma mview_machine:
  "m_mms m = m_mms (vw_machine w) \<Longrightarrow> (\<And>l. (m_logs m l = None) = (m_logs (vw_machine w) l = None)) \<Longrightarrow>
    mview (w\<lparr>vw_machine := m\<rparr>) = mview w"
  by (simp add: mview_def mview0_def)

lemma mview_ctl: "\<nexists>i. bh = VringStartFailed i \<Longrightarrow> mview (run_in_ctl bh w) = mview w"
  by (auto simp: mview_def mview0_def run_in_ctl_def fun_eq_iff)

lemma mview_rq_stop: "mview (run_in_rq (VringStop i) w) = mview w"
  by (simp add: mview_def mview0_def run_in_rq_def)

lemma mview_queue: "mview (w\<lparr>vw_queue := rq\<rparr>) = mview w" "mview (w\<lparr>vw_backend := bs\<rparr>) = mview w"
  by (simp_all add: mview_def mview0_def)

lemma mview_handle_start: "vdev_handle_start sy req ack w = Some w' \<Longrightarrow> mview w' = mview w"
  by (auto simp: vdev_handle_start_def bind_eq_Some_conv mdev_def intro!: mview_upd_vdev split: if_splits)

lemma mview_handle_finish: "vdev_handle_finish sy w = Some w' \<Longrightarrow> mview w' = mview w"
  by (auto simp: vdev_handle_finish_def attach_handler_def bind_eq_Some_conv mview_def mview0_def mdev_def upd_vdev_def
      split: if_splits option.splits)

lemma mview_send: "vhost_send_fds sy hdr p fds fin w = Some (ret, w') \<Longrightarrow> mview w' = mview w"
  by (auto simp: vhost_send_fds_def Let_def dest!: mview_handle_finish split: sum.splits if_splits)

lemma mview_reply_fds: "vhost_reply_fds sy p len fds w = Some (ret, w') \<Longrightarrow> mview w' = mview w"
  by (auto simp: vhost_reply_fds_def dest: mview_send)

lemma mview_reply: "vhost_reply sy p len w = Some (ret, w') \<Longrightarrow> mview w' = mview w"
  by (auto simp: vhost_reply_def dest: mview_reply_fds)

lemma mview_reply_u64: "vhost_reply_u64 sy u w = Some (ret, w') \<Longrightarrow> mview w' = mview w"
  by (auto simp: vhost_reply_u64_def dest: mview_reply)

lemma mview_send_base: "vhost_send_vring_base sy i w = Some (ret, w') \<Longrightarrow> mview w' = mview w"
  by (auto simp: vhost_send_vring_base_def dest: mview_reply)

lemma mview_ack: "vhost_ack sy r w = Some (ret, w') \<Longrightarrow> mview w' = mview w"
  by (auto simp: vhost_ack_def dest: mview_handle_finish mview_reply_u64 split: if_splits)

lemma mview_maybe_vrings_stopped: "vdev_maybe_vrings_stopped w = Some w' \<Longrightarrow> mview w' = mview w"
  by (auto simp: vdev_maybe_vrings_stopped_def vdev_vrings_stopped_def vdev_complete_work_def mdev_def
      intro: trans [OF mview_upd_vdev] split: if_splits)

lemma mview_vring_cong:
  assumes "mview w = mview w'" and "\<And>v v'. mflags v = mflags v' \<Longrightarrow> mflags (g v) = mflags (g v')"
  shows "mview (upd_vring i g w) = mview (upd_vring i g w')"
proof -
  have m0: "mview0 w = mview0 w'" using assms(1) by (simp add: mview_def)
  note l = mview0_nth(1) [OF m0]
  have "map mflags (vd_vrings (vw_vdev w)) = map mflags (vd_vrings (vw_vdev w'))" using m0 by (simp add: mview0_def mdev_def)
  then have "map mflags ((vd_vrings (vw_vdev w))[i := g (vring i w)]) = map mflags ((vd_vrings (vw_vdev w'))[i := g (vring i w')])"
    using assms(2) [OF mview0_nth(2) [OF m0]] l
    by (cases "i < length (vd_vrings (vw_vdev w'))") (simp_all add: map_update list_update_beyond)
  then show ?thesis using assms(1) by (simp add: mview_def mview0_def mdev_def upd_vring_def upd_vdev_def)
qed

lemma mview_for_vrings:
  assumes step: "\<And>i w. i < length (vd_vrings (vw_vdev w)) \<Longrightarrow> mview (f i w) = mview (upd_vring i g w)"
    and resp: "\<And>v v'. mflags v = mflags v' \<Longrightarrow> mflags (g v) = mflags (g v')"
    and n: "unat (vd_num_queues (vw_vdev w)) = length (vd_vrings (vw_vdev w))"
  shows "mview (for_vrings f w) = mview (upd_vdev (\<lambda>vd. vd\<lparr>vd_vrings := map g (vd_vrings vd)\<rparr>) w)"
proof -
  let ?vs = "vd_vrings (vw_vdev w)"
  define y where "y k = upd_vdev (\<lambda>vd. vd\<lparr>vd_vrings := map g (take k ?vs) @ drop k ?vs\<rparr>) w" for k
  have "mview (fold f [0..<k] w) = mview (y k)" if "k \<le> length ?vs" for k
    using that
  proof (induction k)
    case 0
    then show ?case by (simp add: y_def upd_vdev_def)
  next
    case (Suc k)
    let ?x = "fold f [0..<k] w"
    have IH: "mview ?x = mview (y k)" using Suc by simp
    then have m0: "mview0 ?x = mview0 (y k)" by (simp add: mview_def)
    have "length (vd_vrings (vw_vdev ?x)) = length ?vs" using mview0_nth(1) [OF m0] by (simp add: y_def upd_vdev_def)
    then have "mview (f k ?x) = mview (upd_vring k g ?x)" using step Suc.prems by simp
    also have "\<dots> = mview (upd_vring k g (y k))" by (rule mview_vring_cong [OF IH resp])
    also have "upd_vring k g (y k) = y (Suc k)"
      using Suc.prems by (simp add: y_def upd_vring_def upd_vdev_def take_Suc_conv_app_nth list_update_append
          nth_append Cons_nth_drop_Suc [symmetric])
    finally show ?case by simp
  qed
  from this [of "length ?vs"] show ?thesis by (simp add: for_vrings_def n y_def upd_vdev_def)
qed

section \<open>Releasing a connection\<close>

lemma refs_bound: "refs bs vd mid \<le> 2 + length bs"
proof -
  have "count_if P bs \<le> length bs" for P :: "vhd_bio \<Rightarrow> bool" by simp
  then show ?thesis unfolding refs_def by (smt (verit) add_mono le_refl numeral_2_eq_2 one_add_one zero_le)
qed

lemma memmap_put_fields [simp]:
  "vw_vdev (memmap_put K x w) = vw_vdev w" "vw_rq (memmap_put K x w) = vw_rq w" "vw_ctl (memmap_put K x w) = vw_ctl w"
  "vw_next_log (memmap_put K x w) = vw_next_log w" "m_logs (vw_machine (memmap_put K x w)) = m_logs (vw_machine w)"
  "m_mms (vw_machine (memmap_put K x w)) =
     (case x of None \<Rightarrow> m_mms (vw_machine w) | Some mid \<Rightarrow> vhd_memmap_unref K mid (m_mms (vw_machine w)))"
  "vw_queue (memmap_put K x w) = vw_queue w" "vw_backend (memmap_put K x w) = vw_backend w"
  by (simp_all add: memmap_put_def upd_machine_def split: option.split)

text \<open>Dropping the reference of the device.\<close>

lemma maps_ok_drop:
  assumes ok: "maps_ok (refs bs vd) S" and few: "length bs < 2 ^ 16"
    and vd': "vd_memmap vd = x \<and> vd' = vd\<lparr>vd_memmap := None\<rparr> \<or> vd_old_memmap vd = x \<and> vd' = vd\<lparr>vd_old_memmap := None\<rparr>"
  shows "maps_ok (refs bs vd') (case x of None \<Rightarrow> S | Some mid \<Rightarrow> vhd_memmap_unref K mid S)"
proof -
  have r: "refs bs vd m = refs bs vd' m + held x m" for m using vd' by (elim disjE) (simp_all add: refs_def)
  show ?thesis
  proof (cases x)
    case None
    then have "refs bs vd' = refs bs vd" using r by (simp add: fun_eq_iff)
    then show ?thesis using None ok by simp
  next
    case (Some mid)
    have "refs bs vd mid < 2 ^ 64" using refs_bound [of bs vd mid] few by simp
    moreover have "refs bs vd mid \<noteq> 0" using r [of mid] Some by simp
    ultimately have "maps_ok ((refs bs vd)(mid := refs bs vd mid - 1)) (vhd_memmap_unref K mid S)" by (intro maps_ok_unref [OF ok])
    moreover have "(refs bs vd)(mid := refs bs vd mid - 1) = refs bs vd'" using r Some by (simp add: fun_eq_iff)
    ultimately show ?thesis using Some by simp
  qed
qed

lemma inflight_cleanup_fields [simp]:
  "vw_machine (inflight_mem_cleanup w) = vw_machine w" "vw_rq (inflight_mem_cleanup w) = vw_rq w" "vw_ctl (inflight_mem_cleanup w) = vw_ctl w"
  "mdev (vw_vdev (inflight_mem_cleanup w)) = mdev (vw_vdev w)" "vd_vrings (vw_vdev (inflight_mem_cleanup w)) = vd_vrings (vw_vdev w)"
  by (simp_all add: inflight_mem_cleanup_def act_def upd_vdev_def mdev_def)

lemma cleanup_mem:
  assumes ok: "mem_ok bs w" and c: "vdev_cleanup K w = Some w'" and conn: "vd_conn_handler (vw_vdev w) = None"
    and none: "\<And>i. i < length (vd_vrings (vw_vdev w)) \<Longrightarrow> \<not> vr_started_in_ctl (vring i w)" and few: "length bs < 2 ^ 16"
  shows "mem_ok bs w'"
proof -
  let ?vd = "vw_vdev w"
  have old: "vd_old_memmap ?vd = None" "vd_old_memlog ?vd = None"
    using c by (auto simp: vdev_cleanup_def Let_def split: if_splits)
  have w': "mdev (vw_vdev w') = mdev (?vd\<lparr>vd_memmap := None, vd_memlog := None\<rparr>)" "vd_vrings (vw_vdev w') = vd_vrings ?vd"
    "m_mms (vw_machine w') = m_mms (vw_machine (memmap_put K (vd_memmap ?vd) (inflight_mem_cleanup w)))"
    using c inflight_cleanup_fields [of w]
    by (cases "vd_memlog ?vd"; cases "vd_timer_handler ?vd"; force simp: vdev_cleanup_def vhd_memlog_free_def upd_vdev_def
        upd_machine_def act_def replace_fd_def mdev_def Let_def simp del: memmap_put_fields(6) split: if_splits)+
  have "refs bs (vw_vdev w') = refs bs (?vd\<lparr>vd_memmap := None\<rparr>)" using w'(1,2) by (auto simp: mdev_def refs_def fun_eq_iff)
  then have "maps_ok (refs bs (vw_vdev w')) (m_mms (vw_machine w'))"
    using maps_ok_drop [of bs ?vd _ "vd_memmap ?vd" "?vd\<lparr>vd_memmap := None\<rparr>" K] ok few w'(3) by (simp add: mem_ok_def)
  moreover have "logs_ok w'" using w'(1) old by (simp add: logs_ok_def mdev_def)
  moreover have "live_vring bs w' i" if i: "i < length (vd_vrings ?vd)" for i
  proof -
    have "live_vring bs w i" using ok i by (simp add: mem_ok_def)
    moreover have "vd_conn_handler (vw_vdev w') = None" using w'(1) conn by (simp add: mdev_def)
    ultimately show ?thesis
      using none [OF i] conn w'(2)
      by (simp add: live_vring_def queue_ok_def shadow_ok_def buffers_ok_def Let_def)
  qed
  moreover have "counted w'" using ok w'(1,2) by (simp add: mem_ok_def counted_def mdev_def)
  ultimately show ?thesis using w'(2) by (simp add: mem_ok_def)
qed

lemma maybe_drained_mem:
  assumes ok: "mem_ok bs w" and d: "vdev_maybe_drained K sy w = Some w'" and few: "length bs < 2 ^ 16"
  shows "mem_ok bs w'"
proof (cases "\<not> vdev_in_use (vw_vdev w) \<and> vd_num_vrings_started (vw_vdev w) = 0")
  case True
  have l: "mview (upd_vdev (vd_listen_handler_update f) x) = mview x" for f x by (rule mview_upd_vdev) (simp add: mdev_def)
  obtain w1 where w1: "vdev_cleanup K w = Some w1" "mview w' = mview w1"
    using d True by (auto simp: vdev_maybe_drained_def vdev_drained_def vhd_vdev_release_def bind_eq_Some_conv l
        split: if_splits)
  have "mem_ok bs w1" by (rule cleanup_mem [OF ok w1(1) _ _ few]) (use True ok in \<open>auto simp: vdev_in_use_def mem_ok_def counted_def\<close>)
  then show ?thesis by (rule mem_ok_mview [OF w1(2)])
next
  case False
  then show ?thesis using d ok by (auto simp: vdev_maybe_drained_def)
qed

definition no_shadow :: "vhd_vring \<Rightarrow> vhd_vring" where
  "no_shadow v = (if vr_started_in_ctl v then v else v\<lparr>vr_shadow_vq :=
     \<lparr>sh_flags = 0, sh_desc = 0, sh_avail = 0, sh_used = 0, sh_mm = 0, sh_log = None\<rparr>\<rparr>)"

lemma mview_vring_disconnect:
  assumes "i < length (vd_vrings (vw_vdev w))"
  shows "mview (vring_disconnect i w) = mview (upd_vring i no_shadow w)"
proof (cases "vr_started_in_ctl (vring i w)")
  case True
  then have "mview (vring_disconnect i w) = mview w"
    by (simp add: vring_disconnect_def mview_rq_stop mview_upd_vring mflags_def)
  moreover have "mview (upd_vring i no_shadow w) = mview w" using True by (intro mview_upd_vring) (simp add: no_shadow_def)
  ultimately show ?thesis by simp
next
  case False
  then show ?thesis
    using assms by (simp add: vring_disconnect_def vring_reset_def no_shadow_def mview_def mview0_def mdev_def mflags_def
        upd_vring_def upd_vdev_def replace_fd_def act_def map_update Let_def)
qed

lemma disconnect_mem:
  assumes maps: "maps_ok (refs bs (vw_vdev w)) (m_mms (vw_machine w))" and logs: "logs_ok w"
    and live: "\<And>i. i < length (vd_vrings (vw_vdev w)) \<Longrightarrow> queue_ok w i \<and> buffers_ok bs w i \<and>
      (shadow_ok w i \<or> \<not> syncing i w \<and> \<not> launching i w)"
    and n: "counted w" and few: "length bs < 2 ^ 16"
    and conn: "vd_conn_handler (vw_vdev w) \<noteq> None" and d: "vdev_disconnect K sy w = Some w'"
  shows "mem_ok bs w'"
proof -
  let ?w0 = "upd_vdev (vd_conn_handler_update (\<lambda>_. None)) w"
  let ?y = "upd_vdev (\<lambda>vd. vd\<lparr>vd_vrings := map no_shadow (vd_vrings vd)\<rparr>) ?w0"
  obtain w1 where w1: "vdev_maybe_vrings_stopped (for_vrings vring_disconnect ?w0) = Some w1" "vdev_maybe_drained K sy w1 = Some w'"
    using d conn by (auto simp: vdev_disconnect_def bind_eq_Some_conv)
  have "mview (for_vrings vring_disconnect ?w0) = mview ?y"
    by (rule mview_for_vrings [OF mview_vring_disconnect]) (use n in \<open>auto simp: counted_def no_shadow_def mflags_def upd_vdev_def\<close>)
  then have m1: "mview w1 = mview ?y" using mview_maybe_vrings_stopped [OF w1(1)] by simp
  have "live_vring bs ?y i" if i: "i < length (vd_vrings (vw_vdev w))" for i
  proof -
    have y: "vring i ?y = no_shadow (vring i w)" "vd_conn_handler (vw_vdev ?y) = None" "vd_memmap (vw_vdev ?y) = vd_memmap (vw_vdev w)"
      "vd_old_memmap (vw_vdev ?y) = vd_old_memmap (vw_vdev w)" "vd_memlog (vw_vdev ?y) = vd_memlog (vw_vdev w)"
      "vd_old_memlog (vw_vdev ?y) = vd_old_memlog (vw_vdev w)" "vw_rq ?y = vw_rq w" "vw_ctl ?y = vw_ctl w"
      using i by (simp_all add: upd_vdev_def)
    have s: "vr_started_in_ctl (no_shadow v) = vr_started_in_ctl v" "vr_vq (no_shadow v) = vr_vq v" for v
      by (simp_all add: no_shadow_def)
    have "queue_ok ?y i" using live [OF i] y s by (simp add: queue_ok_def starting_def Let_def)
    moreover have "buffers_ok bs ?y i" using live [OF i] y s by (simp add: buffers_ok_def Let_def)
    moreover have "shadow_ok ?y i"
      using live [OF i] y by (cases "vr_started_in_ctl (vring i w)") (auto simp: shadow_ok_def no_shadow_def Let_def)
    ultimately show ?thesis by (simp add: live_vring_def)
  qed
  moreover have "refs bs (vw_vdev ?y) = refs bs (vw_vdev w)" by (simp add: refs_def upd_vdev_def fun_eq_iff)
  moreover have "counted ?y" using n by (simp add: counted_def upd_vdev_def no_shadow_def)
  ultimately have "mem_ok bs ?y" using maps logs by (simp add: mem_ok_def logs_ok_def upd_vdev_def)
  then show ?thesis using maybe_drained_mem [OF mem_ok_mview [OF m1] w1(2) few] by simp
qed

end
