(* ===== verification/Vdev_Mem_Ctl.thy ===== *)
theory Vdev_Mem_Ctl
  imports Vdev_Mem
begin

text \<open>
  The bottom halves of both threads keep the invariant on maps and logs.
\<close>

section \<open>Bottom halves of the control thread\<close>

definition mrest where
  "mrest w = (vd_memmap (vw_vdev w), vd_old_memmap (vw_vdev w), vd_memlog (vw_vdev w), vd_old_memlog (vw_vdev w),
     vd_conn_handler (vw_vdev w) = None)"

lemma live_vring_cong:
  assumes "mrest w' = mrest w" and "vring j w' = vring j w" and "syncing j w' = syncing j w" and "launching j w' = launching j w"
    and "VringStartFailed j \<in> set (vw_ctl w') \<longleftrightarrow> VringStartFailed j \<in> set (vw_ctl w)"
  shows "live_vring bs w' j = live_vring bs w j"
proof -
  have r: "vd_memmap (vw_vdev w') = vd_memmap (vw_vdev w)" "vd_old_memmap (vw_vdev w') = vd_old_memmap (vw_vdev w)"
    "vd_memlog (vw_vdev w') = vd_memlog (vw_vdev w)" "vd_old_memlog (vw_vdev w') = vd_old_memlog (vw_vdev w)"
    "(vd_conn_handler (vw_vdev w') = None) = (vd_conn_handler (vw_vdev w) = None)"
    using assms(1) by (simp_all add: mrest_def)
  have "starting j w' = starting j w" unfolding starting_def assms(4,5) ..
  then have "queue_ok w' j = queue_ok w j" unfolding queue_ok_def Let_def r assms(2,3) by simp
  moreover have "shadow_ok w' j = shadow_ok w j" unfolding shadow_ok_def Let_def r assms(2-4) ..
  moreover have "buffers_ok bs w' j = buffers_ok bs w j" unfolding buffers_ok_def Let_def assms(2) ..
  ultimately show ?thesis by (simp add: live_vring_def)
qed

text \<open>One vring changes.\<close>

lemma mem_ok_one:
  assumes maps: "maps_ok (refs bs (vw_vdev w)) (m_mms (vw_machine w))" and logs: "logs_ok w"
    and live: "\<And>j. j < length (vd_vrings (vw_vdev w)) \<Longrightarrow> j \<noteq> i \<Longrightarrow> live_vring bs w j"
    and same: "mrest w' = mrest w" "m_mms (vw_machine w') = m_mms (vw_machine w)" "logs_ok w \<Longrightarrow> logs_ok w'" "counted w'"
      "vd_vrings (vw_vdev w') = (vd_vrings (vw_vdev w))[i := v]"
    and bhs: "\<And>j. j \<noteq> i \<Longrightarrow> syncing j w' = syncing j w \<and> launching j w' = launching j w \<and>
      (VringStartFailed j \<in> set (vw_ctl w') \<longleftrightarrow> VringStartFailed j \<in> set (vw_ctl w))"
    and i: "i < length (vd_vrings (vw_vdev w)) \<Longrightarrow> live_vring bs w' i"
  shows "mem_ok bs w'"
proof -
  have "live_vring bs w' j" if j: "j < length (vd_vrings (vw_vdev w))" for j
  proof (cases "j = i")
    case False
    then have "live_vring bs w' j = live_vring bs w j" using bhs [OF False] same(5) by (intro live_vring_cong [OF same(1)]) simp_all
    then show ?thesis using live [OF j False] by simp
  qed (use i j in simp)
  moreover have "refs bs (vw_vdev w') = refs bs (vw_vdev w)" using same(1,5) by (auto simp: mrest_def refs_def fun_eq_iff)
  ultimately show ?thesis using maps logs same by (simp add: mem_ok_def)
qed

text \<open>What a message replaced no longer matters to a vring that has been told.\<close>

lemma live_vring_told:
  assumes "live_vring bs w j" and "vr_started_in_ctl (vring j w) \<Longrightarrow> \<not> syncing j w"
    and "vd_memmap (vw_vdev w') = vd_memmap (vw_vdev w)" and "vd_memlog (vw_vdev w') = vd_memlog (vw_vdev w)"
    and "vd_conn_handler (vw_vdev w') = vd_conn_handler (vw_vdev w)"
    and "vring j w' = vring j w" and "vw_rq w' = vw_rq w" and "vw_ctl w' = vw_ctl w"
  shows "live_vring bs w' j"
proof -
  have st: "starting j w' = starting j w" using assms by (simp add: starting_def)
  have "queue_ok w j" using assms(1) by (simp add: live_vring_def)
  then have "queue_ok w' j" unfolding queue_ok_def Let_def assms(3,4,6,7) st using assms(2) by auto
  moreover have "shadow_ok w' j"
  proof -
    have "shadow_ok w' j = shadow_ok w j" unfolding shadow_ok_def Let_def assms(3-8) ..
    then show ?thesis using assms(1) by (simp add: live_vring_def)
  qed
  moreover have "buffers_ok bs w' j" using assms(1,6) by (simp add: live_vring_def buffers_ok_def)
  ultimately show ?thesis by (simp add: live_vring_def)
qed

text \<open>What a message replaced is released when every vring has been told.\<close>

lemma memmap_complete_mem:
  assumes ok: "mem_ok bs w" and few: "length bs < 2 ^ 16"
    and told: "\<And>i. i < length (vd_vrings (vw_vdev w)) \<Longrightarrow> vr_started_in_ctl (vring i w) \<Longrightarrow> \<not> syncing i w"
  shows "mem_ok bs (upd_vdev (vd_old_memmap_update (\<lambda>_. None)) (memmap_put K (vd_old_memmap (vw_vdev w)) w))" (is "mem_ok bs ?x")
proof -
  have "maps_ok (refs bs (vw_vdev ?x)) (m_mms (vw_machine ?x))"
    using maps_ok_drop [of bs "vw_vdev w" _ "vd_old_memmap (vw_vdev w)" "(vw_vdev w)\<lparr>vd_old_memmap := None\<rparr>" K] ok few
    by (simp add: mem_ok_def upd_vdev_def)
  moreover have "logs_ok ?x" "counted ?x" using ok by (simp_all add: mem_ok_def logs_ok_def counted_def upd_vdev_def)
  moreover have "live_vring bs ?x i" if "i < length (vd_vrings (vw_vdev w))" for i
    by (rule live_vring_told [of bs w]) (use ok that told [OF that] in \<open>simp_all add: mem_ok_def upd_vdev_def\<close>)
  ultimately show ?thesis by (simp add: mem_ok_def upd_vdev_def)
qed

lemma memlog_complete_mem:
  assumes ok: "mem_ok bs w" and l: "vd_old_memlog (vw_vdev w) = Some l"
    and told: "\<And>i. i < length (vd_vrings (vw_vdev w)) \<Longrightarrow> vr_started_in_ctl (vring i w) \<Longrightarrow> \<not> syncing i w"
  shows "mem_ok bs (upd_vdev (vd_old_memlog_update (\<lambda>_. None))
    (upd_machine (\<lambda>m. m\<lparr>m_logs := (m_logs m)(l := None)\<rparr>) (act (LogFreed l) w)))" (is "mem_ok bs ?x")
proof -
  have x: "vw_vdev ?x = (vw_vdev w)\<lparr>vd_old_memlog := None\<rparr>" "m_mms (vw_machine ?x) = m_mms (vw_machine w)"
    "m_logs (vw_machine ?x) = (m_logs (vw_machine w))(l := None)" "vw_next_log ?x = vw_next_log w" "vw_rq ?x = vw_rq w" "vw_ctl ?x = vw_ctl w"
    by (simp_all add: upd_vdev_def upd_machine_def act_def)
  have "maps_ok (refs bs (vw_vdev ?x)) (m_mms (vw_machine ?x))" using ok x refs_cong [of "vw_vdev ?x" "vw_vdev w" bs] by (simp add: mem_ok_def)
  moreover have "logs_ok ?x" "counted ?x" using ok l x by (auto simp: mem_ok_def logs_ok_def counted_def)
  moreover have "live_vring bs ?x i" if "i < length (vd_vrings (vw_vdev w))" for i
    by (rule live_vring_told [of bs w]) (use ok that told [OF that] x in \<open>simp_all add: mem_ok_def\<close>)
  ultimately show ?thesis using x by (simp add: mem_ok_def)
qed

lemma handle_complete_mem:
  assumes ok: "mem_ok bs w" and few: "length bs < 2 ^ 16" and h: "handle_complete K sy c w = Some (ret, w')"
    and told: "\<And>i. i < length (vd_vrings (vw_vdev w)) \<Longrightarrow> vr_started_in_ctl (vring i w) \<Longrightarrow> \<not> syncing i w"
  shows "mem_ok bs w'"
proof -
  have k: "mview (upd_vdev (vd_keep_fd_update f) x) = mview x" for f x by (rule mview_upd_vdev) (simp add: mdev_def)
  show ?thesis
  proof (cases "c = SetMemTableComplete \<or> c = SetLogBaseComplete")
    case False
    then have "mview w' = mview w"
      using h by (cases c) (auto simp: handle_complete_def set_vring_call_complete_def set_vring_err_complete_def k
        dest!: mview_ack)
    then show ?thesis by (rule mem_ok_mview [OF _ ok])
  next
    case True
    then obtain x where "mview w' = mview x" "mem_ok bs x"
      using h memmap_complete_mem [OF ok few told, of K] memlog_complete_mem [OF ok _ told] ok
      by (auto simp: handle_complete_def set_mem_table_complete_def set_log_base_complete_def
          dest!: mview_ack mview_reply_u64 split: option.splits)
    then show ?thesis by (simp add: mem_ok_mview)
  qed
qed

lemma mark_msg_handled_mem:
  assumes ok: "mem_ok bs w" and few: "length bs < 2 ^ 16" and r: "vring_mark_msg_handled K sy w = Some w'"
    and told: "\<And>i. vd_num_vrings_handling_msg (vw_vdev w) = 1 \<Longrightarrow> \<not> syncing i w"
  shows "mem_ok bs w'"
proof -
  let ?w1 = "upd_vdev (\<lambda>vd. vd\<lparr>vd_num_vrings_handling_msg := vd_num_vrings_handling_msg vd - 1\<rparr>) w"
  have hc: "mview (upd_vdev (vd_handle_complete_update f) x) = mview x" for f x by (rule mview_upd_vdev) (simp add: mdev_def)
  have ok1: "mem_ok bs ?w1" by (rule mem_ok_mview [OF mview_upd_vdev ok]) (simp add: mdev_def)
  show ?thesis
  proof (cases "vd_num_vrings_handling_msg (vw_vdev w) = 1")
    case False
    then have "w' = ?w1" using r by (auto simp: vring_mark_msg_handled_def upd_vdev_def Let_def split: if_splits)
    then show ?thesis using ok1 by simp
  next
    case True
    then have z: "vd_num_vrings_handling_msg (vw_vdev ?w1) = 0" by (simp add: upd_vdev_def)
    obtain c ret w2 where w2: "handle_complete K sy c ?w1 = Some (ret, w2)"
      "(case ret of Inl _ \<Rightarrow> vdev_disconnect K sy (upd_vdev (vd_handle_complete_update (\<lambda>_. None)) w2)
        | Inr _ \<Rightarrow> Some (upd_vdev (vd_handle_complete_update (\<lambda>_. None)) w2)) = Some w'"
      using r z True by (auto simp: vring_mark_msg_handled_def bind_eq_Some_conv Let_def)
    have "mem_ok bs w2"
      by (rule handle_complete_mem [OF ok1 few w2(1)]) (use told [OF True] in \<open>simp add: upd_vdev_def\<close>)
    then have ok3: "mem_ok bs (upd_vdev (vd_handle_complete_update (\<lambda>_. None)) w2)" (is "mem_ok bs ?w3")
      by (rule mem_ok_mview [OF hc])
    show ?thesis
    proof (cases "ret = OK \<or> vd_conn_handler (vw_vdev ?w3) = None")
      case True
      then have "w' = ?w3" using w2(2) by (auto simp: vdev_disconnect_def split: sum.splits)
      then show ?thesis using ok3 by simp
    next
      case False
      then have "vdev_disconnect K sy ?w3 = Some w'" using w2(2) by (auto split: sum.splits)
      then show ?thesis
        by (intro disconnect_mem [of bs ?w3 K sy]) (use ok3 False few in \<open>auto simp: mem_ok_def live_vring_def\<close>)
    qed
  qed
qed

lemma mark_stopped_mem:
  assumes ok: "mem_ok bs w" and few: "length bs < 2 ^ 16" and r: "vring_mark_stopped K sy w = Some w'"
  shows "mem_ok bs w'"
proof -
  let ?w0 = "upd_vdev (\<lambda>vd. vd\<lparr>vd_num_vrings_started := vd_num_vrings_started vd - 1\<rparr>) w"
  obtain w1 where w1: "vdev_maybe_vrings_stopped ?w0 = Some w1" "vdev_maybe_drained K sy w1 = Some w'"
    using r by (auto simp: vring_mark_stopped_def bind_eq_Some_conv split: if_splits)
  have "mview ?w0 = mview w" by (rule mview_upd_vdev) (simp add: mdev_def)
  then have "mem_ok bs w1" using mview_maybe_vrings_stopped [OF w1(1)] ok mem_ok_mview by metis
  then show ?thesis by (rule maybe_drained_mem [OF _ w1(2) few])
qed

lemma reply_sent: "vhost_reply sy p len w = Some (ret, w') \<Longrightarrow> send_ok sy \<Longrightarrow> ret = OK"
  by (auto simp: vhost_reply_def vhost_reply_fds_def vhost_send_fds_def net_send_msg_def send_ok_def Let_def split: if_splits)

lemma ack_sent: "vhost_ack sy r w = Some (ret, w') \<Longrightarrow> send_ok sy \<Longrightarrow> ret = OK"
  by (auto simp: vhost_ack_def vhost_reply_u64_def dest: reply_sent split: if_splits)

lemma on_drain_mview:
  assumes "vring_on_drain K sy i w = Some w'" and "send_ok sy"
  shows "mview w' = mview w"
proof -
  have c: "mview (upd_vring i (vr_on_drain_cb_update f) x) = mview x" for f x by (rule mview_upd_vring) (simp add: mflags_def)
  show ?thesis
  proof (cases "vr_on_drain_cb (vring i w)")
    case True
    then obtain ret w1 where w1: "vhost_send_vring_base sy i w = Some (ret, w1)"
      "(case ret of Inl _ \<Rightarrow> vdev_disconnect K sy (upd_vring i (vr_on_drain_cb_update (\<lambda>_. False)) w1)
        | Inr _ \<Rightarrow> Some (upd_vring i (vr_on_drain_cb_update (\<lambda>_. False)) w1)) = Some w'"
      using assms(1) by (auto simp: vring_on_drain_def bind_eq_Some_conv Let_def)
    have "ret = OK" using w1(1) assms(2) by (simp add: vhost_send_vring_base_def reply_sent)
    then show ?thesis using w1 mview_send_base [OF w1(1)] c by auto
  qed (use assms(1) in \<open>simp add: vring_on_drain_def\<close>)
qed

text \<open>A drained vring has nothing; what it had before does not matter.\<close>

lemma mark_drained_mem:
  assumes maps: "maps_ok (refs bs (vw_vdev w)) (m_mms (vw_machine w))" and logs: "logs_ok w"
    and live: "\<And>j. j < length (vd_vrings (vw_vdev w)) \<Longrightarrow> j \<noteq> i \<Longrightarrow> live_vring bs w j"
    and i: "i < length (vd_vrings (vw_vdev w))" "n_bios bs i = 0"
    and cnt: "unat (vd_num_queues (vw_vdev w)) = length (vd_vrings (vw_vdev w))"
      "unat (vd_num_vrings_in_flight (vw_vdev w)) = count_if vr_started_in_ctl (vd_vrings (vw_vdev w))"
    and r: "vring_mark_drained K sy i w = Some w'" and send: "send_ok sy" and few: "length bs < 2 ^ 16"
  shows "mem_ok bs w'"
proof -
  define w0 where "w0 = upd_vring i (vr_started_in_ctl_update (\<lambda>_. False)) w"
  obtain w1 vq where w1: "vr_started_in_ctl (vring i w)" "vring_on_drain K sy i w0 = Some w1" "virtio_virtq_release (vr_vq (vring i w1)) = Some vq"
    "vdev_maybe_drained K sy (upd_vdev (\<lambda>vd. vd\<lparr>vd_num_vrings_in_flight := vd_num_vrings_in_flight vd - 1\<rparr>)
       (vring_reset i (upd_vring i (vr_vq_update (\<lambda>_. vq)) w1))) = Some w'" (is "vdev_maybe_drained K sy ?x = _")
    using r by (auto simp: vring_mark_drained_def w0_def bind_eq_Some_conv split: if_splits)
  have vq: "vq = zero_virtq" using w1(3) by (simp add: virtio_virtq_release_def split: if_splits)
  have m1: "mview w1 = mview w0" by (rule on_drain_mview [OF w1(2) send])
  let ?v = "(vring i w)\<lparr>vr_started_in_ctl := False, vr_vq := zero_virtq,
    vr_shadow_vq := \<lparr>sh_flags = 0, sh_desc = 0, sh_avail = 0, sh_used = 0, sh_mm = 0, sh_log = None\<rparr>\<rparr>"
  let ?y = "upd_vdev (\<lambda>vd. vd\<lparr>vd_num_vrings_in_flight := vd_num_vrings_in_flight vd - 1, vd_vrings := (vd_vrings vd)[i := ?v]\<rparr>) w"
  have nz: "vd_num_vrings_in_flight (vw_vdev w) \<noteq> 0"
    using cnt(2) count_if_pos [of i "vd_vrings (vw_vdev w)" vr_started_in_ctl] i(1) w1(1) by auto
  have "counted ?y"
  proof -
    have "count_if vr_started_in_ctl ((vd_vrings (vw_vdev w))[i := ?v]) + 1 = count_if vr_started_in_ctl (vd_vrings (vw_vdev w))"
      using count_if_update [OF i(1), of vr_started_in_ctl ?v] w1(1) by simp
    then have "unat (vd_num_vrings_in_flight (vw_vdev w) - 1) = count_if vr_started_in_ctl ((vd_vrings (vw_vdev w))[i := ?v])"
      using cnt(2) nz by (simp add: unat_minus_one)
    then have "\<not> vr_started_in_ctl ((vd_vrings (vw_vdev w))[i := ?v] ! j)"
      if "vd_num_vrings_in_flight (vw_vdev w) - 1 = 0" "j < length (vd_vrings (vw_vdev w))" for j
      using that count_if_pos [of j "(vd_vrings (vw_vdev w))[i := ?v]" vr_started_in_ctl] by fastforce
    then show ?thesis using cnt(1) by (simp add: counted_def upd_vdev_def)
  qed
  then have ok: "mem_ok bs ?y"
    by (intro mem_ok_one [OF maps logs live, of i])
      (use i in \<open>simp_all add: framed_none mrest_def upd_vdev_def logs_ok_def live_vring_def queue_ok_def shadow_ok_def buffers_ok_def\<close>)
  define h :: "vhd_vring \<Rightarrow> vhd_vring" where "h v = v\<lparr>vr_vq := zero_virtq, vr_shadow_vq := vr_shadow_vq ?v\<rparr>" for v
  have "mview (vring_reset i (upd_vring i (vr_vq_update (\<lambda>_. vq)) w1)) = mview (upd_vring i h w1)"
    by (cases "i < length (vd_vrings (vw_vdev w1))") (simp_all add: vq h_def vring_reset_def mview_def mview0_def mdev_def mflags_def
        upd_vring_def upd_vdev_def replace_fd_def act_def map_update list_update_beyond Let_def)
  also have "\<dots> = mview (upd_vring i h w0)" by (rule mview_vring_cong [OF m1]) (simp add: h_def mflags_def)
  finally have "mview ?x = mview (upd_vdev (\<lambda>vd. vd\<lparr>vd_num_vrings_in_flight := vd_num_vrings_in_flight vd - 1\<rparr>) (upd_vring i h w0))"
    by (simp add: mview_def mview0_def mdev_def upd_vdev_def)
  also have "\<dots> = mview ?y"
    using i(1) by (simp add: h_def w0_def mview_def mview0_def mdev_def mflags_def upd_vring_def upd_vdev_def map_update)
  finally have "mview ?x = mview ?y" .
  with ok have "mem_ok bs ?x" by (simp add: mem_ok_mview)
  then show ?thesis by (rule maybe_drained_mem [OF _ w1(4) few])
qed

text \<open>A vring that failed to start: the message is answered, then it is dropped.\<close>

lemma failed_msg_mview:
  assumes r: "vring_mark_msg_handled K sy w = Some w'" and send: "send_ok sy"
    and c: "vd_handle_complete (vw_vdev w) = Some SetVringKickFailComplete"
  shows "mview w' = mview w"
proof -
  let ?w1 = "upd_vdev (\<lambda>vd. vd\<lparr>vd_num_vrings_handling_msg := vd_num_vrings_handling_msg vd - 1\<rparr>) w"
  have m1: "mview ?w1 = mview w" by (rule mview_upd_vdev) (simp add: mdev_def)
  have hc: "mview (upd_vdev (vd_handle_complete_update f) x) = mview x" for f x by (rule mview_upd_vdev) (simp add: mdev_def)
  have c1: "vd_handle_complete (vw_vdev ?w1) = Some SetVringKickFailComplete" using c by (simp add: upd_vdev_def)
  show ?thesis
  proof (cases "vd_num_vrings_handling_msg (vw_vdev ?w1) = 0")
    case True
    then obtain ret w2 where w2: "vhost_ack sy (- int (errno_code EIO)) ?w1 = Some (ret, w2)"
      "(case ret of Inl _ \<Rightarrow> vdev_disconnect K sy (upd_vdev (vd_handle_complete_update (\<lambda>_. None)) w2)
        | Inr _ \<Rightarrow> Some (upd_vdev (vd_handle_complete_update (\<lambda>_. None)) w2)) = Some w'"
      using r c1 by (auto simp: vring_mark_msg_handled_def handle_complete_def bind_eq_Some_conv Let_def split: if_splits)
    then have "w' = upd_vdev (vd_handle_complete_update (\<lambda>_. None)) w2" using ack_sent [OF w2(1) send] by simp
    then show ?thesis using mview_ack [OF w2(1)] m1 hc by simp
  next
    case False
    then have "w' = ?w1" using r by (simp add: vring_mark_msg_handled_def Let_def split: if_splits)
    then show ?thesis using m1 by simp
  qed
qed

lemma mark_stopped_mview:
  assumes r: "vring_mark_stopped K sy w = Some w'" and nz: "vd_num_vrings_in_flight (vw_vdev w) \<noteq> 0"
  shows "mview w' = mview w"
proof -
  let ?w0 = "upd_vdev (\<lambda>vd. vd\<lparr>vd_num_vrings_started := vd_num_vrings_started vd - 1\<rparr>) w"
  obtain w1 where w1: "vdev_maybe_vrings_stopped ?w0 = Some w1" "vdev_maybe_drained K sy w1 = Some w'"
    using r by (auto simp: vring_mark_stopped_def bind_eq_Some_conv split: if_splits)
  have "mview ?w0 = mview w" by (rule mview_upd_vdev) (simp add: mdev_def)
  then have m: "mview w1 = mview w" using mview_maybe_vrings_stopped [OF w1(1)] by simp
  then have "vd_num_vrings_in_flight (vw_vdev w1) \<noteq> 0" using nz by (simp add: mview_def mview0_def mdev_def)
  then show ?thesis using w1(2) m by (simp add: vdev_maybe_drained_def vdev_in_use_def)
qed

lemma mview_counts:
  assumes "mview0 w' = mview0 w"
  shows "count_if vr_started_in_ctl (vd_vrings (vw_vdev w')) = count_if vr_started_in_ctl (vd_vrings (vw_vdev w))"
proof -
  have c: "count_if vr_started_in_ctl vs = count_if fst (map mflags vs)" for vs
    by (simp add: filter_map comp_def mflags_def)
  have "map mflags (vd_vrings (vw_vdev w')) = map mflags (vd_vrings (vw_vdev w))" using assms by (simp add: mview0_def mdev_def)
  then show ?thesis using c by metis
qed

lemma inv_counts:
  assumes "vdev_inv w"
  shows "unat (vd_num_queues (vw_vdev w)) = length (vd_vrings (vw_vdev w))"
    and "unat (vd_num_vrings_in_flight (vw_vdev w)) = count_if vr_started_in_ctl (vd_vrings (vw_vdev w))"
  using assms by (simp_all add: vdev_inv_def core_def counts_ok_def Let_def)

lemma start_failed_mem:
  assumes inv: "vdev_inv w" and ok: "mem_ok (bios w) w" and bh: "VringStartFailed i \<in> set (vw_ctl w)" and send: "send_ok sy"
    and r: "vring_start_failed_bh K sy i (w\<lparr>vw_ctl := remove1 (VringStartFailed i) (vw_ctl w)\<rparr>) = Some w'"
    and few: "length (bios w) < 2 ^ 16"
  shows "mem_ok (bios w) w'"
proof -
  let ?w = "w\<lparr>vw_ctl := remove1 (VringStartFailed i) (vw_ctl w)\<rparr>"
  let ?z = "upd_vdev (vd_handle_complete_update (\<lambda>_. Some SetVringKickFailComplete)) ?w"
  have core: "core (bios w) 0 0 w" using inv by (simp add: vdev_inv_def)
  have "starting i w" using bh by (simp add: starting_def)
  note f = starting_facts [OF core this] and cnt = inv_counts [OF inv]
  have nz: "vd_num_vrings_in_flight (vw_vdev w) \<noteq> 0"
    using cnt(2) count_if_pos [OF f(3), of vr_started_in_ctl] f(4) by auto
  obtain w1 w2 where w2: "vring_mark_msg_handled K sy ?z = Some w1" "vring_mark_stopped K sy w1 = Some w2"
    "vring_mark_drained K sy i w2 = Some w'"
    using r by (auto simp: vring_start_failed_bh_def bind_eq_Some_conv)
  have "mview ?z = mview ?w" by (rule mview_upd_vdev) (simp add: mdev_def)
  moreover have "mview w1 = mview ?z" by (rule failed_msg_mview [OF w2(1) send]) (simp add: upd_vdev_def)
  ultimately have m1: "mview w1 = mview ?w" by simp
  then have "vd_num_vrings_in_flight (vw_vdev w1) \<noteq> 0" using nz by (simp add: mview_def mview0_def mdev_def)
  then have m: "mview w2 = mview ?w" using mark_stopped_mview [OF w2(2)] m1 by simp
  then have m0: "mview0 w2 = mview0 ?w" and sy: "syncing j w2 = syncing j ?w" for j
    by (simp_all add: mview_def fun_eq_iff)
  have d: "vd_num_queues (vw_vdev w2) = vd_num_queues (vw_vdev w)" "vd_num_vrings_in_flight (vw_vdev w2) = vd_num_vrings_in_flight (vw_vdev w)"
    "m_mms (vw_machine w2) = m_mms (vw_machine w)" "length (vd_vrings (vw_vdev w2)) = length (vd_vrings (vw_vdev w))"
    using m0 mview0_nth(1) [OF m0] by (simp_all add: mview0_def mdev_def)
  have live: "live_vring (bios w) w2 j" if j: "j < length (vd_vrings (vw_vdev w2))" "j \<noteq> i" for j
  proof (rule live_vring_syncs [OF _ _ m0])
    have "live_vring (bios w) ?w j = live_vring (bios w) w j" using j(2) by (intro live_vring_cong) (simp_all add: mrest_def)
    then show "live_vring (bios w) ?w j" using ok j d(4) by (simp add: mem_ok_def)
  qed (use j sy d(4) in simp_all)
  have maps: "maps_ok (refs (bios w) (vw_vdev w2)) (m_mms (vw_machine w2))" and logs: "logs_ok w2"
    using ok mview0_fields(1-3) [OF m0] by (simp_all add: mem_ok_def logs_ok_def)
  show ?thesis
    by (rule mark_drained_mem [OF maps logs live _ f(6) _ _ w2(3) send few]) (use f(3) cnt d mview_counts [OF m0] in simp_all)
qed

lemma run_ctl_bh_mem:
  assumes inv: "vdev_inv w" and ok: "mem_ok (bios w) w" and bh: "bh \<in> set (vw_ctl w)" and send: "send_ok sy"
    and r: "run_ctl_bh K sy bh (w\<lparr>vw_ctl := remove1 bh (vw_ctl w)\<rparr>) = Some w'" and few: "length (bios w) < 2 ^ 16"
  shows "mem_ok (bios w) w'"
proof -
  let ?w = "w\<lparr>vw_ctl := remove1 bh (vw_ctl w)\<rparr>"
  have core: "core (bios w) 0 0 w" using inv by (simp add: vdev_inv_def)
  have m: "mview ?w = mview w" if "\<nexists>i. bh = VringStartFailed i"
  proof -
    have "VringStartFailed i \<in> set (remove1 bh (vw_ctl w)) \<longleftrightarrow> VringStartFailed i \<in> set (vw_ctl w)" for i
      using that in_set_remove1 by metis
    then show ?thesis by (simp add: mview_def mview0_def)
  qed
  have ok0: "mem_ok (bios w) ?w" if "\<nexists>i. bh = VringStartFailed i" by (rule mem_ok_mview [OF m [OF that] ok])
  show ?thesis
  proof (cases bh)
    case (VringMarkMsgHandled i)
    have told: "\<not> syncing j ?w" if "vd_num_vrings_handling_msg (vw_vdev ?w) = 1" for j
    proof -
      have "count_if is_msg_rq (vw_rq w) + count_if is_msg_ctl (vw_ctl w) = 1"
        using core that by (simp add: core_def counts_ok_def Let_def)
      moreover have "count_if is_msg_ctl (vw_ctl w) \<noteq> 0" unfolding count_if_0 using bh VringMarkMsgHandled by (metis is_msg_ctl.simps(1))
      ultimately have "count_if is_msg_rq (vw_rq w) = 0" by linarith
      then show ?thesis unfolding count_if_0 by auto
    qed
    show ?thesis
      by (rule mark_msg_handled_mem [OF ok0 few _ told]) (use r VringMarkMsgHandled in \<open>simp_all add: run_ctl_bh_def\<close>)
  next
    case (VringMarkStopped i)
    then show ?thesis using mark_stopped_mem [OF ok0 few] r by (simp add: run_ctl_bh_def)
  next
    case (VringMarkDrained i)
    have i: "i < length (vd_vrings (vw_vdev w))" using core bh VringMarkDrained by (auto simp: core_def counts_ok_def Let_def)
    then have "vring_ok (bios w) w i" using core by (simp add: core_def)
    then have n: "n_bios (bios w) i = 0" using bh VringMarkDrained by (simp add: vring_ok_def Let_def)
    have okw: "mem_ok (bios w) ?w" using ok0 VringMarkDrained by simp
    show ?thesis
      by (rule mark_drained_mem [of "bios w" ?w i K sy w'])
        (use okw i n inv_counts [OF inv] r VringMarkDrained send few in \<open>simp_all add: mem_ok_def run_ctl_bh_def\<close>)
  next
    case (VringStartFailed i)
    then show ?thesis using start_failed_mem [OF inv ok _ send _ few] bh r by (simp add: run_ctl_bh_def)
  qed
qed

section \<open>Bottom halves of the request queue\<close>

text \<open>A queue takes over what the control thread prepared.\<close>

definition synced :: "vhd_vring \<Rightarrow> vhd_vring \<Rightarrow> bool" where
  "synced u v \<longleftrightarrow> vr_started_in_ctl v = vr_started_in_ctl u \<and> vr_shadow_vq v = vr_shadow_vq u \<and>
     vq_mm (vr_vq v) = sh_mm (vr_shadow_vq u) \<and> vq_log (vr_vq v) = sh_log (vr_shadow_vq u) \<and> vq_qsz (vr_vq v) = vq_qsz (vr_vq u) \<and>
     vq_max_chain_len (vr_vq v) = vq_max_chain_len (vr_vq u) \<and> vq_buffers (vr_vq v) = vq_buffers (vr_vq u)"

text \<open>Everything but the vrings.\<close>

definition mworld where
  "mworld w = (mrest w, m_mms (vw_machine w), m_logs (vw_machine w), vw_next_log w, vd_num_queues (vw_vdev w), vd_num_vrings_in_flight (vw_vdev w))"

lemma sync_fields:
  assumes "i < length (vd_vrings (vw_vdev w))"
  shows "\<exists>v. vd_vrings (vw_vdev (vring_sync_to_virtq i w)) = (vd_vrings (vw_vdev w))[i := v] \<and> synced (vring i w) v"
    and "mworld (vring_sync_to_virtq i w) = mworld w"
    and "vw_rq (vring_sync_to_virtq i w) = vw_rq w" and "vw_ctl (vring_sync_to_virtq i w) = vw_ctl w"
  using assms
  by (simp_all add: vring_sync_to_virtq_def virtq_set_notify_fd_def virtq_do_notify_def upd_vring_def upd_vdev_def mrest_def
      mworld_def synced_def Let_def) (rule exI, intro conjI, rule refl, simp_all)

lemma mem_ok_synced:
  assumes ok: "mem_ok bs w" and i: "i < length (vd_vrings (vw_vdev w))" and pend: "syncing i w \<or> launching i w"
    and v: "vd_vrings (vw_vdev x) = (vd_vrings (vw_vdev w))[i := v]" "synced (vring i w) v" and rest: "mworld x = mworld w"
    and bhs: "syncing i x \<Longrightarrow> syncing i w" "launching i x \<Longrightarrow> launching i w"
      "\<And>j. j \<noteq> i \<Longrightarrow> syncing j x = syncing j w \<and> launching j x = launching j w \<and>
        (VringStartFailed j \<in> set (vw_ctl x) \<longleftrightarrow> VringStartFailed j \<in> set (vw_ctl w))"
  shows "mem_ok bs x"
proof -
  have r: "vd_memmap (vw_vdev x) = vd_memmap (vw_vdev w)" "vd_memlog (vw_vdev x) = vd_memlog (vw_vdev w)"
    "(vd_conn_handler (vw_vdev x) = None) = (vd_conn_handler (vw_vdev w) = None)" "mrest x = mrest w"
    "m_mms (vw_machine x) = m_mms (vw_machine w)" "logs_ok w \<Longrightarrow> logs_ok x"
    using rest by (simp_all add: mworld_def mrest_def logs_ok_def)
  have xi: "vring i x = v" using v(1) i by simp
  have l: "live_vring bs w i" using ok i by (simp add: mem_ok_def)
  have sh: "shadow_ok w i" and bf: "buffers_ok bs w i" using l by (simp_all add: live_vring_def)
  have "vr_started_in_ctl v \<longrightarrow> vd_memmap (vw_vdev w) = Some (vq_mm (vr_vq v)) \<and>
      (vq_log (vr_vq v) = None \<or> vq_log (vr_vq v) = vd_memlog (vw_vdev w))"
    using sh pend v(2) unfolding shadow_ok_def synced_def Let_def by auto
  then have "queue_ok x i" unfolding queue_ok_def Let_def xi r by blast
  moreover have "shadow_ok x i"
    using sh v(2) bhs(1,2) unfolding shadow_ok_def synced_def Let_def xi r(1,2) by (auto simp: r(3))
  moreover have "buffers_ok bs x i" using bf v(2) unfolding buffers_ok_def synced_def Let_def xi by simp
  moreover have "counted x"
  proof -
    have "vr_started_in_ctl (vring j x) = vr_started_in_ctl (vring j w)" for j
      using v i by (cases "j = i") (simp_all add: synced_def)
    then show ?thesis using ok rest v(1) by (simp add: mem_ok_def counted_def mworld_def)
  qed
  ultimately show ?thesis
    by (intro mem_ok_one [of bs w i x v]) (use ok r v(1) bhs(3) in \<open>auto simp: mem_ok_def live_vring_def\<close>)
qed

lemma sync_bh_mem:
  assumes ok: "mem_ok bs w" and bh: "VringSyncToVirtq i \<in> set (vw_rq w)" and i: "i < length (vd_vrings (vw_vdev w))"
  shows "mem_ok bs (vring_sync_to_virtq_bh i (w\<lparr>vw_rq := remove1 (VringSyncToVirtq i) (vw_rq w)\<rparr>))"
proof -
  let ?w = "w\<lparr>vw_rq := remove1 (VringSyncToVirtq i) (vw_rq w)\<rparr>"
  have i': "i < length (vd_vrings (vw_vdev ?w))" using i by simp
  note f = sync_fields [OF i']
  obtain v where v: "vd_vrings (vw_vdev (vring_sync_to_virtq i ?w)) = (vd_vrings (vw_vdev w))[i := v]" "synced (vring i w) v"
    using f(1) by auto
  have "mem_ok bs (vring_sync_to_virtq i ?w)"
    by (rule mem_ok_synced [OF ok i _ v])
      (use bh f(2-4) notin_set_remove1 in \<open>fastforce simp: mworld_def mrest_def\<close>)+
  then have "mem_ok bs (run_in_ctl (VringMarkMsgHandled i) (vring_sync_to_virtq i ?w))" by (rule mem_ok_mview [OF mview_ctl, rotated]) simp
  then show ?thesis by (simp add: vring_sync_to_virtq_bh_def)
qed

lemma start_bh_mem:
  assumes ok: "mem_ok bs w" and bh: "VringStart i \<in> set (vw_rq w)" and i: "i < length (vd_vrings (vw_vdev w))"
    and r: "vring_start_bh sy i (w\<lparr>vw_rq := remove1 (VringStart i) (vw_rq w)\<rparr>) = Some w'"
  shows "mem_ok bs w'"
proof -
  let ?w = "w\<lparr>vw_rq := remove1 (VringStart i) (vw_rq w)\<rparr>"
  show ?thesis
  proof (cases "vr_disconnecting (vring i w) \<or> \<not> sy_epoll_add sy (vr_kickfd (vring i w))")
    case True
    then have w': "w' = run_in_ctl (VringStartFailed i) ?w" using r by (simp add: vring_start_bh_def split: if_splits)
    have l: "live_vring bs w i" using ok i by (simp add: mem_ok_def)
    have "queue_ok w' i" by (simp add: w' queue_ok_def starting_def run_in_ctl_def Let_def)
    moreover have "shadow_ok w' i" using l notin_set_remove1
      by (fastforce simp: w' live_vring_def shadow_ok_def run_in_ctl_def Let_def)
    moreover have "buffers_ok bs w' i" using l by (simp add: w' live_vring_def buffers_ok_def run_in_ctl_def Let_def)
    moreover have "counted w'" using ok by (simp add: w' mem_ok_def counted_def run_in_ctl_def)
    ultimately show ?thesis
      by (intro mem_ok_one [of bs w i w' "vring i w"])
        (use ok in \<open>auto simp: w' mem_ok_def live_vring_def mrest_def logs_ok_def run_in_ctl_def\<close>)
  next
    case False
    let ?u = "upd_vring i (\<lambda>v. v\<lparr>vr_kick_handler := Some True\<rparr>) ?w"
    define x where "x = upd_vring i (\<lambda>v. v\<lparr>vr_started_in_rq := True\<rparr>) (vring_sync_to_virtq i ?u)"
    have w': "w' = run_in_ctl (VringMarkMsgHandled i) x"
      using r False by (simp add: vring_start_bh_def x_def split: if_splits)
    have iu: "i < length (vd_vrings (vw_vdev ?u))" using i by (simp add: upd_vring_def upd_vdev_def)
    note f = sync_fields [OF iu]
    obtain v where v: "vd_vrings (vw_vdev (vring_sync_to_virtq i ?u)) = (vd_vrings (vw_vdev ?u))[i := v]" "synced (vring i ?u) v"
      using f(1) by auto
    have vx: "vd_vrings (vw_vdev x) = (vd_vrings (vw_vdev w))[i := v\<lparr>vr_started_in_rq := True\<rparr>]"
      using v(1) i by (simp add: x_def upd_vring_def upd_vdev_def)
    have sx: "synced (vring i w) (v\<lparr>vr_started_in_rq := True\<rparr>)"
      using v(2) i by (simp add: synced_def upd_vring_def upd_vdev_def)
    have fx: "mworld x = mworld w" "vw_rq x = vw_rq ?w" "vw_ctl x = vw_ctl w"
      using f(2-4) by (simp_all add: x_def mworld_def mrest_def upd_vring_def upd_vdev_def)
    have "mem_ok bs x"
      by (rule mem_ok_synced [OF ok i _ vx sx fx(1)]) (use bh fx notin_set_remove1 in fastforce)+
    then show ?thesis unfolding w' by (rule mem_ok_mview [OF mview_ctl, rotated]) simp
  qed
qed

lemma stop_bh_mem:
  assumes ok: "mem_ok bs w" and calm: "calm_stop i w" and i: "i < length (vd_vrings (vw_vdev w))"
    and r: "vring_stop_bh K i (w\<lparr>vw_rq := remove1 (VringStop i) (vw_rq w)\<rparr>) = Some w'"
  shows "mem_ok bs w'"
proof -
  let ?w = "w\<lparr>vw_rq := remove1 (VringStop i) (vw_rq w)\<rparr>"
  let ?x = "upd_vring i (\<lambda>v. v\<lparr>vr_kick_handler := None, vr_started_in_rq := False\<rparr>) ?w"
  let ?y = "run_in_ctl (VringMarkStopped i) (upd_vring i (\<lambda>v. v\<lparr>vr_num_in_flight_at_stop := vr_num_in_flight v\<rparr>) ?x)"
  have "(if vr_disconnecting (vring i ?x) then vring_cancel_queued K i ?x else Some ?x) = Some ?x"
    using calm i by (simp add: calm_stop_def vring_cancel_none upd_vring_def upd_vdev_def)
  then have "w' = ?w \<or> w' = ?y \<or> w' = run_in_ctl (VringMarkDrained i) ?y"
    using r by (auto simp: vring_stop_bh_def Let_def split: if_splits)
  moreover have "mview ?w = mview w" by (simp add: mview_def mview0_def)
  then have "mview ?y = mview w"
    by (simp add: mview_ctl mview_upd_vring mflags_def)
  ultimately have "mview w' = mview w" using \<open>mview ?w = mview w\<close> by (auto simp: mview_ctl)
  then show ?thesis by (rule mem_ok_mview [OF _ ok])
qed

lemma run_rq_bh_mem:
  assumes inv: "vdev_inv w" and ok: "mem_ok (bios w) w" and bh: "bh \<in> set (vw_rq w)"
    and calm: "\<And>i. bh = VringStop i \<Longrightarrow> calm_stop i w"
    and r: "run_rq_bh K sy bh (w\<lparr>vw_rq := remove1 bh (vw_rq w)\<rparr>) = Some w'"
  shows "mem_ok (bios w') w'"
proof -
  have "bios w' = bios w" using run_rq_bh_ok [OF inv bh calm, of K sy] r by auto
  moreover have i: "i < length (vd_vrings (vw_vdev w))" if "bh = VringSyncToVirtq i \<or> bh = VringStart i \<or> bh = VringStop i" for i
    using inv bh that by (auto simp: vdev_inv_def core_def counts_ok_def Let_def)
  moreover have "mem_ok (bios w) w'"
  proof (cases bh)
    case (VringSyncToVirtq j)
    then show ?thesis using sync_bh_mem [OF ok _ i [of j]] bh r by (simp add: run_rq_bh_def)
  next
    case (VringStart j)
    then show ?thesis using start_bh_mem [OF ok _ i [of j]] bh r by (simp add: run_rq_bh_def)
  next
    case (VringStop j)
    then show ?thesis using stop_bh_mem [OF ok calm i [of j]] r by (simp add: run_rq_bh_def)
  qed
  ultimately show ?thesis by simp
qed

end
