(* ===== verification/Vdev_Mem_Msg.thy ===== *)
theory Vdev_Mem_Msg
  imports Vdev_Mem_Ctl
begin

text \<open>
  The message handlers keep the invariant on maps and logs, also the ones that replace a map or a
  log while vrings use it.
\<close>

section \<open>What a handler achieves\<close>

text \<open>The state in which a handler is called: nothing is being replaced and no vring is being told.\<close>

definition fresh :: "vhd_bio list \<Rightarrow> vworld \<Rightarrow> bool" where
  "fresh bs w \<longleftrightarrow> ready bs w \<and> mem_ok bs w \<and> length bs < 2 ^ 16"

lemma fresh_facts:
  assumes "fresh bs w"
  shows "vd_old_memmap (vw_vdev w) = None" and "vd_old_memlog (vw_vdev w) = None" and "vd_conn_handler (vw_vdev w) \<noteq> None"
    and "\<not> syncing i w" and "\<not> launching i w" and "\<not> starting i w"
    and "i < length (vd_vrings (vw_vdev w)) \<Longrightarrow> \<not> vr_started_in_ctl (vring i w) \<Longrightarrow> n_bios bs i = 0"
    and "unat (vd_num_queues (vw_vdev w)) = length (vd_vrings (vw_vdev w))" and "ready bs w" and "mem_ok bs w"
proof -
  have r: "core bs 0 0 w" "idle w" "vd_conn_handler (vw_vdev w) \<noteq> None" using assms by (simp_all add: fresh_def ready_def)
  then show "vd_old_memmap (vw_vdev w) = None" "vd_old_memlog (vw_vdev w) = None" "vd_conn_handler (vw_vdev w) \<noteq> None"
    by (simp_all add: core_def msg_ok_def idle_def Let_def)
  have n: "count_if is_msg_rq (vw_rq w) = 0" "count_if is_msg_ctl (vw_ctl w) = 0"
    using r by (simp_all add: core_def counts_ok_def idle_def Let_def)
  then show "\<not> syncing i w" "\<not> launching i w" by (auto simp: filter_empty_conv)
  show "\<not> starting i w" by (intro no_more_msgs) (use n in simp)
  show "i < length (vd_vrings (vw_vdev w)) \<Longrightarrow> \<not> vr_started_in_ctl (vring i w) \<Longrightarrow> n_bios bs i = 0"
    using r(1) by (auto simp: core_def vring_ok_def Let_def)
  show "unat (vd_num_queues (vw_vdev w)) = length (vd_vrings (vw_vdev w))" using r(1) by (simp add: core_def counts_ok_def Let_def)
  show "ready bs w" "mem_ok bs w" using assms by (simp_all add: fresh_def)
qed

text \<open>The state in which a connection may be given up: shadows do not matter if they are not taken over.\<close>

definition severable :: "vhd_bio list \<Rightarrow> vworld \<Rightarrow> bool" where
  "severable bs w \<longleftrightarrow> maps_ok (refs bs (vw_vdev w)) (m_mms (vw_machine w)) \<and> logs_ok w \<and> counted w \<and>
     (\<forall>i<length (vd_vrings (vw_vdev w)). queue_ok w i \<and> buffers_ok bs w i \<and>
        (shadow_ok w i \<or> \<not> syncing i w \<and> \<not> launching i w))"

lemma severable_mem_ok: "mem_ok bs w \<Longrightarrow> severable bs w"
  by (simp add: severable_def mem_ok_def live_vring_def)

definition kept :: "vhd_bio list \<Rightarrow> status \<Rightarrow> vworld \<Rightarrow> bool" where
  "kept bs ret w \<longleftrightarrow> (if ret = OK then mem_ok bs w else severable bs w)"

lemma kept_mem_ok: "mem_ok bs w \<Longrightarrow> kept bs ret w"
  by (simp add: kept_def severable_mem_ok)

lemma severable_mview:
  assumes m: "mview w' = mview w" and s: "severable bs w"
  shows "severable bs w'"
proof -
  have m0: "mview0 w' = mview0 w" and sy: "\<And>i. syncing i w' = syncing i w"
    using m by (simp_all add: mview_def fun_eq_iff)
  note f = mview0_fields [OF m0]
  have "queue_ok w' i = queue_ok w i \<and> buffers_ok bs w' i = buffers_ok bs w i \<and> shadow_ok w' i = shadow_ok w i"
    if "i < length (vd_vrings (vw_vdev w))" for i
  proof -
    note v = mview0_nth(2) [OF m0 that, unfolded mflags_def]
    have st: "starting i w' = starting i w" using f(4,5) by (simp add: starting_def)
    have v': "vr_started_in_ctl (vring i w') = vr_started_in_ctl (vring i w)" "vq_mm (vr_vq (vring i w')) = vq_mm (vr_vq (vring i w))"
      "vq_log (vr_vq (vring i w')) = vq_log (vr_vq (vring i w))" "vq_qsz (vr_vq (vring i w')) = vq_qsz (vr_vq (vring i w))"
      "vq_max_chain_len (vr_vq (vring i w')) = vq_max_chain_len (vr_vq (vring i w))"
      "length (vq_buffers (vr_vq (vring i w'))) = length (vq_buffers (vr_vq (vring i w)))"
      "sh_mm (vr_shadow_vq (vring i w')) = sh_mm (vr_shadow_vq (vring i w))"
      "sh_log (vr_shadow_vq (vring i w')) = sh_log (vr_shadow_vq (vring i w))"
      using v by simp_all
    show ?thesis unfolding queue_ok_def shadow_ok_def buffers_ok_def Let_def v' f(4,6-10) st sy by blast
  qed
  then show ?thesis
    using s f(1-4) sy mview0_nth(1) [OF m0] mview0_counted [OF m0] by (simp add: severable_def)
qed

lemma kept_mview:
  assumes "mview w' = mview w" and "kept bs ret w"
  shows "kept bs ret w'"
  using assms mem_ok_mview [OF assms(1), of bs] severable_mview [OF assms(1), of bs] by (auto simp: kept_def)

lemma kept_same:
  assumes "fresh bs w" and "mview w' = mview w"
  shows "kept bs ret w'"
  by (rule kept_mview [OF assms(2)]) (simp add: kept_mem_ok fresh_facts(10) [OF assms(1)])

lemma conn_mview: "mview w' = mview w \<Longrightarrow> (vd_conn_handler (vw_vdev w') = None) = (vd_conn_handler (vw_vdev w) = None)"
  by (rule mview0_fields(10)) (simp add: mview_def)

section \<open>Handlers that do not touch maps and logs\<close>

lemmas mview_calls = mview_ack mview_reply mview_reply_fds mview_reply_u64 mview_send_base

lemma mview_get_protocol_features: "vhost_get_protocol_features sy p sz fds w = Some (ret, w') \<Longrightarrow> mview w' = mview w"
  by (auto simp: vhost_get_protocol_features_def dest: mview_calls split: if_splits)

lemma mview_set_protocol_features: "vhost_set_protocol_features sy p sz fds w = Some (ret, w') \<Longrightarrow> mview w' = mview w"
  by (auto simp: vhost_set_protocol_features_def Let_def mview_upd_vdev mdev_def dest!: mview_calls split: if_splits)

lemma mview_get_features: "vhost_get_features sy ty p sz fds w = Some (ret, w') \<Longrightarrow> mview w' = mview w"
  by (auto simp: vhost_get_features_def bind_eq_Some_conv mview_upd_vdev mdev_def dest!: mview_calls split: if_splits)

lemma mview_set_owner: "vhost_set_owner sy p sz fds w = Some (ret, w') \<Longrightarrow> mview w' = mview w"
  by (auto simp: vhost_set_owner_def dest: mview_calls split: if_splits)

lemma mview_get_config: "vhost_get_config sy ty p sz fds w = Some (ret, w') \<Longrightarrow> mview w' = mview w"
  by (auto simp: vhost_get_config_def Let_def dest: mview_calls split: if_splits)

lemma mview_get_queue_num: "vhost_get_queue_num sy p sz fds w = Some (ret, w') \<Longrightarrow> mview w' = mview w"
  by (auto simp: vhost_get_queue_num_def dest: mview_calls split: if_splits)

lemma mview_set_vring_base: "vhost_set_vring_base sy p sz fds w = Some (ret, w') \<Longrightarrow> mview w' = mview w"
  by (auto simp: vhost_set_vring_base_def Let_def mview_upd_vring mflags_def dest!: mview_calls split: if_splits option.splits)

lemma mview_get_vring_base: "vhost_get_vring_base sy p sz fds w = Some (ret, w') \<Longrightarrow> mview w' = mview w"
  by (auto simp: vhost_get_vring_base_def Let_def mview_upd_vring mview_rq_stop mflags_def dest!: mview_calls split: if_splits option.splits)

lemma mview_inflight_cleanup [simp]: "mview (inflight_mem_cleanup w) = mview w"
  by (simp add: inflight_mem_cleanup_def mview_upd_vdev mdev_def)

lemma mview_fold: "(\<And>i x. mview (f i x) = mview x) \<Longrightarrow> mview (fold f is w) = mview w"
  by (induction "is" arbitrary: w) simp_all

lemma mview_upd_machine:
  "m_mms (f (vw_machine w)) = m_mms (vw_machine w) \<Longrightarrow> m_logs (f (vw_machine w)) = m_logs (vw_machine w) \<Longrightarrow>
    mview (upd_machine f w) = mview w"
  by (simp add: upd_machine_def mview_machine)

lemma mview_mmap_region:
  assumes "inflight_mmap_region sy n q w = (ret, w')"
  shows "mview w' = mview w"
proof -
  have v: "mview (fold (\<lambda>i. upd_vring i (vr_vq_update (vq_inflight_region_update (g i)))) is x) = mview x" for g "is" x
    by (rule mview_fold, rule mview_upd_vring) (simp add: mflags_def)
  have "mview (upd_vdev (\<lambda>vd. vd\<lparr>vd_inflight_mem := b, vd_inflight_size := z\<rparr>) x) = mview x" for b z x
    by (rule mview_upd_vdev) (simp add: mdev_def)
  with assms show ?thesis
    by (auto simp: inflight_mmap_region_def Let_def v mview_upd_machine split: sum.splits)
qed

lemma mview_get_inflight_fd: "vhost_get_inflight_fd sy p sz fds w = Some (ret, w') \<Longrightarrow> mview w' = mview w"
  by (auto simp: vhost_get_inflight_fd_def inflight_mem_init_def Let_def bind_eq_Some_conv mview_upd_machine
      dest!: mview_calls mview_mmap_region split: if_splits sum.splits prod.splits)

lemma mview_set_inflight_fd: "vhost_set_inflight_fd sy p sz fds w = Some (ret, w') \<Longrightarrow> mview w' = mview w"
  by (auto simp: vhost_set_inflight_fd_def Let_def dest!: mview_calls mview_mmap_region split: if_splits sum.splits prod.splits)

section \<open>Telling vrings\<close>

lemma mview0_handle_msg: "mview0 (vring_handle_msg i (VringSyncToVirtq i) w) = mview0 w"
  by (simp add: vring_handle_msg_def mview0_def run_in_rq_def upd_vdev_def mdev_def)

lemma tell_mem:
  assumes "mem_ok bs w" and "vd_conn_handler (vw_vdev w) \<noteq> None"
  shows "mem_ok bs (vring_handle_msg i (VringSyncToVirtq i) (upd_vdev (vd_handle_complete_update f) w))"
proof -
  have "mview (upd_vdev (vd_handle_complete_update f) w) = mview w" by (rule mview_upd_vdev) (simp add: mdev_def)
  then have "mem_ok bs (upd_vdev (vd_handle_complete_update f) w)" using assms(1) by (rule mem_ok_mview)
  then show ?thesis
    by (rule mem_ok_syncs [OF _ mview0_handle_msg]) (use assms(2) in \<open>simp_all add: vring_handle_msg_def run_in_rq_def upd_vdev_def\<close>)
qed

text \<open>A map or a log has been replaced, and the queues still have the one from before.\<close>

definition replacing :: "vhd_bio list \<Rightarrow> vworld \<Rightarrow> bool" where
  "replacing bs w \<longleftrightarrow> maps_ok (refs bs (vw_vdev w)) (m_mms (vw_machine w)) \<and> logs_ok w \<and> counted w \<and> vd_conn_handler (vw_vdev w) \<noteq> None \<and>
     (\<forall>i<length (vd_vrings (vw_vdev w)). shadow_ok w i \<and> buffers_ok bs w i \<and>
        (let vd = vw_vdev w; vq = vr_vq (vring i w) in
         vr_started_in_ctl (vring i w) \<longrightarrow>
           (vd_memmap vd = Some (vq_mm vq) \<or> vd_old_memmap vd = Some (vq_mm vq)) \<and>
           (vq_log vq = None \<or> vq_log vq = vd_memlog vd \<or> vq_log vq = vd_old_memlog vd)))"

lemma sync_vrings_facts:
  shows "mview0 (sync_vrings c w) = mview0 w"
    and "i < unat (vd_num_queues (vw_vdev w)) \<Longrightarrow> vr_started_in_ctl (vring i w) \<Longrightarrow> syncing i (sync_vrings c w)"
proof -
  let ?n = "unat (vd_num_queues (vw_vdev w))"
  have e: "sync_vrings c w = handing (rev (map VringSyncToVirtq (started_of [0..<?n] w))) (upd_vdev (vd_handle_complete_update (\<lambda>_. Some c)) w)"
    using fold_handle_msg [of "[0..<?n]" "upd_vdev (vd_handle_complete_update (\<lambda>_. Some c)) w"]
    by (simp add: sync_vrings_def for_vrings_def started_of_def upd_vdev_def)
  show "mview0 (sync_vrings c w) = mview0 w" by (auto simp: e handing_def upd_vdev_def mview0_def mdev_def fun_eq_iff)
  show "i < ?n \<Longrightarrow> vr_started_in_ctl (vring i w) \<Longrightarrow> syncing i (sync_vrings c w)"
    by (auto simp: e handing_def upd_vdev_def started_of_def)
qed

lemma replacing_sync:
  assumes r: "replacing bs w"
  shows "mem_ok bs (sync_vrings c w)"
proof -
  let ?x = "sync_vrings c w"
  note m = sync_vrings_facts(1) [of c w]
  note f = mview0_fields [OF m]
  have n: "unat (vd_num_queues (vw_vdev w)) = length (vd_vrings (vw_vdev w))" using r by (simp add: replacing_def counted_def)
  have "live_vring bs ?x i" if i: "i < length (vd_vrings (vw_vdev w))" for i
  proof -
    have v: "vr_started_in_ctl (vring i ?x) = vr_started_in_ctl (vring i w)" "vq_mm (vr_vq (vring i ?x)) = vq_mm (vr_vq (vring i w))"
      "vq_log (vr_vq (vring i ?x)) = vq_log (vr_vq (vring i w))" "vq_qsz (vr_vq (vring i ?x)) = vq_qsz (vr_vq (vring i w))"
      "vq_max_chain_len (vr_vq (vring i ?x)) = vq_max_chain_len (vr_vq (vring i w))"
      "length (vq_buffers (vr_vq (vring i ?x))) = length (vq_buffers (vr_vq (vring i w)))"
      "sh_mm (vr_shadow_vq (vring i ?x)) = sh_mm (vr_shadow_vq (vring i w))"
      "sh_log (vr_shadow_vq (vring i ?x)) = sh_log (vr_shadow_vq (vring i w))"
      using mview0_nth(2) [OF m i] by (simp_all add: mflags_def)
    have q: "vr_started_in_ctl (vring i w) \<longrightarrow>
        (vd_memmap (vw_vdev w) = Some (vq_mm (vr_vq (vring i w))) \<or> vd_old_memmap (vw_vdev w) = Some (vq_mm (vr_vq (vring i w)))) \<and>
        (vq_log (vr_vq (vring i w)) = None \<or> vq_log (vr_vq (vring i w)) = vd_memlog (vw_vdev w) \<or>
         vq_log (vr_vq (vring i w)) = vd_old_memlog (vw_vdev w))"
      and sb: "shadow_ok w i" "buffers_ok bs w i" and conn: "vd_conn_handler (vw_vdev w) \<noteq> None"
      using r i unfolding replacing_def Let_def by auto
    have "queue_ok ?x i" using q sync_vrings_facts(2) [of i w c] i n unfolding queue_ok_def Let_def v f(6-9) by auto
    moreover have "shadow_ok ?x i" using sb(1) conn unfolding shadow_ok_def Let_def v f(4,6-10) by blast
    moreover have "buffers_ok bs ?x i" using sb(2) unfolding buffers_ok_def Let_def v .
    ultimately show ?thesis by (simp add: live_vring_def)
  qed
  then show ?thesis using r f(1-3) mview0_nth(1) [OF m] mview0_counted [OF m] by (simp add: mem_ok_def replacing_def)
qed

lemma replacing_unused:
  assumes "replacing bs w" and "vd_num_vrings_in_flight (vw_vdev w) = 0"
  shows "mem_ok bs w"
  using assms by (simp add: replacing_def mem_ok_def live_vring_def queue_ok_def counted_def Let_def)

section \<open>Memory tables\<close>

text \<open>The rings of some vrings have been resolved in a map.\<close>

definition resolved :: "nat \<Rightarrow> vworld \<Rightarrow> vworld \<Rightarrow> bool" where
  "resolved mid w w' \<longleftrightarrow> w' = upd_vdev (\<lambda>vd. vd\<lparr>vd_vrings := vd_vrings (vw_vdev w')\<rparr>) w \<and>
     length (vd_vrings (vw_vdev w')) = length (vd_vrings (vw_vdev w)) \<and>
     (\<forall>i<length (vd_vrings (vw_vdev w)). \<exists>sh. vring i w' = (vring i w)\<lparr>vr_shadow_vq := sh\<rparr> \<and>
        sh_log sh = sh_log (vr_shadow_vq (vring i w)) \<and> (sh_mm sh = mid \<or> sh_mm sh = sh_mm (vr_shadow_vq (vring i w))))"

lemma resolved_refl: "resolved mid w w"
  by (auto simp: resolved_def upd_vdev_def intro!: exI [of _ "vr_shadow_vq (vring i w)" for i])

lemma resolved_trans:
  assumes a: "resolved mid w x" and b: "resolved mid x y"
  shows "resolved mid w y"
proof -
  have l: "length (vd_vrings (vw_vdev x)) = length (vd_vrings (vw_vdev w))" "length (vd_vrings (vw_vdev y)) = length (vd_vrings (vw_vdev w))"
    using a b by (simp_all add: resolved_def)
  have x: "x = upd_vdev (\<lambda>vd. vd\<lparr>vd_vrings := vd_vrings (vw_vdev x)\<rparr>) w" using a by (simp add: resolved_def)
  have y: "y = upd_vdev (\<lambda>vd. vd\<lparr>vd_vrings := vd_vrings (vw_vdev y)\<rparr>) x" using b by (simp add: resolved_def)
  have "upd_vdev (\<lambda>vd. vd\<lparr>vd_vrings := vs\<rparr>) x = upd_vdev (\<lambda>vd. vd\<lparr>vd_vrings := vs\<rparr>) w" for vs
    by (subst x) (simp add: upd_vdev_def)
  then have "y = upd_vdev (\<lambda>vd. vd\<lparr>vd_vrings := vd_vrings (vw_vdev y)\<rparr>) w" using y by simp
  moreover have "\<exists>sh. vring i y = (vring i w)\<lparr>vr_shadow_vq := sh\<rparr> \<and> sh_log sh = sh_log (vr_shadow_vq (vring i w)) \<and>
      (sh_mm sh = mid \<or> sh_mm sh = sh_mm (vr_shadow_vq (vring i w)))" if i: "i < length (vd_vrings (vw_vdev w))" for i
  proof -
    obtain s where s: "vring i x = (vring i w)\<lparr>vr_shadow_vq := s\<rparr>" "sh_log s = sh_log (vr_shadow_vq (vring i w))"
      "sh_mm s = mid \<or> sh_mm s = sh_mm (vr_shadow_vq (vring i w))" using a i by (auto simp: resolved_def)
    obtain t where t: "vring i y = (vring i x)\<lparr>vr_shadow_vq := t\<rparr>" "sh_log t = sh_log (vr_shadow_vq (vring i x))"
      "sh_mm t = mid \<or> sh_mm t = sh_mm (vr_shadow_vq (vring i x))" using b i l by (auto simp: resolved_def)
    show ?thesis by (rule exI [of _ t]) (use s t in auto)
  qed
  ultimately show ?thesis using l by (simp add: resolved_def)
qed

lemma update_addrs_cases:
  assumes "vring_update_shadow_vq_addrs i mid w = Some (ret, w')"
  obtains (refused) e where "ret = Inl e" "w' = w"
  | (resolved) d a u where "ret = OK" "w' = upd_vring i (\<lambda>v. v\<lparr>vr_shadow_vq := (vr_shadow_vq v)
      \<lparr>sh_desc := d, sh_used := u, sh_avail := a, sh_mm := mid\<rparr>\<rparr>) w"
proof -
  obtain mm where mm: "ms_maps (m_mms (vw_machine w)) mid = Some mm"
    using assms by (auto simp: vring_update_shadow_vq_addrs_def bind_eq_Some_conv)
  show thesis
    using assms mm refused resolved
    by (cases "uva_to_ptr mm (ac_desc (vr_addr_cache (vring i w)))"; cases "uva_to_ptr mm (ac_used (vr_addr_cache (vring i w)))";
        cases "uva_to_ptr mm (ac_avail (vr_addr_cache (vring i w)))")
      (auto simp: vring_update_shadow_vq_addrs_def Let_def)
qed

lemma update_addrs_resolved:
  assumes "vring_update_shadow_vq_addrs i mid w = Some (ret, w')"
  shows "resolved mid w w'" and "ret = OK \<Longrightarrow> i < length (vd_vrings (vw_vdev w)) \<Longrightarrow> sh_mm (vr_shadow_vq (vring i w')) = mid"
proof -
  have "resolved mid w w' \<and> (ret = OK \<longrightarrow> i < length (vd_vrings (vw_vdev w)) \<longrightarrow> sh_mm (vr_shadow_vq (vring i w')) = mid)"
    using assms
  proof (cases rule: update_addrs_cases)
    case (resolved d a u)
    let ?f = "\<lambda>v. v\<lparr>vr_shadow_vq := (vr_shadow_vq v)\<lparr>sh_desc := d, sh_used := u, sh_avail := a, sh_mm := mid\<rparr>\<rparr>"
    have "vring j w' = (if j = i then ?f (vring j w) else vring j w)" if "j < length (vd_vrings (vw_vdev w))" for j
      using that by (simp add: resolved upd_vring_def upd_vdev_def nth_list_update)
    then have "\<exists>sh. vring j w' = (vring j w)\<lparr>vr_shadow_vq := sh\<rparr> \<and> sh_log sh = sh_log (vr_shadow_vq (vring j w)) \<and>
      (sh_mm sh = mid \<or> sh_mm sh = sh_mm (vr_shadow_vq (vring j w)))" if "j < length (vd_vrings (vw_vdev w))" for j
      using that by (intro exI [of _ "vr_shadow_vq (vring j w')"]) auto
    then show ?thesis by (simp add: resolved_def) (simp add: resolved upd_vring_def upd_vdev_def)
  qed (simp add: resolved_refl)
  then show "resolved mid w w'" "ret = OK \<Longrightarrow> i < length (vd_vrings (vw_vdev w)) \<Longrightarrow> sh_mm (vr_shadow_vq (vring i w')) = mid"
    by auto
qed

lemma resolved_nth:
  assumes "resolved mid w w'" and "i < length (vd_vrings (vw_vdev w))"
  shows "vr_started_in_ctl (vring i w') = vr_started_in_ctl (vring i w)" and "vr_vq (vring i w') = vr_vq (vring i w)"
    and "sh_log (vr_shadow_vq (vring i w')) = sh_log (vr_shadow_vq (vring i w))"
    and "sh_mm (vr_shadow_vq (vring i w)) = mid \<Longrightarrow> sh_mm (vr_shadow_vq (vring i w')) = mid"
  using assms by (auto simp: resolved_def)

lemma resolved_fields:
  assumes "resolved mid w w'"
  shows "vw_machine w' = vw_machine w" and "vw_rq w' = vw_rq w" and "vw_ctl w' = vw_ctl w" and "vw_next_log w' = vw_next_log w"
    and "vd_memmap (vw_vdev w') = vd_memmap (vw_vdev w)" and "vd_old_memmap (vw_vdev w') = vd_old_memmap (vw_vdev w)"
    and "vd_memlog (vw_vdev w') = vd_memlog (vw_vdev w)" and "vd_old_memlog (vw_vdev w') = vd_old_memlog (vw_vdev w)"
    and "vd_conn_handler (vw_vdev w') = vd_conn_handler (vw_vdev w)" and "vd_num_queues (vw_vdev w') = vd_num_queues (vw_vdev w)"
    and "vd_num_vrings_in_flight (vw_vdev w') = vd_num_vrings_in_flight (vw_vdev w)"
    and "length (vd_vrings (vw_vdev w')) = length (vd_vrings (vw_vdev w))"
proof -
  have e: "w' = upd_vdev (\<lambda>vd. vd\<lparr>vd_vrings := vd_vrings (vw_vdev w')\<rparr>) w" using assms by (simp add: resolved_def)
  show "vw_machine w' = vw_machine w" "vw_rq w' = vw_rq w" "vw_ctl w' = vw_ctl w" "vw_next_log w' = vw_next_log w"
    "vd_memmap (vw_vdev w') = vd_memmap (vw_vdev w)" "vd_old_memmap (vw_vdev w') = vd_old_memmap (vw_vdev w)"
    "vd_memlog (vw_vdev w') = vd_memlog (vw_vdev w)" "vd_old_memlog (vw_vdev w') = vd_old_memlog (vw_vdev w)"
    "vd_conn_handler (vw_vdev w') = vd_conn_handler (vw_vdev w)" "vd_num_queues (vw_vdev w') = vd_num_queues (vw_vdev w)"
    "vd_num_vrings_in_flight (vw_vdev w') = vd_num_vrings_in_flight (vw_vdev w)"
    by (subst e, simp add: upd_vdev_def)+
  show "length (vd_vrings (vw_vdev w')) = length (vd_vrings (vw_vdev w))" using assms by (simp add: resolved_def)
qed

lemma update_shadow_addrs_resolved:
  assumes "update_shadow_addrs mid is w = Some (ret, w')" and "\<forall>i\<in>set is. i < length (vd_vrings (vw_vdev w))"
  shows "resolved mid w w' \<and> (ret = OK \<longrightarrow> (\<forall>i\<in>set is. vr_started_in_ctl (vring i w) \<longrightarrow> sh_mm (vr_shadow_vq (vring i w')) = mid))"
  using assms
proof (induction "is" arbitrary: w)
  case Nil
  then show ?case by (simp add: resolved_refl)
next
  case (Cons i "is")
  show ?case
  proof (cases "vr_started_in_ctl (vring i w)")
    case False
    then show ?thesis using Cons.IH [of w] Cons.prems by auto
  next
    case True
    then obtain r1 w1 where w1: "vring_update_shadow_vq_addrs i mid w = Some (r1, w1)"
      "(case r1 of Inl e \<Rightarrow> Some (Inl e, w1) | Inr _ \<Rightarrow> update_shadow_addrs mid is w1) = Some (ret, w')"
      using Cons.prems(1) by (auto simp: bind_eq_Some_conv)
    note r = update_addrs_resolved [OF w1(1)]
    show ?thesis
    proof (cases r1)
      case (Inl e)
      then show ?thesis using w1(2) r(1) by auto
    next
      case (Inr u)
      have "\<forall>i\<in>set is. i < length (vd_vrings (vw_vdev w1))" using Cons.prems(2) resolved_fields(12) [OF r(1)] by simp
      note IH = Cons.IH [OF _ this]
      have i: "i < length (vd_vrings (vw_vdev w))" "i < length (vd_vrings (vw_vdev w1))" using Cons.prems(2) resolved_fields(12) [OF r(1)] by simp_all
      have IH': "resolved mid w1 w'" "ret = OK \<Longrightarrow> j \<in> set is \<Longrightarrow> vr_started_in_ctl (vring j w1) \<Longrightarrow> sh_mm (vr_shadow_vq (vring j w')) = mid" for j
        using IH w1(2) Inr by auto
      then show ?thesis
        using resolved_trans [OF r(1) IH'(1)] resolved_nth(4) [OF IH'(1) i(2)] r(2) [OF _ i(1)] Inr
          resolved_nth(1) [OF r(1)] Cons.prems(2) by auto
    qed
  qed
qed

lemma new_memmap_cases:
  assumes n: "new_memmap K desc fds w = Some (res, w')" and q: "unat (vd_num_queues (vw_vdev w)) = length (vd_vrings (vw_vdev w))"
    and maps: "maps_ok (refs bs (vw_vdev w)) (m_mms (vw_machine w))"
  obtains mid S w2 where "maps_ok ((refs bs (vw_vdev w))(mid := 1)) S" and "refs bs (vw_vdev w) mid = 0"
    and "resolved mid (upd_machine (\<lambda>m. m\<lparr>m_mms := S\<rparr>) w) w2"
    and "case res of Inl e \<Rightarrow> w' = memmap_put K (Some mid) w2
      | Inr m \<Rightarrow> m = mid \<and> w' = w2 \<and> (\<forall>i<length (vd_vrings (vw_vdev w)).
          vr_started_in_ctl (vring i w) \<longrightarrow> sh_mm (vr_shadow_vq (vring i w2)) = mid)"
proof -
  let ?vd = "vw_vdev w"
  obtain mid S where S: "vhd_memmap_new (vd_map_cb ?vd) (vd_unmap_cb ?vd) (m_mms (vw_machine w)) = (mid, S)" by fastforce
  with n obtain ret S1 where S1: "add_slots K mid desc fds [0..<unat (md_nregions desc)] S = Some (ret, S1)"
    by (auto simp: new_memmap_def bind_eq_Some_conv)
  let ?w1 = "upd_machine (\<lambda>m. m\<lparr>m_mms := S1\<rparr>) w"
  note new = maps_ok_new [OF maps S]
  have ok: "maps_ok ((refs bs ?vd)(mid := 1)) S1" by (rule maps_ok_add_slots [OF new(2) S1])
  show thesis
  proof (cases ret)
    case (Inl e)
    then have "res = Inl e" "w' = memmap_put K (Some mid) ?w1" using n S S1 by (auto simp: new_memmap_def)
    then show thesis by (intro that [OF ok new(1) resolved_refl]) simp
  next
    case (Inr u)
    with n S S1 obtain ret2 w2 where w2: "update_shadow_addrs mid [0..<unat (vd_num_queues ?vd)] ?w1 = Some (ret2, w2)"
      "(case ret2 of Inl e \<Rightarrow> Some (Inl e, memmap_put K (Some mid) w2) | Inr _ \<Rightarrow> Some (Inr mid, w2)) = Some (res, w')"
      by (auto simp: new_memmap_def bind_eq_Some_conv)
    have "resolved mid ?w1 w2 \<and> (ret2 = OK \<longrightarrow> (\<forall>i\<in>set [0..<unat (vd_num_queues ?vd)].
        vr_started_in_ctl (vring i ?w1) \<longrightarrow> sh_mm (vr_shadow_vq (vring i w2)) = mid))"
      by (rule update_shadow_addrs_resolved [OF w2(1)]) (use q in \<open>simp add: upd_machine_def\<close>)
    then show thesis using w2(2) q ok new(1) by (intro that [of mid S1 w2]) (auto simp: upd_machine_def split: sum.splits)
  qed
qed

lemma new_memmap_failed:
  assumes f: "fresh bs w" and n: "new_memmap K desc fds w = Some (Inl e, w')"
  shows "severable bs w'"
proof -
  note ff = fresh_facts [OF f]
  have ok: "maps_ok (refs bs (vw_vdev w)) (m_mms (vw_machine w))" "logs_ok w" "counted w"
    and live: "\<And>i. i < length (vd_vrings (vw_vdev w)) \<Longrightarrow> live_vring bs w i"
    using ff(10) by (simp_all add: mem_ok_def)
  obtain mid S w2 where m: "maps_ok ((refs bs (vw_vdev w))(mid := 1)) S" "refs bs (vw_vdev w) mid = 0"
    "resolved mid (upd_machine (\<lambda>m. m\<lparr>m_mms := S\<rparr>) w) w2" "w' = memmap_put K (Some mid) w2"
    by (rule new_memmap_cases [OF n ff(8) ok(1)]) auto
  let ?x = "upd_machine (\<lambda>m. m\<lparr>m_mms := S\<rparr>) w"
  note r = resolved_fields [OF m(3)] resolved_nth [OF m(3)]
  have x: "vw_vdev ?x = vw_vdev w" "vw_rq ?x = vw_rq w" "vw_ctl ?x = vw_ctl w" "m_mms (vw_machine ?x) = S"
    "m_logs (vw_machine ?x) = m_logs (vw_machine w)" "vw_next_log ?x = vw_next_log w" by (simp_all add: upd_machine_def)
  have "maps_ok (refs bs (vw_vdev w)) (vhd_memmap_unref K mid S)"
    using maps_ok_unref [OF m(1), of mid K] m(2) by (simp add: fun_upd_idem)
  moreover have "refs bs (vw_vdev w2) = refs bs (vw_vdev w)" by (rule refs_cong) (use r x in simp_all)
  ultimately have "maps_ok (refs bs (vw_vdev w')) (m_mms (vw_machine w'))" using m(4) r(1) x(4) by simp
  moreover have "logs_ok w'" "counted w'" using ok(2,3) r x by (simp_all add: m(4) logs_ok_def counted_def)
  moreover have "queue_ok w' i \<and> buffers_ok bs w' i \<and> \<not> syncing i w' \<and> \<not> launching i w'"
    if "i < length (vd_vrings (vw_vdev w))" for i
  proof -
    have l: "queue_ok w i" "buffers_ok bs w i" using live [OF that] by (simp_all add: live_vring_def)
    have w': "vw_vdev w' = vw_vdev w2" "vw_rq w' = vw_rq w2" "vw_ctl w' = vw_ctl w2" using m(4) by simp_all
    have v: "vr_started_in_ctl (vring i w') = vr_started_in_ctl (vring i w)" "vr_vq (vring i w') = vr_vq (vring i w)"
      using r(13,14) [of i] that x(1) w'(1) by simp_all
    have d: "starting i w' = starting i w" "syncing i w' = syncing i w" "launching i w' = launching i w"
      using r x w' by (simp_all add: starting_def)
    have e: "vd_memmap (vw_vdev w') = vd_memmap (vw_vdev w)" "vd_old_memmap (vw_vdev w') = vd_old_memmap (vw_vdev w)"
      "vd_memlog (vw_vdev w') = vd_memlog (vw_vdev w)" "vd_old_memlog (vw_vdev w') = vd_old_memlog (vw_vdev w)"
      using r x w' by simp_all
    show ?thesis using l ff(4,5) [of i] unfolding queue_ok_def buffers_ok_def Let_def v d e by simp
  qed
  ultimately show ?thesis using m(4) r(12) x(1) by (simp add: severable_def)
qed

lemma new_memmap_replacing:
  assumes f: "fresh bs w" and n: "new_memmap K desc fds w = Some (Inr mid, w')"
  shows "replacing bs (upd_vdev (\<lambda>vd. vd\<lparr>vd_old_memmap := vd_memmap vd, vd_memmap := Some mid\<rparr>) w')" (is "replacing bs ?y")
proof -
  note ff = fresh_facts [OF f]
  have ok: "maps_ok (refs bs (vw_vdev w)) (m_mms (vw_machine w))" "logs_ok w" "counted w"
    and live: "\<And>i. i < length (vd_vrings (vw_vdev w)) \<Longrightarrow> live_vring bs w i"
    using ff(10) by (simp_all add: mem_ok_def)
  obtain S where m: "maps_ok ((refs bs (vw_vdev w))(mid := 1)) S" "refs bs (vw_vdev w) mid = 0"
    "resolved mid (upd_machine (\<lambda>m. m\<lparr>m_mms := S\<rparr>) w) w'"
    "\<forall>i<length (vd_vrings (vw_vdev w)). vr_started_in_ctl (vring i w) \<longrightarrow> sh_mm (vr_shadow_vq (vring i w')) = mid"
    by (rule new_memmap_cases [OF n ff(8) ok(1)]) auto
  let ?x = "upd_machine (\<lambda>m. m\<lparr>m_mms := S\<rparr>) w"
  note r = resolved_fields [OF m(3)] resolved_nth [OF m(3)]
  have x: "vw_vdev ?x = vw_vdev w" "vw_rq ?x = vw_rq w" "vw_ctl ?x = vw_ctl w" "m_mms (vw_machine ?x) = S"
    "m_logs (vw_machine ?x) = m_logs (vw_machine w)" "vw_next_log ?x = vw_next_log w" by (simp_all add: upd_machine_def)
  have d: "vd_memmap (vw_vdev ?y) = Some mid" "vd_old_memmap (vw_vdev ?y) = vd_memmap (vw_vdev w)"
    "vd_memlog (vw_vdev ?y) = vd_memlog (vw_vdev w)" "vd_old_memlog (vw_vdev ?y) = None"
    "vd_conn_handler (vw_vdev ?y) = vd_conn_handler (vw_vdev w)" "vd_num_queues (vw_vdev ?y) = vd_num_queues (vw_vdev w)"
    "vd_num_vrings_in_flight (vw_vdev ?y) = vd_num_vrings_in_flight (vw_vdev w)" "vd_vrings (vw_vdev ?y) = vd_vrings (vw_vdev w')"
    "vw_machine ?y = vw_machine ?x" "vw_rq ?y = vw_rq w" "vw_ctl ?y = vw_ctl w" "vw_next_log ?y = vw_next_log w"
    "length (vd_vrings (vw_vdev w')) = length (vd_vrings (vw_vdev w))"
    using r x ff(2) by (simp_all add: upd_vdev_def)
  have "refs bs (vw_vdev ?y) = (refs bs (vw_vdev w))(mid := 1)"
    using m(2) ff(1) by (auto simp: refs_def d fun_eq_iff)
  then have "maps_ok (refs bs (vw_vdev ?y)) (m_mms (vw_machine ?y))" using m(1) d(9) x(4) by simp
  moreover have "logs_ok ?y" "counted ?y" using ok(2,3) r(13) x d by (simp_all add: logs_ok_def counted_def)
  moreover have "shadow_ok ?y i \<and> buffers_ok bs ?y i \<and> (vr_started_in_ctl (vring i ?y) \<longrightarrow>
      vd_old_memmap (vw_vdev ?y) = Some (vq_mm (vr_vq (vring i ?y))) \<and>
      (vq_log (vr_vq (vring i ?y)) = None \<or> vq_log (vr_vq (vring i ?y)) = vd_memlog (vw_vdev ?y)))"
    if i: "i < length (vd_vrings (vw_vdev w))" for i
  proof -
    have l: "queue_ok w i" "shadow_ok w i" "buffers_ok bs w i" using live [OF i] by (simp_all add: live_vring_def)
    have v: "vr_started_in_ctl (vring i ?y) = vr_started_in_ctl (vring i w)" "vr_vq (vring i ?y) = vr_vq (vring i w)"
      "sh_log (vr_shadow_vq (vring i ?y)) = sh_log (vr_shadow_vq (vring i w))"
      "vr_started_in_ctl (vring i w) \<longrightarrow> sh_mm (vr_shadow_vq (vring i ?y)) = mid"
      using r(13-15) [of i] i x(1) d(8) m(4) by simp_all
    have "shadow_ok ?y i" using l(2) v(4) ff(3) unfolding shadow_ok_def Let_def v(1-3) d(1-7,9-12) by auto
    moreover have "buffers_ok bs ?y i" using l(3) unfolding buffers_ok_def Let_def v(1-3) .
    ultimately show ?thesis using l(1) ff(4,6) [of i] unfolding queue_ok_def Let_def v(1-3) d(1-7,9-12) by blast
  qed
  moreover have "vd_conn_handler (vw_vdev ?y) \<noteq> None" using ff(3) d(5) by simp
  moreover have l: "length (vd_vrings (vw_vdev ?y)) = length (vd_vrings (vw_vdev w))" using d(8,13) by simp
  ultimately show ?thesis unfolding replacing_def Let_def l by blast
qed

lemma set_mem_table_mem:
  assumes f: "fresh bs w" and h: "vhost_set_mem_table K sy p sz fds w = Some (ret, w')"
  shows "kept bs ret w'"
proof -
  have few: "length bs < 2 ^ 16" using f by (simp add: fresh_def)
  obtain res w1 where w1: "new_memmap K (mp_mem_desc p) fds w = Some (res, w1)" using new_memmap_total by blast
  show ?thesis
  proof (cases res)
    case (Inl e)
    then show ?thesis
      using h w1 new_memmap_failed [OF f, of K _ _ e w1] severable_mem_ok [OF fresh_facts(10) [OF f]]
      by (auto simp: vhost_set_mem_table_def kept_def Let_def split: if_splits)
  next
    case (Inr mid)
    let ?y = "upd_vdev (\<lambda>vd. vd\<lparr>vd_old_memmap := vd_memmap vd, vd_memmap := Some mid\<rparr>) w1"
    note r = new_memmap_replacing [OF f w1 [unfolded Inr]]
    have c: "mem_ok bs w'" if "set_mem_table_complete K sy ?y = Some (ret, w')" and z: "vd_num_vrings_in_flight (vw_vdev ?y) = 0"
    proof -
      note ok = replacing_unused [OF r z]
      have "handle_complete K sy SetMemTableComplete ?y = Some (ret, w')" using that(1) by (simp add: handle_complete_def)
      then show ?thesis by (rule handle_complete_mem [OF ok few]) (use ok z in \<open>simp add: mem_ok_def counted_def\<close>)
    qed
    then show ?thesis
      using h w1 Inr replacing_sync [OF r] kept_same [OF f refl] kept_mem_ok
      by (auto simp: vhost_set_mem_table_def Let_def split: if_splits)
  qed
qed

section \<open>Features and dirty logs\<close>

lemma for_vrings_map:
  assumes n: "unat (vd_num_queues (vw_vdev w)) = length (vd_vrings (vw_vdev w))"
  shows "for_vrings (\<lambda>i. upd_vring i g) w = upd_vdev (\<lambda>vd. vd\<lparr>vd_vrings := map g (vd_vrings vd)\<rparr>) w"
proof -
  let ?vs = "vd_vrings (vw_vdev w)"
  have "fold (\<lambda>i. upd_vring i g) [0..<k] w = upd_vdev (\<lambda>vd. vd\<lparr>vd_vrings := map g (take k ?vs) @ drop k ?vs\<rparr>) w"
    if "k \<le> length ?vs" for k
    using that
  proof (induction k)
    case (Suc k)
    then show ?case
      by (simp add: upd_vring_def upd_vdev_def take_Suc_conv_app_nth list_update_append nth_append Cons_nth_drop_Suc [symmetric])
  qed (simp add: upd_vdev_def)
  from this [of "length ?vs"] show ?thesis by (simp add: for_vrings_def n upd_vdev_def)
qed

text \<open>The log of the device is offered to the vrings, or none.\<close>

definition offering :: "nat option \<Rightarrow> vworld \<Rightarrow> vworld" where
  "offering log w = upd_vdev (\<lambda>vd. vd\<lparr>vd_vrings := map (vr_shadow_vq_update (sh_log_update (\<lambda>_. log))) (vd_vrings vd)\<rparr>) w"

lemma update_shadow_offering:
  assumes "unat (vd_num_queues (vw_vdev w)) = length (vd_vrings (vw_vdev w))"
  obtains log where "update_shadow_vq_memlog w = offering log w" and "log = None \<or> log = vd_memlog (vw_vdev w)"
  using that for_vrings_map [OF assms] by (auto simp: update_shadow_vq_memlog_def offering_def Let_def)

lemma offering_replacing:
  assumes r: "maps_ok (refs bs (vw_vdev w)) (m_mms (vw_machine w))" "logs_ok w" "counted w" "vd_conn_handler (vw_vdev w) \<noteq> None"
    and v: "\<And>i. i < length (vd_vrings (vw_vdev w)) \<Longrightarrow> buffers_ok bs w i"
      "\<And>i. i < length (vd_vrings (vw_vdev w)) \<Longrightarrow> vr_started_in_ctl (vring i w) \<Longrightarrow>
        vd_memmap (vw_vdev w) = Some (vq_mm (vr_vq (vring i w)))"
      "\<And>i. i < length (vd_vrings (vw_vdev w)) \<Longrightarrow> vr_started_in_ctl (vring i w) \<Longrightarrow>
        vd_memmap (vw_vdev w) = Some (sh_mm (vr_shadow_vq (vring i w)))"
      "\<And>i. i < length (vd_vrings (vw_vdev w)) \<Longrightarrow> vr_started_in_ctl (vring i w) \<Longrightarrow> vq_log (vr_vq (vring i w)) = None \<or>
        vq_log (vr_vq (vring i w)) = vd_memlog (vw_vdev w) \<or> vq_log (vr_vq (vring i w)) = vd_old_memlog (vw_vdev w)"
    and log: "log = None \<or> log = vd_memlog (vw_vdev w)"
  shows "replacing bs (offering log w)"
proof -
  let ?x = "offering log w"
  have d: "vd_memmap (vw_vdev ?x) = vd_memmap (vw_vdev w)" "vd_old_memmap (vw_vdev ?x) = vd_old_memmap (vw_vdev w)"
    "vd_memlog (vw_vdev ?x) = vd_memlog (vw_vdev w)" "vd_old_memlog (vw_vdev ?x) = vd_old_memlog (vw_vdev w)"
    "vd_conn_handler (vw_vdev ?x) = vd_conn_handler (vw_vdev w)" "length (vd_vrings (vw_vdev ?x)) = length (vd_vrings (vw_vdev w))"
    "vw_machine ?x = vw_machine w" "vw_rq ?x = vw_rq w"
    by (simp_all add: offering_def upd_vdev_def)
  have "refs bs (vw_vdev ?x) = refs bs (vw_vdev w)" by (rule refs_cong) (simp_all add: d)
  then have "maps_ok (refs bs (vw_vdev ?x)) (m_mms (vw_machine ?x))" using r(1) d(7) by simp
  moreover have "logs_ok ?x" "counted ?x" using r(2,3) by (simp_all add: offering_def upd_vdev_def logs_ok_def counted_def)
  moreover have "shadow_ok ?x i \<and> buffers_ok bs ?x i \<and> (vr_started_in_ctl (vring i ?x) \<longrightarrow>
      vd_memmap (vw_vdev ?x) = Some (vq_mm (vr_vq (vring i ?x))) \<and> (vq_log (vr_vq (vring i ?x)) = None \<or>
       vq_log (vr_vq (vring i ?x)) = vd_memlog (vw_vdev ?x) \<or> vq_log (vr_vq (vring i ?x)) = vd_old_memlog (vw_vdev ?x)))"
    if i: "i < length (vd_vrings (vw_vdev w))" for i
  proof -
    have e: "vr_started_in_ctl (vring i ?x) = vr_started_in_ctl (vring i w)" "vr_vq (vring i ?x) = vr_vq (vring i w)"
      "sh_mm (vr_shadow_vq (vring i ?x)) = sh_mm (vr_shadow_vq (vring i w))" "sh_log (vr_shadow_vq (vring i ?x)) = log"
      using i by (simp_all add: offering_def upd_vdev_def)
    show ?thesis using v(1) [OF i] v(2-4) [OF i] log r(4) unfolding shadow_ok_def buffers_ok_def Let_def e d by blast
  qed
  ultimately show ?thesis using r(4) d unfolding replacing_def Let_def by auto
qed

lemma mview_for_vrings_same:
  assumes "\<And>v. mflags (g v) = mflags v"
  shows "mview (for_vrings (\<lambda>i. upd_vring i g) w) = mview w"
  unfolding for_vrings_def by (rule mview_fold, rule mview_upd_vring) (rule assms)

lemma fresh_vring:
  assumes f: "fresh bs w" and i: "i < length (vd_vrings (vw_vdev w))"
  shows "buffers_ok bs w i" and "shadow_ok w i"
    and "vr_started_in_ctl (vring i w) \<Longrightarrow> vd_memmap (vw_vdev w) = Some (vq_mm (vr_vq (vring i w)))"
    and "vr_started_in_ctl (vring i w) \<Longrightarrow> vd_memmap (vw_vdev w) = Some (sh_mm (vr_shadow_vq (vring i w)))"
    and "vr_started_in_ctl (vring i w) \<Longrightarrow> vq_log (vr_vq (vring i w)) = None \<or> vq_log (vr_vq (vring i w)) = vd_memlog (vw_vdev w)"
proof -
  note ff = fresh_facts [OF f]
  have l: "queue_ok w i" "shadow_ok w i" "buffers_ok bs w i" using ff(10) i by (simp_all add: mem_ok_def live_vring_def)
  then show "buffers_ok bs w i" "shadow_ok w i" by simp_all
  assume s: "vr_started_in_ctl (vring i w)"
  show "vd_memmap (vw_vdev w) = Some (vq_mm (vr_vq (vring i w)))" "vd_memmap (vw_vdev w) = Some (sh_mm (vr_shadow_vq (vring i w)))"
    "vq_log (vr_vq (vring i w)) = None \<or> vq_log (vr_vq (vring i w)) = vd_memlog (vw_vdev w)"
    using s l(1,2) ff(3) ff(4,6) [of i] unfolding queue_ok_def shadow_ok_def Let_def by blast+
qed

lemma set_features_mem:
  assumes f: "fresh bs w" and h: "vhost_set_features sy p sz fds w = Some (ret, w')"
  shows "kept bs ret w'"
proof -
  let ?w1 = "upd_vdev (vd_negotiated_features_update (\<lambda>_. mp_u64 p)) w"
  note ff = fresh_facts [OF f]
  have m1: "mview ?w1 = mview w" by (rule mview_upd_vdev) (simp add: mdev_def)
  have v: "mview (for_vrings (\<lambda>i. upd_vring i (vr_vq_update (vq_has_event_idx_update (\<lambda>_. b)))) ?w1) = mview w" for b
    using mview_for_vrings_same [of "vr_vq_update (vq_has_event_idx_update (\<lambda>_. b))" ?w1] m1 by (simp add: mflags_def)
  have "unat (vd_num_queues (vw_vdev ?w1)) = length (vd_vrings (vw_vdev ?w1))" using ff(8) by (simp add: upd_vdev_def)
  then obtain log where log: "update_shadow_vq_memlog ?w1 = offering log ?w1" "log = None \<or> log = vd_memlog (vw_vdev ?w1)"
    by (rule update_shadow_offering)
  have ok: "mem_ok bs ?w1" by (rule mem_ok_mview [OF m1 ff(10)])
  have v1: "vring i ?w1 = vring i w" "vd_memmap (vw_vdev ?w1) = vd_memmap (vw_vdev w)" "vd_memlog (vw_vdev ?w1) = vd_memlog (vw_vdev w)"
    "length (vd_vrings (vw_vdev ?w1)) = length (vd_vrings (vw_vdev w))" "vd_conn_handler (vw_vdev ?w1) = vd_conn_handler (vw_vdev w)" for i
    by (simp_all add: upd_vdev_def)
  have "replacing bs (offering log ?w1)"
  proof (rule offering_replacing [OF _ _ _ _ _ _ _ _ log(2)])
    show "vd_conn_handler (vw_vdev ?w1) \<noteq> None" using ff(3) v1(5) by simp
    show "vq_log (vr_vq (vring i ?w1)) = None \<or> vq_log (vr_vq (vring i ?w1)) = vd_memlog (vw_vdev ?w1) \<or>
        vq_log (vr_vq (vring i ?w1)) = vd_old_memlog (vw_vdev ?w1)"
      if "i < length (vd_vrings (vw_vdev ?w1))" "vr_started_in_ctl (vring i ?w1)" for i
      using fresh_vring(5) [OF f] that unfolding v1 by blast
  qed (use ok fresh_vring(3,4) [OF f] in \<open>simp_all add: v1 mem_ok_def live_vring_def\<close>)
  from replacing_sync [OF this, of SetFeaturesComplete] h v kept_mem_ok kept_same [OF f] log(1) show ?thesis
    by (auto simp: vhost_set_features_def Let_def dest!: mview_calls split: if_splits)
qed

lemma set_log_base_mem:
  assumes f: "fresh bs w" and h: "vhost_set_log_base sy p sz fds w = Some (ret, w')"
  shows "kept bs ret w'"
proof -
  note ff = fresh_facts [OF f]
  have few: "length bs < 2 ^ 16" using f by (simp add: fresh_def)
  have k: "kept bs ret w'" if new: "w1 = upd_machine (\<lambda>m. m\<lparr>m_logs := (m_logs m)(vw_next_log w \<mapsto> log)\<rparr>) (w\<lparr>vw_next_log := Suc (vw_next_log w)\<rparr>)"
    "w2 = update_shadow_vq_memlog (upd_vdev (\<lambda>vd. vd\<lparr>vd_old_memlog := vd_memlog vd, vd_memlog := Some (vw_next_log w)\<rparr>) w1)"
    and r: "(if vd_num_vrings_in_flight (vw_vdev w2) = 0 then set_log_base_complete sy w2
      else Some (OK, sync_vrings SetLogBaseComplete w2)) = Some (ret, w')" for log w1 w2
  proof -
    let ?x = "upd_vdev (\<lambda>vd. vd\<lparr>vd_old_memlog := vd_memlog vd, vd_memlog := Some (vw_next_log w)\<rparr>) w1"
    have n: "unat (vd_num_queues (vw_vdev ?x)) = length (vd_vrings (vw_vdev ?x))" using ff(8) by (simp add: new upd_vdev_def upd_machine_def)
    obtain log' where l: "w2 = offering log' ?x" "log' = None \<or> log' = vd_memlog (vw_vdev ?x)"
      unfolding new(2) by (rule update_shadow_offering [OF n])
    have "refs bs (vw_vdev ?x) = refs bs (vw_vdev w)" by (rule refs_cong) (simp_all add: new upd_vdev_def upd_machine_def)
    note rf = this
    have x: "vring i ?x = vring i w" "vd_memmap (vw_vdev ?x) = vd_memmap (vw_vdev w)" "vd_old_memlog (vw_vdev ?x) = vd_memlog (vw_vdev w)"
      "length (vd_vrings (vw_vdev ?x)) = length (vd_vrings (vw_vdev w))" "m_mms (vw_machine ?x) = m_mms (vw_machine w)" for i
      by (simp_all add: new upd_vdev_def upd_machine_def)
    have rp: "replacing bs w2" unfolding l(1)
    proof (rule offering_replacing [OF _ _ _ _ _ _ _ _ l(2)])
      show "vq_log (vr_vq (vring i ?x)) = None \<or> vq_log (vr_vq (vring i ?x)) = vd_memlog (vw_vdev ?x) \<or>
          vq_log (vr_vq (vring i ?x)) = vd_old_memlog (vw_vdev ?x)"
        if "i < length (vd_vrings (vw_vdev ?x))" "vr_started_in_ctl (vring i ?x)" for i
        using fresh_vring(5) [OF f] that unfolding x by blast
      show "logs_ok ?x" "counted ?x" "vd_conn_handler (vw_vdev ?x) \<noteq> None" using ff(3,10)
        by (auto simp: new mem_ok_def logs_ok_def counted_def upd_vdev_def upd_machine_def)
    qed (use ff(10) rf fresh_vring(1,3,4) [OF f] in \<open>simp_all add: x mem_ok_def buffers_ok_def\<close>)
    have "mem_ok bs w'"
    proof (cases "vd_num_vrings_in_flight (vw_vdev w2) = 0")
      case True
      note ok = replacing_unused [OF rp True]
      have "handle_complete K sy SetLogBaseComplete w2 = Some (ret, w')" for K using r True by (simp add: handle_complete_def)
      then show ?thesis by (rule handle_complete_mem [OF ok few]) (use ok True in \<open>simp add: mem_ok_def counted_def\<close>)
    qed (use r replacing_sync [OF rp] in auto)
    then show ?thesis by (rule kept_mem_ok)
  qed
  show ?thesis
    using h k [OF refl refl] kept_same [OF f refl] by (auto simp: vhost_set_log_base_def Let_def split: if_splits option.splits)
qed

section \<open>Vrings\<close>

lemma mem_ok_vring_mview:
  "mem_ok bs w \<Longrightarrow> (\<And>v. mflags (g v) = mflags v) \<Longrightarrow> mem_ok bs (upd_vring i g w)"
  by (erule mem_ok_mview [rotated]) (rule mview_upd_vring)

lemma set_vring_num_mem:
  assumes f: "fresh bs w" and h: "vhost_set_vring_num sy p sz fds w = Some (ret, w')"
  shows "kept bs ret w'"
proof -
  note ff = fresh_facts [OF f]
  have "mem_ok bs (upd_vring i (vr_vq_update (vq_qsz_update g)) w)" (is "mem_ok bs ?x")
    if s: "\<not> vr_started_in_ctl (vring i w)" and i: "i < length (vd_vrings (vw_vdev w))" for i g
  proof (rule mem_ok_one [of bs w i ?x])
    show "live_vring bs ?x i"
      using ff(6,7) [of i] s i fresh_vring(2) [OF f i] framed_none
      by (auto simp: live_vring_def queue_ok_def buffers_ok_def shadow_ok_def upd_vring_def upd_vdev_def Let_def)
    have "vr_started_in_ctl (vring j ?x) = vr_started_in_ctl (vring j w)" for j
      using i by (cases "j = i") (simp_all add: upd_vring_def upd_vdev_def)
    then show "counted ?x" using ff(10) by (simp add: mem_ok_def counted_def) (simp add: upd_vring_def upd_vdev_def)
  qed (use ff(10) in \<open>auto simp: mem_ok_def upd_vring_def upd_vdev_def mrest_def logs_ok_def\<close>)
  then show ?thesis
    using h kept_same [OF f refl] get_vring_bound [OF ff(9)]
    by (auto simp: vhost_set_vring_num_def Let_def dest!: mview_calls intro: kept_mview [OF _ kept_mem_ok]
        split: if_splits option.splits)
qed

lemma set_vring_addr_mem:
  assumes f: "fresh bs w" and h: "vhost_set_vring_addr sy p sz fds w = Some (ret, w')"
  shows "kept bs ret w'"
proof -
  note ff = fresh_facts [OF f]
  define a where "a = mp_vring_addr p"
  define start where "start = (\<lambda>v :: vhd_vring. v\<lparr>vr_addr_cache := \<lparr>ac_avail = va_avail_addr a, ac_desc = va_desc_addr a, ac_used = va_used_addr a\<rparr>,
      vr_shadow_vq := (vr_shadow_vq v)\<lparr>sh_flags := va_flags a\<rparr>, vr_vq := (vr_vq v)\<lparr>vq_used_gpa_base := va_used_gpa_base a\<rparr>\<rparr>)"
  define flags :: "vhd_vring \<Rightarrow> vhd_vring" where "flags = vr_shadow_vq_update (sh_flags_update (\<lambda>_. va_flags a))"
  have m: "mview (upd_vring i start w) = mview w" for i by (rule mview_upd_vring) (simp add: mflags_def start_def)
  have ok: "mem_ok bs (upd_vring i flags w)" for i by (rule mem_ok_vring_mview [OF ff(10)]) (simp add: mflags_def flags_def)
  have "vd_conn_handler (vw_vdev (upd_vring i flags w)) \<noteq> None" for i using ff(3) by (simp add: upd_vring_def upd_vdev_def)
  note t = kept_mem_ok [OF tell_mem [OF ok this]]
  show ?thesis
    using h t m kept_same [OF f] unfolding vhost_set_vring_addr_def Let_def a_def [symmetric] start_def [symmetric] flags_def [symmetric]
    by (auto dest!: mview_calls split: if_splits option.splits)
qed

lemma new_fd_mem:
  assumes f: "fresh bs w" and g: "\<And>v. mflags (g v) = mflags v"
  shows "mview (upd_vring i g (upd_vdev (vd_keep_fd_update k) w)) = mview w"
    and "kept bs OK (vring_handle_msg i (VringSyncToVirtq i) (upd_vdev (vd_handle_complete_update c)
      (upd_vring i g (upd_vdev (vd_keep_fd_update k) w))))"
proof -
  let ?x = "upd_vring i g (upd_vdev (vd_keep_fd_update k) w)"
  have "mview (upd_vdev (vd_keep_fd_update k) w) = mview w" by (rule mview_upd_vdev) (simp add: mdev_def)
  moreover have "mview ?x = mview (upd_vdev (vd_keep_fd_update k) w)" by (rule mview_upd_vring) (rule g)
  ultimately show m: "mview ?x = mview w" by simp
  have "vd_conn_handler (vw_vdev ?x) \<noteq> None" using fresh_facts(3) [OF f] by (simp add: upd_vring_def upd_vdev_def)
  then show "kept bs OK (vring_handle_msg i (VringSyncToVirtq i) (upd_vdev (vd_handle_complete_update c) ?x))"
    by (intro kept_mem_ok tell_mem mem_ok_mview [OF m fresh_facts(10) [OF f]])
qed

lemma mview_fd_complete:
  "set_vring_call_complete sy w = Some (ret, w') \<Longrightarrow> mview w' = mview w"
  "set_vring_err_complete sy w = Some (ret, w') \<Longrightarrow> mview w' = mview w"
proof -
  have k: "mview (upd_vdev (vd_keep_fd_update f) x) = mview x" for f x by (rule mview_upd_vdev) (simp add: mdev_def)
  show "set_vring_call_complete sy w = Some (ret, w') \<Longrightarrow> mview w' = mview w"
    "set_vring_err_complete sy w = Some (ret, w') \<Longrightarrow> mview w' = mview w"
    by (auto simp: set_vring_call_complete_def set_vring_err_complete_def k dest!: mview_ack)
qed

lemma set_vring_call_mem:
  assumes f: "fresh bs w" and h: "vhost_set_vring_call sy p sz fds w = Some (ret, w')"
  shows "kept bs ret w'"
proof -
  have c: "mview (upd_vring i (vr_callfd_update k) x) = mview x" for i k x by (rule mview_upd_vring) (simp add: mflags_def)
  note n = new_fd_mem [OF f, of "vr_callfd_update k" for k, unfolded mflags_def, simplified]
  from h n(2) n(1) kept_same [OF f] c show ?thesis
    by (auto simp: vhost_set_vring_call_def Let_def dest!: mview_fd_complete
        split: if_splits option.splits sum.splits bind_splits)
qed

lemma set_vring_err_mem:
  assumes f: "fresh bs w" and h: "vhost_set_vring_err sy p sz fds w = Some (ret, w')"
  shows "kept bs ret w'"
proof -
  have c: "mview (upd_vring i (vr_errfd_update k) x) = mview x" for i k x by (rule mview_upd_vring) (simp add: mflags_def)
  note n = new_fd_mem [OF f, of "vr_errfd_update k" for k, unfolded mflags_def, simplified]
  from h n(2) n(1) kept_same [OF f] c show ?thesis
    by (auto simp: vhost_set_vring_err_def Let_def dest!: mview_fd_complete
        split: if_splits option.splits sum.splits bind_splits)
qed

lemma core_counted: "core bs h s w \<Longrightarrow> counted w"
proof -
  assume "core bs h s w"
  then have n: "unat (vd_num_queues (vw_vdev w)) = length (vd_vrings (vw_vdev w))"
    "unat (vd_num_vrings_in_flight (vw_vdev w)) = count_if vr_started_in_ctl (vd_vrings (vw_vdev w))"
    by (simp_all add: core_def counts_ok_def Let_def)
  have "\<not> vr_started_in_ctl (vring i w)" if "vd_num_vrings_in_flight (vw_vdev w) = 0" "i < length (vd_vrings (vw_vdev w))" for i
    using n(2) that by (auto simp: filter_empty_conv)
  then show ?thesis using n(1) by (simp add: counted_def)
qed

text \<open>A vring that is not started may be given other rings.\<close>

lemma resolved_one_mem:
  assumes f: "fresh bs w" and u: "vring_update_shadow_vq_addrs i mid w = Some (ret, w')"
    and i: "i < length (vd_vrings (vw_vdev w))" and s: "\<not> vr_started_in_ctl (vring i w)"
  shows "mem_ok bs w'"
  using u
proof (cases rule: update_addrs_cases)
  case (resolved d a u)
  note ff = fresh_facts [OF f]
  show ?thesis
  proof (rule mem_ok_one [of bs w i w'])
    show "live_vring bs w' i"
      using s i fresh_vring(1,2) [OF f i]
      by (auto simp: resolved live_vring_def queue_ok_def buffers_ok_def shadow_ok_def upd_vring_def upd_vdev_def Let_def)
    have "vr_started_in_ctl (vring j w') = vr_started_in_ctl (vring j w)" for j
      using i by (cases "j = i") (simp_all add: resolved upd_vring_def upd_vdev_def)
    then show "counted w'" using ff(10) by (simp add: mem_ok_def counted_def) (simp add: resolved upd_vring_def upd_vdev_def)
  qed (use ff(10) in \<open>auto simp: resolved mem_ok_def upd_vring_def upd_vdev_def mrest_def logs_ok_def\<close>)
qed (use fresh_facts(10) [OF f] in simp)

lemma virtq_init_fields:
  assumes "virtio_virtq_init vq m = Some (vq', m')"
  shows "length (vq_buffers vq') = unat (vq_max_chain_len vq')" and "m_mms m' = m_mms m" and "m_logs m' = m_logs m"
  using assms
  by (auto simp: virtio_virtq_init_def virtq_inflight_reconnect_update_def with_inflight_def Let_def bind_eq_Some_conv split: if_splits)

lemma start_in_ctl_mem:
  assumes ok: "mem_ok bs w" and i: "i < length (vd_vrings (vw_vdev w))" and w2: "vring_start_in_ctl i kickfd w = Some w2"
    and w': "w' = vring_handle_msg i (VringStart i) (upd_vdev (vd_handle_complete_update c) w2)"
    and n: "n_bios bs i = 0" and mm: "vd_memmap (vw_vdev w) = Some (sh_mm (vr_shadow_vq (vring i w)))"
    and conn: "vd_conn_handler (vw_vdev w) \<noteq> None" and cnt: "counted w'"
  shows "mem_ok bs w'"
proof -
  let ?w0 = "upd_vring i (vr_kickfd_update (\<lambda>_. kickfd)) w"
  let ?w1 = "vring_sync_to_virtq i ?w0"
  obtain vq m where vq: "virtio_virtq_init (vr_vq (vring i ?w1)) (vw_machine ?w1) = Some (vq, m)"
    and w2: "w2 = upd_vdev (\<lambda>vd. vd\<lparr>vd_num_vrings_started := vd_num_vrings_started vd + 1,
          vd_num_vrings_in_flight := vd_num_vrings_in_flight vd + 1\<rparr>)
        (upd_vring i (\<lambda>v. v\<lparr>vr_vq := vq, vr_started_in_ctl := True\<rparr>) (?w1\<lparr>vw_machine := m\<rparr>))"
    using w2 by (auto simp: vring_start_in_ctl_def split: if_splits bind_splits)
  note q = virtq_init_fields [OF vq]
  define v where "v = (vring i w)\<lparr>vr_kickfd := kickfd, vr_vq := vq, vr_started_in_ctl := True\<rparr>"
  have m1: "m_mms (vw_machine ?w1) = m_mms (vw_machine w)" "m_logs (vw_machine ?w1) = m_logs (vw_machine w)"
    by (simp_all add: vring_sync_to_virtq_def virtq_set_notify_fd_def virtq_do_notify_def upd_vring_def upd_vdev_def Let_def)
  have x: "vd_vrings (vw_vdev w') = (vd_vrings (vw_vdev w))[i := v]" "mrest w' = mrest w" "vw_rq w' = VringStart i # vw_rq w"
    "vw_ctl w' = vw_ctl w" "vw_next_log w' = vw_next_log w" "vw_machine w' = m"
    using i by (simp_all add: w' w2 v_def vring_sync_to_virtq_def virtq_set_notify_fd_def virtq_do_notify_def
        vring_handle_msg_def run_in_rq_def upd_vring_def upd_vdev_def mrest_def Let_def)
  have vi: "vring i w' = v" using x(1) i by simp
  have l: "shadow_ok w i" using ok i by (simp add: mem_ok_def live_vring_def)
  have r: "vd_memmap (vw_vdev w') = vd_memmap (vw_vdev w)" "vd_memlog (vw_vdev w') = vd_memlog (vw_vdev w)"
    "(vd_conn_handler (vw_vdev w') = None) = (vd_conn_handler (vw_vdev w) = None)"
    using x(2) by (simp_all add: mrest_def)
  have "queue_ok w' i" using x by (simp add: queue_ok_def starting_def Let_def)
  moreover have "shadow_ok w' i" using l mm conn unfolding shadow_ok_def Let_def vi r by (auto simp: v_def)
  moreover have "buffers_ok bs w' i" using q(1) n unfolding buffers_ok_def Let_def vi by (simp add: v_def framed_none)
  moreover have "logs_ok w \<Longrightarrow> logs_ok w'" using x q m1 by (simp add: logs_ok_def mrest_def)
  ultimately show ?thesis
    by (intro mem_ok_one [OF _ _ _ x(2) _ _ cnt x(1)]) (use ok x q m1 in \<open>auto simp: mem_ok_def live_vring_def\<close>)
qed

lemma set_vring_kick_mem:
  assumes f: "fresh bs w" and h: "vhost_set_vring_kick sy p sz fds w = Some (ret, w')" and c: "handled bs w ret w'"
  shows "kept bs ret w'"
proof (cases "\<exists>i. msg_u64_get_vring (vw_vdev w) p sz (length fds) = Some i \<and> fds \<noteq> [] \<and> \<not> vr_started_in_ctl (vring i w)")
  case False
  then have "w' = w" using h by (auto simp: vhost_set_vring_kick_def split: if_splits option.splits)
  then show ?thesis using kept_same [OF f] by simp
next
  case True
  note ff = fresh_facts [OF f]
  obtain i where i: "msg_u64_get_vring (vw_vdev w) p sz (length fds) = Some i" "fds \<noteq> []" "\<not> vr_started_in_ctl (vring i w)"
    using True by blast
  with h obtain mid r1 w1 where a: "vd_memmap (vw_vdev w) = Some mid" "vring_update_shadow_vq_addrs i mid w = Some (r1, w1)"
    "(case r1 of Inl e \<Rightarrow> Some (Inl e, w1) | Inr _ \<Rightarrow> (case sy_dup sy of Inl e \<Rightarrow> Some (Inl e, w1)
      | Inr kickfd \<Rightarrow> do { w2 \<leftarrow> vring_start_in_ctl i kickfd w1; Some (OK, vring_handle_msg i (VringStart i)
          (upd_vdev (vd_handle_complete_update (\<lambda>_. Some SetVringKickComplete)) w2)) })) = Some (ret, w')"
    by (auto simp: vhost_set_vring_kick_def split: bind_splits)
  have il: "i < length (vd_vrings (vw_vdev w))" using msg_u64_get_vring_bound [OF ff(9) i(1)] .
  have ok: "mem_ok bs w1" by (rule resolved_one_mem [OF f a(2) il i(3)])
  note r = update_addrs_resolved [OF a(2)]
  note rf = resolved_fields [OF r(1)]
  have cnt: "counted w'" using c core_counted by (auto simp: handled_def)
  have "mem_ok bs w'" if r1: "r1 = OK" "vring_start_in_ctl i kickfd w1 = Some w2"
    "w' = vring_handle_msg i (VringStart i) (upd_vdev (vd_handle_complete_update (\<lambda>_. Some SetVringKickComplete)) w2)" for kickfd w2
    by (rule start_in_ctl_mem [OF ok _ r1(2,3) _ _ _ cnt]) (use il i(3) ff(3,7) rf a(1) r(2) [OF r1(1) il] in simp_all)
  then show ?thesis using a(3) kept_mem_ok [OF ok] kept_mem_ok [of bs w'] by (auto split: sum.splits bind_splits)
qed

section \<open>Messages and connections\<close>

lemma severable_disconnect:
  assumes "severable bs w" and "vd_conn_handler (vw_vdev w) \<noteq> None" and "length bs < 2 ^ 16" and "vdev_disconnect K sy w = Some w'"
  shows "mem_ok bs w'"
  by (rule disconnect_mem [OF _ _ _ _ assms(3,2,4)]) (use assms(1) in \<open>simp_all add: severable_def\<close>)

lemma dispatched:
  "(if c then a else b) p sz fds w = Some r \<Longrightarrow> (c \<Longrightarrow> a p sz fds w = Some r \<Longrightarrow> P) \<Longrightarrow> (\<not> c \<Longrightarrow> b p sz fds w = Some r \<Longrightarrow> P) \<Longrightarrow> P"
  by (simp split: if_splits)

context vdev_type
begin

lemma handle_msg_mem:
  assumes f: "fresh bs w" and h: "vhost_handle_msg K sy ty req p sz fds w = Some (ret, w')"
    and room: "vd_num_vrings_started (vw_vdev w) \<noteq> - 1"
  shows "kept bs ret w'"
proof (cases "req = VHOST_USER_SET_VRING_KICK")
  case True
  then show ?thesis
    using h set_vring_kick_mem [OF f _ handle_msg_handled [OF fresh_facts(9) [OF f] h room]] by (simp add: handle_msg_kick)
next
  case False
  note unseen = kept_same [OF f mview_get_features] kept_same [OF f mview_set_owner] kept_same [OF f mview_get_protocol_features]
    kept_same [OF f mview_set_protocol_features] kept_same [OF f mview_get_config] kept_same [OF f mview_get_queue_num]
    kept_same [OF f mview_set_vring_base] kept_same [OF f mview_get_vring_base] kept_same [OF f mview_get_inflight_fd]
    kept_same [OF f mview_set_inflight_fd]
  note seen = set_features_mem [OF f] set_mem_table_mem [OF f] set_log_base_mem [OF f] set_vring_call_mem [OF f]
    set_vring_err_mem [OF f] set_vring_num_mem [OF f] set_vring_addr_mem [OF f]
  from h show ?thesis unfolding vhost_handle_msg_def
    by (elim dispatched) (erule unseen seen | use False kept_same [OF f refl] in simp)+
qed

lemma conn_read_mem:
  assumes inv: "vdev_inv w" and ok: "mem_ok (bios w) w" and few: "length (bios w) < 2 ^ 16"
    and conn: "vd_conn_handler (vw_vdev w) = Some True"
    and room: "vd_num_vrings_started (vw_vdev w) \<noteq> - 1" and c: "conn_read K sy ty rm rd w = Some w'"
  shows "mem_ok (bios w) w'"
proof -
  obtain res fds closed where n: "net_recv_msg 272 VHOST_USER_MAX_FDS rm rd = (res, fds, closed)" using prod_cases3 by blast
  let ?w0 = "close_fds closed w"
  have u: "unseen w ?w0" by simp
  have inv0: "vdev_inv ?w0" using inv vdev_inv_unseen [OF u] by simp
  have b0: "bios ?w0 = bios w" using u by (simp add: unseen_def bios_def)
  have ok0: "mem_ok (bios w) ?w0" by (rule mem_ok_mview [OF mview_close_fds ok])
  have w0: "vd_conn_handler (vw_vdev ?w0) = Some True" "vd_num_vrings_started (vw_vdev ?w0) \<noteq> - 1" using conn room by simp_all
  show ?thesis
  proof (cases "\<exists>len hdr payload. res = Inr (len, Some hdr, Some payload)")
    case False
    then have "vdev_disconnect K sy ?w0 = Some w'"
      using c n by (auto simp: conn_read_def Let_def split: sum.splits option.splits)
    then show ?thesis by (intro severable_disconnect [OF severable_mem_ok [OF ok0] _ few]) (use w0 in simp)
  next
    case True
    then obtain len hdr payload where res: "res = Inr (len, Some hdr, Some payload)" by blast
    obtain w1 where w1: "vdev_handle_start sy (mh_req hdr) (msg_ack_needed (vw_vdev ?w0) (mh_flags hdr)) ?w0 = Some w1"
      "ready (bios ?w0) w1" "vd_num_vrings_started (vw_vdev w1) = vd_num_vrings_started (vw_vdev ?w0)"
      using handle_start_ready [OF inv0 w0(1)] by blast
    from c n res w1 obtain ret w2 where
      w2: "vhost_handle_msg K sy ty (mh_req hdr) payload (mh_size hdr) fds w1 = Some (ret, w2)"
        "(case ret of Inr _ \<Rightarrow> Some (close_fds (rev fds) w2) | Inl _ \<Rightarrow> do { w4 \<leftarrow> vdev_handle_finish sy (close_fds (rev fds) w2);
          vdev_disconnect K sy w4 }) = Some w'"
      by (auto simp: conn_read_def Let_def bind_eq_Some_conv)
    have f: "fresh (bios w) w1"
      using w1(2) b0 few mem_ok_mview [OF mview_handle_start [OF w1(1)] ok0] by (simp add: fresh_def)
    have k: "kept (bios w) ret w2" "handled (bios w) w1 ret w2"
      using handle_msg_mem [OF f w2(1)] handle_msg_handled [OF w1(2) w2(1)] w1(3) w0(2) b0 by simp_all
    note k3 = kept_mview [OF mview_close_fds [of "rev fds" w2] k(1)]
    show ?thesis
    proof (cases ret)
      case (Inl e)
      with w2(2) obtain w4 where w4: "vdev_handle_finish sy (close_fds (rev fds) w2) = Some w4" "vdev_disconnect K sy w4 = Some w'"
        by (auto simp: bind_eq_Some_conv)
      have "mview w4 = mview w2" using mview_handle_finish [OF w4(1)] by simp
      then have "vd_conn_handler (vw_vdev w4) \<noteq> None" using k(2) conn_mview [of w4 w2] by (simp add: handled_def)
      moreover have "severable (bios w) w4"
        using severable_mview [OF mview_handle_finish [OF w4(1)]] k3 Inl by (simp add: kept_def)
      ultimately show ?thesis using severable_disconnect [OF _ _ few w4(2)] by simp
    next
      case (Inr u)
      then show ?thesis using w2(2) k3 by (simp add: kept_def)
    qed
  qed
qed

end

lemma server_read_mem:
  assumes inv: "vdev_inv w" and ok: "mem_ok (bios w) w" and r: "server_read sy w = Some w'"
  shows "mem_ok (bios w) w'"
proof (cases "mview w' = mview w")
  case True
  then show ?thesis by (rule mem_ok_mview [OF _ ok])
next
  case False
  then obtain connfd timerfd where w': "w' = upd_vdev (\<lambda>vd. vd\<lparr>vd_listen_handler := Some False, vd_connfd := connfd,
       vd_conn_handler := Some True, vd_timerfd := timerfd, vd_timer_handler := Some False,
       vd_negotiated_features := 0, vd_negotiated_protocol_features := 0\<rparr>) w" and c: "vd_connfd (vw_vdev w) < 0"
    using r by (auto simp: server_read_def split: if_splits sum.splits)
  have k: "conn_ok w" using inv by (simp add: vdev_inv_def core_def)
  then have z: "vd_num_vrings_in_flight (vw_vdev w) = 0" "vd_conn_handler (vw_vdev w) = None"
    using c by (auto simp: conn_ok_def Let_def)
  have "live_vring (bios w) w' i" if i: "i < length (vd_vrings (vw_vdev w))" for i
  proof -
    have "live_vring (bios w) w i" "\<not> vr_started_in_ctl (vring i w)" using ok i z by (simp_all add: mem_ok_def counted_def)
    then show ?thesis using z by (simp add: w' live_vring_def queue_ok_def shadow_ok_def buffers_ok_def upd_vdev_def Let_def)
  qed
  moreover have "refs (bios w) (vw_vdev w') = refs (bios w) (vw_vdev w)" by (rule refs_cong) (simp_all add: w' upd_vdev_def)
  ultimately show ?thesis using ok by (simp add: mem_ok_def) (simp add: w' logs_ok_def counted_def upd_vdev_def)
qed

lemma stop_server_mem:
  assumes ok: "mem_ok (bios w) w" and few: "length (bios w) < 2 ^ 16" and r: "vhd_vdev_stop_server K sy w = Some w'"
  shows "mem_ok (bios w) w'"
proof -
  define w1 where "w1 = upd_vdev (\<lambda>vd. vd\<lparr>vd_listen_handler := None, vd_listenfd := - 1\<rparr>)
    (replace_fd (vd_listenfd (vw_vdev w)) (upd_vdev (vd_work_update (\<lambda>_. True)) w))"
  have "mview (upd_vdev (vd_work_update f) x) = mview x" "mview (upd_vdev (\<lambda>vd. vd\<lparr>vd_listen_handler := None, vd_listenfd := - 1\<rparr>) x) = mview x"
    for f x by (rule mview_upd_vdev, simp add: mdev_def)+
  then have m1: "mview w1 = mview w" by (simp add: w1_def)
  have w': "mview w' = mview w \<or> (if vd_conn_handler (vw_vdev w1) \<noteq> None then vdev_disconnect K sy w1
      else do { w2 \<leftarrow> vdev_maybe_vrings_stopped w1; vdev_maybe_drained K sy w2 }) = Some w'"
    using r by (auto simp: vhd_vdev_stop_server_def vdev_work_fn_def vdev_stop_def vdev_stop_listening_def w1_def upd_vdev_def
        simp del: not_None_eq split: if_splits)
  have ok1: "mem_ok (bios w) w1" by (rule mem_ok_mview [OF m1 ok])
  have "mem_ok (bios w) w'" if d: "do { w2 \<leftarrow> vdev_maybe_vrings_stopped w1; vdev_maybe_drained K sy w2 } = Some w'"
  proof -
    obtain w2 where w2: "vdev_maybe_vrings_stopped w1 = Some w2" "vdev_maybe_drained K sy w2 = Some w'"
      using d by (auto simp: bind_eq_Some_conv)
    show ?thesis by (rule maybe_drained_mem [OF mem_ok_mview [OF mview_maybe_vrings_stopped [OF w2(1)] ok1] w2(2) few])
  qed
  then show ?thesis using w' mem_ok_mview [OF _ ok] severable_disconnect [OF severable_mem_ok [OF ok1] _ few] by metis
qed

end
