(* ===== verification/Vdev_Mem_Io.thy ===== *)
theory Vdev_Mem_Io
  imports Vdev_Mem_Msg
begin

text \<open>
  Requests and the references to memory maps that they hold: dequeueing takes one for each
  request, and completing a request, at once or later, gives it back.
\<close>

section \<open>Dequeueing\<close>

text \<open>What dequeueing leaves alone of a queue, and of the logs.\<close>

definition setup_kept :: "virtio_virtq \<Rightarrow> virtio_virtq \<Rightarrow> bool" where
  "setup_kept vq vq' \<longleftrightarrow> vq_qsz vq' = vq_qsz vq \<and> vq_mm vq' = vq_mm vq \<and> vq_log vq' = vq_log vq \<and>
     vq_max_chain_len vq' = vq_max_chain_len vq \<and> length (vq_buffers vq') = length (vq_buffers vq)"

definition logs_same :: "machine \<Rightarrow> machine \<Rightarrow> bool" where
  "logs_same m m' \<longleftrightarrow> (\<forall>l. m_logs m' l = None \<longleftrightarrow> m_logs m l = None)"

definition bounded :: "(nat \<Rightarrow> nat) \<Rightarrow> bool" where
  "bounded n \<longleftrightarrow> (\<forall>mid. n mid < 2 ^ 63)"

text \<open>
  \<open>N\<close> gives the references to each map when the handler's state is \<open>s\<close>. The counts stay exact as
  long as they do not wrap around.
\<close>

definition accounted :: "('s \<Rightarrow> nat \<Rightarrow> nat) \<Rightarrow> 's vqst \<Rightarrow> 's vqst \<Rightarrow> bool" where
  "accounted N st st' =
     (case (st, st') of ((vq, m, s), (vq', m', s')) \<Rightarrow>
      setup_kept vq vq' \<and> logs_same m m' \<and> (\<forall>mid. N s mid \<le> N s' mid) \<and> (vq_qsz vq = 0 \<longrightarrow> s' = s) \<and>
      (maps_ok (N s) (m_mms m) \<longrightarrow> bounded (N s') \<longrightarrow> maps_ok (N s') (m_mms m')))"

lemma accounted_trans:
  assumes "accounted N a b" and "accounted N b c"
  shows "accounted N a c"
proof -
  obtain vq1 m1 s1 vq2 m2 s2 vq3 m3 s3 where e: "a = (vq1, m1, s1)" "b = (vq2, m2, s2)" "c = (vq3, m3, s3)" by (metis prod_cases3)
  have le: "N s1 mid \<le> N s2 mid" "N s2 mid \<le> N s3 mid" for mid using assms by (simp_all add: accounted_def e)
  then have "bounded (N s3) \<Longrightarrow> bounded (N s2)" unfolding bounded_def using le_less_trans by blast
  then show ?thesis using assms le le_trans [OF le] by (auto simp: accounted_def e setup_kept_def logs_same_def)
qed

lemma accounted_same:
  "setup_kept vq vq' \<Longrightarrow> m_mms m' = m_mms m \<Longrightarrow> m_logs m' = m_logs m \<Longrightarrow> accounted N (vq, m, s) (vq', m', s)"
  by (simp add: accounted_def logs_same_def)

lemma setup_kept_refl: "setup_kept vq vq"
  by (simp add: setup_kept_def)

lemma three_cases:
  "(if c then Some (a, b, m, s) else if d then Some (a2, b2, m, s) else f) = Some (r, vq', m', s') \<Longrightarrow>
    (vq' = b \<or> vq' = b2) \<and> m' = m \<and> s' = s \<or> f = Some (r, vq', m', s')"
  by (auto split: if_splits)

locale counting_handler =
  fixes h :: "'s handle_buffers_cb" and N :: "'s \<Rightarrow> nat \<Rightarrow> nat"
  assumes handler_counts: "h iov (vq, m, s) = Some (vq', m', s') \<Longrightarrow>
      vq' = vq \<and> logs_same m m' \<and> (\<forall>mid. N s mid \<le> N s' mid) \<and>
      (maps_ok ((N s)(iov_mm iov := Suc (N s (iov_mm iov)))) (m_mms m) \<longrightarrow> bounded (N s') \<longrightarrow> maps_ok (N s') (m_mms m'))"
begin

lemma dequeue_one_accounted:
  assumes d: "virtq_dequeue_one h head resubmit (vq, m, s) = Some (r, vq', m', s')"
    and l: "length (vq_buffers vq) = unat (vq_max_chain_len vq)" and q: "vq_qsz vq \<noteq> 0"
  shows "accounted N (vq, m, s) (vq', m', s')"
proof -
  obtain mm where mm: "ms_maps (m_mms m) (vq_mm vq) = Some mm" using d by (auto simp: virtq_dequeue_one_def bind_eq_Some_conv)
  obtain res vq1 g1 where walk: "walk_chain mm vq (m_guest m) head = (res, vq1, g1)" using prod_cases3 by blast
  have "vq_room vq1" "only_buffers (vq\<lparr>vq_next_buffer := 0\<rparr>) vq1" using walk_chain_extends [OF l walk] by (auto simp: extends_def)
  then have k1: "setup_kept vq vq1"
    using l by (cases vq, cases vq1, simp add: only_buffers_def setup_kept_def vq_room_def)
  show ?thesis
  proof (cases res)
    case (Inl e)
    then show ?thesis using d mm walk k1 by (auto simp: virtq_dequeue_one_def intro!: accounted_same)
  next
    case (Inr n)
    let ?m1 = "m\<lparr>m_guest := g1, m_mms := vhd_memmap_ref (vq_mm vq1) (m_mms m)\<rparr>"
    obtain vq2 m2 where u: "(if resubmit then (vq1, ?m1) else virtq_inflight_avail_update vq1 head ?m1) = (vq2, m2)"
      using prod.exhaust_sel by blast
    then have k2: "setup_kept vq1 vq2" "m_mms m2 = m_mms ?m1" "m_logs m2 = m_logs m"
      by (auto simp: virtq_inflight_avail_update_def with_inflight_def setup_kept_def split: if_splits)
    obtain iov vq3 m3 s3 where h: "h iov (vq2, m2, s) = Some (vq3, m3, s3)" "s' = s3" "m' = m3" "iov_mm iov = vq_mm vq1"
      "vq' = vq3\<lparr>vq_last_avail := vq_last_avail vq3 + 1\<rparr>"
      using d mm walk Inr u by (auto simp: virtq_dequeue_one_def Let_def bind_eq_Some_conv)
    note c = handler_counts [OF h(1)]
    have i: "iov_mm iov = vq_mm vq" using h(4) k1 by (simp add: setup_kept_def)
    have "maps_ok (N s') (m_mms m')" if ok: "maps_ok (N s) (m_mms m)" "bounded (N s')"
    proof -
      have "map_ok (N s (vq_mm vq)) (Some mm)" using ok(1) mm by (metis maps_ok_def)
      then have "N s (vq_mm vq) \<noteq> 0" by (simp add: map_ok_def)
      from maps_ok_ref [OF ok(1) this] have "maps_ok ((N s)(iov_mm iov := Suc (N s (iov_mm iov)))) (m_mms m2)"
        using k2(2) k1 i by (simp add: setup_kept_def)
      then show ?thesis using c ok(2) h by simp
    qed
    moreover have "setup_kept vq vq'" using c h k1 k2(1) by (simp add: setup_kept_def)
    moreover have "logs_same m m'" using c h k2(3) by (simp add: logs_same_def)
    ultimately show ?thesis using c h q by (simp add: accounted_def)
  qed
qed

lemma dequeue_loop_accounted:
  "dequeue_loop h n (vq, m, s) = Some (r, vq', m', s') \<Longrightarrow> length (vq_buffers vq) = unat (vq_max_chain_len vq) \<Longrightarrow>
    accounted N (vq, m, s) (vq', m', s')"
proof (induction n arbitrary: vq m s)
  case 0
  then show ?case by (simp add: accounted_same setup_kept_refl)
next
  case (Suc n)
  obtain a m1 where ra: "read_avail_m vq m = (a, m1)" by fastforce
  then have m1: "accounted N (vq, m, s) (vq, m1, s)"
    by (auto simp: read_avail_m_def read_avail_def Let_def setup_kept_refl intro!: accounted_same)
  let ?head = "av_ring a (unat (vq_last_avail vq mod vq_qsz vq))"
  show ?case
  proof (cases "?head \<ge> vq_qsz vq")
    case True
    then show ?thesis using Suc.prems ra m1 by simp
  next
    case False
    then have q: "vq_qsz vq \<noteq> 0" by auto
    obtain res vq2 m2 s2 where one: "virtq_dequeue_one h ?head False (vq, m1, s) = Some (res, vq2, m2, s2)"
      using False Suc.prems ra by (auto simp: bind_eq_Some_conv)
    note o = accounted_trans [OF m1 dequeue_one_accounted [OF one Suc.prems(2) q]]
    then have l2: "length (vq_buffers vq2) = unat (vq_max_chain_len vq2)" using Suc.prems(2) by (simp add: accounted_def setup_kept_def)
    show ?thesis
    proof (cases res)
      case (Inl e)
      then have "vq' = mark_broken vq2" "m' = m2" "s' = s2" using Suc.prems ra False one by simp_all
      then show ?thesis using o by (simp add: mark_broken_def accounted_def setup_kept_def)
    next
      case (Inr u)
      let ?vq2 = "vq2\<lparr>vq_metrics := (vq_metrics vq2)\<lparr>vm_request_total := vm_request_total (vq_metrics vq2) + 1\<rparr>\<rparr>"
      have "dequeue_loop h n (?vq2, m2, s2) = Some (r, vq', m', s')" using Inr Suc.prems ra False one by simp
      from Suc.IH [OF this] l2 have "accounted N (?vq2, m2, s2) (vq', m', s')" by simp
      moreover have "accounted N (vq, m, s) (?vq2, m2, s2)" using o by (simp add: accounted_def setup_kept_def)
      ultimately show ?thesis by (rule accounted_trans [rotated])
    qed
  qed
qed

lemma resubmit_loop_accounted:
  "resubmit_loop h heads (vq, m, s) = Some (r, vq', m', s') \<Longrightarrow> length (vq_buffers vq) = unat (vq_max_chain_len vq) \<Longrightarrow>
    accounted N (vq, m, s) (vq', m', s')"
proof (induction heads arbitrary: vq m s)
  case Nil
  then show ?case by (simp add: accounted_same setup_kept_refl)
next
  case (Cons head heads)
  show ?case
  proof (cases "head \<ge> vq_qsz vq")
    case True
    then show ?thesis using Cons.prems by (simp add: accounted_same setup_kept_refl)
  next
    case False
    then have q: "vq_qsz vq \<noteq> 0" by auto
    obtain res vq2 m2 s2 where one: "virtq_dequeue_one h head True (vq, m, s) = Some (res, vq2, m2, s2)"
      using False Cons.prems by (auto simp: bind_eq_Some_conv)
    note o = dequeue_one_accounted [OF one Cons.prems(2) q]
    then have l2: "length (vq_buffers vq2) = unat (vq_max_chain_len vq2)" using Cons.prems(2) by (simp add: accounted_def setup_kept_def)
    show ?thesis
    proof (cases res)
      case (Inl e)
      then show ?thesis using Cons.prems False one o by simp
    next
      case (Inr u)
      with Cons.prems False one have "resubmit_loop h heads (vq2, m2, s2) = Some (r, vq', m', s')" by simp
      from Cons.IH [OF this l2] show ?thesis by (rule accounted_trans [OF o])
    qed
  qed
qed

lemma dequeue_avail_accounted:
  assumes d: "dequeue_avail h now (vq, m, s) = Some (r, vq', m', s')"
    and l: "length (vq_buffers vq) = unat (vq_max_chain_len vq)"
  shows "accounted N (vq, m, s) (vq', m', s')"
proof -
  define vq1 where "vq1 = (if now - vq_period_start_ts vq > 60
    then vq\<lparr>vq_period_start_ts := now, vq_metrics := (vq_metrics vq)\<lparr>vm_queue_len_max_60s := 0\<rparr>\<rparr> else vq)"
  define vq2 where "vq2 = vq1\<lparr>vq_metrics := (vq_metrics vq1)\<lparr>vm_dispatch_total := vm_dispatch_total (vq_metrics vq1) + 1\<rparr>\<rparr>"
  have k: "setup_kept vq (vq2\<lparr>vq_metrics := M\<rparr>)" for M by (simp add: vq2_def vq1_def setup_kept_def)
  note d' = d [unfolded dequeue_avail_def Let_def prod.case, folded vq1_def, folded vq2_def]
  then obtain avail m1 where a: "read_avail_idx vq2 m = Some (avail, m1)"
    by (auto simp: bind_eq_Some_conv)
  have c: "only_clock m m1"
    using a only_clock_trans [OF read_avail_only_clock]
    by (auto simp: read_avail_idx_def Let_def dest: avail_event_loop_post read_avail_only_clock split: prod.splits if_splits)
  then have o: "accounted N (vq, m, s) (vq2\<lparr>vq_metrics := M\<rparr>, m1, s)" for M
    using k by (intro accounted_same) (simp_all add: only_clock_def)
  have "\<exists>n M. vq' = vq2\<lparr>vq_metrics := M\<rparr> \<and> m' = m1 \<and> s' = s \<or> dequeue_loop h n (vq2\<lparr>vq_metrics := M\<rparr>, m1, s) = Some (r, vq', m', s')"
  proof -
    let ?n = "avail - vq_last_avail vq2"
    let ?e = "(vq_metrics vq2)\<lparr>vm_dispatch_empty := vm_dispatch_empty (vq_metrics vq2) + 1\<rparr>"
    let ?l = "(vq_metrics vq2)\<lparr>vm_queue_len_last := ?n, vm_queue_len_max_60s := max ?n (vm_queue_len_max_60s (vq_metrics vq2))\<rparr>"
    have e: "(if ?n > vq_qsz vq2 then Some (Inl EOVERFLOW, vq2, m1, s) else if ?n = 0 then Some (OK, vq2\<lparr>vq_metrics := ?e\<rparr>, m1, s)
        else dequeue_loop h (unat ?n) (vq2\<lparr>vq_metrics := ?l\<rparr>, m1, s)) = Some (r, vq', m', s')"
      using d' by (simp only: a Option.bind.simps prod.case)
    from three_cases [OF e] show ?thesis
    proof (elim disjE conjE)
      assume "vq' = vq2" "m' = m1" "s' = s"
      then show ?thesis by (intro exI [of _ 0] exI [of _ "vq_metrics vq2"] disjI1) simp
    next
      assume "vq' = vq2\<lparr>vq_metrics := ?e\<rparr>" "m' = m1" "s' = s"
      then show ?thesis by (intro exI [of _ 0] exI [of _ ?e] disjI1) simp
    next
      assume "dequeue_loop h (unat ?n) (vq2\<lparr>vq_metrics := ?l\<rparr>, m1, s) = Some (r, vq', m', s')"
      then show ?thesis by (intro exI [of _ "unat ?n"] exI [of _ ?l] disjI2)
    qed
  qed
  then obtain n M where c: "vq' = vq2\<lparr>vq_metrics := M\<rparr> \<and> m' = m1 \<and> s' = s \<or>
    dequeue_loop h n (vq2\<lparr>vq_metrics := M\<rparr>, m1, s) = Some (r, vq', m', s')" by blast
  have "length (vq_buffers (vq2\<lparr>vq_metrics := M\<rparr>)) = unat (vq_max_chain_len (vq2\<lparr>vq_metrics := M\<rparr>))"
    using k [of M] l by (simp add: setup_kept_def)
  from c dequeue_loop_accounted [OF _ this] accounted_trans [OF o [of M]] show ?thesis using o [of M] by blast
qed

lemma dequeue_many_accounted:
  assumes d: "virtq_dequeue_many h now (vq, m, s) = Some (r, vq', m', s')"
    and l: "length (vq_buffers vq) = unat (vq_max_chain_len vq)"
  shows "accounted N (vq, m, s) (vq', m', s')"
proof (cases "vq_broken vq \<or> \<not> vq_inflight_check vq")
  case True
  then show ?thesis
    using d l accounted_same [OF setup_kept_refl refl refl, of N vq m s]
    by (auto simp: virtq_dequeue_many_def virtq_is_broken_def dest: dequeue_avail_accounted split: if_splits)
next
  case False
  then obtain res vq1 m1 s1 where rs: "virtq_inflight_resubmit h (vq, m, s) = Some (res, vq1, m1, s1)"
    using d by (auto simp: virtq_dequeue_many_def virtq_is_broken_def bind_eq_Some_conv)
  then have o: "accounted N (vq, m, s) (vq1, m1, s1)"
    using l accounted_same [OF setup_kept_refl refl refl, of N vq m s]
    by (auto simp: virtq_inflight_resubmit_def dest: resubmit_loop_accounted split: if_splits)
  then have l1: "length (vq_buffers vq1) = unat (vq_max_chain_len vq1)" using l by (simp add: accounted_def setup_kept_def)
  show ?thesis
  proof (cases res)
    case (Inl e)
    then have "vq' = mark_broken vq1" "m' = m1" "s' = s1" using d False rs by (simp_all add: virtq_dequeue_many_def virtq_is_broken_def)
    then show ?thesis using o by (simp add: mark_broken_def accounted_def setup_kept_def)
  next
    case (Inr u)
    then have "dequeue_avail h now (vq1\<lparr>vq_inflight_check := False\<rparr>, m1, s1) = Some (r, vq', m', s')"
      using d False rs by (simp add: virtq_dequeue_many_def virtq_is_broken_def)
    from dequeue_avail_accounted [OF this] l1 have "accounted N (vq1\<lparr>vq_inflight_check := False\<rparr>, m1, s1) (vq', m', s')" by simp
    moreover have "accounted N (vq, m, s) (vq1\<lparr>vq_inflight_check := False\<rparr>, m1, s1)" using o by (simp add: accounted_def setup_kept_def)
    ultimately show ?thesis by (rule accounted_trans [rotated])
  qed
qed

end

section \<open>The handlers of the devices\<close>

lemma push_fields:
  assumes "virtq_push vq iov len m = Some m'"
  shows "m_mms m' = m_mms m \<and> logs_same m m'"
proof -
  let ?x = "run_stores (push_stores vq iov len) m"
  have "vq_qsz vq \<noteq> 0" using assms by (auto simp: virtq_push_def)
  from virtq_push_stores [OF this] assms obtain i m1 where
    m1: "push_log vq iov i ?x = Some m1" "m' = virtq_notify vq m1" by auto
  have "m_mms m1 = m_mms ?x \<and> logs_same ?x m1"
    using m1(1) by (auto simp: push_log_def logs_same_def bind_eq_Some_conv split: option.splits if_splits)
  then show ?thesis by (simp add: m1(2) notify_frame run_push_stores_frame logs_same_def)
qed

lemma logs_same_trans: "logs_same a b \<Longrightarrow> logs_same b c \<Longrightarrow> logs_same a c"
  by (simp add: logs_same_def)

text \<open>The reference of a request is given back.\<close>

lemma maps_ok_give_back:
  assumes "maps_ok (n(iov_mm iov := Suc (n (iov_mm iov)))) (m_mms m)" and "bounded n"
  shows "maps_ok n (m_mms (virtio_free_iov K iov m))"
proof -
  let ?n = "n(iov_mm iov := Suc (n (iov_mm iov)))"
  have "n (iov_mm iov) < 2 ^ 63" using assms(2) by (simp add: bounded_def)
  then have "maps_ok (?n(iov_mm iov := ?n (iov_mm iov) - 1)) (vhd_memmap_unref K (iov_mm iov) (m_mms m))"
    by (intro maps_ok_unref [OF assms(1)]) simp_all
  then show ?thesis by (simp add: virtio_free_iov_def)
qed

definition gives_back :: "virtq_iov_private \<Rightarrow> machine \<Rightarrow> machine \<Rightarrow> bool" where
  "gives_back iov m m' \<longleftrightarrow> logs_same m m' \<and> (\<forall>n. maps_ok (n(iov_mm iov := Suc (n (iov_mm iov)))) (m_mms m) \<longrightarrow> bounded n \<longrightarrow> maps_ok n (m_mms m'))"

lemma free_gives_back:
  assumes "m_mms m1 = m_mms m" and "logs_same m m1"
  shows "gives_back iov m (virtio_free_iov K iov m1)"
  using assms maps_ok_give_back [of _ iov m1 K] by (simp add: gives_back_def logs_same_def) (simp add: virtio_free_iov_def)

lemma abort_gives_back: "abort_request K vq iov m = Some m' \<Longrightarrow> gives_back iov m m'"
  by (auto simp: abort_request_def bind_eq_Some_conv dest!: push_fields intro!: free_gives_back)

lemma complete_req_gives_back: "complete_req K vq iov st m = Some m' \<Longrightarrow> gives_back iov m m'"
  by (auto simp: complete_req_def set_status_def bind_eq_Some_conv logs_same_def dest!: push_fields intro!: free_gives_back split: if_splits)

lemma complete_io_gives_back: "complete_io K vq iov st m = Some m' \<Longrightarrow> gives_back iov m m'"
  by (auto simp: complete_io_def logs_same_def intro: complete_req_gives_back free_gives_back split: if_splits)

lemma fs_abort_gives_back: "fs_abort_request K vq iov m = Some m' \<Longrightarrow> gives_back iov m m'"
  by (auto simp: fs_abort_request_def bind_eq_Some_conv dest!: push_fields intro!: free_gives_back)

lemma complete_request_gives_back: "complete_request K vq iov out st m = Some m' \<Longrightarrow> gives_back iov m m'"
  by (auto simp: complete_request_def bind_eq_Some_conv logs_same_def dest!: push_fields intro!: free_gives_back split: if_splits)

text \<open>The references that the requests of a vring hold, on top of others.\<close>

definition requests_hold :: "(nat \<Rightarrow> nat) \<Rightarrow> nat \<Rightarrow> vhd_request_queue \<times> vworld \<Rightarrow> nat \<Rightarrow> nat" where
  "requests_hold base i s mid = base mid + count_if (\<lambda>b. bio_vring b = i \<and> iov_mm (bio_iov b) = mid) (rq_submission (fst s))"

text \<open>A handler gives the reference back or passes it on with a request.\<close>

definition passes_on :: "nat \<Rightarrow> virtq_iov_private \<Rightarrow> vhd_request_queue \<times> vworld \<Rightarrow> vhd_request_queue \<times> vworld \<Rightarrow> bool" where
  "passes_on i iov s s' \<longleftrightarrow> (\<exists>b. bio_vring b = i \<and> bio_iov b = iov \<and> rq_submission (fst s') = rq_submission (fst s) @ [b])"

lemma handler_counts_cases:
  assumes "s' = s \<and> gives_back iov m m' \<or> passes_on i iov s s' \<and> m_mms m' = m_mms m \<and> logs_same m m'"
  shows "logs_same m m' \<and> (\<forall>mid. requests_hold base i s mid \<le> requests_hold base i s' mid) \<and>
    (maps_ok ((requests_hold base i s)(iov_mm iov := Suc (requests_hold base i s (iov_mm iov)))) (m_mms m) \<longrightarrow>
     bounded (requests_hold base i s') \<longrightarrow> maps_ok (requests_hold base i s') (m_mms m'))"
  using assms
proof (elim disjE conjE)
  assume "passes_on i iov s s'" and m: "m_mms m' = m_mms m" "logs_same m m'"
  then have "requests_hold base i s' = (requests_hold base i s)(iov_mm iov := Suc (requests_hold base i s (iov_mm iov)))"
    by (auto simp: passes_on_def requests_hold_def fun_eq_iff)
  with m show ?thesis by simp
qed (simp add: gives_back_def)

lemma reads_keep:
  "read_type req m = (t, m') \<Longrightarrow> m_mms m' = m_mms m \<and> m_logs m' = m_logs m"
  "read_sector req m = (x, m') \<Longrightarrow> m_mms m' = m_mms m \<and> m_logs m' = m_logs m"
  by (auto simp: read_type_def read_sector_def read_hdr_def Let_def)

lemma assert_inout_keeps: "assert_inout req m = Some m' \<Longrightarrow> m_mms m' = m_mms m \<and> m_logs m' = m_logs m"
  by (auto simp: assert_inout_def Let_def dest!: reads_keep split: prod.splits if_splits)

lemma readonly_denied_keeps: "readonly_denied ro req m = (d, m') \<Longrightarrow> m_mms m' = m_mms m \<and> m_logs m' = m_logs m"
  by (auto simp: readonly_denied_def Let_def dest!: reads_keep split: prod.splits if_splits)

lemma sum_data_buffers_keeps: "sum_data_buffers req bs len m = (l, m') \<Longrightarrow> m_mms m' = m_mms m \<and> m_logs m' = m_logs m"
proof (induction bs arbitrary: len m)
  case (Cons b bs)
  then show ?case by (fastforce simp: Let_def dest: reads_keep split: prod.splits if_splits)
qed simp

lemma gives_back_cong: "m_mms m1 = m_mms m \<Longrightarrow> m_logs m1 = m_logs m \<Longrightarrow> gives_back iov m1 m' = gives_back iov m m'"
  by (simp add: gives_back_def logs_same_def)

lemma blk_dispatch_passes_on:
  "vblk_dispatch (bd_vblk (blk_device bdev i)) bio s = (r, s') \<Longrightarrow> r = OK \<and> passes_on i (bio_iov bio) s s'"
  by (auto simp: blk_device_def virtio_blk_init_dev_def vblk_handle_request_def vhd_enqueue_block_request_def passes_on_def
      bio_iov_def Let_def split: prod.splits)

lemma handle_inout_counts:
  assumes h: "handle_inout K (bd_vblk (blk_device bdev i)) req vq iov (m, s) = Some (m', s')"
  shows "s' = s \<and> gives_back iov m m' \<or> passes_on i iov s s' \<and> m_mms m' = m_mms m \<and> logs_same m m'"
proof -
  let ?dev = "bd_vblk (blk_device bdev i)"
  obtain m1 where 1: "assert_inout req m = Some m1" using h by (auto simp: handle_inout_def Let_def bind_eq_Some_conv)
  obtain den m2 where 2: "readonly_denied (bdi_readonly (vblk_bdev ?dev)) req m1 = (den, m2)" by fastforce
  let ?pdata = "take (length (iov_buffers iov) - 2) (drop 1 (iov_buffers iov))"
  obtain l m3 where 3: "sum_data_buffers req ?pdata 0 m2 = (l, m3)" by fastforce
  have k: "m_mms m2 = m_mms m" "m_logs m2 = m_logs m" "m_mms m3 = m_mms m" "m_logs m3 = m_logs m"
    using assert_inout_keeps [OF 1] readonly_denied_keeps [OF 2] sum_data_buffers_keeps [OF 3] by simp_all
  note g = complete_req_gives_back [of K vq iov VIRTIO_BLK_S_IOERR]
  show ?thesis
  proof (cases "den \<or> length (iov_buffers iov) < 3 \<or> l = None")
    case True
    then show ?thesis using h 1 2 3 g [of m2] g [of m3] gives_back_cong [OF k(1,2)] gives_back_cong [OF k(3,4)]
      by (cases den) (auto simp: handle_inout_def Let_def split: if_splits)
  next
    case False
    then obtain len where 4: "l = Some len" "\<not> den" "\<not> length (iov_buffers iov) < 3" by blast
    obtain sector m4 t m5 fsec m6 where 5: "read_sector req m3 = (sector, m4)" "read_type req m4 = (t, m5)"
      "read_sector req m5 = (fsec, m6)" by fastforce
    have k4: "m_mms m4 = m_mms m" "m_logs m4 = m_logs m" "m_mms m6 = m_mms m" "m_logs m6 = m_logs m"
      using reads_keep(2) [OF 5(1)] reads_keep(1) [OF 5(2)] reads_keep(2) [OF 5(3)] k by simp_all
    show ?thesis
    proof (cases "is_valid_req sector len (bc_capacity (vblk_config ?dev))")
      case False
      then show ?thesis using h 1 2 3 4 5 g [of m4] gives_back_cong [OF k4(1,2)]
        by (auto simp: handle_inout_def Let_def)
    next
      case True
      define bio where "bio = \<lparr>bio_bdev_io = \<lparr>io_type = (if t = VIRTIO_BLK_T_IN then VHD_BDEV_READ else VHD_BDEV_WRITE),
          io_first_sector = fsec, io_total_sectors = len div VIRTIO_BLK_SECTOR_SIZE, io_buffers = ?pdata\<rparr>,
        bio_status = VHD_BDEV_SUCCESS, bio_vring = 0, bio_owner = BlkIo iov\<rparr>"
      obtain r s1 where d: "vblk_dispatch ?dev bio s = (r, s1)" by (rule prod.exhaust)
      note p = blk_dispatch_passes_on [OF d]
      have "m' = m6 \<and> s' = s1" using h 1 2 3 4 5 True d p by (simp add: handle_inout_def Let_def bio_def)
      then show ?thesis using p k4 by (simp add: bio_def bio_iov_def logs_same_def)
    qed
  qed
qed

lemma blk_handler_counts:
  assumes h: "blk_handle_buffers K (bd_vblk (blk_device bdev i)) iov (vq, m, s) = Some (vq', m', s')"
  shows "vq' = vq \<and> (s' = s \<and> gives_back iov m m' \<or> passes_on i iov s s' \<and> m_mms m' = m_mms m \<and> logs_same m m')"
proof -
  let ?req = "buf_base (hd (iov_buffers iov))"
  obtain t m1 where t: "read_type ?req m = (t, m1)" by fastforce
  obtain st m2 where st: "handle_getid (bd_vblk (blk_device bdev i)) iov m1 = (st, m2)" by fastforce
  have k: "m_mms m1 = m_mms m" "m_logs m1 = m_logs m" "m_mms m2 = m_mms m" "m_logs m2 = m_logs m"
    using reads_keep(1) [OF t] st by (auto simp: handle_getid_def Let_def split: if_splits)
  show ?thesis
  proof (cases "t = VIRTIO_BLK_T_IN \<or> t = VIRTIO_BLK_T_OUT")
    case True
    then show ?thesis
      using h t handle_inout_counts [of K bdev i ?req vq iov m1 s] gives_back_cong [OF k(1,2)] k(1,2)
      by (auto simp: blk_handle_buffers_def Let_def logs_same_def dest: abort_gives_back split: if_splits)
  next
    case False
    then show ?thesis
      using h t st gives_back_cong [OF k(1,2), of iov m'] gives_back_cong [OF k(3,4), of iov m']
      by (auto simp: blk_handle_buffers_def Let_def dest: abort_gives_back complete_req_gives_back split: if_splits)
  qed
qed

lemma fs_handler_counts:
  assumes h: "fs_handle_buffers K (fd_vfs (fs_device fsdev i)) iov (vq, m, s) = Some (vq', m', s')"
  shows "vq' = vq \<and> (s' = s \<and> gives_back iov m m' \<or> passes_on i iov s s' \<and> m_mms m' = m_mms m \<and> logs_same m m')"
proof -
  let ?dev = "fd_vfs (fs_device fsdev i)"
  have p: "vfs_dispatch ?dev bio s = (r, t) \<Longrightarrow> r = OK \<and> passes_on i (bio_iov bio) s t" for bio r t
    by (auto simp: fs_device_def virtio_fs_init_dev_def vfs_handle_request_def vhd_enqueue_block_request_def passes_on_def
        bio_iov_def Let_def split: prod.splits)
  show ?thesis
  proof (cases "parse_buffers (iov_buffers iov)")
    case BadFraming
    then show ?thesis using h by (auto simp: fs_handle_buffers_def dest: fs_abort_gives_back split: if_splits)
  next
    case (Framed out)
    obtain r t where d: "vfs_dispatch ?dev (fs_bio iov out) s = (r, t)" by (rule prod.exhaust)
    note o = p [OF d]
    have "vq' = vq \<and> m' = m \<and> s' = t" using h Framed d o by (simp add: fs_handle_buffers_def fs_bio_def Let_def split: if_splits)
    then show ?thesis using o by (simp add: fs_bio_def bio_iov_def logs_same_def)
  qed
qed

interpretation blk_counts: counting_handler "blk_handle_buffers K (bd_vblk (blk_device bdev i))" "requests_hold base i" for K bdev i base
  by unfold_locales (drule blk_handler_counts, elim conjE, drule handler_counts_cases [of _ _ _ _ _ _ base], simp)

interpretation fs_counts: counting_handler "fs_handle_buffers K (fd_vfs (fs_device fsdev i))" "requests_hold base i" for K fsdev i base
  by unfold_locales (drule fs_handler_counts, elim conjE, drule handler_counts_cases [of _ _ _ _ _ _ base], simp)

text \<open>Requests that are passed on have buffers.\<close>

definition passes_framed :: "vhd_request_queue \<times> vworld \<Rightarrow> vhd_request_queue \<times> vworld \<Rightarrow> bool" where
  "passes_framed s s' \<longleftrightarrow> (\<exists>new. rq_submission (fst s') = rq_submission (fst s) @ new \<and> (\<forall>b\<in>set new. iov_buffers (bio_iov b) \<noteq> []))"

lemma passes_framed_refl: "passes_framed s s"
  by (simp add: passes_framed_def)

lemma passes_framed_trans: "passes_framed s t \<Longrightarrow> passes_framed t u \<Longrightarrow> passes_framed s u"
  unfolding passes_framed_def by (metis (no_types, lifting) Un_iff append.assoc set_append)

lemma passes_on_framed: "s' = s \<or> passes_on i iov s s' \<Longrightarrow> iov_buffers iov \<noteq> [] \<Longrightarrow> passes_framed s s'"
  by (auto simp: passes_framed_def passes_on_def)

interpretation blk_framed: request_handler "blk_handle_buffers K (bd_vblk (blk_device bdev i))" passes_framed for K bdev i
proof
  show "length (vq_buffers vq') = length (vq_buffers vq) \<and> passes_framed s s'"
    if h: "blk_handle_buffers K (bd_vblk (blk_device bdev i)) iov (vq, m, s) = Some (vq', m', s')" for iov vq m s vq' m' s'
  proof -
    have "iov_buffers iov \<noteq> []" using h by (auto simp: blk_handle_buffers_def)
    then show ?thesis using blk_handler_counts [OF h] passes_on_framed by blast
  qed
qed (auto intro: passes_framed_refl passes_framed_trans)

interpretation fs_framed: request_handler "fs_handle_buffers K (fd_vfs (fs_device fsdev i))" passes_framed for K fsdev i
proof
  show "length (vq_buffers vq') = length (vq_buffers vq) \<and> passes_framed s s'"
    if h: "fs_handle_buffers K (fd_vfs (fs_device fsdev i)) iov (vq, m, s) = Some (vq', m', s')" for iov vq m s vq' m' s'
  proof -
    have "iov_buffers iov \<noteq> []" using h by (auto simp: fs_handle_buffers_def)
    then show ?thesis using fs_handler_counts [OF h] passes_on_framed by blast
  qed
qed (auto intro: passes_framed_refl passes_framed_trans)

section \<open>Requests in flight\<close>

lemma framed_simps [simp]:
  "framed [] i" "framed (b # bs) i \<longleftrightarrow> (bio_vring b = i \<longrightarrow> iov_buffers (bio_iov b) \<noteq> []) \<and> framed bs i"
  "framed (bs @ cs) i \<longleftrightarrow> framed bs i \<and> framed cs i" "framed (rev bs) i = framed bs i"
  by (auto simp: framed_def)

lemma mem_ok_bios:
  assumes ok: "mem_ok bs w" and r: "refs bs' (vw_vdev w) = refs bs (vw_vdev w)"
    and n: "\<And>i. i < length (vd_vrings (vw_vdev w)) \<Longrightarrow> n_bios bs' i = n_bios bs i"
    and f: "\<And>i. i < length (vd_vrings (vw_vdev w)) \<Longrightarrow> framed bs i \<Longrightarrow> framed bs' i"
  shows "mem_ok bs' w"
proof -
  have "live_vring bs' w i" if "i < length (vd_vrings (vw_vdev w))" for i
    using ok n [OF that] f [OF that] that by (simp add: mem_ok_def live_vring_def buffers_ok_def Let_def)
  then show ?thesis using ok r by (simp add: mem_ok_def)
qed

lemma refs_Cons:
  "refs (b # bs) vd = (if bio_vring b < length (vd_vrings vd) then (refs bs vd)(iov_mm (bio_iov b) := Suc (refs bs vd (iov_mm (bio_iov b))))
     else refs bs vd)"
  by (auto simp: refs_def fun_eq_iff)

lemma refs_bounded:
  assumes "length bs < 2 ^ 16"
  shows "bounded (refs bs vd)"
proof -
  have "refs bs vd mid < 2 ^ 63" for mid using refs_bound [of bs vd mid] assms by simp
  then show ?thesis by (simp add: bounded_def)
qed

lemma mview_dec_in_flight: "mview (vhd_vring_dec_in_flight i w) = mview w"
proof -
  have "mview (upd_vring i (\<lambda>v. v\<lparr>vr_num_in_flight := vr_num_in_flight v - 1\<rparr>) w) = mview w"
    by (rule mview_upd_vring) (simp add: mflags_def)
  then show ?thesis by (simp add: vhd_vring_dec_in_flight_def mview_ctl Let_def)
qed

lemma complete_one_mem:
  assumes ok: "mem_ok (b # bs) w" and few: "length bs < 2 ^ 16" and r: "req_complete (bio_complete K) bio_dec b w = Some w'"
  shows "mem_ok bs w'"
proof -
  let ?n = "length (vd_vrings (vw_vdev w))"
  obtain w1 where w1: "bio_complete K b w = Some w1" "bio_dec (bio_vring b) w1 = Some w'"
    using r by (auto simp: req_complete_def bind_eq_Some_conv)
  show ?thesis
  proof (cases "bio_vring b < ?n")
    case False
    then have "w' = w" using w1 by (simp add: bio_complete_def bio_dec_def)
    then show ?thesis using mem_ok_bios [OF ok, of bs] False by (simp add: refs_Cons)
  next
    case True
    let ?vq = "vr_vq (vring (bio_vring b) w)"
    from w1(1) True obtain m where m: "(case bio_owner b of BlkIo iov \<Rightarrow> complete_io K ?vq iov (bio_status b) (vw_machine w)
        | FsIo iov out \<Rightarrow> complete_request K ?vq iov out (bio_status b) (vw_machine w)) = Some m" "w1 = w\<lparr>vw_machine := m\<rparr>"
      by (auto simp: bio_complete_def Let_def)
    then have g: "gives_back (bio_iov b) (vw_machine w) m"
      by (auto simp: bio_iov_def dest: complete_io_gives_back complete_request_gives_back split: vbio_owner.splits)
    have "maps_ok (refs bs (vw_vdev w)) (m_mms m)"
      using g ok True refs_bounded [OF few] by (auto simp: gives_back_def mem_ok_def refs_Cons)
    moreover have "live_vring bs w1 i" if "i < ?n" for i
    proof -
      have "live_vring (b # bs) w i" using ok that by (simp add: mem_ok_def)
      then show ?thesis
        by (auto simp: m(2) live_vring_def queue_ok_def shadow_ok_def buffers_ok_def starting_def Let_def split: if_splits)
    qed
    moreover have "logs_ok w1" "counted w1"
      using ok g by (simp_all add: m(2) mem_ok_def logs_ok_def counted_def gives_back_def logs_same_def)
    ultimately have "mem_ok bs w1" by (simp add: mem_ok_def m(2))
    then show ?thesis using w1(2) mem_ok_mview [OF mview_dec_in_flight] by (auto simp: bio_dec_def split: if_splits)
  qed
qed

lemma complete_list_mem:
  "mem_ok (bs @ rest) w \<Longrightarrow> length (bs @ rest) < 2 ^ 16 \<Longrightarrow>
    complete_list (req_complete (bio_complete K) bio_dec) bs w = Some w' \<Longrightarrow> mem_ok rest w'"
proof (induction bs arbitrary: w)
  case (Cons b bs)
  obtain w1 where w1: "req_complete (bio_complete K) bio_dec b w = Some w1"
    "complete_list (req_complete (bio_complete K) bio_dec) bs w1 = Some w'"
    using Cons.prems(3) by (auto simp: bind_eq_Some_conv)
  have "mem_ok (bs @ rest) w1" by (rule complete_one_mem [OF _ _ w1(1)]) (use Cons.prems in simp_all)
  with Cons.IH [of w1] w1(2) Cons.prems(2) show ?case by simp
qed simp

lemma refs_cong_bios: "(\<And>P. count_if P bs' = count_if P bs) \<Longrightarrow> refs bs' vd = refs bs vd"
  by (simp add: refs_def fun_eq_iff)

lemma reap_mem:
  assumes ok: "mem_ok (bios w) w" and few: "length (bios w) < 2 ^ 16" and r: "reap K w = Some w'" and inv: "vdev_inv w"
  shows "mem_ok (bios w') w'"
proof -
  let ?L = "rev (rq_completion (vw_queue w))" and ?rest = "rq_submission (vw_queue w) @ vw_backend w"
  obtain w1 where w1: "complete_list (req_complete (bio_complete K) bio_dec) ?L w = Some w1"
    "w' = w1\<lparr>vw_queue := (vw_queue w)\<lparr>rq_completion := []\<rparr>\<rparr>"
    using r by (auto simp: reap_def rq_complete_bh_def move_reverse_rev bind_eq_Some_conv)
  have "core (?L @ ?rest) 0 0 w"
    using inv core_bios_cong [of w "bios w" "?L @ ?rest" 0 0] by (auto simp: vdev_inv_def bios_def)
  then have q: "vw_backend w1 = vw_backend w" using complete_list_ok [OF _ w1(1)] by blast
  have c: "count_if P (?L @ ?rest) = count_if P (bios w)" for P by (simp add: bios_def rev_filter [symmetric])
  have "mem_ok (?L @ ?rest) w" by (rule mem_ok_bios [OF ok refs_cong_bios]) (use c in \<open>simp_all only: n_bios_def\<close>, simp add: bios_def)
  from complete_list_mem [OF this _ w1(1)] few have "mem_ok ?rest w1" by (simp add: bios_def)
  then have "mem_ok ?rest w'" unfolding w1(2) by (rule mem_ok_mview [OF mview_queue(1)])
  moreover have "bios w' = ?rest" using w1(2) q by (simp add: bios_def)
  ultimately show ?thesis by simp
qed

section \<open>Dispatching a vring\<close>

lemma requests_hold_refs:
  assumes "i < length (vd_vrings vd)" and "\<forall>b\<in>set new. bio_vring b = i"
    and "\<And>mid. base mid = held (vd_memmap vd) mid + held (vd_old_memmap vd) mid +
      count_if (\<lambda>b. bio_vring b < length (vd_vrings vd) \<and> iov_mm (bio_iov b) = mid) (bs @ cs) +
      count_if (\<lambda>b. bio_vring b < length (vd_vrings vd) \<and> bio_vring b \<noteq> i \<and> iov_mm (bio_iov b) = mid) sub"
    and "rq_submission (fst s) = sub @ new"
  shows "requests_hold base i s = refs ((sub @ new) @ bs @ cs) vd"
proof
  fix mid
  let ?P = "\<lambda>b. bio_vring b < length (vd_vrings vd) \<and> iov_mm (bio_iov b) = mid"
  have split: "count_if ?P xs = count_if (\<lambda>b. bio_vring b = i \<and> iov_mm (bio_iov b) = mid) xs +
      count_if (\<lambda>b. bio_vring b < length (vd_vrings vd) \<and> bio_vring b \<noteq> i \<and> iov_mm (bio_iov b) = mid) xs" for xs
    using assms(1) by (induction xs) auto
  have "count_if (\<lambda>b. bio_vring b < length (vd_vrings vd) \<and> bio_vring b \<noteq> i \<and> iov_mm (bio_iov b) = mid) new = 0"
    using assms(2) by (auto simp: filter_empty_conv)
  then show "requests_hold base i s mid = refs ((sub @ new) @ bs @ cs) vd mid"
    using split [of sub] split [of new] assms(3) [of mid] assms(4) by (simp add: requests_hold_def refs_def)
qed

lemma live_vring_dispatched:
  assumes l: "live_vring bs w i" and r: "mrest w' = mrest w" and rq: "vw_rq w' = vw_rq w" and ctl: "vw_ctl w' = vw_ctl w"
    and vi: "vring i w' = v" and v: "v = dispatched_vring vq k (vring i w)" and a: "setup_kept (vr_vq (vring i w)) vq"
    and n: "n_bios bs' i \<noteq> n_bios bs i \<Longrightarrow> vq_qsz (vr_vq (vring i w)) \<noteq> 0" and fr: "framed bs i \<Longrightarrow> framed bs' i"
  shows "live_vring bs' w' i"
proof -
  have st: "starting i w' = starting i w" using rq ctl by (simp add: starting_def)
  have e: "vd_memmap (vw_vdev w') = vd_memmap (vw_vdev w)" "vd_old_memmap (vw_vdev w') = vd_old_memmap (vw_vdev w)"
    "vd_memlog (vw_vdev w') = vd_memlog (vw_vdev w)" "vd_old_memlog (vw_vdev w') = vd_old_memlog (vw_vdev w)"
    "(vd_conn_handler (vw_vdev w') = None) = (vd_conn_handler (vw_vdev w) = None)"
    using r by (simp_all add: mrest_def)
  have q: "vr_started_in_ctl v = vr_started_in_ctl (vring i w)" "vr_shadow_vq v = vr_shadow_vq (vring i w)"
    "vq_mm (vr_vq v) = vq_mm (vr_vq (vring i w))" "vq_log (vr_vq v) = vq_log (vr_vq (vring i w))"
    using a by (simp_all add: v dispatched_vring_def setup_kept_def)
  have "queue_ok w' i" using l unfolding live_vring_def queue_ok_def Let_def vi e st rq q by blast
  moreover have "shadow_ok w' i" using l unfolding live_vring_def shadow_ok_def Let_def vi e rq q by blast
  moreover have "buffers_ok bs' w' i"
    using l a n fr unfolding live_vring_def buffers_ok_def Let_def vi by (auto simp: v dispatched_vring_def setup_kept_def)
  ultimately show ?thesis by (simp add: live_vring_def)
qed

lemma dispatch_on_mem:
  assumes step: "\<And>vq m s r vq' m' s'. dispatch (vq, m, s) = Some (r, vq', m', s') \<Longrightarrow>
      length (vq_buffers vq') = length (vq_buffers vq) \<and> enqueued i s s'"
    and acc: "\<And>vq m s r vq' m' s' base. dispatch (vq, m, s) = Some (r, vq', m', s') \<Longrightarrow>
      length (vq_buffers vq) = unat (vq_max_chain_len vq) \<Longrightarrow> accounted (requests_hold base i) (vq, m, s) (vq', m', s')"
    and fr: "\<And>vq m s r vq' m' s'. dispatch (vq, m, s) = Some (r, vq', m', s') \<Longrightarrow>
      length (vq_buffers vq') = length (vq_buffers vq) \<and> passes_framed s s'"
    and d: "dispatch_on dispatch i w = Some (ret, w')" and i: "i < length (vd_vrings (vw_vdev w))"
    and ctl: "vr_started_in_ctl (vring i w)" and ok: "mem_ok (bios w) w" and few: "length (bios w') < 2 ^ 16"
  shows "mem_ok (bios w') w'"
proof -
  let ?vd = "vw_vdev w" and ?sub = "rq_submission (vw_queue w)"
  obtain vq m rq w1 where x: "dispatch (vr_vq (vring i w), vw_machine w, vw_queue w, w) = Some (ret, vq, m, rq, w1)"
    "w' = upd_vring i (vr_vq_update (\<lambda>_. vq)) (w1\<lparr>vw_machine := m, vw_queue := rq\<rparr>)"
    using d by (auto simp: dispatch_on_def bind_eq_Some_conv)
  from step [OF x(1)] obtain new where new: "\<forall>b\<in>set new. bio_vring b = i"
    "rq = (vw_queue w)\<lparr>rq_submission := ?sub @ new\<rparr>"
    "w1 = upd_vring i (\<lambda>v. v\<lparr>vr_num_in_flight := vr_num_in_flight v + word_of_nat (length new)\<rparr>) w"
    by (auto simp: enqueued_def)
  define v where "v = dispatched_vring vq (length new) (vring i w)"
  have f: "vd_vrings (vw_vdev w') = (vd_vrings ?vd)[i := v]" "mrest w' = mrest w" "vw_rq w' = vw_rq w" "vw_ctl w' = vw_ctl w"
    "vw_machine w' = m" "vw_next_log w' = vw_next_log w" "vd_num_queues (vw_vdev w') = vd_num_queues ?vd"
    "vd_num_vrings_in_flight (vw_vdev w') = vd_num_vrings_in_flight ?vd" "bios w' = (?sub @ new) @ vw_backend w @ rq_completion (vw_queue w)"
    using i by (simp_all add: x(2) new(2,3) v_def dispatched_vring_def upd_vring_def upd_vdev_def mrest_def bios_def)
  have l: "live_vring (bios w) w i" using ok i by (simp add: mem_ok_def)
  then have buf: "length (vq_buffers (vr_vq (vring i w))) = unat (vq_max_chain_len (vr_vq (vring i w)))"
    using ctl by (simp add: live_vring_def buffers_ok_def Let_def)
  define base where "base mid = held (vd_memmap ?vd) mid + held (vd_old_memmap ?vd) mid +
      count_if (\<lambda>b. bio_vring b < length (vd_vrings ?vd) \<and> iov_mm (bio_iov b) = mid) (vw_backend w @ rq_completion (vw_queue w)) +
      count_if (\<lambda>b. bio_vring b < length (vd_vrings ?vd) \<and> bio_vring b \<noteq> i \<and> iov_mm (bio_iov b) = mid) ?sub" for mid
  have r: "requests_hold base i (vw_queue w, w) = refs (bios w) ?vd"
    using requests_hold_refs [OF i _ base_def, of "[]" "(vw_queue w, w)"] by (simp add: bios_def)
  have rd: "refs (bios w') (vw_vdev w') = refs (bios w') ?vd" by (rule refs_cong) (use f in \<open>simp_all add: mrest_def\<close>)
  have r': "requests_hold base i (rq, w1) = refs (bios w') (vw_vdev w')"
    using requests_hold_refs [OF i new(1) base_def, of "(rq, w1)"] rd f(9) by (simp add: new(2))
  have z: "rq = vw_queue w \<Longrightarrow> new = []" using arg_cong [OF new(2), of rq_submission] by simp
  have a: "setup_kept (vr_vq (vring i w)) vq" "logs_same (vw_machine w) m" "vq_qsz (vr_vq (vring i w)) = 0 \<Longrightarrow> new = []"
    "maps_ok (refs (bios w') (vw_vdev w')) (m_mms m)"
    using acc [OF x(1) buf, of base] ok refs_bounded [OF few, of "vw_vdev w'"] z unfolding accounted_def prod.case r r'
    by (auto simp: mem_ok_def)
  have nb: "n_bios (bios w') j = n_bios (bios w) j" if "j \<noteq> i \<or> new = []" for j
    using new(1) that unfolding f(9) bios_def [of w] by (auto simp: n_bios_def filter_empty_conv)
  have li: "live_vring (bios w') w' i"
  proof (rule live_vring_dispatched [OF l f(2-4) _ v_def a(1)])
    have "\<forall>b\<in>set new. iov_buffers (bio_iov b) \<noteq> []" using fr [OF x(1)] by (auto simp: passes_framed_def new(2))
    then show "framed (bios w) i \<Longrightarrow> framed (bios w') i" unfolding f(9) bios_def [of w] by (auto simp: framed_def)
  qed (use f(1) i nb a(3) in auto)
  have lj: "live_vring (bios w') w' j" if "j < length (vd_vrings ?vd)" "j \<noteq> i" for j
  proof -
    have "live_vring (bios w) w' j = live_vring (bios w) w j" by (rule live_vring_cong) (use f that in simp_all)
    moreover have "framed (bios w') j = framed (bios w) j" using new(1) that unfolding f(9) bios_def [of w] by (auto simp: framed_def)
    ultimately show ?thesis using ok that nb [of j] by (simp add: mem_ok_def live_vring_def buffers_ok_def)
  qed
  have "vr_started_in_ctl (vring j w') = vr_started_in_ctl (vring j w)" for j
    using f(1) i by (cases "j = i") (simp_all add: v_def)
  then have "counted w'" using ok f by (simp add: mem_ok_def counted_def)
  moreover have "logs_ok w'" using ok a(2) f by (simp add: mem_ok_def logs_ok_def logs_same_def mrest_def)
  ultimately show ?thesis using a(4) li lj f by (auto simp: mem_ok_def)
qed

text \<open>The contract of a device type, extended to maps and logs.\<close>

locale accounted_type = vdev_type +
  assumes dispatch_mem: "vt_dispatch_requests ty i w = Some (ret, w') \<Longrightarrow> i < length (vd_vrings (vw_vdev w)) \<Longrightarrow>
    vr_started_in_ctl (vring i w) \<Longrightarrow> mem_ok (bios w) w \<Longrightarrow> length (bios w') < 2 ^ 16 \<Longrightarrow> mem_ok (bios w') w'"
begin

lemma kick_mem:
  assumes inv: "vdev_inv w" and ok: "mem_ok (bios w) w" and on: "enabled (Kick i) w" and k: "vring_kick ty i w = Some w'"
    and few: "length (bios w') < 2 ^ 16"
  shows "mem_ok (bios w') w'"
proof -
  have i: "i < length (vd_vrings (vw_vdev w))" and h: "vr_kick_handler (vring i w) = Some True" using on by simp_all
  define w0 where "w0 = upd_machine (\<lambda>m. m\<lparr>m_eventfd := (m_eventfd m)(vr_kickfd (vring i w) := 0)\<rparr>) w"
  have "mview w0 = mview w" unfolding w0_def by (rule mview_upd_machine) simp_all
  then have "mem_ok (bios w) w0" by (rule mem_ok_mview [OF _ ok])
  then have ok0: "mem_ok (bios w0) w0" by (simp add: w0_def bios_def upd_machine_def)
  have "vring_ok (bios w) w i" using inv i by (simp add: vdev_inv_def core_def)
  then have ctl: "vr_started_in_ctl (vring i w0)" using h by (auto simp: vring_ok_def w0_def upd_machine_def Let_def split: if_splits)
  obtain ret w1 where d: "vt_dispatch_requests ty i w0 = Some (ret, w1)"
    using k by (auto simp: vring_kick_def w0_def bind_eq_Some_conv)
  then have w': "w' = w1 \<or> w' = upd_vring i (vr_kick_handler_update (\<lambda>_. Some False)) w1"
    using k by (cases ret) (auto simp: vring_kick_def w0_def split: if_splits)
  then have b: "bios w' = bios w1" by (auto simp: bios_def upd_vring_def upd_vdev_def)
  have "mem_ok (bios w1) w1"
    by (rule dispatch_mem [OF d _ ctl ok0]) (use few b i in \<open>simp_all add: w0_def upd_machine_def\<close>)
  moreover have "mview w' = mview w1" using w' by (auto intro: mview_upd_vring simp: mflags_def)
  ultimately show ?thesis using b mem_ok_mview by simp
qed

end

interpretation blk_mem: accounted_type "g_virtio_blk_vdev_type K now bdev" for K now bdev
proof
  show "mem_ok (bios w') w'"
    if "vt_dispatch_requests (g_virtio_blk_vdev_type K now bdev) i w = Some (ret, w')" "i < length (vd_vrings (vw_vdev w))"
      "vr_started_in_ctl (vring i w)" "mem_ok (bios w) w" "length (bios w') < 2 ^ 16" for i w ret w'
    by (rule dispatch_on_mem [OF blk_requests.dequeue_many_step blk_counts.dequeue_many_accounted blk_framed.dequeue_many_step])
      (use that in \<open>simp_all add: g_virtio_blk_vdev_type_def vblk_dispatch_requests_def virtio_blk_dispatch_requests_def\<close>)
qed

interpretation fs_mem: accounted_type "g_virtio_fs_vdev_type K now fsdev" for K now fsdev
proof
  show "mem_ok (bios w') w'"
    if "vt_dispatch_requests (g_virtio_fs_vdev_type K now fsdev) i w = Some (ret, w')" "i < length (vd_vrings (vw_vdev w))"
      "vr_started_in_ctl (vring i w)" "mem_ok (bios w) w" "length (bios w') < 2 ^ 16" for i w ret w'
    by (rule dispatch_on_mem [OF fs_requests.dequeue_many_step fs_counts.dequeue_many_accounted fs_framed.dequeue_many_step])
      (use that in \<open>simp_all add: g_virtio_fs_vdev_type_def vfs_dispatch_requests_def virtio_fs_dispatch_requests_def\<close>)
qed

interpretation device_mem: accounted_type "device_type K now dev" for K now dev
  by (cases dev) (simp_all add: blk_mem.accounted_type_axioms fs_mem.accounted_type_axioms)

end
