(* ===== verification/Vdev_Clean.thy ===== *)
theory Vdev_Clean
  imports Vdev_Safe
begin

text \<open>
  What a connection leaves behind: a device without one has no memory map, no log and no inflight
  region.
\<close>

section \<open>Resources of a connection\<close>

definition resources :: "vworld \<Rightarrow> int \<times> nat option \<times> nat option \<times> u64" where
  "resources w = (vd_connfd (vw_vdev w), vd_memmap (vw_vdev w), vd_memlog (vw_vdev w), vd_inflight_mem (vw_vdev w))"

definition clean :: "vworld \<Rightarrow> bool" where
  "clean w \<longleftrightarrow> (vd_connfd (vw_vdev w) < 0 \<longrightarrow>
     vd_memmap (vw_vdev w) = None \<and> vd_memlog (vw_vdev w) = None \<and> vd_inflight_mem (vw_vdev w) = 0)"

lemma clean_cong: "resources w' = resources w \<Longrightarrow> clean w' = clean w"
  by (simp add: resources_def clean_def)

lemma clean_connected: "0 \<le> vd_connfd (vw_vdev w) \<Longrightarrow> clean w"
  by (simp add: clean_def)

lemma resources_upd_vdev: "(\<And>vd. vd_connfd (f vd) = vd_connfd vd \<and> vd_memmap (f vd) = vd_memmap vd \<and>
    vd_memlog (f vd) = vd_memlog vd \<and> vd_inflight_mem (f vd) = vd_inflight_mem vd) \<Longrightarrow> resources (upd_vdev f w) = resources w"
  by (simp add: resources_def upd_vdev_def)

lemma resources_simps [simp]:
  "resources (upd_vring i g w) = resources w" "resources (upd_machine h w) = resources w" "resources (act a w) = resources w"
  "resources (run_in_ctl bh w) = resources w" "resources (run_in_rq bh' w) = resources w" "resources (replace_fd fd w) = resources w"
  "resources (w\<lparr>vw_machine := m\<rparr>) = resources w" "resources (w\<lparr>vw_queue := rq\<rparr>) = resources w"
  "resources (w\<lparr>vw_rq := rqs\<rparr>) = resources w" "resources (w\<lparr>vw_ctl := ctls\<rparr>) = resources w" "resources (w\<lparr>vw_backend := bs\<rparr>) = resources w"
  by (simp_all add: resources_def upd_vring_def upd_vdev_def upd_machine_def act_def run_in_ctl_def run_in_rq_def replace_fd_def)

section \<open>Releasing a connection\<close>

lemma cleanup_clean:
  assumes "vdev_cleanup K w = Some w'"
  shows "clean w'"
  using assms
  by (auto simp: vdev_cleanup_def clean_def inflight_mem_cleanup_def memmap_put_def vhd_memlog_free_def upd_vdev_def
      upd_machine_def act_def replace_fd_def Let_def split: if_splits option.splits)

lemma maybe_drained_clean:
  assumes "clean w" and "vdev_maybe_drained K sy w = Some w'"
  shows "clean w'"
proof (cases "w' = w")
  case False
  then obtain w1 where w1: "vdev_cleanup K w = Some w1" "resources w' = resources w1"
    using assms(2) by (auto simp: vdev_maybe_drained_def vdev_drained_def vhd_vdev_release_def bind_eq_Some_conv resources_upd_vdev
        split: if_splits)
  then show ?thesis using cleanup_clean clean_cong by blast
qed (use assms in simp)

lemma maybe_vrings_stopped_resources: "vdev_maybe_vrings_stopped w = Some w' \<Longrightarrow> resources w' = resources w"
  by (auto simp: vdev_maybe_vrings_stopped_def vdev_vrings_stopped_def vdev_complete_work_def resources_upd_vdev split: if_splits)

lemma vring_disconnect_resources: "resources (vring_disconnect i w) = resources w"
  by (simp add: vring_disconnect_def vring_reset_def Let_def)

lemma fold_disconnect_resources: "resources (fold vring_disconnect is w) = resources w"
  by (induction "is" arbitrary: w) (simp_all add: vring_disconnect_resources)

lemma disconnect_clean:
  assumes "clean w" and "vdev_disconnect K sy w = Some w'"
  shows "clean w'"
proof (cases "vd_conn_handler (vw_vdev w) = None")
  case True
  then show ?thesis using assms by (simp add: vdev_disconnect_def)
next
  case False
  then obtain w1 where w1: "vdev_maybe_vrings_stopped (for_vrings vring_disconnect (upd_vdev (vd_conn_handler_update (\<lambda>_. None)) w)) = Some w1"
    "vdev_maybe_drained K sy w1 = Some w'"
    using assms(2) by (auto simp: vdev_disconnect_def bind_eq_Some_conv)
  have "resources w1 = resources w"
    using maybe_vrings_stopped_resources [OF w1(1)] by (simp add: for_vrings_def fold_disconnect_resources resources_upd_vdev)
  then show ?thesis using maybe_drained_clean [OF _ w1(2)] assms(1) clean_cong by blast
qed

section \<open>Bottom halves\<close>

lemma handle_finish_resources: "vdev_handle_finish sy w = Some w' \<Longrightarrow> resources w' = resources w"
  by (auto simp: vdev_handle_finish_def resources_upd_vdev bind_eq_Some_conv split: if_splits)

lemma send_fds_resources: "vhost_send_fds sy hdr p fds fin w = Some (r, w') \<Longrightarrow> resources w' = resources w"
  by (auto simp: vhost_send_fds_def Let_def dest: handle_finish_resources split: sum.splits if_splits)

lemma ack_resources: "vhost_ack sy ret w = Some (r, w') \<Longrightarrow> resources w' = resources w"
  by (auto simp: vhost_ack_def vhost_reply_u64_def vhost_reply_def vhost_reply_fds_def
      dest: handle_finish_resources send_fds_resources split: if_splits)

lemma memmap_put_resources [simp]: "resources (memmap_put K mm w) = resources w"
  by (simp add: memmap_put_def split: option.split)

lemma handle_complete_resources: "handle_complete K sy c w = Some (r, w') \<Longrightarrow> resources w' = resources w"
  by (auto simp: handle_complete_def set_mem_table_complete_def set_vring_call_complete_def set_vring_err_complete_def
      set_log_base_complete_def vhost_reply_u64_def vhost_reply_def vhost_reply_fds_def resources_upd_vdev
      dest!: ack_resources send_fds_resources split: completion_fn.splits option.splits)

lemma disconnect_if_clean:
  assumes "clean w" and "(case ret of Inl _ \<Rightarrow> vdev_disconnect K sy w | Inr _ \<Rightarrow> Some w) = Some w'"
  shows "clean w'"
  using assms disconnect_clean by (cases ret) auto

lemma mark_msg_handled_clean:
  assumes "clean w" and "vring_mark_msg_handled K sy w = Some w'"
  shows "clean w'"
proof -
  let ?w1 = "upd_vdev (\<lambda>vd. vd\<lparr>vd_num_vrings_handling_msg := vd_num_vrings_handling_msg vd - 1\<rparr>) w"
  have r: "resources ?w1 = resources w" by (rule resources_upd_vdev) simp
  show ?thesis
  proof (cases "w' = ?w1")
    case True
    then show ?thesis using assms(1) clean_cong [OF r] by simp
  next
    case False
    then obtain c ret w2 where w2: "handle_complete K sy c ?w1 = Some (ret, w2)"
      "(case ret of Inl _ \<Rightarrow> vdev_disconnect K sy (upd_vdev (vd_handle_complete_update (\<lambda>_. None)) w2)
        | Inr _ \<Rightarrow> Some (upd_vdev (vd_handle_complete_update (\<lambda>_. None)) w2)) = Some w'"
      using assms(2) by (auto simp: vring_mark_msg_handled_def Let_def bind_eq_Some_conv split: if_splits)
    have "resources (upd_vdev (vd_handle_complete_update (\<lambda>_. None)) w2) = resources w"
      using handle_complete_resources [OF w2(1)] r by (simp add: resources_upd_vdev)
    then show ?thesis using disconnect_if_clean [OF _ w2(2)] assms(1) clean_cong by blast
  qed
qed

lemma mark_stopped_clean:
  assumes "clean w" and "vring_mark_stopped K sy w = Some w'"
  shows "clean w'"
proof -
  obtain w1 where w1: "vdev_maybe_vrings_stopped (upd_vdev (\<lambda>vd. vd\<lparr>vd_num_vrings_started := vd_num_vrings_started vd - 1\<rparr>) w) = Some w1"
    "vdev_maybe_drained K sy w1 = Some w'"
    using assms(2) by (auto simp: vring_mark_stopped_def bind_eq_Some_conv split: if_splits)
  have "resources w1 = resources w" using maybe_vrings_stopped_resources [OF w1(1)] by (simp add: resources_upd_vdev)
  then show ?thesis using maybe_drained_clean [OF _ w1(2)] assms(1) clean_cong by blast
qed

lemma mark_drained_clean:
  assumes "clean w" and "vring_mark_drained K sy i w = Some w'"
  shows "clean w'"
proof -
  let ?w0 = "upd_vring i (vr_started_in_ctl_update (\<lambda>_. False)) w"
  obtain w1 vq where w1: "vring_on_drain K sy i ?w0 = Some w1"
    "vdev_maybe_drained K sy (upd_vdev (\<lambda>vd. vd\<lparr>vd_num_vrings_in_flight := vd_num_vrings_in_flight vd - 1\<rparr>)
      (vring_reset i (upd_vring i (vr_vq_update (\<lambda>_. vq)) w1))) = Some w'"
    using assms(2) by (auto simp: vring_mark_drained_def bind_eq_Some_conv split: if_splits)
  have c0: "clean ?w0" using assms(1) clean_cong [of ?w0 w] by simp
  have "clean w1"
  proof (cases "vr_on_drain_cb (vring i ?w0)")
    case True
    then obtain ret w2 where w2: "vhost_send_vring_base sy i ?w0 = Some (ret, w2)"
      "(case ret of Inl _ \<Rightarrow> vdev_disconnect K sy (upd_vring i (vr_on_drain_cb_update (\<lambda>_. False)) w2)
        | Inr _ \<Rightarrow> Some (upd_vring i (vr_on_drain_cb_update (\<lambda>_. False)) w2)) = Some w1"
      using w1(1) by (auto simp: vring_on_drain_def bind_eq_Some_conv Let_def)
    have "resources w2 = resources ?w0"
      using w2(1) by (auto simp: vhost_send_vring_base_def vhost_reply_def vhost_reply_fds_def dest: send_fds_resources)
    then have "resources (upd_vring i (vr_on_drain_cb_update (\<lambda>_. False)) w2) = resources ?w0" by simp
    then have "clean (upd_vring i (vr_on_drain_cb_update (\<lambda>_. False)) w2)" using c0 clean_cong by blast
    then show ?thesis by (rule disconnect_if_clean [OF _ w2(2)])
  next
    case False
    then show ?thesis using w1(1) c0 by (simp add: vring_on_drain_def)
  qed
  moreover have "resources (upd_vdev (\<lambda>vd. vd\<lparr>vd_num_vrings_in_flight := vd_num_vrings_in_flight vd - 1\<rparr>)
      (vring_reset i (upd_vring i (vr_vq_update (\<lambda>_. vq)) w1))) = resources w1"
    by (simp add: resources_upd_vdev vring_reset_def Let_def)
  ultimately show ?thesis using maybe_drained_clean [OF _ w1(2)] clean_cong by blast
qed

lemma run_ctl_bh_clean:
  assumes "clean w" and "run_ctl_bh K sy bh w = Some w'"
  shows "clean w'"
proof -
  have c: "clean (upd_vdev (vd_handle_complete_update (\<lambda>_. Some SetVringKickFailComplete)) w)"
    using assms(1) by (simp add: clean_def upd_vdev_def)
  show ?thesis
  proof (cases bh)
    case (VringStartFailed i)
    then obtain w1 w2 where "vring_mark_msg_handled K sy (upd_vdev (vd_handle_complete_update (\<lambda>_. Some SetVringKickFailComplete)) w) = Some w1"
      "vring_mark_stopped K sy w1 = Some w2" "vring_mark_drained K sy i w2 = Some w'"
      using assms(2) by (auto simp: run_ctl_bh_def vring_start_failed_bh_def bind_eq_Some_conv)
    then show ?thesis using mark_msg_handled_clean [OF c] mark_stopped_clean mark_drained_clean by blast
  qed (use assms in \<open>auto simp: run_ctl_bh_def intro: mark_msg_handled_clean [of w] mark_stopped_clean [of w] mark_drained_clean [of w]\<close>)
qed

lemma complete_resources: "req_complete (bio_complete K) bio_dec b w = Some w' \<Longrightarrow> resources w' = resources w"
  by (auto simp: req_complete_def bio_complete_def bio_dec_def vhd_vring_dec_in_flight_def bind_eq_Some_conv Let_def split: if_splits)

lemma complete_list_resources:
  "complete_list (req_complete (bio_complete K) bio_dec) bs w = Some w' \<Longrightarrow> resources w' = resources w"
proof (induction bs arbitrary: w)
  case (Cons b bs)
  then show ?case using complete_resources by (auto simp: bind_eq_Some_conv)
qed simp

lemma cancel_loop_resources:
  "cancel_loop (req_complete (bio_complete K) bio_dec) i bs w = Some (rest, w') \<Longrightarrow> resources w' = resources w"
proof (induction bs arbitrary: w rest rule: induct_list012)
  case (2 b)
  then show ?case by (auto simp: bind_eq_Some_conv split: if_splits dest: complete_resources)
next
  case (3 b c bs)
  show ?case
  proof (cases "bio_vring b = i")
    case True
    then obtain w1 kept where w1: "req_complete (bio_complete K) bio_dec (b\<lparr>bio_status := VHD_BDEV_CANCELED\<rparr>) w = Some w1"
      "cancel_loop (req_complete (bio_complete K) bio_dec) i bs w1 = Some (kept, w')"
      using 3(3) by (auto simp: bind_eq_Some_conv)
    then show ?thesis using 3(1) complete_resources [OF w1(1)] by simp
  next
    case False
    then obtain kept where "cancel_loop (req_complete (bio_complete K) bio_dec) i (c # bs) w = Some (kept, w')"
      using 3(3) by (auto simp del: cancel_loop.simps(2) simp: cancel_loop.simps(2) [of _ _ b] bind_eq_Some_conv)
    then show ?thesis using 3(2) by blast
  qed
qed simp

lemma run_rq_bh_resources: "run_rq_bh K sy bh w = Some w' \<Longrightarrow> resources w' = resources w"
  by (auto simp: run_rq_bh_def vring_sync_to_virtq_bh_def vring_sync_to_virtq_def vring_start_bh_def vring_stop_bh_def
      vring_cancel_queued_def vhd_cancel_queued_requests_def bind_eq_Some_conv Let_def
      dest!: cancel_loop_resources split: rq_bh.splits if_splits prod.splits)

section \<open>Events\<close>

context vdev_type
begin

lemma conn_read_clean:
  assumes inv: "vdev_inv w" and conn: "vd_conn_handler (vw_vdev w) = Some True"
    and room: "vd_num_vrings_started (vw_vdev w) \<noteq> - 1" and c: "conn_read K sy ty rm rd w = Some w'"
  shows "clean w'"
proof -
  obtain res fds closed where n: "net_recv_msg 272 VHOST_USER_MAX_FDS rm rd = (res, fds, closed)" using prod_cases3 by blast
  let ?w0 = "close_fds closed w"
  have up: "clean x" if "core bs h s x" "vd_conn_handler (vw_vdev x) \<noteq> None" for bs h s x
    using that by (auto simp: core_def conn_ok_def Let_def intro: clean_connected)
  have inv0: "vdev_inv ?w0" using inv vdev_inv_unseen [of w ?w0] by simp
  have w0: "vd_conn_handler (vw_vdev ?w0) = Some True" using conn by simp
  show ?thesis
  proof (cases "\<exists>len hdr payload. res = Inr (len, Some hdr, Some payload)")
    case False
    then have "vdev_disconnect K sy ?w0 = Some w'"
      using c n by (auto simp: conn_read_def Let_def split: sum.splits option.splits)
    moreover have "clean ?w0" by (rule up [of "bios ?w0" 0 0]) (use inv0 w0 in \<open>simp_all add: vdev_inv_def\<close>)
    ultimately show ?thesis using disconnect_clean by blast
  next
    case True
    then obtain len hdr payload where res: "res = Inr (len, Some hdr, Some payload)" by blast
    obtain w1 where w1: "vdev_handle_start sy (mh_req hdr) (msg_ack_needed (vw_vdev ?w0) (mh_flags hdr)) ?w0 = Some w1"
      "ready (bios ?w0) w1" "vd_num_vrings_started (vw_vdev w1) = vd_num_vrings_started (vw_vdev ?w0)"
      using handle_start_ready [OF inv0 w0] by blast
    from c n res w1 obtain ret w2 where
      w2: "vhost_handle_msg K sy ty (mh_req hdr) payload (mh_size hdr) fds w1 = Some (ret, w2)"
        "(case ret of Inr _ \<Rightarrow> Some (close_fds (rev fds) w2) | Inl _ \<Rightarrow> do { w4 \<leftarrow> vdev_handle_finish sy (close_fds (rev fds) w2);
          vdev_disconnect K sy w4 }) = Some w'"
      by (auto simp: conn_read_def Let_def bind_eq_Some_conv)
    have "handled (bios ?w0) w1 ret w2" using handle_msg_handled [OF w1(2) w2(1)] w1(3) room by simp
    then have "clean w2" using up [of "bios ?w0" 0 0 w2] by (simp add: handled_def)
    then have c2: "clean (close_fds (rev fds) w2)" by (simp add: clean_def)
    show ?thesis
    proof (cases ret)
      case (Inl e)
      then obtain w4 where w4: "vdev_handle_finish sy (close_fds (rev fds) w2) = Some w4" "vdev_disconnect K sy w4 = Some w'"
        using w2(2) by (auto simp: bind_eq_Some_conv)
      then have "clean w4" using c2 clean_cong handle_finish_resources by blast
      then show ?thesis using disconnect_clean w4(2) by blast
    next
      case (Inr u)
      then show ?thesis using w2(2) c2 by simp
    qed
  qed
qed

lemma kick_resources:
  assumes "vring_kick ty i w = Some w'" and "i < length (vd_vrings (vw_vdev w))"
  shows "resources w' = resources w"
proof -
  let ?w0 = "upd_machine (\<lambda>m. m\<lparr>m_eventfd := (m_eventfd m)(vr_kickfd (vring i w) := 0)\<rparr>) w"
  obtain ret w1 where d: "vt_dispatch_requests ty i ?w0 = Some (ret, w1)"
    using assms(1) by (auto simp: vring_kick_def bind_eq_Some_conv)
  then have w': "w' = w1 \<or> w' = upd_vring i (vr_kick_handler_update (\<lambda>_. Some False)) w1"
    using assms(1) by (cases ret) (auto simp: vring_kick_def split: if_splits)
  have "dispatched i ?w0 w1" using dispatch_effect [OF d] assms(2) by (simp add: upd_machine_def)
  then have "resources w1 = resources ?w0" by (auto simp: dispatched_def)
  then show ?thesis using w' by auto
qed

end

lemma server_read_clean: "clean w \<Longrightarrow> server_read sy w = Some w' \<Longrightarrow> (\<And>fd. sy_accept sy = Inr fd \<Longrightarrow> 0 \<le> fd) \<Longrightarrow> clean w'"
  by (auto simp: server_read_def clean_def upd_vdev_def act_def split: if_splits sum.splits)

lemma stop_server_clean:
  assumes "clean w" and "vhd_vdev_stop_server K sy w = Some w'"
  shows "clean w'"
proof (cases "vd_work (vw_vdev w)")
  case True
  then have "resources w' = resources w" using assms(2) by (auto simp: vhd_vdev_stop_server_def vdev_work_fn_def)
  then show ?thesis using assms(1) clean_cong by blast
next
  case False
  let ?w0 = "upd_vdev (vd_work_update (\<lambda>_. True)) w"
  obtain w1 where w1: "vdev_stop_listening ?w0 = Some w1" "(if vd_conn_handler (vw_vdev w1) \<noteq> None then vdev_disconnect K sy w1
      else vdev_maybe_vrings_stopped w1 \<bind> vdev_maybe_drained K sy) = Some w'"
    using assms(2) False by (auto simp: vhd_vdev_stop_server_def vdev_work_fn_def vdev_stop_def bind_eq_Some_conv)
  have "resources w1 = resources w"
    using w1(1) by (auto simp: vdev_stop_listening_def resources_upd_vdev Let_def split: if_splits)
  then have c: "clean w1" using assms(1) clean_cong by blast
  show ?thesis
  proof (cases "vd_conn_handler (vw_vdev w1) = None")
    case True
    then obtain w2 where "vdev_maybe_vrings_stopped w1 = Some w2" "vdev_maybe_drained K sy w2 = Some w'"
      using w1(2) by (auto simp: bind_eq_Some_conv)
    then show ?thesis using c maybe_drained_clean maybe_vrings_stopped_resources clean_cong by blast
  next
    case False
    then show ?thesis using w1(2) disconnect_clean [OF c] by simp
  qed
qed

lemma clean_step:
  assumes inv: "vdev_inv w" and c: "clean w" and on: "enabled ev w" and calm: "calm sy ev w"
    and p: "perform K (device_type K now dev) sy ev w = Some w'"
  shows "clean w'"
proof (cases ev)
  case Accept
  then show ?thesis using server_read_clean [OF c, of sy w'] calm p by (auto split: sum.splits)
next
  case (Message rm rd)
  then show ?thesis using device.conn_read_clean [OF inv] on calm p by simp
next
  case (Kick i)
  then have "resources w' = resources w" using device.kick_resources on p by simp
  then show ?thesis using clean_cong c by blast
next
  case (RqBh bh)
  then have "resources w' = resources w" using run_rq_bh_resources [of K sy bh] p by simp
  then show ?thesis using clean_cong c by blast
next
  case (CtlBh bh)
  have "clean (w\<lparr>vw_ctl := remove1 bh (vw_ctl w)\<rparr>)" using c by (simp add: clean_def)
  then show ?thesis using run_ctl_bh_clean p CtlBh by simp
next
  case Reap
  then have "resources w' = resources w"
    using p by (auto simp: reap_def rq_complete_bh_def bind_eq_Some_conv dest!: complete_list_resources)
  then show ?thesis using clean_cong c by blast
next
  case Stop
  then show ?thesis using stop_server_clean [OF c] p by simp
qed (use p c in \<open>auto simp: clean_def\<close>)

end
