(* ===== verification/Vdev_Live.thy ===== *)
theory Vdev_Live
  imports Vdev_Mem_Io Vdev_Clean
begin

text \<open>
  Executions of a device with its memory maps and logs. What is used is there, and what nobody
  holds is released; so requests can be dispatched and reaped without aborting.
\<close>

section \<open>Dequeueing returns\<close>

text \<open>The guest stops adding requests at some time.\<close>

definition settled :: "virtio_virtq \<Rightarrow> guest \<Rightarrow> bool" where
  "settled vq g \<longleftrightarrow> (\<exists>t i. \<forall>u \<ge> t. av_idx (g_avail g u (vq_avail vq)) = i)"

lemma settled_same: "settled vq g \<Longrightarrow> same_tables g g' \<Longrightarrow> vq_avail vq' = vq_avail vq \<Longrightarrow> settled vq' g'"
  by (simp add: settled_def same_tables_def)

lemma read_avail_idx_total:
  assumes "settled vq (m_guest m)"
  shows "\<exists>avail m1. read_avail_idx vq m = Some (avail, m1) \<and> only_clock m m1"
proof -
  obtain a m1 where r: "read_avail_m vq m = (a, m1)" by fastforce
  note c = read_avail_only_clock [OF r]
  have "settled vq (m_guest m1)" by (rule settled_same [OF assms]) (use c in \<open>simp_all add: only_clock_def\<close>)
  then obtain t i where "\<forall>u \<ge> t. av_idx (g_avail (m_guest m1) u (vq_avail vq)) = i" by (auto simp: settled_def)
  then have "\<forall>u \<ge> g_now (m_guest m1) + t. av_idx (g_avail (m_guest m1) u (vq_avail vq)) = i" by simp
  from avail_event_loop_ends [OF this, of "av_idx a"] obtain j m2 where e: "avail_event_loop vq m1 (av_idx a) = Some (j, m2)"
    by auto
  have "only_clock m m2" using only_clock_trans [OF c] avail_event_loop_post [OF e] by blast
  then show ?thesis using r e c by (simp add: read_avail_idx_def)
qed

lemma dequeue_one_unrecord:
  assumes d: "virtq_dequeue_one (recording h) head rs (vq, m, s, tr) = Some (res, vq', m', s', tr')"
  shows "virtq_dequeue_one h head rs (vq, m, s) = Some (res, vq', m', s')"
proof -
  obtain mm where mm: "ms_maps (m_mms m) (vq_mm vq) = Some mm" using d by (auto simp: virtq_dequeue_one_def bind_eq_Some_conv)
  obtain r vq1 g1 where walk: "walk_chain mm vq (m_guest m) head = (r, vq1, g1)" using prod_cases3 by blast
  let ?m1 = "m\<lparr>m_guest := g1, m_mms := vhd_memmap_ref (vq_mm vq1) (m_mms m)\<rparr>"
  obtain vq2 m2 where u: "(if rs then (vq1, ?m1) else virtq_inflight_avail_update vq1 head ?m1) = (vq2, m2)"
    using prod.exhaust_sel by blast
  show ?thesis using d mm walk u by (cases r) (auto simp: virtq_dequeue_one_def recording_def bind_eq_Some_conv)
qed

lemma dequeue_avail_returns:
  assumes st: "settled vq (m_guest m)"
    and loop: "\<And>vq2 m1 n. same_setup vq vq2 \<Longrightarrow> only_clock m m1 \<Longrightarrow> n \<le> unat (vq_qsz vq) \<Longrightarrow> \<exists>r. dequeue_loop h n (vq2, m1, s) = Some r"
  shows "\<exists>r. dequeue_avail h now (vq, m, s) = Some r"
proof -
  define vq1 where "vq1 = (if now - vq_period_start_ts vq > 60
    then vq\<lparr>vq_period_start_ts := now, vq_metrics := (vq_metrics vq)\<lparr>vm_queue_len_max_60s := 0\<rparr>\<rparr> else vq)"
  define vq2 where "vq2 = vq1\<lparr>vq_metrics := (vq_metrics vq1)\<lparr>vm_dispatch_total := vm_dispatch_total (vq_metrics vq1) + 1\<rparr>\<rparr>"
  have k: "same_setup vq (vq2\<lparr>vq_metrics := M\<rparr>)" "vq_avail vq2 = vq_avail vq" "vq_qsz vq2 = vq_qsz vq" for M
    by (simp_all add: vq2_def vq1_def same_setup_def)
  have "settled vq2 (m_guest m)" using st k(2) by (simp add: settled_def)
  then obtain avail m1 where a: "read_avail_idx vq2 m = Some (avail, m1)" "only_clock m m1" using read_avail_idx_total by blast
  let ?n = "avail - vq_last_avail vq2"
  have "\<exists>r. dequeue_loop h (unat ?n) (vq2\<lparr>vq_metrics := M\<rparr>, m1, s) = Some r" if "\<not> ?n > vq_qsz vq2" for M
    using loop [OF k(1) a(2)] that k(3) by (simp add: not_less word_le_nat_alt)
  then show ?thesis unfolding dequeue_avail_def Let_def prod.case vq1_def [symmetric]
    unfolding vq2_def [symmetric] a(1) Option.bind.simps prod.case by (auto split: if_split)
qed

lemma inflight_heads_few: "length (inflight_heads r) < 2 ^ 16"
proof -
  have "length (inflight_heads r) \<le> unat (isr_desc_num r)"
    using length_filter_le [of _ "[0..<unat (isr_desc_num r)]"] by (simp add: inflight_heads_def Let_def)
  then show ?thesis using unat_less_16 [of "isr_desc_num r"] by simp
qed

context virtq_handler
begin

lemma dequeue_one_total:
  assumes "vq_wf vq" and "queue_live vq m 0 (Suc n)" and "fair (m_guest m)"
  shows "\<exists>res vq' m' s'. virtq_dequeue_one h head rs (vq, m, s) = Some (res, vq', m', s') \<and>
    same_setup vq vq' \<and> guest_mem_same m m' \<and> queue_live vq' m' 0 n"
proof -
  from dequeue_one [OF assms, of head rs s "[]"] obtain res vq' m' s' tr' where
    d: "virtq_dequeue_one (recording h) head rs (vq, m, s, []) = Some (res, vq', m', s', tr')"
      "same_setup vq vq'" "guest_mem_same m m'" "queue_live vq' m' 0 n" by blast
  then show ?thesis using dequeue_one_unrecord [OF d(1)] by simp
qed

lemma dequeue_loop_total:
  "vq_wf vq \<Longrightarrow> queue_live vq m 0 n \<Longrightarrow> fair (m_guest m) \<Longrightarrow> \<exists>r. dequeue_loop h n (vq, m, s) = Some r"
proof (induction n arbitrary: vq m s)
  case (Suc n)
  obtain a m1 where ra: "read_avail_m vq m = (a, m1)" by fastforce
  note c = read_avail_only_clock [OF ra]
  let ?head = "av_ring a (unat (vq_last_avail vq mod vq_qsz vq))"
  have l: "queue_live vq m1 0 (Suc n)" "fair (m_guest m1)"
    using Suc.prems c fair_same by (auto simp: queue_live_def only_clock_def)
  obtain res vq2 m2 s2 where one: "virtq_dequeue_one h ?head False (vq, m1, s) = Some (res, vq2, m2, s2)"
    "same_setup vq vq2" "guest_mem_same m1 m2" "queue_live vq2 m2 0 n"
    using dequeue_one_total [OF Suc.prems(1) l] by blast
  have "\<exists>r. dequeue_loop h n (vq2\<lparr>vq_metrics := M\<rparr>, m2, s2) = Some r" for M
    by (rule Suc.IH) (use one Suc.prems(1) fair_same [OF l(2)] in \<open>auto simp: vq_wf_def same_setup_def queue_live_def guest_mem_same_def\<close>)
  with ra one(1) show ?case by (cases res) (auto simp: Let_def)
qed simp

lemma resubmit_loop_total:
  "vq_wf vq \<Longrightarrow> queue_live vq m 0 (length heads + n) \<Longrightarrow> fair (m_guest m) \<Longrightarrow>
    \<exists>r vq' m' s'. resubmit_loop h heads (vq, m, s) = Some (r, vq', m', s') \<and>
      same_setup vq vq' \<and> guest_mem_same m m' \<and> queue_live vq' m' 0 n"
proof (induction heads arbitrary: vq m s)
  case Nil
  then show ?case by (simp add: same_setup_def guest_mem_same_def same_tables_def)
next
  case (Cons head heads)
  have l: "queue_live vq m 0 (Suc (length heads + n))" using Cons.prems(2) by simp
  obtain res vq2 m2 s2 where one: "virtq_dequeue_one h head True (vq, m, s) = Some (res, vq2, m2, s2)"
    "same_setup vq vq2" "guest_mem_same m m2" "queue_live vq2 m2 0 (length heads + n)"
    using dequeue_one_total [OF Cons.prems(1) l Cons.prems(3)] by blast
  have k: "\<exists>r vq' m' s'. resubmit_loop h heads (vq2, m2, s2) = Some (r, vq', m', s') \<and>
      same_setup vq2 vq' \<and> guest_mem_same m2 m' \<and> queue_live vq' m' 0 n"
    by (rule Cons.IH) (use one Cons.prems fair_same same_setup_wf in \<open>auto simp: guest_mem_same_def\<close>)
  have d: "same_setup vq vq" "guest_mem_same m m" "queue_live vq m 0 n" "queue_live vq2 m2 0 n"
    using Cons.prems(2) one(4) queue_live_weaken by (auto simp: same_setup_def guest_mem_same_def same_tables_def)
  show ?case
  proof (cases res)
    case (Inl e)
    then show ?thesis using one d by simp
  next
    case (Inr u)
    then show ?thesis using one k d same_setup_trans [OF one(2)] guest_mem_same_trans [OF one(3)] by (simp; blast)
  qed
qed

lemma dequeue_avail_total:
  assumes wf: "vq_wf vq" and live: "queue_live vq m 0 (2 ^ 16)" and fair: "fair (m_guest m)" and st: "settled vq (m_guest m)"
  shows "\<exists>r. dequeue_avail h now (vq, m, s) = Some r"
proof (rule dequeue_avail_returns [OF st])
  fix vq2 m1 n assume k: "same_setup vq vq2" "only_clock m m1" "n \<le> unat (vq_qsz vq)"
  have "n \<le> 2 ^ 16" using k(3) unat_less_16 [of "vq_qsz vq"] by simp
  then have "queue_live vq2 m1 0 n"
    using queue_live_weaken [OF live, of 0 n] k(1,2) by (simp add: queue_live_def only_clock_def same_setup_def)
  moreover have "fair (m_guest m1)" using fair_same [OF fair] k(2) by (simp add: only_clock_def)
  ultimately show "\<exists>r. dequeue_loop h n (vq2, m1, s) = Some r" by (rule dequeue_loop_total [OF same_setup_wf [OF k(1) wf]])
qed

lemma dequeue_many_total:
  assumes wf: "vq_wf vq" and live: "queue_live vq m 0 (2 ^ 17)" and fair: "fair (m_guest m)" and st: "settled vq (m_guest m)"
  shows "\<exists>r. virtq_dequeue_many h now (vq, m, s) = Some r"
proof -
  let ?heads = "inflight_heads (m_inflight m (vq_inflight_region vq))"
  have l16: "queue_live vq m 0 (2 ^ 16)" by (rule queue_live_weaken [OF live]) simp_all
  have "queue_live vq m 0 (length ?heads + 2 ^ 16)" by (rule queue_live_weaken [OF live]) (use less_imp_le [OF inflight_heads_few] in simp_all)
  from resubmit_loop_total [OF wf this fair, of s] have "\<exists>r vq' m' s'. virtq_inflight_resubmit h (vq, m, s) = Some (r, vq', m', s') \<and>
      same_setup vq vq' \<and> guest_mem_same m m' \<and> queue_live vq' m' 0 (2 ^ 16)"
    using l16 by (simp add: virtq_inflight_resubmit_def same_setup_def guest_mem_same_def same_tables_def)
  then obtain r vq1 m1 s1 where rs: "virtq_inflight_resubmit h (vq, m, s) = Some (r, vq1, m1, s1)"
    "same_setup vq vq1" "guest_mem_same m m1" "queue_live vq1 m1 0 (2 ^ 16)" by blast
  have "\<exists>r. dequeue_avail h now (vq1\<lparr>vq_inflight_check := False\<rparr>, m1, s1) = Some r"
  proof (rule dequeue_avail_total)
    show "settled (vq1\<lparr>vq_inflight_check := False\<rparr>) (m_guest m1)"
      by (rule settled_same [OF st]) (use rs(2,3) in \<open>simp_all add: guest_mem_same_def same_setup_def\<close>)
  qed (use rs(2-4) wf fair_same [OF fair] in \<open>simp_all add: vq_wf_def same_setup_def queue_live_def guest_mem_same_def\<close>)
  then show ?thesis
    using rs(1) dequeue_avail_total [OF wf l16 fair st, of now s]
    by (cases r) (auto simp: virtq_dequeue_many_def)
qed

end

text \<open>A ring of size 0 has no requests.\<close>

lemma dequeue_empty_total:
  assumes z: "vq_qsz vq = 0" and st: "settled vq (m_guest m)"
  shows "\<exists>r. virtq_dequeue_many h now (vq, m, s) = Some r"
proof -
  have avail: "\<exists>r. dequeue_avail h now (vq', m, s) = Some r" if v: "vq_qsz vq' = 0" "vq_avail vq' = vq_avail vq" for vq'
    by (rule dequeue_avail_returns) (use st v in \<open>simp_all add: settled_def\<close>)
  have "virtq_inflight_resubmit h (vq, m, s) = Some (OK, vq, m, s) \<or> virtq_inflight_resubmit h (vq, m, s) = Some (Inl ERANGE, vq, m, s)"
    using z by (cases "inflight_heads (m_inflight m (vq_inflight_region vq))") (auto simp: virtq_inflight_resubmit_def)
  then show ?thesis using avail [of vq] avail [of "vq\<lparr>vq_inflight_check := False\<rparr>"] z by (auto simp: virtq_dequeue_many_def)
qed

section \<open>The invariant of an execution\<close>

text \<open>
  The device starts with the only maps of the store; the requests of other devices in the queue
  stay few.
\<close>

definition live_initial :: "vworld \<Rightarrow> bool" where
  "live_initial w \<longleftrightarrow> vdev_initial w \<and> length (bios w) < 2 ^ 16 \<and> ms_maps (m_mms (vw_machine w)) = (\<lambda>_. None)"

definition live_inv :: "vworld \<Rightarrow> bool" where
  "live_inv w \<longleftrightarrow> vdev_inv w \<and> mem_ok (bios w) w \<and> clean w \<and> length (bios w) < 2 ^ 16"

lemma live_initial_inv:
  assumes "live_initial w"
  shows "live_inv w"
proof -
  have i: "vdev_initial w" and few: "length (bios w) < 2 ^ 16" and none: "ms_maps (m_mms (vw_machine w)) = (\<lambda>_. None)"
    using assms by (simp_all add: live_initial_def)
  from i have "mem_ok (bios w) w \<and> clean w"
  proof cases
    case (vdev_initial sy sock n map_cb unmap_cb m rq)
    from init_server_world [OF vdev_initial(1)] obtain fd where w: "w = \<lparr>vw_vdev = (init_vdev fd n map_cb unmap_cb)\<lparr>vd_listen_handler := Some True\<rparr>,
        vw_machine = m, vw_queue = rq, vw_backend = [], vw_rq = [], vw_ctl = [], vw_out = [WorkDone OK], vw_next_log = 0\<rparr>"
      by blast
    let ?n = "unat (word_of_int n :: u16)"
    have b: "n_bios (bios w) i = 0" if "i < ?n" for i
      using n_bios_none [OF vdev_initial(2) that] by (simp add: w bios_def)
    have l: "length (vd_vrings (vw_vdev w)) = ?n" by (simp add: w init_vdev_def)
    have "?n \<le> bio_vring b" if "b \<in> set (bios w)" for b using vdev_initial(2) that by (simp add: w bios_def)
    then have "filter (\<lambda>b. bio_vring b < ?n \<and> iov_mm (bio_iov b) = mid) (bios w) = []" for mid
      by (force simp: filter_empty_conv)
    then have "refs (bios w) (vw_vdev w) mid = 0" for mid by (simp add: refs_def l) (simp add: w init_vdev_def)
    then have "maps_ok (refs (bios w) (vw_vdev w)) (m_mms (vw_machine w))" using none by (simp add: maps_ok_def map_ok_def)
    moreover have "live_vring (bios w) w i" if "i < ?n" for i
      using that b [OF that] framed_none [of "bios w" i]
      by (simp add: w live_vring_def queue_ok_def shadow_ok_def buffers_ok_def init_vdev_def init_vring_def zero_virtq_def Let_def)
    moreover have "logs_ok w" "counted w" by (simp_all add: w logs_ok_def counted_def init_vdev_def init_vring_def)
    moreover have "clean w" by (simp add: w clean_def init_vdev_def)
    ultimately show ?thesis using l by (simp add: mem_ok_def)
  qed
  then show ?thesis using initial_inv [OF i] few by (simp add: live_inv_def)
qed

lemma mem_ok_queue:
  assumes "mem_ok (bios w) w" and w': "w' = w\<lparr>vw_queue := rq, vw_backend := bs\<rparr>"
    and "\<And>mid. refs (bios w') (vw_vdev w) mid = refs (bios w) (vw_vdev w) mid"
    and "\<And>i. i < length (vd_vrings (vw_vdev w)) \<Longrightarrow> n_bios (bios w') i = n_bios (bios w) i"
    and "\<And>i. i < length (vd_vrings (vw_vdev w)) \<Longrightarrow> framed (bios w) i \<Longrightarrow> framed (bios w') i"
  shows "mem_ok (bios w') w'"
proof -
  have "mem_ok (bios w') w" by (rule mem_ok_bios [OF assms(1) ext [OF assms(3)] assms(4,5)])
  moreover have "mview w' = mview w" by (simp add: w' mview_def mview0_def)
  ultimately show ?thesis using mem_ok_mview by blast
qed

lemma complete_backend:
  assumes b: "bio \<in> set (vw_backend w)"
    and w': "w' = w\<lparr>vw_queue := backend_done bio status (vw_queue w), vw_backend := remove1 bio (vw_backend w)\<rparr>"
  shows "refs (bios w') vd mid = refs (bios w) vd mid" and "n_bios (bios w') i = n_bios (bios w) i"
    and "framed (bios w) i \<Longrightarrow> framed (bios w') i"
proof -
  let ?b = "bio\<lparr>bio_status := status\<rparr>"
  have e: "bio_iov ?b = bio_iov bio" by (simp add: bio_iov_def)
  have c: "count_if P (bios w') = count_if P (bios w)" if "P ?b = P bio" for P
    using count_if_remove1 [OF b, of P] that by (simp add: w' bios_def backend_done_def split: if_splits)
  show "refs (bios w') vd mid = refs (bios w) vd mid" unfolding refs_def by (subst c) (simp_all add: e)
  show "n_bios (bios w') i = n_bios (bios w) i" unfolding n_bios_def by (rule c) simp
  have "\<exists>y\<in>set (bios w). bio_vring y = bio_vring x \<and> bio_iov y = bio_iov x" if "x \<in> set (bios w')" for x
    using that b e set_remove1_subset [of bio "vw_backend w"] by (auto simp: w' bios_def backend_done_def)
  then show "framed (bios w) i \<Longrightarrow> framed (bios w') i" unfolding framed_def by metis
qed

lemma live_step:
  assumes "live_inv w" and on: "enabled ev w" and calm: "calm sy ev w"
    and p: "perform K (device_type K now dev) sy ev w = Some w'" and few': "length (bios w') < 2 ^ 16"
  shows "live_inv w'"
proof -
  have inv: "vdev_inv w" and ok: "mem_ok (bios w) w" and c: "clean w" and few: "length (bios w) < 2 ^ 16"
    using assms(1) by (simp_all add: live_inv_def)
  have "mem_ok (bios w') w'"
  proof (cases ev)
    case Accept
    then show ?thesis using server_read_mem [OF inv ok, of sy w'] server_read_ok [OF inv, of sy] on calm p by (auto split: sum.splits)
  next
    case (Message rm rd)
    then show ?thesis using device.conn_read_inv [OF inv] device.conn_read_mem [OF inv ok few] on calm p by auto
  next
    case (Kick i)
    then show ?thesis using device_mem.kick_mem [OF inv ok] on p few' by simp
  next
    case (RqBh bh)
    then show ?thesis using run_rq_bh_mem [OF inv ok, of bh K sy] on calm p by (cases bh) auto
  next
    case (CtlBh bh)
    then show ?thesis using run_ctl_bh_mem [OF inv ok, of bh sy K] run_ctl_bh_ok [OF inv, of bh sy K] on calm p few by auto
  next
    case Fetch
    then obtain bio rest where f: "rq_submission (vw_queue w) = bio # rest"
      "w' = w\<lparr>vw_queue := (vw_queue w)\<lparr>rq_submission := rest\<rparr>, vw_backend := bio # vw_backend w\<rparr>"
      using on p by (auto simp: vhd_dequeue_request_def split: list.splits)
    show ?thesis by (rule mem_ok_queue [OF ok f(2)]) (use f in \<open>auto simp: bios_def refs_def n_bios_def framed_def\<close>)
  next
    case (Complete bio status)
    let ?b = "bio\<lparr>bio_status := status\<rparr>"
    have b: "bio \<in> set (vw_backend w)" using on Complete by simp
    have w': "w' = w\<lparr>vw_queue := backend_done bio status (vw_queue w), vw_backend := remove1 bio (vw_backend w)\<rparr>"
      using p Complete by simp
    show ?thesis by (rule mem_ok_queue [OF ok w']) (rule complete_backend [OF b w'] | assumption)+
  next
    case Reap
    then show ?thesis using reap_mem [OF ok few _ inv] p by simp
  next
    case Stop
    then show ?thesis using stop_server_mem [OF ok few] stop_ok [OF inv, of K sy] on p by auto
  next
    case (OtherRequest bio)
    let ?rq = "(vw_queue w)\<lparr>rq_submission := rq_submission (vw_queue w) @ [bio]\<rparr>"
    have "w' = w\<lparr>vw_queue := ?rq, vw_backend := vw_backend w\<rparr>" using p OtherRequest by auto
    then show ?thesis by (rule mem_ok_queue [OF ok]) (use on p OtherRequest in \<open>auto simp: bios_def n_bios_def refs_def framed_def\<close>)
  qed
  then show ?thesis using step_inv [OF inv on calm p few'] clean_step [OF inv c on calm p] few' by (simp add: live_inv_def)
qed

interpretation live_executions: inductive_invariant live_initial "vdev_step K dev" live_inv for K dev
  by unfold_locales (auto simp: live_initial_inv live_step elim: vdev_step.cases)

section \<open>What is used is live\<close>

lemma running_vring:
  assumes "live_inv w" and "i < length (vd_vrings (vw_vdev w))" and "vr_started_in_rq (vring i w) \<or> n_bios (bios w) i \<noteq> 0"
  shows "vr_started_in_ctl (vring i w)" and "\<not> starting i w" and "live_vring (bios w) w i"
  using assms by (auto simp: live_inv_def vdev_inv_def core_def vring_ok_def mem_ok_def Let_def split: if_splits)

lemma refs_live:
  assumes ok: "mem_ok bs w" and few: "length bs < 2 ^ 16" and r: "refs bs (vw_vdev w) mid \<noteq> 0"
  obtains mm where "ms_maps (m_mms (vw_machine w)) mid = Some mm" and "unat (mm_ref mm) = refs bs (vw_vdev w) mid"
    and "unat (mm_ref mm) < 2 ^ 17"
proof -
  have "maps_ok (refs bs (vw_vdev w)) (m_mms (vw_machine w))" using ok by (simp add: mem_ok_def)
  from maps_ok_live [OF this r] obtain mm where mm: "ms_maps (m_mms (vw_machine w)) mid = Some mm"
    "mm_ref mm = word_of_nat (refs bs (vw_vdev w) mid)" by blast
  have "refs bs (vw_vdev w) mid < 2 ^ 17" using refs_bound [of bs "vw_vdev w" mid] few by simp
  then have "unat (mm_ref mm) = refs bs (vw_vdev w) mid" "unat (mm_ref mm) < 2 ^ 17" using mm(2) by (simp_all add: unat_of_nat)
  with mm(1) show thesis by (rule that)
qed

lemma vring_log_live:
  assumes ok: "mem_ok bs w" and q: "queue_ok w i" and c: "vr_started_in_ctl (vring i w)" "\<not> starting i w"
    and l: "vq_log (vr_vq (vring i w)) = Some l"
  shows "m_logs (vw_machine w) l \<noteq> None"
  using ok q c l by (auto simp: mem_ok_def logs_ok_def queue_ok_def Let_def)

lemma vring_queue_live:
  assumes ok: "mem_ok bs w" and few: "length bs < 2 ^ 16" and q: "queue_ok w i" and c: "vr_started_in_ctl (vring i w)" "\<not> starting i w"
  shows "queue_live (vr_vq (vring i w)) (vw_machine w) 0 (2 ^ 17)"
proof -
  let ?mid = "vq_mm (vr_vq (vring i w))"
  have "vd_memmap (vw_vdev w) = Some ?mid \<or> vd_old_memmap (vw_vdev w) = Some ?mid" using q c by (auto simp: queue_ok_def Let_def)
  then have r: "refs bs (vw_vdev w) ?mid \<noteq> 0" by (auto simp: refs_def)
  obtain mm where mm: "ms_maps (m_mms (vw_machine w)) ?mid = Some mm" "unat (mm_ref mm) = refs bs (vw_vdev w) ?mid"
    "unat (mm_ref mm) < 2 ^ 17" using refs_live [OF ok few r] .
  then have "0 < unat (mm_ref mm)" "unat (mm_ref mm) + 2 ^ 17 < 2 ^ 64" using r by simp_all
  then show ?thesis using mm(1) vring_log_live [OF ok q c] unfolding queue_live_def by blast
qed

text \<open>Without a connection nothing holds a map.\<close>

lemma released_maps:
  assumes inv: "vdev_inv w" and c: "clean w" and k: "vd_connfd (vw_vdev w) < 0"
  shows "refs (bios w) (vw_vdev w) mid = 0" and "vd_memlog (vw_vdev w) = None" and "vd_old_memlog (vw_vdev w) = None"
    and "vd_inflight_mem (vw_vdev w) = 0"
proof -
  have o: "vd_old_memmap (vw_vdev w) = None" "vd_old_memlog (vw_vdev w) = None"
    using inv closed_connection(2) [OF inv k] by (simp_all add: vdev_inv_def core_def msg_ok_def Let_def)
  have "n_bios (bios w) i = 0" if "i < length (vd_vrings (vw_vdev w))" for i
    using idle_vring(3) [OF inv that] drained_quiet(1) [OF inv closed_connection(1-3) [OF inv k]] that by simp
  then have "\<forall>b\<in>set (bios w). \<not> bio_vring b < length (vd_vrings (vw_vdev w))" by (fastforce simp: n_bios_def filter_empty_conv)
  then show "refs (bios w) (vw_vdev w) mid = 0" using o c k by (auto simp: refs_def clean_def filter_empty_conv)
qed (use assms closed_connection(2) [OF inv k] in \<open>simp_all add: clean_def vdev_inv_def core_def msg_ok_def Let_def\<close>)

section \<open>Kicks\<close>

text \<open>The guest does not change the headers of block requests while they are dispatched.\<close>

fun fair_guest :: "device \<Rightarrow> guest \<Rightarrow> bool" where
  "fair_guest (Blk _) g = quiet_headers g"
| "fair_guest (Fs _) g = True"

lemma dispatch_total:
  assumes b: "length (vq_buffers (vr_vq (vring i w))) = unat (vq_max_chain_len (vr_vq (vring i w)))"
    and live: "queue_live (vr_vq (vring i w)) (vw_machine w) 0 (2 ^ 17)" and fair: "fair_guest dev (m_guest (vw_machine w))"
    and st: "settled (vr_vq (vring i w)) (m_guest (vw_machine w))"
  shows "\<exists>r. vt_dispatch_requests (device_type K now dev) i w = Some r"
proof -
  let ?vq = "vr_vq (vring i w)" and ?m = "vw_machine w" and ?s = "(vw_queue w, w)"
  have wf: "vq_wf ?vq" if "vq_qsz ?vq \<noteq> 0" using b that by (simp add: vq_wf_def)
  have on: "\<exists>r. dispatch_on (virtq_dequeue_many h now) i w = Some r" if "\<exists>r. virtq_dequeue_many h now (?vq, ?m, ?s) = Some r" for h
    using that by (auto simp: dispatch_on_def)
  show ?thesis
  proof (cases dev)
    case (Blk bdev)
    let ?h = "blk_handle_buffers K (bd_vblk (blk_device bdev i))"
    have "\<exists>r. virtq_dequeue_many ?h now (?vq, ?m, ?s) = Some r"
      using dequeue_empty_total [OF _ st] blk.dequeue_many_total [OF wf live _ st] fair Blk by (metis fair_guest.simps(1))
    then show ?thesis using on Blk
      by (simp add: g_virtio_blk_vdev_type_def vblk_dispatch_requests_def [abs_def] virtio_blk_dispatch_requests_def [abs_def])
  next
    case (Fs fsdev)
    let ?h = "fs_handle_buffers K (fd_vfs (fs_device fsdev i))"
    have "\<exists>r. virtq_dequeue_many ?h now (?vq, ?m, ?s) = Some r"
      using dequeue_empty_total [OF _ st] fs.dequeue_many_total [OF wf live _ st] by metis
    then show ?thesis using on Fs
      by (simp add: g_virtio_fs_vdev_type_def vfs_dispatch_requests_def [abs_def] virtio_fs_dispatch_requests_def [abs_def])
  qed
qed

lemma kick_total:
  assumes inv: "live_inv w" and on: "enabled (Kick i) w" and fair: "fair_guest dev (m_guest (vw_machine w))"
    and st: "settled (vr_vq (vring i w)) (m_guest (vw_machine w))"
  shows "\<exists>w'. vring_kick (device_type K now dev) i w = Some w'"
proof -
  have i: "i < length (vd_vrings (vw_vdev w))" and h: "vr_kick_handler (vring i w) = Some True" using on by simp_all
  have ok: "vring_ok (bios w) w i" "mem_ok (bios w) w" "length (bios w) < 2 ^ 16"
    using inv i by (simp_all add: live_inv_def vdev_inv_def core_def)
  have "vr_started_in_rq (vring i w)" using ok(1) h by (auto simp: vring_ok_def Let_def)
  note r = running_vring [OF inv i disjI1 [OF this]]
  have "queue_live (vr_vq (vring i w)) (vw_machine w) 0 (2 ^ 17)"
    and b: "length (vq_buffers (vr_vq (vring i w))) = unat (vq_max_chain_len (vr_vq (vring i w)))"
    using vring_queue_live [OF ok(2,3) _ r(1,2)] r by (simp_all add: live_vring_def buffers_ok_def Let_def)
  moreover define w0 where "w0 = upd_machine (\<lambda>m. m\<lparr>m_eventfd := (m_eventfd m)(vr_kickfd (vring i w) := 0)\<rparr>) w"
  have k: "vring i w0 = vring i w" "m_guest (vw_machine w0) = m_guest (vw_machine w)" "m_mms (vw_machine w0) = m_mms (vw_machine w)"
    "m_logs (vw_machine w0) = m_logs (vw_machine w)" "vd_vrings (vw_vdev w0) = vd_vrings (vw_vdev w)"
    by (simp_all add: w0_def upd_machine_def)
  ultimately have "queue_live (vr_vq (vring i w0)) (vw_machine w0) 0 (2 ^ 17)" by (simp add: queue_live_def)
  then obtain ret w1 where d: "vt_dispatch_requests (device_type K now dev) i w0 = Some (ret, w1)"
    using dispatch_total [of w0 i dev K now] b fair st k by fastforce
  have "dispatched i w0 w1" using device.dispatch_effect [OF d] i k by simp
  then have "vr_kick_handler (vring i w1) \<noteq> None"
    using i k h by (auto simp: dispatched_def upd_vring_def upd_vdev_def dispatched_vring_def)
  then show ?thesis using d by (cases ret) (auto simp: vring_kick_def w0_def)
qed

section \<open>Completions\<close>

lemma bio_complete_total:
  assumes core: "core (b # bs) h s w" and ok: "mem_ok (b # bs) w"
  shows "\<exists>w'. bio_complete K b w = Some w'"
proof (cases "bio_vring b < length (vd_vrings (vw_vdev w))")
  case True
  let ?i = "bio_vring b" and ?iov = "bio_iov b"
  let ?vq = "vr_vq (vring ?i w)" and ?m = "vw_machine w"
  have v: "vring_ok (b # bs) w ?i" "live_vring (b # bs) w ?i" using core ok True by (simp_all add: core_def mem_ok_def)
  have n: "n_bios (b # bs) ?i \<noteq> 0" by (simp add: n_bios_def)
  have c: "vr_started_in_ctl (vring ?i w)" "\<not> starting ?i w" using v(1) n by (auto simp: vring_ok_def Let_def split: if_splits)
  have q: "vq_qsz ?vq \<noteq> 0" and f: "iov_buffers ?iov \<noteq> []"
    using v(2) n by (simp_all add: live_vring_def buffers_ok_def framed_def Let_def)
  have "refs (b # bs) (vw_vdev w) (iov_mm ?iov) \<noteq> 0" using True by (simp add: refs_Cons)
  then have mm: "ms_maps (m_mms ?m) (iov_mm ?iov) \<noteq> None"
    using ok maps_ok_live [of "refs (b # bs) (vw_vdev w)" "m_mms ?m" "iov_mm ?iov"] by (auto simp: mem_ok_def)
  have log: "\<And>l. vq_log ?vq = Some l \<Longrightarrow> m_logs ?m l \<noteq> None"
    using vring_log_live [OF ok _ c] v(2) by (simp add: live_vring_def)
  have push: "\<exists>m'. virtq_push ?vq ?iov len m \<bind> (\<lambda>m1. Some (virtio_free_iov K ?iov m1)) = Some m'"
    if "m_logs m = m_logs ?m" "m_mms m = m_mms ?m" for len m
    using virtq_push_total [OF q, of m ?iov len] log mm that by (metis Option.bind.bind_lunit)
  show ?thesis
  proof (cases "bio_owner b")
    case (BlkIo iov)
    then have i: "iov = ?iov" by (simp add: bio_iov_def)
    have "\<exists>m'. complete_io K ?vq iov (bio_status b) ?m = Some m'"
      using push [of "?m\<lparr>m_status := st\<rparr>" 0 for st] f unfolding i by (simp add: complete_io_def complete_req_def set_status_def)
    then show ?thesis using True BlkIo by (auto simp: bio_complete_def)
  next
    case (FsIo iov out_hdr)
    then have i: "iov = ?iov" by (simp add: bio_iov_def)
    have "\<exists>m'. complete_request K ?vq iov out_hdr (bio_status b) ?m = Some m'"
      using push [of ?m len for len] unfolding i by (auto simp: complete_request_def Let_def split: option.split)
    then show ?thesis using True FsIo by (auto simp: bio_complete_def)
  qed
qed (simp add: bio_complete_def)

lemma complete_list_total:
  "core (bs @ rest) h s w \<Longrightarrow> mem_ok (bs @ rest) w \<Longrightarrow> length (bs @ rest) < 2 ^ 16 \<Longrightarrow>
    \<exists>w'. complete_list (req_complete (bio_complete K) bio_dec) bs w = Some w'"
proof (induction bs arbitrary: w)
  case (Cons b bs)
  from bio_complete_total [of b "bs @ rest" h s w K] Cons.prems obtain w1 where
    w1: "req_complete (bio_complete K) bio_dec b w = Some w1" by (auto simp: req_complete_def bio_dec_def)
  have "core (bs @ rest) h s w1" using complete_one_ok [OF _ w1] Cons.prems(1) by simp
  moreover have "mem_ok (bs @ rest) w1" by (rule complete_one_mem [OF _ _ w1]) (use Cons.prems in simp_all)
  ultimately show ?case using Cons.IH [of w1] w1 Cons.prems(3) by simp
qed simp

lemma reap_total:
  assumes "live_inv w"
  shows "\<exists>w'. reap K w = Some w'"
proof -
  let ?L = "rev (rq_completion (vw_queue w))" and ?rest = "rq_submission (vw_queue w) @ vw_backend w"
  have inv: "vdev_inv w" and ok: "mem_ok (bios w) w" and few: "length (bios w) < 2 ^ 16" using assms by (simp_all add: live_inv_def)
  have "core (?L @ ?rest) 0 0 w"
    using inv core_bios_cong [of w "bios w" "?L @ ?rest" 0 0] by (auto simp: vdev_inv_def bios_def)
  moreover have c: "count_if P (?L @ ?rest) = count_if P (bios w)" for P by (simp add: bios_def rev_filter [symmetric])
  have "mem_ok (?L @ ?rest) w" by (rule mem_ok_bios [OF ok refs_cong_bios]) (use c in \<open>simp_all only: n_bios_def\<close>, simp add: bios_def framed_def ball_Un)
  ultimately obtain w1 where "complete_list (req_complete (bio_complete K) bio_dec) ?L w = Some w1"
    using complete_list_total few by (fastforce simp: bios_def)
  then show ?thesis by (auto simp: reap_def rq_complete_bh_def move_reverse_rev)
qed

section \<open>Every step returns\<close>

text \<open>The inflight region of a vring, if it has one, is at most one request behind the used ring.\<close>

definition in_step :: "nat \<Rightarrow> vworld \<Rightarrow> bool" where
  "in_step i w \<longleftrightarrow>
     (let v = vring i w; region = vq_inflight_region (vr_vq v); r = m_inflight (vw_machine w) region
      in region = 0 \<or> max_counter r = 0 \<or>
         (\<forall>mm used. Option.bind (vd_memmap (vw_vdev w)) (ms_maps (m_mms (vw_machine w))) = Some mm \<longrightarrow>
            uva_to_ptr mm (ac_used (vr_addr_cache v)) = Some used \<longrightarrow> us_idx (m_used (vw_machine w) used) - isr_used_idx r \<le> 1))"

text \<open>
  What the code needs in order not to abort: to start a vring, a memory table and inflight regions
  in step with the used rings; to take requests, a guest that stops adding them.
\<close>

fun safe_with :: "device \<Rightarrow> vdev_event \<Rightarrow> vworld \<Rightarrow> bool" where
  "safe_with dev (Message rm rd) w =
     (case rm of
        Inl _ \<Rightarrow> True
      | Inr (n, hdr, fds) \<Rightarrow> mh_req hdr = VHOST_USER_SET_VRING_KICK \<longrightarrow>
          vd_memmap (vw_vdev w) \<noteq> None \<and> list_all (\<lambda>i. in_step i w) [0..<length (vd_vrings (vw_vdev w))])"
| "safe_with dev (Kick i) w = (settled (vr_vq (vring i w)) (m_guest (vw_machine w)) \<and> fair_guest dev (m_guest (vw_machine w)))"
| "safe_with dev _ w = True"

lemma startable_in_step:
  assumes inv: "live_inv w" and mm: "vd_memmap (vw_vdev w) \<noteq> None" and st: "in_step i w"
  shows "startable i w"
proof -
  obtain mid where mid: "vd_memmap (vw_vdev w) = Some mid" using mm by blast
  then have "refs (bios w) (vw_vdev w) mid \<noteq> 0" by (simp add: refs_def)
  then obtain m where "ms_maps (m_mms (vw_machine w)) mid = Some m" using refs_live [of "bios w" w mid] inv by (auto simp: live_inv_def)
  then show ?thesis using mid st by (auto simp: startable_def in_step_def Let_def split: option.split)
qed

lemma safe_with_safe:
  assumes "live_inv w" and "safe_with dev ev w" and "ev \<noteq> Reap" and "\<nexists>i. ev = Kick i"
  shows "safe ev w"
  using assms startable_in_step [OF assms(1)] by (cases ev) (auto simp: list_all_iff split: sum.splits)

lemma safe_with_total:
  assumes inv: "live_inv w" and on: "enabled ev w" and calm: "calm sy ev w" and safe: "safe_with dev ev w"
  shows "\<exists>w'. perform K (device_type K now dev) sy ev w = Some w'"
proof -
  have v: "vdev_inv w" using inv by (simp add: live_inv_def)
  consider i where "ev = Kick i" | "ev = Reap" | "safe ev w" using safe_with_safe [OF inv safe] by blast
  then show ?thesis
  proof cases
    case 1
    then show ?thesis using kick_total [OF inv] on safe by simp
  next
    case 2
    then show ?thesis using reap_total [OF inv] by simp
  next
    case 3
    then show ?thesis using safe_total [OF v on calm] by blast
  qed
qed

end
