(* ===== verification/Vdev_Sound.thy ===== *)
theory Vdev_Sound
  imports Vdev_Live
begin

text \<open>
  The theorems about executions of a device with its memory maps and logs, and an execution on
  which they are evaluated.
\<close>

section \<open>A vring to evaluate\<close>

text \<open>
  An execution that brings a vring up: a client connects, sends a memory table and the size of
  the ring, and starts the vring. The kernel maps at a fixed address.
\<close>

definition demo_kernel :: kernel where
  "demo_kernel = \<lparr>k_mmap_any = (\<lambda>A n. Inr 0x7f0000000000), k_mmap_fixed = (\<lambda>A b n. OK), k_munmap = (\<lambda>A b n. OK)\<rparr>"

definition blank_machine :: machine where
  "blank_machine = (demo_machine demo_guest)\<lparr>m_mms := \<lparr>ms_next = 0, ms_maps = (\<lambda>_. None), ms_as = (\<lambda>_. None)\<rparr>\<rparr>"

definition blank_listening :: vworld where
  "blank_listening = demo_listening\<lparr>vw_machine := blank_machine\<rparr>"

definition blank_connected :: vworld where
  "blank_connected = demo_connected\<lparr>vw_machine := blank_machine\<rparr>"

definition demo_setup :: vhost_user_msg_payload where
  "demo_setup = \<lparr>mp_u64 = 0, mp_config = \<lparr>cs_offset = 0, cs_size = 0, cs_flags = 0, cs_payload = []\<rparr>,
     mp_mem_desc = \<lparr>md_nregions = 1, md_regions = (\<lambda>_. \<lparr>mreg_guest_addr = 0, mreg_size = 0x200000, mreg_user_addr = 0, mreg_mmap_offset = 0\<rparr>)\<rparr>,
     mp_vring_state = \<lparr>vs_index = 0, vs_num = 4\<rparr>,
     mp_vring_addr = \<lparr>va_index = 0, va_flags = 0, va_desc_addr = 0, va_used_addr = 0, va_avail_addr = 0, va_used_gpa_base = 0\<rparr>,
     mp_inflight_desc = \<lparr>id_mmap_size = 0, id_mmap_offset = 0, id_num_queues = 0, id_queue_size = 0\<rparr>,
     mp_log = \<lparr>lg_size = 0, lg_offset = 0\<rparr>\<rparr>"

definition demo_msg :: "u32 \<Rightarrow> u32 \<Rightarrow> int list \<Rightarrow> vdev_event" where
  "demo_msg req sz fds = Message (Inr (12, \<lparr>mh_req = req, mh_flags = 1, mh_size = sz\<rparr>, fds)) (Inr (unat sz, demo_setup))"

definition demo_map :: vhd_memory_map where
  "demo_map = \<lparr>mm_ref = 1, mm_map_cb = None, mm_unmap_cb = None,
     mm_regions = [\<lparr>mr_gpa = 0, mr_uva = 0, mr_ptr = 0x7f0000200000, mr_size = 0x200000\<rparr>]\<rparr>"

definition demo_store :: mm_store where
  "demo_store = \<lparr>ms_next = 1, ms_maps = [0 \<mapsto> demo_map], ms_as = snd (map_memory demo_kernel (\<lambda>_. None) 0x200000 5 0)\<rparr>"

definition demo_mapped :: vworld where
  "demo_mapped = blank_connected\<lparr>vw_machine := blank_machine\<lparr>m_mms := demo_store\<rparr>,
     vw_vdev := (vw_vdev demo_connected)\<lparr>vd_memmap := Some 0\<rparr>, vw_out := [WorkDone OK, Closed 5]\<rparr>"

lemma demo_message:
  assumes "vd_conn_handler (vw_vdev w) = Some True" and "vd_timer_handler (vw_vdev w) = Some False"
    and "vd_negotiated_protocol_features (vw_vdev w) = 0" and "length fds \<le> 8" and "sz < 256"
    and "vhost_handle_msg K demo_sys ty req demo_setup sz fds (upd_vdev (\<lambda>vd. vd\<lparr>vd_conn_handler := Some False, vd_req := req,
      vd_ack_pending := False, vd_timer_handler := Some True\<rparr>) w) = Some (OK, w')"
  shows "perform K ty demo_sys (demo_msg req sz fds) w = Some (close_fds (rev fds) w')"
proof -
  have "unat sz < 256" using assms(5) by (simp add: word_less_nat_alt)
  then have "net_recv_msg 272 VHOST_USER_MAX_FDS (Inr (12, \<lparr>mh_req = req, mh_flags = 1, mh_size = sz\<rparr>, fds)) (Inr (unat sz, demo_setup)) =
      (Inr (12 + unat sz, Some \<lparr>mh_req = req, mh_flags = 1, mh_size = sz\<rparr>, Some demo_setup), fds, [])"
    using assms(4) by (simp add: net_recv_msg_def recv_payload_def VHOST_USER_MAX_FDS_def)
  moreover have "vdev_handle_start demo_sys req (msg_ack_needed (vw_vdev w) 1) w = Some (upd_vdev (\<lambda>vd. vd\<lparr>vd_conn_handler := Some False, vd_req := req,
      vd_ack_pending := False, vd_timer_handler := Some True\<rparr>) w)"
    using assms(1-3) by (simp add: vdev_handle_start_def msg_ack_needed_def has_feature_def attach_handler_def demo_sys_def)
  ultimately show ?thesis using assms(6) by (simp add: demo_msg_def conn_read_def close_fds_def Let_def)
qed

lemma demo_map_memory: "map_memory demo_kernel (\<lambda>_. None) 0x200000 5 0 = (Inr 0x7f0000200000, ms_as demo_store)"
proof -
  have "fst (map_memory demo_kernel (\<lambda>_. None) 0x200000 5 0) = Inr 0x7f0000200000"
    by (simp add: map_memory_def demo_kernel_def VHD_ALIGN_UP_def HUGE_PAGE_SIZE_def PAGE_SIZE_def Let_def)
  then show ?thesis by (simp add: demo_store_def prod_eq_iff)
qed

lemma demo_add_slots:
  "add_slots demo_kernel 0 (mp_mem_desc demo_setup) [5] [0]
     \<lparr>ms_next = 1, ms_maps = [0 \<mapsto> \<lparr>mm_ref = 1, mm_map_cb = None, mm_unmap_cb = None, mm_regions = []\<rparr>], ms_as = (\<lambda>_. None)\<rparr> = Some (OK, demo_store)"
  by (simp add: demo_setup_def vhd_memmap_add_slot_def VHD_RAM_SLOTS_MAX_def map_region_def demo_map_memory)
    (simp add: demo_store_def demo_map_def)

lemma update_shadow_addrs_none:
  "\<forall>i\<in>set is. \<not> vr_started_in_ctl (vring i w) \<Longrightarrow> update_shadow_addrs mid is w = Some (OK, w)"
  by (induction "is") simp_all

lemma demo_mem_table:
  "perform demo_kernel ty demo_sys (demo_msg VHOST_USER_SET_MEM_TABLE 40 [5]) blank_connected = Some demo_mapped"
proof -
  let ?w1 = "upd_vdev (\<lambda>vd. vd\<lparr>vd_conn_handler := Some False, vd_req := VHOST_USER_SET_MEM_TABLE,
      vd_ack_pending := False, vd_timer_handler := Some True\<rparr>) blank_connected"
  let ?w2 = "?w1\<lparr>vw_machine := blank_machine\<lparr>m_mms := demo_store\<rparr>\<rparr>"
  have m: "vw_machine ?w1 = blank_machine" "vd_map_cb (vw_vdev ?w1) = None" "vd_unmap_cb (vw_vdev ?w1) = None" "vd_num_queues (vw_vdev ?w1) = 2"
    by (simp_all add: blank_connected_def demo_connected_def init_vdev_def upd_vdev_def)
  have new: "vhd_memmap_new None None (m_mms blank_machine) = (0, \<lparr>ms_next = 1,
      ms_maps = [0 \<mapsto> \<lparr>mm_ref = 1, mm_map_cb = None, mm_unmap_cb = None, mm_regions = []\<rparr>], ms_as = (\<lambda>_. None)\<rparr>)"
    by (simp add: blank_machine_def vhd_memmap_new_def objref_init_def)
  have "[0..<unat (md_nregions (mp_mem_desc demo_setup))] = [0]" by (simp add: demo_setup_def)
  moreover have "update_shadow_addrs 0 [0..<unat (vd_num_queues (vw_vdev ?w1))] ?w2 = Some (OK, ?w2)"
    by (rule update_shadow_addrs_none) (simp add: blank_connected_def demo_connected_def init_vdev_def init_vring_def upd_vdev_def)
  moreover have "upd_machine (\<lambda>m. m\<lparr>m_mms := demo_store\<rparr>) ?w1 = ?w2" using m(1) by (simp add: upd_machine_def)
  ultimately have "new_memmap demo_kernel (mp_mem_desc demo_setup) [5] ?w1 = Some (Inr 0, ?w2)"
    using demo_add_slots unfolding new_memmap_def m(1-3) new Let_def prod.case by simp
  then have "vhost_handle_msg demo_kernel demo_sys ty VHOST_USER_SET_MEM_TABLE demo_setup 40 [5] ?w1 =
      Some (OK, demo_mapped\<lparr>vw_out := [WorkDone OK]\<rparr>)"
    by (simp add: vhost_handle_msg_def vhost_set_mem_table_def vhost_reqs demo_setup_def VHOST_USER_MEM_REGIONS_MAX_def)
      (simp add: set_mem_table_complete_def memmap_put_def vhost_ack_def vdev_handle_finish_def attach_handler_def demo_sys_def vhost_reqs
        blank_connected_def demo_connected_def demo_listening_def init_vdev_def upd_vdev_def demo_mapped_def)
  from demo_message [OF _ _ _ _ _ this] show ?thesis
    by (simp add: blank_connected_def demo_connected_def init_vdev_def close_fds_def act_def demo_mapped_def)
qed

definition demo_sized :: vworld where
  "demo_sized = upd_vring 0 (vr_vq_update (vq_qsz_update (\<lambda>_. 4))) demo_mapped"

lemma demo_vring_num: "perform demo_kernel ty demo_sys (demo_msg VHOST_USER_SET_VRING_NUM 8 []) demo_mapped = Some demo_sized"
proof -
  let ?w1 = "upd_vdev (\<lambda>vd. vd\<lparr>vd_conn_handler := Some False, vd_req := VHOST_USER_SET_VRING_NUM,
      vd_ack_pending := False, vd_timer_handler := Some True\<rparr>) demo_mapped"
  have "vhost_handle_msg demo_kernel demo_sys ty VHOST_USER_SET_VRING_NUM demo_setup 8 [] ?w1 = Some (OK, demo_sized)"
    by (simp add: vhost_handle_msg_def vhost_set_vring_num_def vhost_reqs demo_setup_def get_vring_def)
      (simp add: vhost_ack_def vdev_handle_finish_def attach_handler_def demo_sys_def vhost_reqs
        demo_connected_def init_vdev_def init_vring_def upd_vdev_def upd_vring_def demo_mapped_def demo_sized_def)
  from demo_message [OF _ _ _ _ _ this] show ?thesis
    by (simp add: demo_mapped_def demo_connected_def init_vdev_def close_fds_def)
qed

definition demo_ring :: virtio_virtq where
  "demo_ring = zero_virtq\<lparr>vq_qsz := 4, vq_desc := 0x7f0000200000, vq_used := 0x7f0000200000, vq_avail := 0x7f0000200000,
     vq_notify_fd := - 1, vq_max_chain_len := WINDOWS_CHAIN_LEN_MAX, vq_inflight_check := True,
     vq_buffers := replicate (unat WINDOWS_CHAIN_LEN_MAX) \<lparr>buf_base = 0, buf_len = 0, buf_write_only = False\<rparr>\<rparr>"

definition demo_vring :: vhd_vring where
  "demo_vring = init_vring\<lparr>vr_kickfd := 9, vr_started_in_ctl := True, vr_vq := demo_ring,
     vr_shadow_vq := \<lparr>sh_flags = 0, sh_desc = 0x7f0000200000, sh_avail = 0x7f0000200000, sh_used = 0x7f0000200000, sh_mm = 0, sh_log = None\<rparr>\<rparr>"

definition demo_starting :: vworld where
  "demo_starting = demo_sized\<lparr>vw_vdev := (vw_vdev demo_sized)\<lparr>vd_conn_handler := Some False, vd_req := VHOST_USER_SET_VRING_KICK,
       vd_ack_pending := False, vd_timer_handler := Some True, vd_vrings := [demo_vring, init_vring], vd_num_vrings_started := 1,
       vd_num_vrings_in_flight := 1, vd_num_vrings_handling_msg := 1, vd_handle_complete := Some SetVringKickComplete\<rparr>,
     vw_rq := [VringStart 0], vw_out := [WorkDone OK, Closed 5, Closed 4]\<rparr>"

definition demo_started :: vworld where
  "demo_started = demo_starting\<lparr>vw_vdev := (vw_vdev demo_starting)\<lparr>
       vd_vrings := [demo_vring\<lparr>vr_started_in_rq := True, vr_kick_handler := Some True\<rparr>, init_vring]\<rparr>,
     vw_rq := [], vw_ctl := [VringMarkMsgHandled 0]\<rparr>"

definition demo_running :: vworld where
  "demo_running = demo_started\<lparr>vw_vdev := (vw_vdev demo_started)\<lparr>vd_conn_handler := Some True, vd_req := VHOST_USER_NONE,
     vd_timer_handler := Some False, vd_num_vrings_handling_msg := 0, vd_handle_complete := None\<rparr>, vw_ctl := []\<rparr>"

lemma replicate_2: "replicate 2 x = [x, x]"
  by (simp add: numeral_2_eq_2)

lemma demo_uva: "uva_to_ptr demo_map 0 = Some 0x7f0000200000"
  by (simp add: uva_to_ptr_def demo_map_def)

lemma demo_sized_fields:
  "vd_vrings (vw_vdev demo_sized) = [init_vring\<lparr>vr_vq := zero_virtq\<lparr>vq_qsz := 4\<rparr>\<rparr>, init_vring]"
  "vd_memmap (vw_vdev demo_sized) = Some 0" "vd_num_queues (vw_vdev demo_sized) = 2" "vd_num_vrings_started (vw_vdev demo_sized) = 0"
  "vd_num_vrings_in_flight (vw_vdev demo_sized) = 0" "vd_num_vrings_handling_msg (vw_vdev demo_sized) = 0"
  "vd_conn_handler (vw_vdev demo_sized) = Some True" "vd_timer_handler (vw_vdev demo_sized) = Some False"
  "vd_negotiated_protocol_features (vw_vdev demo_sized) = 0" "vd_ack_pending (vw_vdev demo_sized) = False"
  "ms_maps (m_mms (vw_machine demo_sized)) 0 = Some demo_map" "m_guest (vw_machine demo_sized) = demo_guest"
  "vw_out demo_sized = [WorkDone OK, Closed 5]" "vw_rq demo_sized = []" "vw_ctl demo_sized = []" "bios demo_sized = []"
  by (simp_all add: demo_sized_def demo_mapped_def blank_connected_def blank_machine_def demo_machine_def demo_connected_def
      demo_listening_def init_vdev_def upd_vdev_def upd_vring_def replicate_2 demo_store_def bios_def)
    (simp add: init_vring_def)

lemma demo_vring_kick: "perform demo_kernel ty demo_sys (demo_msg VHOST_USER_SET_VRING_KICK 8 [4]) demo_sized = Some demo_starting"
proof -
  define w1 where "w1 = upd_vdev (\<lambda>vd. vd\<lparr>vd_conn_handler := Some False, vd_req := VHOST_USER_SET_VRING_KICK,
      vd_ack_pending := False, vd_timer_handler := Some True\<rparr>) demo_sized"
  define w2 where "w2 = upd_vring 0 (\<lambda>v. v\<lparr>vr_shadow_vq := (vr_shadow_vq v)\<lparr>sh_desc := 0x7f0000200000,
      sh_used := 0x7f0000200000, sh_avail := 0x7f0000200000, sh_mm := 0\<rparr>\<rparr>) w1"
  have m: "vd_memmap (vw_vdev w1) = Some 0" "vd_num_queues (vw_vdev w1) = 2" "ms_maps (m_mms (vw_machine w1)) 0 = Some demo_map"
    "vd_vrings (vw_vdev w1) = [init_vring\<lparr>vr_vq := zero_virtq\<lparr>vq_qsz := 4\<rparr>\<rparr>, init_vring]"
    by (simp_all add: w1_def upd_vdev_def demo_sized_fields)
  have u: "vring_update_shadow_vq_addrs 0 0 w1 = Some (OK, w2)"
    by (simp add: vring_update_shadow_vq_addrs_def m demo_uva w2_def) (simp add: init_vring_def demo_uva)
  have w2: "w2 = demo_sized\<lparr>vw_vdev := (vw_vdev demo_sized)\<lparr>vd_conn_handler := Some False, vd_req := VHOST_USER_SET_VRING_KICK,
      vd_ack_pending := False, vd_timer_handler := Some True, vd_vrings := [init_vring\<lparr>vr_vq := zero_virtq\<lparr>vq_qsz := 4\<rparr>,
        vr_shadow_vq := vr_shadow_vq demo_vring\<rparr>, init_vring]\<rparr>\<rparr>"
    by (simp add: w2_def w1_def upd_vdev_def upd_vring_def demo_sized_fields) (simp add: init_vring_def demo_vring_def)
  have st: "vring_start_in_ctl 0 9 w2 = Some (demo_starting\<lparr>vw_out := vw_out demo_sized, vw_rq := vw_rq demo_sized,
      vw_vdev := (vw_vdev demo_starting)\<lparr>vd_num_vrings_handling_msg := 0, vd_handle_complete := vd_handle_complete (vw_vdev demo_sized)\<rparr>\<rparr>)"
    by (simp add: vring_start_in_ctl_def vring_sync_to_virtq_def virtq_set_notify_fd_def virtq_do_notify_def w2 
        virtio_virtq_init_def virtq_inflight_reconnect_update_def upd_vdev_def upd_vring_def init_vring_def zero_virtq_def)
      (simp add: demo_starting_def demo_vring_def demo_ring_def demo_sized_fields
         WINDOWS_CHAIN_LEN_MAX_def init_vring_def zero_virtq_def)
  have "vhost_handle_msg demo_kernel demo_sys ty VHOST_USER_SET_VRING_KICK demo_setup 8 [4] w1 =
      Some (OK, demo_starting\<lparr>vw_out := [WorkDone OK, Closed 5]\<rparr>)"
    using u st m
    by (simp add: vhost_handle_msg_def vhost_set_vring_kick_def vhost_reqs demo_setup_def msg_u64_get_vring_def get_vring_def init_vring_def
      demo_sys_def) (simp add: demo_starting_def demo_vring_def vring_handle_msg_def upd_vdev_def run_in_rq_def demo_sized_fields)
  from demo_message [OF _ _ _ _ _ this [unfolded w1_def]] show ?thesis
    by (simp add: demo_sized_fields close_fds_def act_def demo_starting_def)
qed

lemma demo_vring_start: "perform K ty demo_sys (RqBh (VringStart 0)) demo_starting = Some demo_started"
  by (simp add: run_rq_bh_def vring_start_bh_def demo_sys_def demo_starting_def demo_started_def demo_vring_def init_vring_def
      vring_sync_to_virtq_def virtq_set_notify_fd_def virtq_do_notify_def demo_ring_def zero_virtq_def upd_vdev_def upd_vring_def run_in_ctl_def
      demo_sized_fields)

lemma demo_vring_started: "perform K ty demo_sys (CtlBh (VringMarkMsgHandled 0)) demo_started = Some demo_running"
  by (simp add: run_ctl_bh_def vring_mark_msg_handled_def handle_complete_def vhost_ack_def vdev_handle_finish_def attach_handler_def
      demo_sys_def demo_running_def demo_started_def demo_starting_def upd_vdev_def)

lemma demo_running_fields:
  "length (vd_vrings (vw_vdev demo_running)) = 2" "vr_kick_handler (vring 0 demo_running) = Some True"
  "vr_started_in_rq (vring 0 demo_running)" "vr_vq (vring 0 demo_running) = demo_ring" "m_guest (vw_machine demo_running) = demo_guest"
  "vd_memmap (vw_vdev demo_running) = Some 0" "vd_num_vrings_in_flight (vw_vdev demo_running) = 1"
  by (simp_all add: demo_running_def demo_started_def demo_starting_def demo_sized_fields demo_vring_def)

lemma demo_few: "length (bios demo_mapped) < 2 ^ 16" "length (bios demo_sized) < 2 ^ 16" "length (bios demo_starting) < 2 ^ 16"
  "length (bios demo_started) < 2 ^ 16" "length (bios demo_running) < 2 ^ 16" "length (bios blank_connected) < 2 ^ 16"
proof -
  have q: "vw_queue demo_sized = vw_queue demo_mapped" "vw_backend demo_sized = vw_backend demo_mapped"
    by (simp_all add: demo_sized_def upd_vring_def upd_vdev_def)
  show "length (bios demo_mapped) < 2 ^ 16" "length (bios demo_sized) < 2 ^ 16" "length (bios blank_connected) < 2 ^ 16"
    using q by (simp_all add: bios_def demo_mapped_def blank_connected_def demo_connected_def demo_listening_def)
  then show "length (bios demo_starting) < 2 ^ 16" "length (bios demo_started) < 2 ^ 16" "length (bios demo_running) < 2 ^ 16"
    by (simp_all add: bios_def demo_running_def demo_started_def demo_starting_def)
qed

lemma blank_initial: "live_initial blank_listening"
proof -
  have "vhd_vdev_init_server demo_sys (Inr 6) 2 None None blank_machine
      \<lparr>rq_submission = [], rq_completion = [], rq_completion_bh = 0\<rparr> = Some (OK, Some blank_listening)"
    by (simp add: vhd_vdev_init_server_def vhd_calloc_def VHOST_VRING_IDX_MASK_def vdev_work_fn_def vdev_start_def vdev_start_listening_def
        vdev_complete_work_def init_vdev_def act_def upd_vdev_def demo_sys_def blank_listening_def demo_listening_def)
  then have "vdev_initial blank_listening" by (rule vdev_initial) simp
  then show ?thesis by (simp add: live_initial_def blank_listening_def demo_listening_def blank_machine_def bios_def)
qed

lemma demo_step:
  assumes "reach live_initial (vdev_step demo_kernel dev) w" and "enabled ev w" and "calm demo_sys ev w"
    and "\<And>ty. perform demo_kernel ty demo_sys ev w = Some w'" and "length (bios w') < 2 ^ 16"
  shows "reach live_initial (vdev_step demo_kernel dev) w'"
  by (rule reach_step [OF assms(1)]) (rule vdev_step [OF assms(2,3,4,5)])

lemma demo_reach_running: "reach live_initial (vdev_step demo_kernel dev) blank_listening" "reach live_initial (vdev_step demo_kernel dev) demo_running"
proof -
  let ?reach = "reach live_initial (vdev_step demo_kernel dev)"
  have send: "send_ok demo_sys" by (simp add: send_ok_def demo_sys_def)
  show r0: "?reach blank_listening" by (rule reach_start [of live_initial, OF blank_initial])
  have "?reach blank_connected"
    by (rule demo_step [OF r0, of Accept])
      (simp_all add: bios_def server_read_def demo_sys_def blank_listening_def demo_listening_def blank_connected_def demo_connected_def init_vdev_def upd_vdev_def)
  then have "?reach demo_mapped"
    by (rule demo_step [OF _ _ _ demo_mem_table])
      (use demo_few in \<open>simp_all add: demo_msg_def blank_connected_def demo_connected_def init_vdev_def\<close>)
  then have "?reach demo_sized"
    by (rule demo_step [OF _ _ _ demo_vring_num])
      (use demo_few in \<open>simp_all add: demo_msg_def demo_mapped_def demo_connected_def init_vdev_def\<close>)
  then have "?reach demo_starting"
    by (rule demo_step [OF _ _ _ demo_vring_kick]) (use demo_few in \<open>simp_all add: demo_msg_def demo_sized_fields\<close>)
  then have "?reach demo_started"
    by (rule demo_step [OF _ _ _ demo_vring_start]) (use demo_few in simp_all, simp add: demo_starting_def)
  then show "?reach demo_running"
    by (rule demo_step [OF _ _ _ demo_vring_started]) (use send demo_few in simp_all, simp add: demo_started_def)
qed

section \<open>Properties\<close>



text \<open>
  C3: in every execution of a device, nothing is used after it is freed. A vring that runs
  translates with a memory map that is live and writes to a log that is live, also while a
  message replaces them; and the map through which the buffers of a request in flight were
  found is live until the request is completed, as are the map and the log of its vring.
\<close>

theorem vdev_uses_live:
  assumes "reach live_initial (vdev_step K dev) w" and "i < length (vd_vrings (vw_vdev w))"
  shows "let vq = vr_vq (vring i w); live = (\<lambda>mid. ms_maps (m_mms (vw_machine w)) mid \<noteq> None) in
    (vr_started_in_rq (vring i w) \<or> n_bios (bios w) i \<noteq> 0 \<longrightarrow>
       live (vq_mm vq) \<and> (\<forall>l. vq_log vq = Some l \<longrightarrow> m_logs (vw_machine w) l \<noteq> None)) \<and>
    (\<forall>b\<in>set (bios w). bio_vring b = i \<longrightarrow> live (iov_mm (bio_iov b)))"
proof -
  have inv: "live_inv w" using live_executions.reach_inv [OF assms(1)] .
  then have ok: "mem_ok (bios w) w" and few: "length (bios w) < 2 ^ 16" by (simp_all add: live_inv_def)
  have "queue_live (vr_vq (vring i w)) (vw_machine w) 0 (2 ^ 17)" if "vr_started_in_rq (vring i w) \<or> n_bios (bios w) i \<noteq> 0"
    using running_vring [OF inv assms(2) that] by (intro vring_queue_live [OF ok few]) (simp_all add: live_vring_def)
  moreover have "ms_maps (m_mms (vw_machine w)) (iov_mm (bio_iov b)) \<noteq> None" if "b \<in> set (bios w)" "bio_vring b = i" for b
  proof -
    have "refs (bios w) (vw_vdev w) (iov_mm (bio_iov b)) \<noteq> 0"
      using that assms(2) by (auto simp: refs_def filter_empty_conv)
    then show ?thesis using refs_live [OF ok few] by (metis option.distinct(1))
  qed
  ultimately show ?thesis by (auto simp: queue_live_def Let_def)
qed

theorem vdev_uses_live_witness:
  "vr_started_in_rq (vring 0 demo_running) \<and> ms_maps (m_mms (vw_machine demo_running)) 0 \<noteq> None"
proof -
  have "0 < length (vd_vrings (vw_vdev demo_running))" by (simp add: demo_running_fields)
  from vdev_uses_live [OF demo_reach_running(2) this] show ?thesis
    by (simp add: demo_running_fields Let_def demo_ring_def zero_virtq_def)
qed



end
