(* ===== verification/Vdev_Strand.thy ===== *)
theory Vdev_Strand
  imports Vdev_Sound
begin

text \<open>
  A device that is stopped while a message is under way may never be released: the last report
  about the message does not look whether it was what the device was waiting for.
\<close>

section \<open>What the end of a message leaves alone\<close>

text \<open>What decides whether the device is cleaned up, and whether it was released.\<close>

definition fate where
  "fate w = (vd_listen_handler (vw_vdev w), vd_conn_handler (vw_vdev w) = None, vd_connfd (vw_vdev w), vd_num_vrings_in_flight (vw_vdev w),
     vd_num_vrings_started (vw_vdev w), vd_num_vrings_handling_msg (vw_vdev w), filter ((=) Released) (vw_out w))"

lemma fate_simps [simp]:
  "fate (upd_machine h w) = fate w" "fate (replace_fd fd w) = fate w" "fate (memmap_put K mm w) = fate w"
  by (simp_all add: fate_def upd_machine_def replace_fd_def act_def memmap_put_def split: option.split)

lemma fate_act: "a \<noteq> Released \<Longrightarrow> fate (act a w) = fate w"
  by (simp add: fate_def act_def)

lemma fate_upd_vdev:
  "(\<And>vd. (vd_listen_handler (f vd), vd_conn_handler (f vd), vd_connfd (f vd), vd_num_vrings_in_flight (f vd), vd_num_vrings_started (f vd),
      vd_num_vrings_handling_msg (f vd)) = (vd_listen_handler vd, vd_conn_handler vd, vd_connfd vd, vd_num_vrings_in_flight vd,
      vd_num_vrings_started vd, vd_num_vrings_handling_msg vd)) \<Longrightarrow> fate (upd_vdev f w) = fate w"
  by (simp add: fate_def upd_vdev_def)

lemma handle_finish_fate: "vdev_handle_finish sy w = Some w' \<Longrightarrow> fate w' = fate w"
  by (auto simp: vdev_handle_finish_def attach_handler_def fate_def upd_vdev_def split: if_splits option.splits)

lemma send_fds_fate: "vhost_send_fds sy hdr p fds fin w = Some (r, w') \<Longrightarrow> fate w' = fate w"
  by (auto simp: vhost_send_fds_def fate_act Let_def dest: handle_finish_fate split: sum.splits if_splits)

lemma ack_fate: "vhost_ack sy ret w = Some (r, w') \<Longrightarrow> fate w' = fate w"
  by (auto simp: vhost_ack_def vhost_reply_u64_def vhost_reply_def vhost_reply_fds_def dest: handle_finish_fate send_fds_fate split: if_splits)

lemma handle_complete_fate: "handle_complete K sy c w = Some (r, w') \<Longrightarrow> fate w' = fate w"
  by (auto simp: handle_complete_def set_mem_table_complete_def set_vring_call_complete_def set_vring_err_complete_def
      set_log_base_complete_def vhost_reply_u64_def vhost_reply_def vhost_reply_fds_def fate_upd_vdev fate_act
      dest!: ack_fate send_fds_fate split: completion_fn.splits option.splits)

lemma last_report_fate:
  assumes h: "vd_num_vrings_handling_msg (vw_vdev w) = 1" and c: "vd_conn_handler (vw_vdev w) = None"
    and r: "vring_mark_msg_handled K sy w = Some w'"
  shows "fate w' = fate (upd_vdev (vd_num_vrings_handling_msg_update (\<lambda>_. 0)) w)"
proof -
  let ?w1 = "upd_vdev (\<lambda>vd. vd\<lparr>vd_num_vrings_handling_msg := vd_num_vrings_handling_msg vd - 1\<rparr>) w"
  have f1: "fate ?w1 = fate (upd_vdev (vd_num_vrings_handling_msg_update (\<lambda>_. 0)) w)" using h by (simp add: fate_def upd_vdev_def)
  have "vd_num_vrings_handling_msg (vw_vdev ?w1) = 0" using h by (simp add: upd_vdev_def)
  then obtain c ret w2 where w2: "handle_complete K sy c ?w1 = Some (ret, w2)"
    "(case ret of Inl _ \<Rightarrow> vdev_disconnect K sy (upd_vdev (vd_handle_complete_update (\<lambda>_. None)) w2)
      | Inr _ \<Rightarrow> Some (upd_vdev (vd_handle_complete_update (\<lambda>_. None)) w2)) = Some w'"
    using r h by (auto simp: vring_mark_msg_handled_def bind_eq_Some_conv Let_def)
  have f2: "fate w2 = fate ?w1" by (rule handle_complete_fate [OF w2(1)])
  then have "vd_conn_handler (vw_vdev w2) = None" using c by (simp add: fate_def upd_vdev_def)
  then have "w' = upd_vdev (vd_handle_complete_update (\<lambda>_. None)) w2"
    using w2(2) by (auto simp: vdev_disconnect_def upd_vdev_def split: sum.splits)
  then show ?thesis using f1 f2 by (simp add: fate_upd_vdev)
qed

section \<open>Stranded devices\<close>

text \<open>A device that was stopped and has nothing left to do, but still has its connection.\<close>

definition stranded :: "vworld \<Rightarrow> bool" where
  "stranded w \<longleftrightarrow> vdev_inv w \<and> vd_listen_handler (vw_vdev w) = None \<and> 0 \<le> vd_connfd (vw_vdev w) \<and>
     vd_num_vrings_in_flight (vw_vdev w) = 0 \<and> vd_num_vrings_handling_msg (vw_vdev w) = 0 \<and> vd_num_vrings_started (vw_vdev w) = 0"

lemma complete_others:
  "\<forall>b\<in>set bs. length (vd_vrings (vw_vdev w)) \<le> bio_vring b \<Longrightarrow>
    complete_list (req_complete (bio_complete K) bio_dec) bs w = Some w"
  by (induction bs) (simp_all add: req_complete_def bio_complete_def bio_dec_def)

lemma stranded_step:
  assumes s: "stranded w" and step: "vdev_step K dev w w'"
  shows "vw_vdev w' = vw_vdev w \<and> vw_out w' = vw_out w \<and> stranded w'"
proof -
  have inv: "vdev_inv w" and l: "vd_listen_handler (vw_vdev w) = None" and z: "vd_num_vrings_in_flight (vw_vdev w) = 0"
    "vd_num_vrings_handling_msg (vw_vdev w) = 0" "vd_num_vrings_started (vw_vdev w) = 0" using s by (simp_all add: stranded_def)
  note q = drained_quiet [OF inv z]
  have c: "vd_conn_handler (vw_vdev w) = None" using inv l by (auto simp: vdev_inv_def core_def conn_ok_def Let_def)
  obtain ev sy now where ev: "enabled ev w" "calm sy ev w" "perform K (device_type K now dev) sy ev w = Some w'" "length (bios w') < 2 ^ 16"
    using step by (auto elim: vdev_step.cases)
  have "vw_vdev w' = vw_vdev w \<and> vw_out w' = vw_out w"
  proof (cases ev)
    case (RqBh bh)
    then obtain i where bh: "bh = VringStop i" "bh \<in> set (vw_rq w)" using ev(1) q(4) by auto
    then have "i < length (vd_vrings (vw_vdev w))" using inv by (auto simp: vdev_inv_def core_def counts_ok_def Let_def)
    then have "\<not> vr_started_in_rq (vring i w)" using q(1) by simp
    then show ?thesis using ev(3) RqBh bh(1) by (auto simp: run_rq_bh_def vring_stop_bh_def)
  next
    case Reap
    have "\<forall>b\<in>set (rev (rq_completion (vw_queue w))). length (vd_vrings (vw_vdev w)) \<le> bio_vring b" using q(2) by (simp add: bios_def)
    from complete_others [OF this, of K] show ?thesis
      using ev(3) Reap by (auto simp: reap_def rq_complete_bh_def move_reverse_rev bind_eq_Some_conv)
  qed (use ev q(1,3) l c in \<open>auto simp: vhd_dequeue_request_def split: list.splits\<close>)
  moreover have "vdev_inv w'" by (rule step_inv [OF inv ev])
  ultimately show ?thesis using s by (simp add: stranded_def)
qed

lemma stranded_for_good:
  "(vdev_step K dev)\<^sup>*\<^sup>* w w' \<Longrightarrow> stranded w \<Longrightarrow> vw_vdev w' = vw_vdev w \<and> vw_out w' = vw_out w \<and> stranded w'"
  by (induction rule: rtranclp_induct) (auto dest: stranded_step)

lemma last_report_stranded:
  assumes inv: "vdev_inv w" and l: "vd_listen_handler (vw_vdev w) = None"
    and z: "vd_num_vrings_in_flight (vw_vdev w) = 0" "vd_num_vrings_started (vw_vdev w) = 0" and h: "vd_num_vrings_handling_msg (vw_vdev w) = 1"
    and bh: "VringMarkMsgHandled i \<in> set (vw_ctl w)" and send: "send_ok sy"
    and p: "perform K ty sy (CtlBh (VringMarkMsgHandled i)) w = Some w'"
  shows "stranded w'" and "filter ((=) Released) (vw_out w') = filter ((=) Released) (vw_out w)"
proof -
  have c: "vd_conn_handler (vw_vdev w) = None" "0 \<le> vd_connfd (vw_vdev w)"
    using inv l h by (auto simp: vdev_inv_def core_def conn_ok_def Let_def not_less [symmetric])
  let ?w = "w\<lparr>vw_ctl := remove1 (VringMarkMsgHandled i) (vw_ctl w)\<rparr>"
  have r: "vring_mark_msg_handled K sy ?w = Some w'" using p by (simp add: run_ctl_bh_def)
  have "fate w' = fate (upd_vdev (vd_num_vrings_handling_msg_update (\<lambda>_. 0)) ?w)" by (rule last_report_fate [OF _ _ r]) (use h c in simp_all)
  moreover have "vdev_inv w'" using run_ctl_bh_ok [OF inv bh send, of K] r by (simp add: run_ctl_bh_def)
  ultimately show "stranded w'" "filter ((=) Released) (vw_out w') = filter ((=) Released) (vw_out w)"
    using l z c by (simp_all add: stranded_def fate_def upd_vdev_def)
qed

section \<open>A device to evaluate\<close>

text \<open>
  The client of a running device sends a message, the request queue's thread reports it, and the
  application stops the device before the control thread has seen the report. The control thread
  then finds three bottom halves and runs the latest first.
\<close>

definition demo_told :: vworld where
  "demo_told = demo_running\<lparr>vw_vdev := (vw_vdev demo_running)\<lparr>vd_conn_handler := Some False, vd_req := VHOST_USER_SET_VRING_ADDR,
     vd_ack_pending := False, vd_timer_handler := Some True, vd_num_vrings_handling_msg := 1, vd_handle_complete := Some SetVringAddrComplete,
       vd_vrings := [demo_vring\<lparr>vr_started_in_rq := True, vr_kick_handler := Some True\<rparr>, init_vring]\<rparr>,
     vw_rq := [VringSyncToVirtq 0]\<rparr>"

definition demo_synced :: vworld where
  "demo_synced = demo_told\<lparr>vw_rq := [], vw_ctl := [VringMarkMsgHandled 0]\<rparr>"

definition demo_stopping :: vworld where
  "demo_stopping = demo_synced\<lparr>vw_vdev := (vw_vdev demo_synced)\<lparr>vd_listen_handler := None, vd_listenfd := - 1, vd_work := True,
       vd_conn_handler := None, vd_vrings := [(vring 0 demo_synced)\<lparr>vr_disconnecting := True\<rparr>, init_vring]\<rparr>,
     vw_rq := [VringStop 0], vw_out := vw_out demo_synced @ [Closed 6]\<rparr>"

definition demo_stopped :: vworld where
  "demo_stopped = demo_stopping\<lparr>vw_vdev := (vw_vdev demo_stopping)\<lparr>
       vd_vrings := [(vring 0 demo_stopping)\<lparr>vr_kick_handler := None, vr_started_in_rq := False\<rparr>, init_vring]\<rparr>,
     vw_rq := [], vw_ctl := [VringMarkDrained 0, VringMarkStopped 0, VringMarkMsgHandled 0]\<rparr>"

definition demo_empty :: vworld where
  "demo_empty = demo_stopped\<lparr>vw_vdev := (vw_vdev demo_stopped)\<lparr>vd_vrings := [init_vring, init_vring], vd_num_vrings_in_flight := 0\<rparr>,
     vw_ctl := [VringMarkStopped 0, VringMarkMsgHandled 0], vw_out := vw_out demo_stopped @ [Closed 9]\<rparr>"

definition demo_late :: vworld where
  "demo_late = demo_empty\<lparr>vw_vdev := (vw_vdev demo_empty)\<lparr>vd_num_vrings_started := 0, vd_work := False\<rparr>,
     vw_ctl := [VringMarkMsgHandled 0], vw_out := vw_out demo_empty @ [WorkDone OK]\<rparr>"

lemma demo_vdev_fields:
  "vd_vrings (vw_vdev demo_running) = [demo_vring\<lparr>vr_started_in_rq := True, vr_kick_handler := Some True\<rparr>, init_vring]"
  "vd_conn_handler (vw_vdev demo_running) = Some True" "vd_timer_handler (vw_vdev demo_running) = Some False"
  "vd_negotiated_protocol_features (vw_vdev demo_running) = 0" "vd_num_queues (vw_vdev demo_running) = 2"
  "vd_num_vrings_handling_msg (vw_vdev demo_running) = 0" "vd_num_vrings_started (vw_vdev demo_running) = 1"
  "vd_num_vrings_in_flight (vw_vdev demo_running) = 1" "vd_listen_handler (vw_vdev demo_running) = Some False"
  "vd_listenfd (vw_vdev demo_running) = 6" "\<not> vd_work (vw_vdev demo_running)" "vw_rq demo_running = []" "vw_ctl demo_running = []"
  "vd_connfd (vw_vdev demo_running) = 7"
  by (simp_all add: demo_running_def demo_started_def demo_starting_def demo_sized_fields)
    (simp_all add: demo_sized_def demo_mapped_def demo_connected_def init_vdev_def upd_vring_def upd_vdev_def)

lemma demo_vring_addr: "perform K ty demo_sys (demo_msg VHOST_USER_SET_VRING_ADDR 40 []) demo_running = Some demo_told"
proof -
  define w1 where "w1 = upd_vdev (\<lambda>vd. vd\<lparr>vd_conn_handler := Some False, vd_req := VHOST_USER_SET_VRING_ADDR,
      vd_ack_pending := False, vd_timer_handler := Some True\<rparr>) demo_running"
  have "vhost_handle_msg K demo_sys ty VHOST_USER_SET_VRING_ADDR demo_setup 40 [] w1 = Some (OK, demo_told)"
    by (simp add: vhost_handle_msg_def vhost_set_vring_addr_def vhost_reqs demo_setup_def get_vring_def w1_def upd_vdev_def demo_vdev_fields
        demo_vring_def demo_ring_def zero_virtq_def init_vring_def)
      (simp add: demo_told_def vring_handle_msg_def run_in_rq_def upd_vring_def upd_vdev_def demo_vdev_fields demo_vring_def init_vring_def vhost_reqs)
  from demo_message [OF _ _ _ _ _ this [unfolded w1_def]] show ?thesis by (simp add: demo_vdev_fields close_fds_def)
qed

lemma demo_sync: "perform K ty demo_sys (RqBh (VringSyncToVirtq 0)) demo_told = Some demo_synced"
  by (simp add: run_rq_bh_def vring_sync_to_virtq_bh_def vring_sync_to_virtq_def virtq_set_notify_fd_def virtq_do_notify_def run_in_ctl_def
      demo_told_def demo_synced_def demo_vdev_fields demo_vring_def demo_ring_def zero_virtq_def init_vring_def upd_vring_def upd_vdev_def)

lemma demo_stop: "perform K ty demo_sys Stop demo_synced = Some demo_stopping"
  by (simp add: vhd_vdev_stop_server_def vdev_work_fn_def vdev_stop_def vdev_stop_listening_def vdev_disconnect_def for_vrings_def
      vring_disconnect_def vring_reset_def vdev_maybe_vrings_stopped_def vdev_maybe_drained_def vdev_in_use_def replace_fd_def act_def run_in_rq_def
      demo_synced_def demo_told_def demo_stopping_def demo_vdev_fields demo_vring_def init_vring_def upd_vring_def upd_vdev_def upt_rec Let_def)
    auto

lemma demo_queue: "rq_submission (vw_queue demo_stopping) = []" "bios demo_running = []"
proof -
  have "bios demo_running = []"
    by (simp add: demo_running_def demo_started_def demo_starting_def) (use demo_sized_fields(16) in \<open>simp add: bios_def\<close>)
  then show "rq_submission (vw_queue demo_stopping) = []" "bios demo_running = []"
    by (simp_all add: bios_def demo_stopping_def demo_synced_def demo_told_def)
qed

lemma demo_stopping_vring:
  "vd_vrings (vw_vdev demo_stopping) =
     [demo_vring\<lparr>vr_started_in_rq := True, vr_kick_handler := Some True, vr_disconnecting := True\<rparr>, init_vring]"
  "vw_rq demo_stopping = [VringStop 0]" "vw_ctl demo_stopping = [VringMarkMsgHandled 0]"
  by (simp_all add: demo_stopping_def demo_synced_def demo_told_def)

lemma demo_vring_stop: "perform K ty demo_sys (RqBh (VringStop 0)) demo_stopping = Some demo_stopped"
proof -
  let ?w = "demo_stopping\<lparr>vw_rq := []\<rparr>"
  let ?w1 = "upd_vring 0 (\<lambda>v. v\<lparr>vr_kick_handler := None, vr_started_in_rq := False\<rparr>) ?w"
  have c: "vring_cancel_queued K 0 ?w1 = Some ?w1"
    by (rule vring_cancel_none) (use demo_queue in \<open>simp add: upd_vring_def upd_vdev_def n_bios_def\<close>)
  have "vring_stop_bh K 0 ?w = Some demo_stopped"
    unfolding vring_stop_bh_def using c
    by (simp add: demo_stopping_vring)
      (simp add: demo_stopped_def demo_stopping_vring run_in_ctl_def upd_vring_def upd_vdev_def demo_vring_def init_vring_def)
  then show ?thesis by (simp add: run_rq_bh_def demo_stopping_vring)
qed

lemma demo_stopped_fields:
  "vd_vrings (vw_vdev demo_stopped) = [demo_vring\<lparr>vr_disconnecting := True\<rparr>, init_vring]"
  "vd_num_vrings_in_flight (vw_vdev demo_stopped) = 1" "vd_num_vrings_handling_msg (vw_vdev demo_stopped) = 1"
  "vd_num_vrings_started (vw_vdev demo_stopped) = 1" "vd_listen_handler (vw_vdev demo_stopped) = None" "vd_work (vw_vdev demo_stopped)"
  "vw_ctl demo_stopped = [VringMarkDrained 0, VringMarkStopped 0, VringMarkMsgHandled 0]"
  by (simp_all add: demo_stopped_def demo_stopping_vring)
    (simp_all add: demo_stopping_def demo_synced_def demo_told_def demo_vdev_fields demo_vring_def init_vring_def)

lemma demo_vring_drained: "perform K ty demo_sys (CtlBh (VringMarkDrained 0)) demo_stopped = Some demo_empty"
  by (simp add: run_ctl_bh_def vring_mark_drained_def vring_on_drain_def virtio_virtq_release_def vring_reset_def replace_fd_def act_def
      vdev_maybe_drained_def vdev_in_use_def upd_vring_def upd_vdev_def demo_stopped_fields demo_vring_def demo_ring_def WINDOWS_CHAIN_LEN_MAX_def
      init_vring_def Let_def)
    (simp add: demo_empty_def demo_stopped_fields init_vring_def)

lemma demo_vring_stopped: "perform K ty demo_sys (CtlBh (VringMarkStopped 0)) demo_empty = Some demo_late"
  by (simp add: run_ctl_bh_def vring_mark_stopped_def vdev_maybe_vrings_stopped_def vdev_vrings_stopped_def vdev_complete_work_def
      vdev_maybe_drained_def vdev_in_use_def act_def upd_vdev_def demo_empty_def demo_late_def demo_stopped_fields)

lemma demo_reach_late: "reach live_initial (vdev_step demo_kernel dev) demo_late"
proof -
  let ?reach = "reach live_initial (vdev_step demo_kernel dev)"
  have few: "length (bios demo_told) < 2 ^ 16" "length (bios demo_synced) < 2 ^ 16" "length (bios demo_stopping) < 2 ^ 16"
    "length (bios demo_stopped) < 2 ^ 16" "length (bios demo_empty) < 2 ^ 16" "length (bios demo_late) < 2 ^ 16"
    using demo_queue(2)
    by (simp_all add: bios_def demo_late_def demo_empty_def demo_stopped_def demo_stopping_def demo_synced_def demo_told_def)
  have send: "send_ok demo_sys" by (simp add: send_ok_def demo_sys_def)
  have "?reach demo_told"
    by (rule demo_step [OF demo_reach_running(2) _ _ demo_vring_addr])
      (use few in \<open>simp_all add: demo_msg_def demo_vdev_fields\<close>)
  then have "?reach demo_synced"
    by (rule demo_step [OF _ _ _ demo_sync]) (use few in simp_all, simp add: demo_told_def)
  then have "?reach demo_stopping"
    by (rule demo_step [OF _ _ _ demo_stop]) (use few in simp_all, auto simp: demo_synced_def demo_told_def demo_vdev_fields)
  then have "?reach demo_stopped"
    by (rule demo_step [OF _ _ _ demo_vring_stop])
      (use few demo_queue(1) in \<open>simp_all add: calm_stop_def n_bios_def demo_stopping_vring\<close>)
  then have "?reach demo_empty"
    by (rule demo_step [OF _ _ _ demo_vring_drained]) (use few send in \<open>simp_all add: demo_stopped_fields\<close>)
  then show ?thesis
    by (rule demo_step [OF _ _ _ demo_vring_stopped]) (use few send in simp_all, simp add: demo_empty_def)
qed

lemma demo_late_fields:
  "vd_listen_handler (vw_vdev demo_late) = None" "vd_num_vrings_in_flight (vw_vdev demo_late) = 0"
  "vd_num_vrings_started (vw_vdev demo_late) = 0" "vd_num_vrings_handling_msg (vw_vdev demo_late) = 1" "vw_ctl demo_late = [VringMarkMsgHandled 0]"
  by (simp_all add: demo_late_def demo_empty_def demo_stopped_fields)

section \<open>Properties\<close>

lemma live_reach: "reach live_initial (vdev_step K dev) w \<Longrightarrow> vdev_inv w"
  using live_executions.reach_inv by (simp add: live_inv_def)

text \<open>
  C37: a device that is stopped while a message is under way is not released if the last report
  about the message comes last. When every vring has been drained and has stopped, but one report
  is due, the bottom half that reports it completes the message and does nothing else: whatever
  happens then, the connection stays open and the application is never told that the device was
  released. The bottom half of a stopped or drained vring releases the device only if no message
  is under way, and bottom halves run in reverse order.
\<close>

theorem late_report_strands:
  assumes "reach live_initial (vdev_step K dev) w" and "vd_listen_handler (vw_vdev w) = None"
    and "vd_num_vrings_in_flight (vw_vdev w) = 0" and "vd_num_vrings_started (vw_vdev w) = 0" and "vd_num_vrings_handling_msg (vw_vdev w) = 1"
    and "VringMarkMsgHandled i \<in> set (vw_ctl w)" and "send_ok sy"
    and "perform K (device_type K now dev) sy (CtlBh (VringMarkMsgHandled i)) w = Some w1" and "(vdev_step K dev)\<^sup>*\<^sup>* w1 w2"
  shows "0 \<le> vd_connfd (vw_vdev w2) \<and> vw_vdev w2 = vw_vdev w1 \<and>
    filter ((=) Released) (vw_out w2) = filter ((=) Released) (vw_out w)"
proof -
  note s = last_report_stranded [OF live_reach [OF assms(1)] assms(2-8)]
  have "vw_vdev w2 = vw_vdev w1 \<and> vw_out w2 = vw_out w1 \<and> stranded w2" by (rule stranded_for_good [OF assms(9) s(1)])
  then show ?thesis using s(2) unfolding stranded_def by metis
qed

theorem late_report_strands_witness:
  "\<exists>w1. perform demo_kernel (device_type demo_kernel 0 (Blk demo_bdev)) demo_sys (CtlBh (VringMarkMsgHandled 0)) demo_late = Some w1 \<and>
    0 \<le> vd_connfd (vw_vdev w1) \<and> Released \<notin> set (vw_out w1)"
proof -
  have send: "send_ok demo_sys" by (simp add: send_ok_def demo_sys_def)
  have bh: "VringMarkMsgHandled 0 \<in> set (vw_ctl demo_late)" by (simp add: demo_late_fields)
  obtain w1 where w1: "perform demo_kernel (device_type demo_kernel 0 (Blk demo_bdev)) demo_sys (CtlBh (VringMarkMsgHandled 0)) demo_late = Some w1"
    using run_ctl_bh_ok [OF live_reach [OF demo_reach_late [of "Blk demo_bdev"]] bh send, of demo_kernel] by auto
  have "Released \<notin> set (vw_out demo_late)"
    by (simp add: demo_late_def demo_empty_def demo_stopped_def demo_stopping_def demo_synced_def demo_told_def demo_running_def demo_started_def
        demo_starting_def)
  then have "filter ((=) Released) (vw_out demo_late) = []" by (auto simp: filter_empty_conv)
  then show ?thesis
    using late_report_strands [OF demo_reach_late demo_late_fields(1-4) bh send w1 rtranclp.rtrancl_refl] w1
    by (auto simp: filter_empty_conv)
qed

end
