(* ===== verification/Vdev_Log.thy ===== *)
theory Vdev_Log
  imports Vdev_Msg
begin

text \<open>
  What messages are logged with: their names, and the time their handling takes
  (\<open>vhost_req_name\<close>, \<open>elapsed_time\<close>, \<open>timer_read\<close> of \<open>vdev.c\<close>).
\<close>

section \<open>Names\<close>

text \<open>The table has designated initialisers; an entry without one is NULL.\<close>

definition vhost_req_names :: "string option list" where
  "vhost_req_names = [
     None,
     Some ''GET_FEATURES'',
     Some ''SET_FEATURES'',
     Some ''SET_OWNER'',
     Some ''RESET_OWNER'',
     Some ''SET_MEM_TABLE'',
     Some ''SET_LOG_BASE'',
     Some ''SET_LOG_FD'',
     Some ''SET_VRING_NUM'',
     Some ''SET_VRING_ADDR'',
     Some ''SET_VRING_BASE'',
     Some ''GET_VRING_BASE'',
     Some ''SET_VRING_KICK'',
     Some ''SET_VRING_CALL'',
     Some ''SET_VRING_ERR'',
     Some ''GET_PROTOCOL_FEATURES'',
     Some ''SET_PROTOCOL_FEATURES'',
     Some ''GET_QUEUE_NUM'',
     Some ''SET_VRING_ENABLE'',
     Some ''SEND_RARP'',
     Some ''NET_SET_MTU'',
     Some ''SET_SLAVE_REQ_FD'',
     Some ''IOTLB_MSG'',
     Some ''SET_VRING_ENDIAN'',
     Some ''GET_CONFIG'',
     Some ''SET_CONFIG'',
     Some ''CREATE_CRYPTO_SESSION'',
     Some ''CLOSE_CRYPTO_SESSION'',
     Some ''POSTCOPY_ADVISE'',
     Some ''POSTCOPY_LISTEN'',
     Some ''POSTCOPY_END'',
     Some ''GET_INFLIGHT_FD'',
     Some ''SET_INFLIGHT_FD'']"

definition vhost_req_name :: "u32 \<Rightarrow> string" where
  "vhost_req_name req =
     (if unat req \<ge> length vhost_req_names then ''**UNKNOWN**''
      else case vhost_req_names ! unat req of None \<Rightarrow> ''**UNKNOWN**'' | Some name \<Rightarrow> name)"

lemma handled_requests_named:
  assumes "vhost_handle_msg K sy ty req payload sz fds w \<noteq> Some (Inl ENOTSUP, w)"
  shows "vhost_req_name req \<noteq> ''**UNKNOWN**''"
  using assms by (auto simp: vhost_handle_msg_def vhost_req_name_def vhost_req_names_def vhost_reqs split: if_splits)

section \<open>Times\<close>

record timespec =
  tv_sec :: int
  tv_nsec :: int

definition NSEC_PER_SEC :: int where "NSEC_PER_SEC = 1000000000"
definition NSEC_PER_MSEC :: int where "NSEC_PER_MSEC = 1000000"
definition MSG_HANDLING_LOG_INTERVAL :: int where "MSG_HANDLING_LOG_INTERVAL = 30"

text \<open>The times of the clock are in its normal form, with less than a second of nanoseconds.\<close>

definition elapsed_time :: "timespec \<Rightarrow> timespec \<Rightarrow> timespec" where
  "elapsed_time started now =
     (let et = (if tv_nsec now < tv_nsec started then \<lparr>tv_sec = tv_sec now - 1, tv_nsec = tv_nsec now + NSEC_PER_SEC\<rparr> else now)
      in \<lparr>tv_sec = tv_sec et - tv_sec started, tv_nsec = tv_nsec et - tv_nsec started\<rparr>)"

text \<open>What the log shows: seconds and milliseconds.\<close>

definition timer_read :: "timespec \<Rightarrow> timespec \<Rightarrow> u32 \<Rightarrow> string \<times> int \<times> int" where
  "timer_read started now req =
     (let et = elapsed_time started now in (vhost_req_name req, tv_sec et, tv_nsec et div NSEC_PER_MSEC))"

definition nsec_of :: "timespec \<Rightarrow> int" where
  "nsec_of t = tv_sec t * NSEC_PER_SEC + tv_nsec t"

lemma elapsed_time_exact:
  assumes "0 \<le> tv_nsec started" "tv_nsec started < NSEC_PER_SEC" "0 \<le> tv_nsec now" "tv_nsec now < NSEC_PER_SEC"
  shows "nsec_of (elapsed_time started now) = nsec_of now - nsec_of started"
    and "0 \<le> tv_nsec (elapsed_time started now)" and "tv_nsec (elapsed_time started now) < NSEC_PER_SEC"
  using assms by (auto simp: nsec_of_def elapsed_time_def NSEC_PER_SEC_def Let_def)

lemma timer_read_exact:
  assumes "0 \<le> tv_nsec started" "tv_nsec started < NSEC_PER_SEC" "0 \<le> tv_nsec now" "tv_nsec now < NSEC_PER_SEC"
    and "timer_read started now req = (name, s, ms)"
  shows "0 \<le> ms" and "ms < 1000" and "s * 1000 + ms = (nsec_of now - nsec_of started) div NSEC_PER_MSEC"
proof -
  note e = elapsed_time_exact [OF assms(1-4)]
  have s: "s = tv_sec (elapsed_time started now)" "ms = tv_nsec (elapsed_time started now) div 1000000"
    using assms(5) by (simp_all add: timer_read_def NSEC_PER_MSEC_def Let_def)
  show "0 \<le> ms" "ms < 1000" using e(2,3) by (simp_all add: s NSEC_PER_SEC_def)
  have "nsec_of now - nsec_of started = 1000000 * (1000 * s) + tv_nsec (elapsed_time started now)"
    using e(1) by (simp add: s nsec_of_def NSEC_PER_SEC_def)
  then show "s * 1000 + ms = (nsec_of now - nsec_of started) div NSEC_PER_MSEC"
    by (simp add: s(2) NSEC_PER_MSEC_def div_mult_self1 add.commute)
qed

end
