(* ===== verification/Completion.thy ===== *)
theory Completion
  imports Server
begin

text \<open>
  The list of completed requests under concurrency. \<open>Server\<close> models \<open>vhd_complete_bio\<close> and
  \<open>rq_complete_bh\<close> as atomic operations on lists; here they are the steps of any number of
  backend threads and of the request queue's loop on the linked list of \<open>queue.h\<close>, with its
  compare-and-exchange. Requests are addresses. The atomic operations of \<open>catomic.h\<close> that the
  list uses are sequentially consistent, so the steps interleave.
\<close>

section \<open>The linked list\<close>

text \<open>
  Where a thread is in \<open>vhd_complete_bio\<close>: not in it; about to read the head of the list (again,
  after a failed exchange); with the head read into \<open>old_slh_first\<close> and the link of its request;
  with the request on the list and \<open>SLIST_INSERT_HEAD_ATOMIC\<close> evaluated to the old head.
\<close>

datatype completer = Out | Insert nat | Loaded nat "nat option" | Inserted "nat option"

text \<open>
  Where the loop is in \<open>rq_complete_bh\<close>: not in it; called; in the first loop with
  \<open>bio_list_reverse\<close> and \<open>bio_list\<close>; in the second with \<open>bio_list\<close>.
\<close>

datatype completion_bh = Idle | Called | Reversing "nat option" "nat option" | Completing "nat option"

record completion =
  cl_first :: "nat option"
  cl_next :: "nat \<Rightarrow> nat option"
  cl_thread :: "nat \<Rightarrow> completer"
  cl_scheduled :: bool
  cl_bh :: completion_bh
  cl_inserted :: "nat list"
  cl_completed :: "nat list"

text \<open>
  \<open>cl_inserted\<close> and \<open>cl_completed\<close> record the requests in the order in which they get on the list
  and are completed; the code does not have them.
\<close>

definition no_completions :: completion where
  "no_completions = \<lparr>cl_first = None, cl_next = (\<lambda>_. None), cl_thread = (\<lambda>_. Out), cl_scheduled = False, cl_bh = Idle,
     cl_inserted = [], cl_completed = []\<rparr>"

definition atomic_cmpxchg :: "nat option \<Rightarrow> nat option \<Rightarrow> nat option \<Rightarrow> nat option \<times> nat option" where
  "atomic_cmpxchg val old new = (if val = old then (val, new) else (val, val))"

definition atomic_xchg :: "nat option \<Rightarrow> nat option \<Rightarrow> nat option \<times> nat option" where
  "atomic_xchg val new = (val, new)"

text \<open>The operations return the old value and the new one.\<close>

definition set_thread :: "nat \<Rightarrow> completer \<Rightarrow> completion \<Rightarrow> completion" where
  "set_thread t c s = s\<lparr>cl_thread := (cl_thread s)(t := c)\<rparr>"

text \<open>One round of the loop of \<open>SLIST_INSERT_HEAD_ATOMIC\<close>: the read, and the exchange.\<close>

definition insert_load :: "nat \<Rightarrow> nat \<Rightarrow> completion \<Rightarrow> completion" where
  "insert_load t b s = set_thread t (Loaded b (cl_first s)) (s\<lparr>cl_next := (cl_next s)(b := cl_first s)\<rparr>)"

definition insert_cmpxchg :: "nat \<Rightarrow> nat \<Rightarrow> nat option \<Rightarrow> completion \<Rightarrow> completion" where
  "insert_cmpxchg t b old s =
     (case atomic_cmpxchg (cl_first s) old (Some b) of (val, first) \<Rightarrow>
      if val = old then set_thread t (Inserted old) (s\<lparr>cl_first := first, cl_inserted := cl_inserted s @ [b]\<rparr>)
      else set_thread t (Insert b) s)"

text \<open>The end of \<open>vhd_complete_bio\<close>.\<close>

definition complete_bio_finish :: "nat \<Rightarrow> nat option \<Rightarrow> completion \<Rightarrow> completion" where
  "complete_bio_finish t old s = set_thread t Out (if old = None then s\<lparr>cl_scheduled := True\<rparr> else s)"

text \<open>The steps of the bottom half.\<close>

definition slist_move_atomic :: "completion \<Rightarrow> completion" where
  "slist_move_atomic s =
     (case atomic_xchg (cl_first s) None of (val, first) \<Rightarrow> s\<lparr>cl_first := first, cl_bh := Reversing val None\<rparr>)"

definition reverse_round :: "nat option \<Rightarrow> nat option \<Rightarrow> completion \<Rightarrow> completion" where
  "reverse_round bio_list_reverse bio_list s =
     (case bio_list_reverse of
        None \<Rightarrow> s\<lparr>cl_bh := Completing bio_list\<rparr>
      | Some b \<Rightarrow> s\<lparr>cl_bh := Reversing (cl_next s b) (Some b), cl_next := (cl_next s)(b := bio_list)\<rparr>)"

definition complete_round :: "nat option \<Rightarrow> completion \<Rightarrow> completion" where
  "complete_round bio_list s =
     (case bio_list of
        None \<Rightarrow> s\<lparr>cl_bh := Idle\<rparr>
      | Some b \<Rightarrow> s\<lparr>cl_bh := Completing (cl_next s b), cl_completed := cl_completed s @ [b]\<rparr>)"

text \<open>The request that a thread is about to put on the list.\<close>

fun inserting :: "completer \<Rightarrow> nat option" where
  "inserting (Insert b) = Some b"
| "inserting (Loaded b old) = Some b"
| "inserting _ = None"

text \<open>
  The steps. The backend completes a request that it has: one that is not on its way to be
  completed already, by this thread or another.
\<close>

inductive completion_step :: "completion \<Rightarrow> completion \<Rightarrow> bool" where
  start: "completion_step s (set_thread t (Insert b) s)"
    if "cl_thread s t = Out" and "\<forall>u. inserting (cl_thread s u) \<noteq> Some b"
      and "count_list (cl_inserted s) b = count_list (cl_completed s) b"
| load: "completion_step s (insert_load t b s)" if "cl_thread s t = Insert b"
| cmpxchg: "completion_step s (insert_cmpxchg t b old s)" if "cl_thread s t = Loaded b old"
| finish: "completion_step s (complete_bio_finish t old s)" if "cl_thread s t = Inserted old"
| call: "completion_step s (s\<lparr>cl_scheduled := False, cl_bh := Called\<rparr>)" if "cl_scheduled s" and "cl_bh s = Idle"
| move: "completion_step s (slist_move_atomic s)" if "cl_bh s = Called"
| reverse: "completion_step s (reverse_round p q s)" if "cl_bh s = Reversing p q"
| complete: "completion_step s (complete_round q s)" if "cl_bh s = Completing q"

abbreviation completions_reach :: "completion \<Rightarrow> bool" where
  "completions_reach \<equiv> reach ((=) no_completions) completion_step"

section \<open>The invariant\<close>

primrec chain :: "(nat \<Rightarrow> nat option) \<Rightarrow> nat option \<Rightarrow> nat list \<Rightarrow> bool" where
  "chain nx p [] \<longleftrightarrow> p = None"
| "chain nx p (x # xs) \<longleftrightarrow> p = Some x \<and> chain nx (nx x) xs"

fun reversed_list :: "completion_bh \<Rightarrow> nat option" where
  "reversed_list (Reversing p q) = p"
| "reversed_list _ = None"

fun bio_list :: "completion_bh \<Rightarrow> nat option" where
  "bio_list (Reversing p q) = q"
| "bio_list (Completing q) = q"
| "bio_list _ = None"

text \<open>The three lists, and the threads that are about to put a request on the first.\<close>

definition lists_ok :: "nat list \<Rightarrow> nat list \<Rightarrow> nat list \<Rightarrow> completion \<Rightarrow> bool" where
  "lists_ok ps rs ls s \<longleftrightarrow> chain (cl_next s) (cl_first s) ps \<and> chain (cl_next s) (reversed_list (cl_bh s)) rs \<and>
     chain (cl_next s) (bio_list (cl_bh s)) ls \<and> distinct (ps @ rs @ ls) \<and>
     cl_inserted s = cl_completed s @ rev rs @ ls @ rev ps"

definition threads_ok :: "completion \<Rightarrow> bool" where
  "threads_ok s \<longleftrightarrow>
     (\<forall>t b old. cl_thread s t = Loaded b old \<longrightarrow> cl_next s b = old) \<and>
     (\<forall>t b. inserting (cl_thread s t) = Some b \<longrightarrow> count_list (cl_inserted s) b = count_list (cl_completed s) b) \<and>
     (\<forall>t u b. inserting (cl_thread s t) = Some b \<and> inserting (cl_thread s u) = Some b \<longrightarrow> t = u)"

definition wake_ok :: "completion \<Rightarrow> bool" where
  "wake_ok s \<longleftrightarrow> cl_first s \<noteq> None \<longrightarrow> cl_scheduled s \<or> cl_bh s = Called \<or> (\<exists>t. cl_thread s t = Inserted None)"

definition completion_inv :: "completion \<Rightarrow> bool" where
  "completion_inv s \<longleftrightarrow> (\<exists>ps rs ls. lists_ok ps rs ls s) \<and> threads_ok s \<and> wake_ok s"

lemma chain_upd: "b \<notin> set xs \<Longrightarrow> chain (nx(b := v)) p xs = chain nx p xs"
  by (induction xs arbitrary: p) auto

lemma chain_None: "chain nx None xs \<longleftrightarrow> xs = []"
  by (cases xs) auto

lemma chain_Some: "chain nx (Some x) xs \<longleftrightarrow> (\<exists>ys. xs = x # ys \<and> chain nx (nx x) ys)"
  by (cases xs) auto

lemma waiting_counts:
  assumes "lists_ok ps rs ls s" and "count_list (cl_inserted s) b = count_list (cl_completed s) b"
  shows "b \<notin> set ps" and "b \<notin> set rs" and "b \<notin> set ls"
  using assms by (auto simp: lists_ok_def count_list_0_iff)

lemmas completion_defs = insert_load_def insert_cmpxchg_def complete_bio_finish_def slist_move_atomic_def
  reverse_round_def complete_round_def set_thread_def atomic_cmpxchg_def atomic_xchg_def

lemma threads_okD:
  assumes "threads_ok s"
  shows "inserting (cl_thread s t) = Some b \<Longrightarrow> count_list (cl_inserted s) b = count_list (cl_completed s) b"
    and "cl_thread s t = Loaded b old \<Longrightarrow> cl_next s b = old"
    and "inserting (cl_thread s t) = Some b \<Longrightarrow> inserting (cl_thread s u) = Some b \<Longrightarrow> t = u"
  using assms unfolding threads_ok_def by blast+

lemma step_lists:
  assumes "completion_step s s'" and l: "lists_ok ps rs ls s" and t: "threads_ok s"
  shows "\<exists>ps rs ls. lists_ok ps rs ls s'"
  using assms(1)
proof cases
  case (load t b)
  have "count_list (cl_inserted s) b = count_list (cl_completed s) b" using threads_okD(1) [OF t, of t b] load(2) by simp
  note n = waiting_counts [OF l this]
  have "lists_ok ps rs ls s'" using l n by (simp add: load(1) completion_defs lists_ok_def chain_upd)
  then show ?thesis by blast
next
  case (cmpxchg t b old)
  have "count_list (cl_inserted s) b = count_list (cl_completed s) b" "cl_next s b = old"
    using threads_okD(1) [OF t, of t b] threads_okD(2) [OF t cmpxchg(2)] cmpxchg(2) by simp_all
  note n = waiting_counts [OF l this(1)] this(2)
  have "lists_ok (if cl_first s = old then b # ps else ps) rs ls s'"
    using l n by (auto simp: cmpxchg(1) completion_defs lists_ok_def)
  then show ?thesis by blast
next
  case move
  then have "rs = []" "ls = []" using l by (simp_all add: lists_ok_def chain_None)
  then have "lists_ok [] ps [] s'" using l by (simp add: move(1) completion_defs lists_ok_def)
  then show ?thesis by blast
next
  case (reverse p q)
  show ?thesis
  proof (cases p)
    case None
    then have "rs = []" using l reverse(2) by (simp add: lists_ok_def chain_None)
    then have "lists_ok ps [] ls s'" using l reverse None by (simp add: completion_defs lists_ok_def)
    then show ?thesis by blast
  next
    case (Some b)
    then obtain rs' where rs': "rs = b # rs'" using l reverse(2) by (auto simp: lists_ok_def chain_Some)
    then have "lists_ok ps rs' (b # ls) s'" using l reverse Some by (simp add: completion_defs lists_ok_def chain_upd)
    then show ?thesis by blast
  qed
next
  case (complete q)
  show ?thesis
  proof (cases q)
    case None
    then have "ls = []" using l complete(2) by (simp add: lists_ok_def chain_None)
    then have "lists_ok ps rs [] s'" using l complete None by (simp add: completion_defs lists_ok_def)
    then show ?thesis by blast
  next
    case (Some b)
    then obtain ls' where "ls = b # ls'" using l complete(2) by (auto simp: lists_ok_def chain_Some)
    moreover have "rs = []" using l complete(2) by (simp add: lists_ok_def chain_None)
    ultimately have "lists_ok ps [] ls' s'" using l complete Some by (simp add: completion_defs lists_ok_def)
    then show ?thesis by blast
  qed
qed (use l in \<open>auto simp: completion_defs lists_ok_def chain_None\<close>)

lemma step_threads:
  assumes "completion_step s s'" and l: "lists_ok ps rs ls s" and t: "threads_ok s"
  shows "threads_ok s'"
  using assms(1)
proof cases
  case (start t b)
  then show ?thesis using assms(3) unfolding threads_ok_def by (auto simp: set_thread_def)
next
  case (load t b)
  have "cl_next s c = old \<and> c \<noteq> b" if "cl_thread s u = Loaded c old" "u \<noteq> t" for u c old
    using threads_okD(2) [OF assms(3) that(1)] threads_okD(3) [OF assms(3), of u b t] that load(2) by auto
  moreover have "inserting (cl_thread s t) = Some b" using load(2) by simp
  ultimately show ?thesis using assms(3) unfolding threads_ok_def load(1) completion_defs
    by (simp add: all_conj_distrib) metis
next
  case (cmpxchg t b old)
  have "count_list (cl_inserted s @ [b]) c = count_list (cl_completed s) c" if "inserting (cl_thread s u) = Some c" "u \<noteq> t" for u c
    using threads_okD(1) [OF assms(3) that(1)] threads_okD(3) [OF assms(3), of u b t] that cmpxchg(2) by auto
  moreover have "inserting (cl_thread s t) = Some b" using cmpxchg(2) by simp
  ultimately show ?thesis using assms(3) unfolding threads_ok_def cmpxchg(1) completion_defs
    by (simp add: all_conj_distrib) metis
next
  case (finish t old)
  then show ?thesis using assms(3) unfolding threads_ok_def by (auto simp: completion_defs)
next
  case (reverse p q)
  have "cl_next s c = old \<and> p \<noteq> Some c" if "cl_thread s u = Loaded c old" for u c old
  proof -
    have "count_list (cl_inserted s) c = count_list (cl_completed s) c" using threads_okD(1) [OF t, of u c] that by simp
    from waiting_counts(2) [OF l this] have "p \<noteq> Some c" using l reverse(2) by (auto simp: lists_ok_def chain_Some)
    then show ?thesis using threads_okD(2) [OF t that] by simp
  qed
  then show ?thesis using t unfolding threads_ok_def reverse(1) completion_defs by (auto split: option.split)
next
  case (complete q)
  have "q \<noteq> Some c" if "inserting (cl_thread s u) = Some c" for u c
  proof -
    have "count_list (cl_inserted s) c = count_list (cl_completed s) c" using threads_okD(1) [OF t that] .
    from waiting_counts(3) [OF l this] show ?thesis using l complete(2) by (auto simp: lists_ok_def chain_Some)
  qed
  then show ?thesis using t unfolding threads_ok_def complete(1) completion_defs by (auto split: option.split)
qed (use t in \<open>auto simp: completion_defs threads_ok_def\<close>)

lemma wake_set_thread:
  assumes "wake_ok s" and "cl_thread s t \<noteq> Inserted None"
  shows "wake_ok (set_thread t c s)"
proof (cases "\<exists>u. cl_thread s u = Inserted None")
  case True
  then obtain u where "cl_thread s u = Inserted None" by blast
  then have "cl_thread (set_thread t c s) u = Inserted None" using assms(2) by (auto simp: set_thread_def)
  then show ?thesis by (auto simp: wake_ok_def)
next
  case False
  then show ?thesis using assms(1) by (auto simp: wake_ok_def set_thread_def)
qed

lemma step_wake:
  assumes "completion_step s s'" and w: "wake_ok s"
  shows "wake_ok s'"
  using assms(1)
proof cases
  case (start t b)
  then show ?thesis using wake_set_thread [OF w] by simp
next
  case (load t b)
  have "wake_ok (s\<lparr>cl_next := nx\<rparr>)" for nx using w by (simp add: wake_ok_def)
  from wake_set_thread [OF this] load show ?thesis by (simp add: insert_load_def)
next
  case (cmpxchg t b old)
  show ?thesis
  proof (cases "cl_first s = old")
    case False
    then show ?thesis using cmpxchg wake_set_thread [OF w] by (simp add: insert_cmpxchg_def atomic_cmpxchg_def)
  next
    case True
    let ?s = "s\<lparr>cl_first := Some b, cl_inserted := cl_inserted s @ [b]\<rparr>"
    have s': "s' = set_thread t (Inserted old) ?s" using cmpxchg True by (simp add: insert_cmpxchg_def atomic_cmpxchg_def)
    show ?thesis
    proof (cases old)
      case None
      then have "cl_thread s' t = Inserted None" by (simp add: s' set_thread_def)
      then show ?thesis by (auto simp: wake_ok_def)
    next
      case (Some a)
      then have "wake_ok ?s" using w True by (auto simp: wake_ok_def)
      from wake_set_thread [OF this] show ?thesis using cmpxchg(2) by (simp add: s')
    qed
  qed
next
  case (finish t old)
  have "wake_ok (s\<lparr>cl_scheduled := True\<rparr>)" by (simp add: wake_ok_def)
  then show ?thesis
    using wake_set_thread [OF w, of t Out] finish by (cases old) (simp_all add: complete_bio_finish_def, auto simp: wake_ok_def set_thread_def)
qed (use w in \<open>auto simp: completion_defs wake_ok_def split: option.split\<close>)

interpretation completions: inductive_invariant "(=) no_completions" completion_step completion_inv
proof
  show "completion_inv s" if "no_completions = s" for s
    using that by (auto simp: completion_inv_def lists_ok_def threads_ok_def wake_ok_def no_completions_def)
  show "completion_inv s'" if "completion_inv s" "completion_step s s'" for s s'
    using that step_lists step_threads step_wake unfolding completion_inv_def by metis
qed

section \<open>Properties\<close>

text \<open>A run: thread 3 has put request 5 on the list.\<close>

definition demo_insert :: completion where
  "demo_insert = no_completions\<lparr>cl_first := Some 5, cl_thread := (cl_thread no_completions)(3 := Inserted None), cl_inserted := [5]\<rparr>"

lemma demo_insert_reach: "completions_reach demo_insert"
proof -
  let ?s1 = "set_thread 3 (Insert 5) no_completions"
  have "completions_reach no_completions" by (rule reach_start [of "(=) no_completions", OF refl])
  then have "completions_reach ?s1" by (rule reach_step) (rule start; simp add: no_completions_def)
  then have "completions_reach (insert_load 3 5 ?s1)" by (rule reach_step) (rule load; simp add: set_thread_def)
  then have "completions_reach (insert_cmpxchg 3 5 None (insert_load 3 5 ?s1))"
    by (rule reach_step) (rule cmpxchg; simp add: completion_defs no_completions_def)
  moreover have "insert_cmpxchg 3 5 None (insert_load 3 5 ?s1) = demo_insert"
    by (simp add: completion_defs no_completions_def demo_insert_def fun_eq_iff)
  ultimately show ?thesis by simp
qed

text \<open>
  C7: the lock-free list of completed requests is a queue. In every interleaving of threads that
  complete requests with the bottom half that reaps them, the links form three separate lists,
  the shared one and the two of the bottom half, which together hold exactly the requests that
  were completed and not yet reaped, and the requests are reaped in the order in which they
  were put on the shared list: none is lost, repeated or overtaken.
\<close>

theorem completion_list_is_queue:
  assumes "completions_reach s"
  shows "\<exists>ps rs ls. chain (cl_next s) (cl_first s) ps \<and> chain (cl_next s) (reversed_list (cl_bh s)) rs \<and>
    chain (cl_next s) (bio_list (cl_bh s)) ls \<and> distinct (ps @ rs @ ls) \<and> cl_inserted s = cl_completed s @ rev rs @ ls @ rev ps"
  using completions.reach_inv [OF assms] by (simp add: completion_inv_def lists_ok_def)

theorem completion_list_is_queue_witness:
  "\<exists>ps. chain (cl_next demo_insert) (cl_first demo_insert) ps \<and> set ps = {5}"
proof -
  obtain ps rs ls where "chain (cl_next demo_insert) (cl_first demo_insert) ps" "cl_inserted demo_insert = cl_completed demo_insert @ rev rs @ ls @ rev ps"
    "chain (cl_next demo_insert) (reversed_list (cl_bh demo_insert)) rs" "chain (cl_next demo_insert) (bio_list (cl_bh demo_insert)) ls"
    using completion_list_is_queue [OF demo_insert_reach] by blast
  then have "chain (cl_next demo_insert) (cl_first demo_insert) ps" "ps = [5]"
    by (auto simp: demo_insert_def no_completions_def chain_None)
  then have "chain (cl_next demo_insert) (cl_first demo_insert) [5] \<and> set [5] = {5 :: nat}" by simp
  then show ?thesis by blast
qed

text \<open>
  C13: no completion is forgotten, although only the thread that finds the list empty schedules
  the bottom half. While there is a request on the list, the bottom half is scheduled, is
  about to take the list, or will be scheduled by a thread that has put a request there; when
  every thread is done and the bottom half neither runs nor is scheduled, every request has been
  reaped.
\<close>

theorem no_lost_completion:
  assumes "completions_reach s"
  shows "(cl_first s \<noteq> None \<longrightarrow> cl_scheduled s \<or> cl_bh s = Called \<or> (\<exists>t. cl_thread s t = Inserted None)) \<and>
    ((\<forall>t. cl_thread s t = Out) \<and> cl_bh s = Idle \<and> \<not> cl_scheduled s \<longrightarrow> cl_completed s = cl_inserted s)"
proof
  have inv: "completion_inv s" by (rule completions.reach_inv [OF assms])
  then show w: "cl_first s \<noteq> None \<longrightarrow> cl_scheduled s \<or> cl_bh s = Called \<or> (\<exists>t. cl_thread s t = Inserted None)"
    by (simp add: completion_inv_def wake_ok_def)
  show "(\<forall>t. cl_thread s t = Out) \<and> cl_bh s = Idle \<and> \<not> cl_scheduled s \<longrightarrow> cl_completed s = cl_inserted s"
  proof
    assume q: "(\<forall>t. cl_thread s t = Out) \<and> cl_bh s = Idle \<and> \<not> cl_scheduled s"
    then have "cl_first s = None" using w by auto
    then show "cl_completed s = cl_inserted s" using inv q by (auto simp: completion_inv_def lists_ok_def chain_None)
  qed
qed

theorem no_lost_completion_witness:
  "cl_first demo_insert = Some 5 \<and> (cl_scheduled demo_insert \<or> cl_bh demo_insert = Called \<or> (\<exists>t. cl_thread demo_insert t = Inserted None))"
proof -
  have "cl_first demo_insert = Some 5" by (simp add: demo_insert_def)
  then show ?thesis using no_lost_completion [OF demo_insert_reach] by simp
qed

end
