(* ===== verification/Work.thy ===== *)
theory Work
  imports Event
begin

text \<open>
  Handing work to an event loop and waiting for it (\<open>vhd_submit_work_and_wait\<close>,
  \<open>vhd_complete_work\<close> of \<open>event.c\<close>). The work is an object on the stack of the submitter, which
  the loop's thread writes to; a semaphore in it orders the two threads. The model is the steps
  of the two threads on that object.
\<close>

section \<open>Threads\<close>

text \<open>
  The submitter: before the call, waiting for the semaphore, woken, returned with a value.
\<close>

datatype submitter = Submitting | Waiting | Woken | Returned int

text \<open>
  The loop: the bottom half not scheduled; scheduled; in the function of the work or, if the
  function has left the work to be completed later, before that; in \<open>vhd_complete_work\<close> with the
  result stored; past \<open>sem_post\<close>.
\<close>

datatype worker = Absent | Scheduled | Running | Stored int | Posted int

record vhd_work =
  wk_ret :: int
  wk_wait :: nat

text \<open>The work is \<open>None\<close> while there is no such object on the stack.\<close>

record work_state =
  ws_work :: "vhd_work option"
  ws_submitter :: submitter
  ws_worker :: worker

definition before_work :: work_state where
  "before_work = \<lparr>ws_work = None, ws_submitter = Submitting, ws_worker = Absent\<rparr>"

text \<open>
  The call up to the wait, with the result of \<open>sem_init\<close>; submitting to the own loop fails an
  assertion.
\<close>

definition submit_work :: "home_evloop \<Rightarrow> status \<Rightarrow> work_state \<Rightarrow> work_state option" where
  "submit_work home sem_init_res s =
     (if home = ThisLoop then None
      else case sem_init_res of
             Inl e \<Rightarrow> Some (s\<lparr>ws_submitter := Returned (- int (errno_code e))\<rparr>)
           | Inr _ \<Rightarrow> Some (s\<lparr>ws_work := Some \<lparr>wk_ret = 0, wk_wait = 0\<rparr>, ws_worker := Scheduled, ws_submitter := Waiting\<rparr>))"

text \<open>
  One round of the wait, with the result of \<open>sem_wait\<close>. A wait that succeeds takes one from the
  semaphore; a failure other than an interruption ends the call.
\<close>

definition sem_wait_round :: "status \<Rightarrow> work_state \<Rightarrow> work_state option" where
  "sem_wait_round res s =
     (case res of
        Inl e \<Rightarrow> if e = EINTR then Some s else Some (s\<lparr>ws_work := None, ws_submitter := Returned (- int (errno_code e))\<rparr>)
      | Inr _ \<Rightarrow>
          (case ws_work s of
             None \<Rightarrow> None
           | Some w \<Rightarrow> if wk_wait w = 0 then None
                       else Some (s\<lparr>ws_work := Some (w\<lparr>wk_wait := wk_wait w - 1\<rparr>), ws_submitter := Woken\<rparr>)))"

definition submit_return :: "work_state \<Rightarrow> work_state option" where
  "submit_return s = map_option (\<lambda>w. s\<lparr>ws_work := None, ws_submitter := Returned (wk_ret w)\<rparr>) (ws_work s)"

text \<open>The loop's side. An access to the work after it is gone is \<open>None\<close>.\<close>

definition work_bh :: "work_state \<Rightarrow> work_state option" where
  "work_bh s = map_option (\<lambda>w. s\<lparr>ws_worker := Running\<rparr>) (ws_work s)"

definition complete_work_store :: "int \<Rightarrow> work_state \<Rightarrow> work_state option" where
  "complete_work_store ret s =
     map_option (\<lambda>w. s\<lparr>ws_work := Some (w\<lparr>wk_ret := ret\<rparr>), ws_worker := Stored ret\<rparr>) (ws_work s)"

definition complete_work_post :: "status \<Rightarrow> int \<Rightarrow> work_state \<Rightarrow> work_state option" where
  "complete_work_post res ret s =
     map_option (\<lambda>w. case res of
         Inl _ \<Rightarrow> s\<lparr>ws_worker := Posted ret\<rparr>
       | Inr _ \<Rightarrow> s\<lparr>ws_work := Some (w\<lparr>wk_wait := wk_wait w + 1\<rparr>), ws_worker := Posted ret\<rparr>) (ws_work s)"

lemmas work_defs = submit_work_def sem_wait_round_def submit_return_def work_bh_def complete_work_store_def complete_work_post_def

text \<open>
  What a thread can do next. On a valid semaphore \<open>sem_wait\<close> fails only when it is interrupted and
  \<open>sem_post\<close> only when the count overflows, which a count of one does not; these are the results
  that the events have.
\<close>

datatype work_event = Submit status | Wait bool | Return | RunBh | Store int | Post

fun work_ready :: "work_event \<Rightarrow> work_state \<Rightarrow> bool" where
  "work_ready (Submit res) s = (ws_submitter s = Submitting)"
| "work_ready (Wait interrupted) s =
     (ws_submitter s = Waiting \<and> (interrupted \<or> (case ws_work s of None \<Rightarrow> True | Some w \<Rightarrow> wk_wait w \<noteq> 0)))"
| "work_ready Return s = (ws_submitter s = Woken)"
| "work_ready RunBh s = (ws_worker s = Scheduled)"
| "work_ready (Store ret) s = (ws_worker s = Running)"
| "work_ready Post s = (\<exists>ret. ws_worker s = Stored ret)"

fun work_perform :: "work_event \<Rightarrow> work_state \<Rightarrow> work_state option" where
  "work_perform (Submit res) s = submit_work NoHome res s"
| "work_perform (Wait interrupted) s = sem_wait_round (if interrupted then Inl EINTR else OK) s"
| "work_perform Return s = submit_return s"
| "work_perform RunBh s = work_bh s"
| "work_perform (Store ret) s = complete_work_store ret s"
| "work_perform Post s = (case ws_worker s of Stored ret \<Rightarrow> complete_work_post OK ret s | _ \<Rightarrow> None)"

inductive work_step :: "work_state \<Rightarrow> work_state \<Rightarrow> bool" where
  work_step: "work_step s s'" if "work_ready ev s" and "work_perform ev s = Some s'"

section \<open>The invariant\<close>

definition work_inv :: "work_state \<Rightarrow> bool" where
  "work_inv s \<longleftrightarrow>
     (case ws_submitter s of
        Submitting \<Rightarrow> ws_work s = None \<and> ws_worker s = Absent
      | Waiting \<Rightarrow>
          (\<exists>w. ws_work s = Some w \<and>
             (case ws_worker s of
                Absent \<Rightarrow> False
              | Scheduled \<Rightarrow> wk_wait w = 0
              | Running \<Rightarrow> wk_wait w = 0
              | Stored r \<Rightarrow> wk_wait w = 0 \<and> wk_ret w = r
              | Posted r \<Rightarrow> wk_wait w = 1 \<and> wk_ret w = r))
      | Woken \<Rightarrow> (\<exists>w. ws_work s = Some w \<and> ws_worker s = Posted (wk_ret w))
      | Returned r \<Rightarrow> ws_work s = None \<and> (ws_worker s = Posted r \<or> ws_worker s = Absent \<and> r < 0))"

lemma work_event_ok:
  assumes "work_inv s" and "work_ready ev s"
  shows "\<exists>s'. work_perform ev s = Some s' \<and> work_inv s'"
  using assms
  by (cases ev; cases "ws_submitter s"; cases "ws_worker s"; cases "ws_work s")
    (auto simp: work_inv_def work_defs split: sum.split)

interpretation work: inductive_invariant "(=) before_work" work_step work_inv
proof
  show "work_inv s" if "before_work = s" for s using that by (auto simp: work_inv_def before_work_def)
  show "work_inv s'" if "work_inv s" "work_step s s'" for s s'
    using that work_event_ok by (fastforce elim!: work_step.cases)
qed

section \<open>Properties\<close>

lemma demo_work_reach: "reach ((=) before_work) work_step \<lparr>ws_work = Some \<lparr>wk_ret = 0, wk_wait = 0\<rparr>, ws_submitter = Waiting, ws_worker = Scheduled\<rparr>"
  by (rule reach_step [OF reach_start [of "(=) before_work", OF refl]], rule work_step [of "Submit OK"])
    (simp_all add: before_work_def submit_work_def)

text \<open>
  C21: work handed to a loop comes back right. In every interleaving of the submitter with the
  loop, interrupted waits included, neither thread touches the work after it has left the
  submitter's stack; a call that returns without an error of its own returns the value that the
  work was completed with, after it was completed; and once the work is completed the
  submitter's wait does not block.
\<close>

theorem submitted_work_returns:
  assumes "reach ((=) before_work) work_step s"
  shows "(\<forall>ev. work_ready ev s \<longrightarrow> work_perform ev s \<noteq> None) \<and>
    (\<forall>r. ws_submitter s = Returned r \<and> ws_worker s \<noteq> Absent \<longrightarrow> ws_worker s = Posted r) \<and>
    (\<forall>r. ws_worker s = Posted r \<and> ws_submitter s = Waiting \<longrightarrow> work_ready (Wait False) s)"
proof (intro conjI allI impI)
  have inv: "work_inv s" by (rule work.reach_inv [OF assms])
  show "work_perform ev s \<noteq> None" if "work_ready ev s" for ev using work_event_ok [OF inv that] by auto
  show "ws_worker s = Posted r" if "ws_submitter s = Returned r \<and> ws_worker s \<noteq> Absent" for r
    using inv that by (auto simp: work_inv_def)
  show "work_ready (Wait False) s" if "ws_worker s = Posted r \<and> ws_submitter s = Waiting" for r
    using inv that by (auto simp: work_inv_def)
qed

theorem submitted_work_returns_witness:
  "work_perform RunBh \<lparr>ws_work = Some \<lparr>wk_ret = 0, wk_wait = 0\<rparr>, ws_submitter = Waiting, ws_worker = Scheduled\<rparr> \<noteq> None"
  using submitted_work_returns [OF demo_work_reach] by (metis select_convs(3) work_ready.simps(4))

end
