(* ===== verification/Virtq_Inflight.thy ===== *)
theory Virtq_Inflight
  imports Virtq_Push
begin

text \<open>
  The inflight region across crashes. The device records in shared memory which requests it has
  taken and not completed. Whatever store of \<open>virtq_push\<close> or of
  \<open>virtq_inflight_avail_update\<close> the process dies at, the next one recovers exactly the
  outstanding requests, in the order they were taken.
\<close>

section \<open>What the region records\<close>

text \<open>
  \<open>out\<close> is the list of outstanding heads, oldest first; \<open>cnt\<close> bounds the counters.
\<close>

definition inflight_inv :: "inflight_split_region \<Rightarrow> u16 list \<Rightarrow> u64 \<Rightarrow> bool" where
  "inflight_inv r out cnt \<longleftrightarrow>
     distinct out \<and> (\<forall>x \<in> set out. x < isr_desc_num r) \<and>
     (\<forall>x < isr_desc_num r. isd_inflight (isr_desc r (unat x)) \<noteq> 0 \<longleftrightarrow> x \<in> set out) \<and>
     sorted_wrt (<) (map (\<lambda>x. isd_counter (isr_desc r (unat x))) out) \<and>
     (\<forall>x \<in> set out. 0 < isd_counter (isr_desc r (unat x))) \<and>
     (\<forall>x < isr_desc_num r. isd_counter (isr_desc r (unat x)) < cnt)"

lemma inflight_heads_eq:
  assumes inv: "inflight_inv r out cnt"
  shows "inflight_heads r = out"
proof -
  let ?c = "\<lambda>x. isd_counter (isr_desc r (unat x))"
  let ?is = "filter (\<lambda>i. isd_inflight (isr_desc r i) \<noteq> 0) [0..<unat (isr_desc_num r)]"
  let ?arr = "map (\<lambda>i. (isd_counter (isr_desc r i), word_of_nat i :: u16)) ?is"
  have small: "i < 2 ^ 16" if "i \<in> set ?is" for i
    using that unat_less_16 [of "isr_desc_num r"] by auto
  have arr: "?arr = map (\<lambda>x. (?c x, x)) (map word_of_nat ?is)"
    using small by (simp add: unat_of_nat_16)
  have inj: "inj_on (word_of_nat :: nat \<Rightarrow> u16) (set ?is)"
    by (rule inj_onI) (metis small unat_of_nat_16)
  have "set (map word_of_nat ?is) = set out"
  proof (intro set_eqI iffI)
    fix x :: u16 assume "x \<in> set (map word_of_nat ?is)"
    then obtain i where i: "i \<in> set ?is" "x = word_of_nat i" by auto
    then have "unat x = i" using small by (simp add: unat_of_nat_16)
    then show "x \<in> set out" using i(1) inv by (auto simp: inflight_inv_def word_less_nat_alt)
  next
    fix x assume "x \<in> set out"
    then have "unat x \<in> set ?is" using inv by (auto simp: inflight_inv_def word_less_nat_alt)
    then show "x \<in> set (map word_of_nat ?is)" by force
  qed
  moreover have "distinct (map word_of_nat ?is :: u16 list)" "distinct out"
    using inj inv by (simp_all add: distinct_map inflight_inv_def)
  ultimately have "mset (map word_of_nat ?is) = mset out" by (simp only: set_eq_iff_mset_eq_distinct)
  then have "mset ?arr = mset (map (\<lambda>x. (?c x, x)) out)" unfolding arr by (metis mset_map)
  moreover have sorted: "sorted_wrt (<) (map fst (map (\<lambda>x. (?c x, x)) out))"
    using inv by (simp add: inflight_inv_def comp_def)
  moreover have "inj_on fst (set ?arr)"
  proof -
    have "distinct (map fst (map (\<lambda>x. (?c x, x)) out))"
      using sorted by (simp add: strict_sorted_iff)
    then have "inj_on fst (set (map (\<lambda>x. (?c x, x)) out))" unfolding distinct_map by blast
    then show ?thesis unfolding mset_eq_setD [OF calculation(1)] .
  qed
  ultimately have "sort_key fst ?arr = map (\<lambda>x. (?c x, x)) out"
    by (intro sort_key_inj_key_eq) (simp_all add: strict_sorted_imp_sorted)
  then show ?thesis by (simp add: inflight_heads_def Let_def comp_def)
qed

section \<open>The operations keep the record\<close>

lemma inflight_inv_mono: "inflight_inv r out cnt \<Longrightarrow> cnt \<le> cnt' \<Longrightarrow> inflight_inv r out cnt'"
  by (auto simp: inflight_inv_def intro: order_less_le_trans)

lemma counters_elsewhere:
  "head \<notin> set out \<Longrightarrow> map (\<lambda>x. if x = head then c else f x) out = map f out"
  by auto

text \<open>The stores of taking a request: first its counter, then its flag.\<close>

lemma inflight_inv_counter:
  assumes "inflight_inv r out cnt" and "head \<notin> set out" and "cnt < cnt + 1"
  shows "inflight_inv (upd_desc head (isd_counter_update (\<lambda>_. cnt)) r) out (cnt + 1)"
proof -
  let ?r = "upd_desc head (isd_counter_update (\<lambda>_. cnt)) r"
  have "isd_counter (isr_desc ?r (unat x)) = (if x = head then cnt else isd_counter (isr_desc r (unat x)))"
    "isd_inflight (isr_desc ?r (unat x)) = isd_inflight (isr_desc r (unat x))" for x
    by (auto simp: upd_desc_def word_unat_eq_iff)
  moreover have "sorted_wrt (<) (map (\<lambda>x. if x = head then cnt else isd_counter (isr_desc r (unat x))) out)"
    unfolding counters_elsewhere [OF assms(2)] using assms(1) by (simp add: inflight_inv_def)
  moreover have "isr_desc_num ?r = isr_desc_num r" by (simp add: upd_desc_def)
  ultimately show ?thesis using assms by (auto simp: inflight_inv_def intro: order_less_trans)
qed

lemma inflight_inv_take:
  assumes "inflight_inv r out cnt" and "head \<notin> set out" and "cnt < cnt + 1" and "0 < cnt"
    and "head < isr_desc_num r"
  shows "inflight_inv (upd_desc head (isd_inflight_update (\<lambda>_. 1))
    (upd_desc head (isd_counter_update (\<lambda>_. cnt)) r)) (out @ [head]) (cnt + 1)"
proof -
  let ?r = "upd_desc head (isd_inflight_update (\<lambda>_. 1)) (upd_desc head (isd_counter_update (\<lambda>_. cnt)) r)"
  have c: "isd_counter (isr_desc ?r (unat x)) = (if x = head then cnt else isd_counter (isr_desc r (unat x)))"
    "isd_inflight (isr_desc ?r (unat x)) = (if x = head then 1 else isd_inflight (isr_desc r (unat x)))" for x
    by (auto simp: upd_desc_def word_unat_eq_iff)
  moreover have "sorted_wrt (<) (map (\<lambda>x. if x = head then cnt else isd_counter (isr_desc r (unat x))) out)"
    unfolding counters_elsewhere [OF assms(2)] using assms(1) by (simp add: inflight_inv_def)
  moreover have "isr_desc_num ?r = isr_desc_num r" by (simp add: upd_desc_def)
  ultimately show ?thesis
    using assms by (auto simp: inflight_inv_def sorted_wrt_append intro: order_less_trans)
qed

text \<open>Links and the batch head do not matter to the record; clearing a flag removes the request.\<close>

lemma inflight_inv_cong:
  assumes "isr_desc_num r' = isr_desc_num r"
    and "\<And>x. isd_inflight (isr_desc r' x) = isd_inflight (isr_desc r x)"
    and "\<And>x. isd_counter (isr_desc r' x) = isd_counter (isr_desc r x)"
  shows "inflight_inv r' out cnt = inflight_inv r out cnt"
  by (simp add: inflight_inv_def assms)

lemma sorted_wrt_remove1_map: "sorted_wrt P (map f xs) \<Longrightarrow> sorted_wrt P (map f (remove1 x xs))"
proof (induction xs)
  case (Cons y ys)
  then show ?case using set_remove1_subset [of x ys] by auto
qed simp

lemma inflight_inv_clear:
  assumes "inflight_inv r out cnt"
  shows "inflight_inv (upd_desc head (isd_inflight_update (\<lambda>_. 0)) r) (remove1 head out) cnt"
proof -
  let ?r = "upd_desc head (isd_inflight_update (\<lambda>_. 0)) r"
  have "isd_counter (isr_desc ?r (unat x)) = isd_counter (isr_desc r (unat x))"
    "isd_inflight (isr_desc ?r (unat x)) = (if x = head then 0 else isd_inflight (isr_desc r (unat x)))" for x
    by (auto simp: upd_desc_def word_unat_eq_iff)
  moreover have "isr_desc_num ?r = isr_desc_num r" by (simp add: upd_desc_def)
  moreover have "set (remove1 head out) = set out - {head}" "distinct (remove1 head out)"
    using assms by (simp_all add: inflight_inv_def)
  ultimately show ?thesis
    using assms sorted_wrt_remove1_map [of "(<)" "\<lambda>x. isd_counter (isr_desc r (unat x))" out head]
    by (auto simp: inflight_inv_def)
qed

section \<open>Recovery\<close>

lemma max_counter_Max:
  "max_counter r = Max (insert 0 ((\<lambda>i. isd_counter (isr_desc r i)) ` {0..<unat (isr_desc_num r)}))"
proof -
  let ?f = "\<lambda>i. isd_counter (isr_desc r i)" and ?xs = "[0..<unat (isr_desc_num r)]"
  have "(\<lambda>i c. if ?f i > c then ?f i else c) = (\<lambda>i. max (?f i))" by (auto simp: max_def fun_eq_iff)
  then have "max_counter r = fold max (map ?f ?xs) 0"
    unfolding max_counter_def by (simp add: fold_map comp_def)
  also have "\<dots> = Max (set (0 # map ?f ?xs))" by (rule Max.set_eq_fold [symmetric])
  finally show ?thesis by simp
qed

lemma max_counter_ge: "x < isr_desc_num r \<Longrightarrow> isd_counter (isr_desc r (unat x)) \<le> max_counter r"
  unfolding max_counter_Max by (rule Max_ge) (auto simp: word_less_nat_alt)

lemma max_counter_less:
  assumes "inflight_inv r out cnt" and "0 < cnt"
  shows "max_counter r < cnt"
proof -
  have "max_counter r = 0 \<or> (\<exists>i < unat (isr_desc_num r). max_counter r = isd_counter (isr_desc r i))"
    using Max_in [of "insert 0 ((\<lambda>i. isd_counter (isr_desc r i)) ` {0..<unat (isr_desc_num r)})"]
    unfolding max_counter_Max by auto
  then show ?thesis
  proof
    assume "\<exists>i < unat (isr_desc_num r). max_counter r = isd_counter (isr_desc r i)"
    then obtain i where i: "i < unat (isr_desc_num r)" "max_counter r = isd_counter (isr_desc r i)" by blast
    then have "unat (word_of_nat i :: u16) = i"
      using unat_less_16 [of "isr_desc_num r"] by (intro unat_of_nat_16) linarith
    moreover from this i(1) have "(word_of_nat i :: u16) < isr_desc_num r" by (simp add: word_less_nat_alt)
    ultimately show ?thesis using i(2) assms(1) unfolding inflight_inv_def by metis
  qed (use assms(2) in simp)
qed

lemma less_succ_64: "x < y \<Longrightarrow> x < x + 1 \<and> x + 1 \<le> y" for x y :: u64
  using unat_add_64 [of x 1] unat_less_64 [of y] by (simp add: word_less_nat_alt word_le_nat_alt)

text \<open>
  The situations a recovery can meet: the region is fresh or its copy of the used index is
  current, or the copy is one behind and the request at the head of the batch is complete but
  may not be marked so.
\<close>

definition recoverable :: "inflight_split_region \<Rightarrow> u16 \<Rightarrow> u16 list \<Rightarrow> bool" where
  "recoverable r idx out \<longleftrightarrow> (\<exists>out0 cnt. 0 < cnt \<and> inflight_inv r out0 cnt \<and>
     ((isr_used_idx r = idx \<or> max_counter r = 0) \<and> out = out0 \<or>
      idx = isr_used_idx r + 1 \<and> max_counter r \<noteq> 0 \<and> out = remove1 (isr_last_batch_head r) out0))"

lemma reconnect_recovers:
  assumes reg: "vq_inflight_region vq \<noteq> 0"
    and rec: "recoverable (m_inflight m (vq_inflight_region vq)) (us_idx (m_used m (vq_used vq))) out"
  obtains m' cnt where "virtq_inflight_reconnect_update vq m = Some (vq\<lparr>vq_req_cnt := cnt\<rparr>, m')" "0 < cnt"
    "inflight_inv (m_inflight m' (vq_inflight_region vq)) out cnt" "m_used m' = m_used m"
    "isr_used_idx (m_inflight m' (vq_inflight_region vq)) = us_idx (m_used m (vq_used vq))"
    "isr_desc_num (m_inflight m' (vq_inflight_region vq)) = isr_desc_num (m_inflight m (vq_inflight_region vq))"
proof -
  let ?r = "m_inflight m (vq_inflight_region vq)" and ?idx = "us_idx (m_used m (vq_used vq))"
  let ?cnt = "max_counter ?r + 1"
  from rec obtain out0 cnt where o: "0 < cnt" "inflight_inv ?r out0 cnt"
    "(isr_used_idx ?r = ?idx \<or> max_counter ?r = 0) \<and> out = out0 \<or>
     ?idx = isr_used_idx ?r + 1 \<and> max_counter ?r \<noteq> 0 \<and> out = remove1 (isr_last_batch_head ?r) out0"
    by (auto simp: recoverable_def)
  have c: "max_counter ?r < ?cnt" using less_succ_64 [OF max_counter_less [OF o(2,1)]] by blast
  have inv: "inflight_inv ?r out0 ?cnt"
    using o(2) max_counter_ge [of _ ?r] c by (auto simp: inflight_inv_def intro: order_le_less_trans)
  define r1 where "r1 = (if isr_used_idx ?r = ?idx \<or> max_counter ?r = 0 then ?r
    else upd_desc (isr_last_batch_head ?r) (isd_inflight_update (\<lambda>_. 0)) ?r)"
  have "virtq_inflight_reconnect_update vq m = Some (vq\<lparr>vq_req_cnt := ?cnt\<rparr>,
      with_inflight vq (\<lambda>_. r1\<lparr>isr_used_idx := ?idx\<rparr>) m)"
    using reg o(3) by (auto simp: virtq_inflight_reconnect_update_def r1_def Let_def)
  moreover have "inflight_inv (r1\<lparr>isr_used_idx := ?idx\<rparr>) out ?cnt"
    using o(3) inv inflight_inv_clear [OF inv] by (auto simp: r1_def inflight_inv_def)
  moreover have "isr_desc_num r1 = isr_desc_num ?r" by (simp add: r1_def upd_desc_def)
  moreover have "0 < ?cnt" using c by (auto intro: order_le_less_trans)
  ultimately show thesis
    using reg that [of ?cnt "with_inflight vq (\<lambda>_. r1\<lparr>isr_used_idx := ?idx\<rparr>) m"]
    by (simp add: with_inflight_def)
qed

lemma init_recovers:
  assumes reg: "vq_inflight_region vq \<noteq> 0" and fresh: "vq_buffers vq = []"
    and rec: "recoverable (m_inflight m (vq_inflight_region vq)) (us_idx (m_used m (vq_used vq))) out"
  obtains vq' m' where "virtio_virtq_init vq m = Some (vq', m')" "0 < vq_req_cnt vq'"
    "vq_inflight_region vq' = vq_inflight_region vq" "vq_used vq' = vq_used vq" "vq_qsz vq' = vq_qsz vq"
    "inflight_inv (m_inflight m' (vq_inflight_region vq)) out (vq_req_cnt vq')" "m_used m' = m_used m"
    "isr_used_idx (m_inflight m' (vq_inflight_region vq)) = us_idx (m_used m (vq_used vq))"
proof -
  let ?vq = "vq\<lparr>vq_max_chain_len := max (vq_qsz vq) WINDOWS_CHAIN_LEN_MAX,
    vq_buffers := replicate (unat (max (vq_qsz vq) WINDOWS_CHAIN_LEN_MAX))
      \<lparr>buf_base = 0, buf_len = 0, buf_write_only = False\<rparr>, vq_inflight_check := True\<rparr>"
  have "vq_inflight_region ?vq \<noteq> 0"
    "recoverable (m_inflight m (vq_inflight_region ?vq)) (us_idx (m_used m (vq_used ?vq))) out"
    using reg rec by simp_all
  then obtain m' cnt where "virtq_inflight_reconnect_update ?vq m = Some (?vq\<lparr>vq_req_cnt := cnt\<rparr>, m')" "0 < cnt"
    "inflight_inv (m_inflight m' (vq_inflight_region ?vq)) out cnt" "m_used m' = m_used m"
    "isr_used_idx (m_inflight m' (vq_inflight_region ?vq)) = us_idx (m_used m (vq_used ?vq))"
    by (rule reconnect_recovers)
  with fresh show thesis
    using that [of "?vq\<lparr>vq_req_cnt := cnt, vq_metrics := zero_metrics, vq_period_start_ts := 0\<rparr>" m']
    by (simp add: virtio_virtq_init_def Let_def)
qed

section \<open>Crashing at any store\<close>

definition take_stores :: "virtio_virtq \<Rightarrow> u16 \<Rightarrow> (machine \<Rightarrow> machine) list" where
  "take_stores vq head =
     [with_inflight vq (upd_desc head (isd_counter_update (\<lambda>_. vq_req_cnt vq))),
      with_inflight vq (upd_desc head (isd_inflight_update (\<lambda>_. 1)))]"

lemma avail_update_stores:
  "vq_inflight_region vq \<noteq> 0 \<Longrightarrow> virtq_inflight_avail_update vq head m =
     (vq\<lparr>vq_req_cnt := vq_req_cnt vq + 1\<rparr>, run_stores (take_stores vq head) m)"
  by (simp add: virtq_inflight_avail_update_def take_stores_def run_stores_def with_inflight_def)

text \<open>The state of a running queue: the record is exact and the copy of the used index current.\<close>

definition qinv :: "virtio_virtq \<times> machine \<times> u16 list \<Rightarrow> bool" where
  "qinv st \<longleftrightarrow> (case st of (vq, m, out) \<Rightarrow>
     (let r = m_inflight m (vq_inflight_region vq) in
      vq_inflight_region vq \<noteq> 0 \<and> vq_qsz vq \<noteq> 0 \<and> 0 < vq_req_cnt vq \<and> inflight_inv r out (vq_req_cnt vq) \<and>
      isr_used_idx r = us_idx (m_used m (vq_used vq))))"

lemma crash_take:
  assumes "qinv (vq, m, out)" and "head \<notin> set out" and "vq_req_cnt vq < vq_req_cnt vq + 1"
    and "head < isr_desc_num (m_inflight m (vq_inflight_region vq))"
    and m'_def: "m' = run_stores (take k (take_stores vq head)) m"
  shows "m_used m' = m_used m" and "recoverable (m_inflight m' (vq_inflight_region vq))
    (us_idx (m_used m' (vq_used vq))) (if k < 2 then out else out @ [head])"
proof -
  let ?r = "m_inflight m (vq_inflight_region vq)" and ?c = "vq_req_cnt vq"
  let ?r1 = "upd_desc head (isd_counter_update (\<lambda>_. ?c)) ?r"
  let ?r2 = "upd_desc head (isd_inflight_update (\<lambda>_. 1)) ?r1"
  from assms(1) have q: "vq_inflight_region vq \<noteq> 0" "0 < ?c" "inflight_inv ?r out ?c"
    "isr_used_idx ?r = us_idx (m_used m (vq_used vq))" by (auto simp: qinv_def Let_def)
  show "m_used m' = m_used m"
    by (cases k; cases "k - 1") (auto simp: m'_def take_stores_def run_stores_def with_inflight_def)
  moreover have reg: "m_inflight m' (vq_inflight_region vq) = (if k = 0 then ?r else if k = 1 then ?r1 else ?r2)"
    using q(1) by (cases k; cases "k - 1") (auto simp: m'_def take_stores_def run_stores_def with_inflight_def)
  moreover have "isr_used_idx ?r1 = isr_used_idx ?r" "isr_used_idx ?r2 = isr_used_idx ?r"
    by (simp_all add: upd_desc_def)
  moreover have "0 < ?c + 1" using q(2) assms(3) by (rule order_less_trans)
  moreover note inflight_inv_counter [OF q(3) assms(2,3)] inflight_inv_take [OF q(3) assms(2,3) q(2) assms(4)]
  ultimately show "recoverable (m_inflight m' (vq_inflight_region vq))
      (us_idx (m_used m' (vq_used vq))) (if k < 2 then out else out @ [head])"
    using q unfolding recoverable_def by auto
qed

text \<open>
  The region and the used ring after the first \<open>k\<close> of the six stores of \<open>virtq_push\<close>.
\<close>

lemma push_prefix:
  assumes reg: "vq_inflight_region vq \<noteq> 0" and k: "k \<le> 6"
    and m'_def: "m' = run_stores (take k (push_stores vq iov len)) m"
  defines "r \<equiv> m_inflight m (vq_inflight_region vq)" and "r' \<equiv> m_inflight m' (vq_inflight_region vq)"
    and "idx \<equiv> us_idx (m_used m (vq_used vq))" and "idx' \<equiv> us_idx (m_used m' (vq_used vq))"
    and "head \<equiv> iov_used_head iov"
  shows "idx' = (if k < 4 then idx else idx + 1)" "isr_used_idx r' = (if k < 6 then isr_used_idx r else idx + 1)"
    "isr_desc_num r' = isr_desc_num r" "3 \<le> k \<Longrightarrow> isr_last_batch_head r' = head"
    "isd_counter (isr_desc r' x) = isd_counter (isr_desc r x)"
    "isd_inflight (isr_desc r' x) = (if 5 \<le> k \<and> x = unat head then 0 else isd_inflight (isr_desc r x))"
proof -
  consider "k = 0" | "k = 1" | "k = 2" | "k = 3" | "k = 4" | "k = 5" | "k = 6" using k by linarith
  then have "idx' = (if k < 4 then idx else idx + 1) \<and>
    isr_used_idx r' = (if k < 6 then isr_used_idx r else idx + 1) \<and> isr_desc_num r' = isr_desc_num r \<and>
    (3 \<le> k \<longrightarrow> isr_last_batch_head r' = head) \<and> isd_counter (isr_desc r' x) = isd_counter (isr_desc r x) \<and>
    isd_inflight (isr_desc r' x) = (if 5 \<le> k \<and> x = unat head then 0 else isd_inflight (isr_desc r x))"
    using reg by cases (simp_all add: m'_def r_def r'_def idx_def idx'_def head_def push_stores_def run_stores_def
        push_elem_def upd_used_def with_inflight_def upd_desc_def Let_def numeral_2_eq_2 numeral_3_eq_3
        take_Cons' )
  then show "idx' = (if k < 4 then idx else idx + 1)" "isr_used_idx r' = (if k < 6 then isr_used_idx r else idx + 1)"
    "isr_desc_num r' = isr_desc_num r" "3 \<le> k \<Longrightarrow> isr_last_batch_head r' = head"
    "isd_counter (isr_desc r' x) = isd_counter (isr_desc r x)"
    "isd_inflight (isr_desc r' x) = (if 5 \<le> k \<and> x = unat head then 0 else isd_inflight (isr_desc r x))"
    by blast+
qed

lemma crash_push:
  assumes inv: "qinv (vq, m, out)" and head: "iov_used_head iov \<in> set out" and k: "k \<le> 6"
    and m': "m' = run_stores (take k (push_stores vq iov len)) m"
  shows "recoverable (m_inflight m' (vq_inflight_region vq)) (us_idx (m_used m' (vq_used vq)))
    (if k < 4 then out else remove1 (iov_used_head iov) out)"
proof -
  let ?r = "m_inflight m (vq_inflight_region vq)" and ?r' = "m_inflight m' (vq_inflight_region vq)"
  let ?h = "iov_used_head iov" and ?c = "vq_req_cnt vq"
  from inv have q: "vq_inflight_region vq \<noteq> 0" "0 < ?c" "inflight_inv ?r out ?c"
    "isr_used_idx ?r = us_idx (m_used m (vq_used vq))" by (auto simp: qinv_def Let_def)
  note p = push_prefix [OF q(1) k m']
  show ?thesis
  proof (cases "5 \<le> k")
    case False
    then have i: "inflight_inv ?r' out ?c" using q(3) p by (subst inflight_inv_cong [of _ ?r]) auto
    have "?h < isr_desc_num ?r'" "0 < isd_counter (isr_desc ?r' (unat ?h))"
      using i head by (auto simp: inflight_inv_def)
    then have "max_counter ?r' \<noteq> 0" using max_counter_ge [of ?h ?r'] by auto
    then show ?thesis using False i q(2,4) p(1,2,4) unfolding recoverable_def by auto
  next
    case True
    let ?r5 = "upd_desc ?h (isd_inflight_update (\<lambda>_. 0)) ?r"
    have i: "inflight_inv ?r' (remove1 ?h out) ?c"
      using inflight_inv_clear [OF q(3), of ?h] p True
      by (subst inflight_inv_cong [of _ ?r5]) (auto simp: upd_desc_def)
    have "?h < isr_desc_num ?r'" "0 < isd_counter (isr_desc ?r' (unat ?h))"
      using q(3) head p(3,5) by (auto simp: inflight_inv_def)
    then have "max_counter ?r' \<noteq> 0" using max_counter_ge [of ?h ?r'] by auto
    moreover have "remove1 ?h (remove1 ?h out) = remove1 ?h out"
      using q(3) by (auto simp: inflight_inv_def intro: remove1_idem)
    ultimately show ?thesis using True i q(2,4) p(1,2,4) k unfolding recoverable_def
      by (intro exI [of _ "remove1 ?h out"] exI [of _ ?c]) auto
  qed
qed

section \<open>Runs with crashes\<close>

text \<open>
  A queue takes requests and completes them; at any store the process may die, and another one
  starts on the same rings and region with a fresh queue object. \<open>out\<close> lists the requests
  the guest still waits for: those taken whose used element is not yet published.
\<close>

definition successor :: "virtio_virtq \<Rightarrow> virtio_virtq \<Rightarrow> bool" where
  "successor vq vq0 \<longleftrightarrow> vq_buffers vq0 = [] \<and> vq_inflight_region vq0 = vq_inflight_region vq \<and>
     vq_used vq0 = vq_used vq \<and> vq_qsz vq0 = vq_qsz vq"

inductive qstep :: "virtio_virtq \<times> machine \<times> u16 list \<Rightarrow> virtio_virtq \<times> machine \<times> u16 list \<Rightarrow> bool" where
  q_take: "virtq_inflight_avail_update vq head m = (vq', m') \<Longrightarrow> head \<notin> set out \<Longrightarrow>
    head < isr_desc_num (m_inflight m (vq_inflight_region vq)) \<Longrightarrow> vq_req_cnt vq < vq_req_cnt vq + 1 \<Longrightarrow>
    qstep (vq, m, out) (vq', m', out @ [head])"
| q_complete: "virtq_push vq iov len m = Some m' \<Longrightarrow> iov_used_head iov \<in> set out \<Longrightarrow>
    qstep (vq, m, out) (vq, m', remove1 (iov_used_head iov) out)"
| q_crash_take: "head \<notin> set out \<Longrightarrow> head < isr_desc_num (m_inflight m (vq_inflight_region vq)) \<Longrightarrow>
    vq_req_cnt vq < vq_req_cnt vq + 1 \<Longrightarrow> m' = run_stores (take k (take_stores vq head)) m \<Longrightarrow>
    successor vq vq0 \<Longrightarrow> virtio_virtq_init vq0 m' = Some (vq', m'') \<Longrightarrow>
    qstep (vq, m, out) (vq', m'', if k < 2 then out else out @ [head])"
| q_crash_complete: "iov_used_head iov \<in> set out \<Longrightarrow> k \<le> 6 \<Longrightarrow>
    m' = run_stores (take k (push_stores vq iov len)) m \<Longrightarrow>
    successor vq vq0 \<Longrightarrow> virtio_virtq_init vq0 m' = Some (vq', m'') \<Longrightarrow>
    qstep (vq, m, out) (vq', m'', if k < 4 then out else remove1 (iov_used_head iov) out)"

inductive_cases qstepE: "qstep s t"

definition qstart :: "virtio_virtq \<times> machine \<times> u16 list \<Rightarrow> bool" where
  "qstart st \<longleftrightarrow> (case st of (vq, m, out) \<Rightarrow> out = [] \<and> (\<exists>vq0 m0.
     virtio_virtq_init vq0 m0 = Some (vq, m) \<and> vq_inflight_region vq0 \<noteq> 0 \<and> vq_qsz vq0 \<noteq> 0 \<and>
     (\<forall>x < isr_desc_num (m_inflight m0 (vq_inflight_region vq0)).
        isr_desc (m_inflight m0 (vq_inflight_region vq0)) (unat x) = \<lparr>isd_inflight = 0, isd_next = 0, isd_counter = 0\<rparr>)))"

lemma push_log_shared: "push_log vq iov i m = Some m' \<Longrightarrow> m_used m' = m_used m \<and> m_inflight m' = m_inflight m"
  by (auto simp: push_log_def bind_eq_Some_conv split: option.splits)

lemma push_shared:
  assumes "vq_qsz vq \<noteq> 0" and "virtq_push vq iov len m = Some m'"
  shows "m_used m' = m_used (run_stores (push_stores vq iov len) m)"
    and "m_inflight m' = m_inflight (run_stores (push_stores vq iov len) m)"
  using assms push_log_shared by (auto simp: virtq_push_stores vhd_frame)

lemma push_done:
  assumes inv: "qinv (vq, m, out)" and "virtq_push vq iov len m = Some m'"
  shows "qinv (vq, m', remove1 (iov_used_head iov) out)"
proof -
  let ?r = "m_inflight m (vq_inflight_region vq)" and ?m6 = "run_stores (take 6 (push_stores vq iov len)) m"
  let ?r' = "m_inflight m' (vq_inflight_region vq)" and ?h = "iov_used_head iov"
  from inv have q: "vq_inflight_region vq \<noteq> 0" "vq_qsz vq \<noteq> 0" "inflight_inv ?r out (vq_req_cnt vq)"
    by (auto simp: qinv_def Let_def)
  have "?m6 = run_stores (push_stores vq iov len) m" by (simp add: push_stores_def Let_def)
  then have r': "?r' = m_inflight ?m6 (vq_inflight_region vq)" "m_used m' = m_used ?m6"
    using push_shared [OF q(2) assms(2)] by simp_all
  note p = push_prefix [OF q(1) order.refl refl, of iov len m, folded r']
  have "inflight_inv ?r' (remove1 ?h out) (vq_req_cnt vq)"
    using inflight_inv_clear [OF q(3), of ?h] p
    by (subst inflight_inv_cong [of _ "upd_desc ?h (isd_inflight_update (\<lambda>_. 0)) ?r"]) (auto simp: upd_desc_def)
  then show ?thesis using inv p(1,2) by (simp add: qinv_def Let_def)
qed

lemma take_done:
  assumes inv: "qinv (vq, m, out)" and "virtq_inflight_avail_update vq head m = (vq', m')"
    and "head \<notin> set out" and "head < isr_desc_num (m_inflight m (vq_inflight_region vq))"
    and "vq_req_cnt vq < vq_req_cnt vq + 1"
  shows "qinv (vq', m', out @ [head])"
proof -
  from inv have q: "vq_inflight_region vq \<noteq> 0" "0 < vq_req_cnt vq"
    "inflight_inv (m_inflight m (vq_inflight_region vq)) out (vq_req_cnt vq)" by (auto simp: qinv_def Let_def)
  have "0 < vq_req_cnt vq + 1" using q(2) assms(5) by (rule order_less_trans)
  with q inv inflight_inv_take [OF q(3) assms(3,5) q(2) assms(4)] assms(2) show ?thesis
    by (auto simp: qinv_def Let_def virtq_inflight_avail_update_def with_inflight_def upd_desc_def)
qed

lemma restart_done:
  assumes "qinv (vq, m, out)" and "successor vq vq0" and "virtio_virtq_init vq0 m' = Some (vq', m'')"
    and "recoverable (m_inflight m' (vq_inflight_region vq)) (us_idx (m_used m' (vq_used vq))) out'"
  shows "qinv (vq', m'', out')"
proof -
  have s: "vq_inflight_region vq0 \<noteq> 0" "vq_qsz vq0 \<noteq> 0" "vq_buffers vq0 = []"
    "recoverable (m_inflight m' (vq_inflight_region vq0)) (us_idx (m_used m' (vq_used vq0))) out'"
    using assms by (auto simp: qinv_def Let_def successor_def)
  from init_recovers [OF s(1,3,4)] obtain vq1 m1 where "virtio_virtq_init vq0 m' = Some (vq1, m1)"
    "0 < vq_req_cnt vq1" "vq_inflight_region vq1 = vq_inflight_region vq0" "vq_used vq1 = vq_used vq0"
    "vq_qsz vq1 = vq_qsz vq0" "inflight_inv (m_inflight m1 (vq_inflight_region vq0)) out' (vq_req_cnt vq1)"
    "m_used m1 = m_used m'" "isr_used_idx (m_inflight m1 (vq_inflight_region vq0)) = us_idx (m_used m' (vq_used vq0))"
    by metis
  with s(1,2) assms(3) show ?thesis by (simp add: qinv_def Let_def)
qed

lemma start_inv:
  assumes "qstart st"
  shows "qinv st"
proof -
  from assms obtain vq m vq0 m0 where st: "st = (vq, m, [])" "virtio_virtq_init vq0 m0 = Some (vq, m)"
    "vq_inflight_region vq0 \<noteq> 0" "vq_qsz vq0 \<noteq> 0"
    "\<forall>x < isr_desc_num (m_inflight m0 (vq_inflight_region vq0)).
       isr_desc (m_inflight m0 (vq_inflight_region vq0)) (unat x) = \<lparr>isd_inflight = 0, isd_next = 0, isd_counter = 0\<rparr>"
    by (auto simp: qstart_def)
  let ?r = "m_inflight m0 (vq_inflight_region vq0)"
  have i: "inflight_inv ?r [] 1" using st(5) by (auto simp: inflight_inv_def)
  have "max_counter ?r = 0" using max_counter_less [OF i] by (simp add: word_less_nat_alt unat_eq_0)
  with i have rec: "recoverable ?r (us_idx (m_used m0 (vq_used vq0))) []"
    unfolding recoverable_def by (intro exI [of _ "[]"] exI [of _ 1]) simp
  have fresh: "vq_buffers vq0 = []" using st(2) by (simp add: virtio_virtq_init_def split: if_splits)
  from init_recovers [OF st(3) fresh rec] obtain vq1 m1 where "virtio_virtq_init vq0 m0 = Some (vq1, m1)"
    "0 < vq_req_cnt vq1" "vq_inflight_region vq1 = vq_inflight_region vq0" "vq_used vq1 = vq_used vq0"
    "vq_qsz vq1 = vq_qsz vq0" "inflight_inv (m_inflight m1 (vq_inflight_region vq0)) [] (vq_req_cnt vq1)"
    "m_used m1 = m_used m0" "isr_used_idx (m_inflight m1 (vq_inflight_region vq0)) = us_idx (m_used m0 (vq_used vq0))"
    by metis
  with st show ?thesis by (simp add: qinv_def Let_def)
qed

interpretation inflight: inductive_invariant qstart qstep qinv
proof (unfold_locales, rule start_inv)
  fix s t
  assume inv: "qinv s" and "qstep s t"
  from this(2) inv show "qinv t"
  proof (cases rule: qstep.cases)
    case q_take
    with inv show ?thesis using take_done by simp
  next
    case q_complete
    with inv show ?thesis using push_done by simp
  next
    case (q_crash_take head out m vq m' k vq0 vq' m'')
    with inv show ?thesis using restart_done crash_take(2) by simp
  next
    case (q_crash_complete iov out k m' vq len m vq0 vq' m'')
    with inv show ?thesis using restart_done crash_push by simp
  qed
qed

section \<open>Properties\<close>

text \<open>
  C5: a request is never lost and never done twice, wherever the process dies. From any state
  that a run with crashes reaches, let the process die after any \<open>k\<close> of the six stores of
  completing an outstanding request. Starting the next one succeeds, and the requests it finds
  in flight are exactly the outstanding ones in the order they were taken, without the request
  being completed if and only if its used element had been published to the guest.
\<close>

theorem inflight_crash_recovery:
  assumes r: "reach qstart qstep (vq, m, out)" and head: "iov_used_head iov \<in> set out" and k: "k \<le> 6"
    and s: "successor vq vq0" and m': "m' = run_stores (take k (push_stores vq iov len)) m"
  shows "\<exists>vq' m''. virtio_virtq_init vq0 m' = Some (vq', m'') \<and>
    us_idx (m_used m'' (vq_used vq)) = us_idx (m_used m (vq_used vq)) + (if k < 4 then 0 else 1) \<and>
    inflight_heads (m_inflight m'' (vq_inflight_region vq)) =
      (if k < 4 then out else remove1 (iov_used_head iov) out)"
proof -
  have inv: "qinv (vq, m, out)" using r by (rule inflight.reach_inv)
  then have reg: "vq_inflight_region vq \<noteq> 0" by (simp add: qinv_def Let_def)
  have s': "vq_inflight_region vq0 \<noteq> 0" "vq_buffers vq0 = []"
    "recoverable (m_inflight m' (vq_inflight_region vq0)) (us_idx (m_used m' (vq_used vq0)))
      (if k < 4 then out else remove1 (iov_used_head iov) out)"
    using crash_push [OF inv head k m'] s reg by (simp_all add: successor_def)
  from init_recovers [OF s'] obtain vq' m'' where i: "virtio_virtq_init vq0 m' = Some (vq', m'')"
    "inflight_inv (m_inflight m'' (vq_inflight_region vq0))
      (if k < 4 then out else remove1 (iov_used_head iov) out) (vq_req_cnt vq')" "m_used m'' = m_used m'"
    by metis
  with inflight_heads_eq [OF i(2)] push_prefix(1) [OF reg k m'] s show ?thesis
    by (simp add: successor_def)
qed

text \<open>A run that takes one request on a fresh region of four descriptors.\<close>

definition demo_inflight_vq :: virtio_virtq where
  "demo_inflight_vq = zero_virtq\<lparr>vq_qsz := 4, vq_inflight_region := 0x5000\<rparr>"

lemma demo_inflight_run: "\<exists>vq m. reach qstart qstep (vq, m, [2]) \<and> successor vq demo_inflight_vq"
proof -
  let ?m0 = "demo_machine demo_guest" and ?r = "0x5000 :: u64"
  have r0: "isr_desc_num (m_inflight ?m0 ?r) = 4" by (simp add: demo_machine_def)
  have "max_counter (m_inflight ?m0 ?r) = 0"
    by (simp add: demo_machine_def max_counter_Max image_constant_conv)
  then obtain vq m where i: "virtio_virtq_init demo_inflight_vq ?m0 = Some (vq, m)"
    and f: "vq_inflight_region vq = ?r" "vq_req_cnt vq = 1" "vq_used vq = 0" "vq_qsz vq = 4"
    "isr_desc_num (m_inflight m ?r) = 4"
    by (simp add: virtio_virtq_init_def virtq_inflight_reconnect_update_def Let_def demo_inflight_vq_def
        zero_virtq_def with_inflight_def demo_machine_def)
  have "qstart (vq, m, [])"
    unfolding qstart_def prod.case using i
    by (intro conjI refl exI [of _ demo_inflight_vq] exI [of _ ?m0])
      (simp_all add: demo_inflight_vq_def demo_machine_def zero_virtq_def)
  then have start: "reach qstart qstep (vq, m, [])" by (rule reach_start)
  obtain vq1 m1 where u: "virtq_inflight_avail_update vq 2 m = (vq1, m1)" by fastforce
  have "qstep (vq, m, []) (vq1, m1, [] @ [2])" by (rule q_take [OF u]) (simp_all add: f)
  then have "reach qstart qstep (vq1, m1, [2])" using reach_step [OF start] by simp
  moreover have "successor vq1 demo_inflight_vq"
    using inflight_avail_update_frame [OF u] f
    by (cases vq1) (auto simp: successor_def demo_inflight_vq_def zero_virtq_def)
  ultimately show ?thesis by blast
qed

theorem inflight_crash_recovery_witness:
  "\<exists>vq m vq' m''. virtio_virtq_init demo_inflight_vq
       (run_stores (take 4 (push_stores vq \<lparr>iov_used_head = 2, iov_mm = 0, iov_buffers = []\<rparr> 0)) m) = Some (vq', m'') \<and>
     inflight_heads (m_inflight m'' (vq_inflight_region vq)) = []"
proof -
  obtain vq m where r: "reach qstart qstep (vq, m, [2])" "successor vq demo_inflight_vq"
    using demo_inflight_run by blast
  from inflight_crash_recovery [OF r(1) _ _ r(2) refl, of "\<lparr>iov_used_head = 2, iov_mm = 0, iov_buffers = []\<rparr>" 4 0]
  show ?thesis by auto
qed

end
