(* ===== verification/Spec2Isabelle.thy ===== *)
theory Spec2Isabelle
  imports Registration Vdev_Strand Vdev_Log Completion Work Virtq_Inflight
begin

text \<open>
  A verification library for \<open>libvhost\<close>, the vhost-user backend in \<open>src/\<close>. The program lets a
  process serve virtio block and file system devices to virtual machines: a client (the virtual
  machine monitor) connects to a socket, describes the guest's memory and the virtqueues in it by
  messages, and the guest then puts requests in the queues, which the library turns into requests
  of the backend that uses it. The guest is not trusted and may change shared memory at any time.

  \<^bold>\<open>Parts of the program and the theories that model them.\<close>

  \<^item> \<open>Prelude\<close>: widths of the C integers, error numbers, results (\<open>errno + 'a\<close>), generic lemmas, and
    reachability in transition systems with its locale of inductive invariants.
  \<^item> \<open>Platform\<close> (\<open>platform.h\<close>, \<open>objref.h\<close>): page sizes, alignment, first set bit, allocation of arrays,
    reference counters, bytes of packed structures.
  \<^item> \<open>Memmap\<close> (\<open>memmap.c\<close>): the guest's memory. The host's address space is a function from pages
    to what is mapped there; \<open>mmap\<close> and \<open>munmap\<close> are fields of the record \<open>kernel\<close> and their
    documented behaviour is the predicate on it. Slots, translations, regions, reference counts.
  \<^item> \<open>Memlog\<close> (\<open>memlog.c\<close>): the bitmap of dirty pages.
  \<^item> \<open>Event\<close> (\<open>event.c\<close>): event loops, bottom halves, file descriptor handlers, notification;
    \<open>Work\<close>: work that one thread hands to a loop and waits for.
  \<^item> \<open>Virtqueue\<close> (\<open>virtio/virt_queue.c\<close>): descriptor chains, dequeueing, completion, notification of
    the guest, the inflight region. Its proofs are in \<open>Virtq_Walk\<close>, \<open>Virtq_Dequeue\<close>, \<open>Virtq_Push\<close> and
    \<open>Virtq_Inflight\<close>.
  \<^item> \<open>Server\<close> (\<open>server.c\<close>, \<open>bio.h\<close>): requests, request queues, the control server; \<open>Completion\<close>: the
    lock-free list of completed requests (\<open>queue.h\<close>, \<open>catomic.h\<close>) as the steps of its threads.
  \<^item> \<open>VirtioBlk\<close> (\<open>virtio/virtio_blk.c\<close>), \<open>Blockdev\<close> (\<open>blockdev.c\<close>), \<open>VirtioFs\<close> (\<open>virtio/virtio_fs.c\<close>
    and \<open>fs.c\<close>): the two kinds of devices.
  \<^item> \<open>Vhost_Proto\<close> (\<open>vhost_spec.h\<close> and the socket functions of \<open>vdev.c\<close>): messages.
  \<^item> \<open>Vdev\<close>, \<open>Vdev_Msg\<close> (\<open>vdev.c\<close>, \<open>vdev.h\<close>): the device and its vrings, the bottom halves by which
    the control thread and the request queue's thread talk to each other, the message handlers,
    connections. The proofs about them are in \<open>Vdev_Inv\<close> (steps and invariant), \<open>Vdev_Ctl\<close>,
    \<open>Vdev_Conn\<close>, \<open>Vdev_Rq\<close>, \<open>Vdev_Io\<close>, \<open>Vdev_Handlers\<close> (every operation keeps the invariant),
    \<open>Vdev_Safe\<close> (executions) and \<open>Vdev_Faults\<close> (executions that abort). A second invariant, about the
    memory maps and logs and who holds them, is in \<open>Vdev_Mem\<close>; \<open>Vdev_Mem_Ctl\<close> (bottom halves),
    \<open>Vdev_Mem_Msg\<close> (messages) and \<open>Vdev_Mem_Io\<close> (requests) show that every operation keeps it,
    \<open>Vdev_Clean\<close> what a closed connection has left, \<open>Vdev_Live\<close> that kicks and completions return, and
    \<open>Vdev_Sound\<close> has the theorems on executions that follow. \<open>Vdev_Strand\<close> is about devices that are never
    released.
  \<^item> \<open>Vdev_Log\<close> (\<open>vdev.c\<close>): the names of messages and the times that are logged.
  \<^item> \<open>Registration\<close> (\<open>blockdev.c\<close>, \<open>fs.c\<close>, \<open>vdev.c\<close>): registering and unregistering devices.

  \<^bold>\<open>How the model corresponds to the code.\<close> Structures are records, unions of which one view is
  used at a time are records of the views, enumerations are datatypes or constants at their width.
  Integers are words of the C width, and arithmetic wraps where the C arithmetic does. A function
  that returns a negative error number returns \<open>errno + 'a\<close>. \<open>None\<close> as the result of an operation
  means that the code does not continue: an assertion fails, a NULL or freed pointer is followed,
  or the address sanitizer would object. Memory allocation does not fail (\<open>vhd_alloc\<close> aborts the
  process). Pointers to devices and vrings are indices, pointers into guest memory are host
  addresses.

  Memory that is shared with the guest is the record \<open>guest\<close>: what a read at some address yields at
  some time. Each read advances the time, so two reads of the same location may differ; theorems
  hold for every guest unless they name a \<open>quiet\<close> one, which leaves some locations alone. What the
  device writes (used rings, status bytes, the inflight region) is kept apart in the record
  \<open>machine\<close>: distinct structures do not overlap.

  A device lives in the record \<open>vworld\<close> of \<open>Vdev\<close> with the machine, its request queue and the
  bottom halves that are due in both threads. Results of system calls are in the record \<open>sys\<close>. A
  bottom half, a message handler, the dispatch of a vring or the completion of a list is one step,
  and steps of the two threads interleave in any order; this is the granularity at which they share
  data, apart from the three protocols that synchronise threads, which are modelled store by
  store: the notification of a loop (\<open>Event\<close>), the list of completed requests (\<open>Completion\<close>) and
  submitted work (\<open>Work\<close>). The crash of a process between two stores to the inflight region is
  modelled store by store too (\<open>Virtq_Inflight\<close>).

  The executions of a device start when its server is set up and are those in which a socket
  takes the replies that are sent after a message was read, a vring that is torn down has no
  requests waiting, and fewer than \<open>2 ^ 16\<close> requests are in flight, which is what the counter of
  a vring can hold; \<open>Vdev_Faults\<close> shows what happens without the first two. The theorems on maps
  take a store that has no maps when the device is set up: the maps of other devices are apart.

  \<^bold>\<open>Loops.\<close> Loops over lists are structural. The walk of a chain is bounded by the size of the
  queue's buffer array and of an indirect table by its length, as in the code, which is its
  termination proof. Two loops may run for ever and are partial functions, whose value is
  \<open>None\<close> if they do: the one that publishes the available index while the guest adds requests, for
  which it is proved that it returns once the guest stops, and the one over the chunks of the dirty
  log, for which it is proved that it returns on every range that does not wrap. No definition
  has fuel.

  \<^bold>\<open>What is shown.\<close>

  \<^item> Memory: slots stay sorted, disjoint and mapped, translations stay inside of one slot and are
    inverse to each other, mapping and unmapping restores the address space, the dirty log gets
    exactly the pages of a range.
  \<^item> Queues: no guest makes the device leave its buffer array or read and map memory that is not the
    guest's; on a quiet guest the walk finds exactly the chains of a relation; requests are handed
    over in ring order, each once; completion stores the element, moves the index, logs what was
    written and notifies exactly when it has to; after a crash at any store the requests in flight
    are recovered.
  \<^item> Threads: no wake-up and no completion is lost; the lock-free list is a queue; submitted work
    returns its result and is not touched after that.
  \<^item> Devices: requests are answered or handed to the backend, exactly once; what the backend gets
    is inside of the device; framing of file system requests; configuration spaces.
  \<^item> Control protocol: an invariant of the device, its vrings, their requests and the bottom halves
    under way holds in every execution for every order of bottom halves. It gives exact counters,
    that messages are handled one at a time, and that nothing is left to run after a connection
    is cleaned up.
  \<^item> Objects with more than one user: the count of a memory map is the number of its holders in
    every execution, which are the device, the message that replaces the map and the requests in
    flight; a vring and a request only use maps and logs that are live, also while a client
    replaces them; and a closed connection leaves no map, log or inflight region. With the first
    invariant it follows that every step of an execution returns, kicks and completions included.
  \<^item> Faults: where the code can abort, or checks less than it means to, the theorem says in which
    states (the theories \<open>Vdev_Faults\<close> and \<open>Vdev_Strand\<close> and the last properties of the others).

  \<^bold>\<open>Interfaces.\<close> The locale \<open>virtq_handler\<close> is what a queue asks of the function that handles its
  requests; \<open>request_handler\<close> and \<open>vdev_type\<close> are what a device asks of its type, \<open>counting_handler\<close>
  and \<open>accounted_type\<close> what it asks of the references to maps that requests hold, and \<open>bh_client\<close>
  what a loop asks of the functions that it calls. Each is interpreted for the block and the file
  system device, or for the loop's own bottom half.

  \<^bold>\<open>Not modelled.\<close> Logging (\<open>logging.c\<close>), which no state depends on; the tests; the C compiler's view of
  memory (padding, aliasing of distinct structures, data races on plain fields); the backend,
  which takes requests and completes them in any order with any result; epoll and sockets
  beyond their results.
\<close>

end
